(* ===== verification/Prelude.thy ===== *)
theory Prelude
  imports Complex_Main "HOL-Library.Word" "HOL-Library.Log_Nat" "HOL-Library.Sublist"
begin

unbundle bit_operations_syntax

text \<open>
  What the components share: the machine-integer types of the sources, bytes and
  C strings, decimal text, the searches of \<open>std::string_view\<close> and the generic lemmas
  about them. A byte string is a \<^typ>\<open>string\<close> (an Isabelle character is one byte), so lengths
  count bytes as \<open>std::string::size\<close> does.
\<close>

section \<open>Collections\<close>

named_theorems dec_simps \<open>facts about decimal text\<close>
named_theorems byte_simps \<open>facts about bytes as numbers\<close>

section \<open>Types\<close>

type_synonym u8 = "8 word"
type_synonym u16 = "16 word"
type_synonym u32 = "32 word"
type_synonym u64 = "64 word"

text \<open>
  Signed integers (\<open>int\<close>, \<open>int32_t\<close>, \<open>int64_t\<close>) that are only stored, widened and printed
  are words read with \<^const>\<open>sint\<close>; coordinates and sizes the sources compute with are \<^typ>\<open>int\<close>.
\<close>

type_synonym i8 = "8 word"
type_synonym i32 = "32 word"
type_synonym i64 = "64 word"

abbreviation NUL :: char where "NUL \<equiv> CHR 0x00"
abbreviation TAB :: char where "TAB \<equiv> CHR 0x09"
abbreviation LF :: char where "LF \<equiv> CHR 0x0A"
abbreviation CR :: char where "CR \<equiv> CHR 0x0D"
abbreviation ESC :: char where "ESC \<equiv> CHR 0x1B"
abbreviation SPACE :: char where "SPACE \<equiv> CHR 0x20"
abbreviation DQUOTE :: char where "DQUOTE \<equiv> CHR 0x22"
abbreviation BSLASH :: char where "BSLASH \<equiv> CHR 0x5C"

definition byte :: "char \<Rightarrow> nat" where
  "byte c = of_char c"

text \<open>A \<open>const char*\<close> reads up to the first NUL.\<close>

definition c_str :: "string \<Rightarrow> string" where
  "c_str s = takeWhile (\<lambda>c. c \<noteq> NUL) s"

text \<open>\<open>std::isspace\<close> and \<open>std::isdigit\<close> in the C locale.\<close>

definition is_space :: "char \<Rightarrow> bool" where
  "is_space c \<longleftrightarrow> c = SPACE \<or> 9 \<le> byte c \<and> byte c \<le> 13"

definition is_digit :: "char \<Rightarrow> bool" where
  "is_digit c \<longleftrightarrow> 48 \<le> byte c \<and> byte c \<le> 57"

section \<open>Searching\<close>

text \<open>\<open>std::string_view::find\<close> of a byte, \<open>None\<close> standing for \<open>npos\<close>.\<close>

fun find_index :: "('a \<Rightarrow> bool) \<Rightarrow> 'a list \<Rightarrow> nat option" where
  "find_index P [] = None"
| "find_index P (x # xs) = (if P x then Some 0 else map_option Suc (find_index P xs))"

abbreviation find_char :: "char \<Rightarrow> string \<Rightarrow> nat option" where
  "find_char c \<equiv> find_index (\<lambda>x. x = c)"

text \<open>\<open>rfind\<close> of a byte: the last index at which it occurs.\<close>

definition rfind_char :: "char \<Rightarrow> string \<Rightarrow> nat option" where
  "rfind_char c s = map_option (\<lambda>i. length s - Suc i) (find_char c (rev s))"

text \<open>\<open>find\<close> of a byte string: the first position at which it occurs.\<close>

fun find_str :: "'a list \<Rightarrow> 'a list \<Rightarrow> nat option" where
  "find_str pat [] = (if pat = [] then Some 0 else None)"
| "find_str pat (x # xs) =
     (if prefix pat (x # xs) then Some 0 else map_option Suc (find_str pat xs))"

definition contains :: "'a list \<Rightarrow> 'a list \<Rightarrow> bool" where
  "contains s pat \<longleftrightarrow> find_str pat s \<noteq> None"

definition starts_with :: "'a list \<Rightarrow> 'a list \<Rightarrow> bool" where
  "starts_with s pat \<longleftrightarrow> prefix pat s"

text \<open>Removing a run from either end, the \<open>remove_prefix\<close>/\<open>remove_suffix\<close> loops.\<close>

definition strip_front :: "('a \<Rightarrow> bool) \<Rightarrow> 'a list \<Rightarrow> 'a list" where
  "strip_front P s = dropWhile P s"

definition strip_back :: "('a \<Rightarrow> bool) \<Rightarrow> 'a list \<Rightarrow> 'a list" where
  "strip_back P s = rev (dropWhile P (rev s))"

section \<open>Decimal text\<close>

definition digit_char :: "nat \<Rightarrow> char" where
  "digit_char d = char_of (48 + d)"

fun dec :: "nat \<Rightarrow> string" where
  "dec n = (if n < 10 then [digit_char n] else dec (n div 10) @ [digit_char (n mod 10)])"

declare dec.simps [simp del]

definition dec_int :: "int \<Rightarrow> string" where
  "dec_int i = (if i < 0 then CHR ''-'' # dec (nat (- i)) else dec (nat i))"

abbreviation dec_word :: "'a::len word \<Rightarrow> string" where
  "dec_word w \<equiv> dec (unat w)"

abbreviation dec_sint :: "'a::len word \<Rightarrow> string" where
  "dec_sint w \<equiv> dec_int (sint w)"

text \<open>The value a run of decimal digits denotes.\<close>

definition digit_val :: "char \<Rightarrow> nat" where
  "digit_val c = byte c - 48"

definition undec :: "string \<Rightarrow> nat" where
  "undec s = foldl (\<lambda>n c. n * 10 + digit_val c) 0 s"

text \<open>\<open>std::stoi\<close>: \<open>None\<close> where it throws, for no digits or a value outside \<open>int\<close>.\<close>

definition stoi :: "string \<Rightarrow> int option" where
  "stoi s =
     (let t = dropWhile is_space s;
          neg = (t \<noteq> [] \<and> hd t = CHR ''-'');
          u = (if t \<noteq> [] \<and> (hd t = CHR ''-'' \<or> hd t = CHR ''+'') then tl t else t);
          ds = takeWhile is_digit u;
          v = (if neg then - int (undec ds) else int (undec ds))
      in if ds = [] \<or> v < - (2 ^ 31) \<or> 2 ^ 31 \<le> v then None else Some v)"

section \<open>Lemmas on bytes and digits\<close>

lemma byte_less [byte_simps, simp]: "byte c < 256"
  by (simp add: byte_def)

lemma byte_char_of [byte_simps, simp]: "n < 256 \<Longrightarrow> byte (char_of n) = n"
  by (simp add: byte_def)

lemma byte_inject [byte_simps]: "byte c = byte d \<longleftrightarrow> c = d"
  by (simp add: byte_def)

lemma byte_digit_char [simp]: "d < 10 \<Longrightarrow> byte (digit_char d) = 48 + d"
  by (simp add: digit_char_def)

lemma is_digit_digit_char [simp]: "d < 10 \<Longrightarrow> is_digit (digit_char d)"
  by (simp add: is_digit_def)

lemma digit_char_lits:
  "digit_char 0 = CHR ''0''" "digit_char (Suc 0) = CHR ''1''" "digit_char 1 = CHR ''1''"
  "digit_char (Suc (Suc 0)) = CHR ''2''" "digit_char 2 = CHR ''2''" "digit_char 3 = CHR ''3''"
  "digit_char 4 = CHR ''4''" "digit_char 5 = CHR ''5''" "digit_char 6 = CHR ''6''"
  "digit_char 7 = CHR ''7''" "digit_char 8 = CHR ''8''" "digit_char 9 = CHR ''9''"
  by (simp_all flip: byte_inject) (simp_all add: byte_def)

lemma digit_val_digit_char [simp]: "d < 10 \<Longrightarrow> digit_val (digit_char d) = d"
  by (simp add: digit_val_def)

lemma digit_char_inject: "a < 10 \<Longrightarrow> b < 10 \<Longrightarrow> digit_char a = digit_char b \<longleftrightarrow> a = b"
  by (metis digit_val_digit_char)

lemma is_digit_not_space: "is_digit c \<Longrightarrow> \<not> is_space c"
  by (auto simp: is_digit_def is_space_def byte_def)

lemma dec_nonempty [dec_simps, simp]: "dec n \<noteq> []"
  by (subst dec.simps) simp

lemma dec_digits [dec_simps]: "c \<in> set (dec n) \<Longrightarrow> is_digit c"
proof (induction n rule: dec.induct)
  case (1 n)
  then show ?case by (cases "n < 10") (auto simp: dec.simps [of n])
qed

lemma dec_all_digits [simp]: "list_all is_digit (dec n)"
  by (auto simp: list_all_iff dec_digits)

lemma undec_append: "undec (s @ [c]) = undec s * 10 + digit_val c"
  by (simp add: undec_def)

lemma undec_dec [dec_simps, simp]: "undec (dec n) = n"
proof (induction n rule: dec.induct)
  case (1 n)
  show ?case
  proof (cases "n < 10")
    case True
    then show ?thesis by (simp add: dec.simps [of n] undec_def)
  next
    case False
    with "1.IH" have "undec (dec (n div 10)) = n div 10" by simp
    with False show ?thesis
      by (simp add: dec.simps [of n] undec_append)
  qed
qed

lemma dec_inject [dec_simps, simp]: "dec m = dec n \<longleftrightarrow> m = n"
  by (metis undec_dec)

text \<open>No leading zero, except in the text of zero itself.\<close>

lemma dec_hd [dec_simps]: "0 < n \<Longrightarrow> hd (dec n) \<noteq> CHR ''0''"
proof (induction n rule: dec.induct)
  case (1 n)
  have zero: "CHR ''0'' = digit_char 0" by (simp add: digit_char_lits)
  show ?case
  proof (cases "n < 10")
    case True
    with "1.prems" show ?thesis
      by (simp add: dec.simps [of n] zero digit_char_inject)
  next
    case False
    with "1.IH" have "hd (dec (n div 10)) \<noteq> CHR ''0''" by simp
    with False show ?thesis by (simp add: dec.simps [of n])
  qed
qed

lemma dec_zero [simp]: "dec 0 = ''0''"
  by (subst dec.simps) (simp add: digit_char_lits)

section \<open>Lemmas on searching\<close>

lemma find_index_None: "find_index P xs = None \<longleftrightarrow> (\<forall>x \<in> set xs. \<not> P x)"
  by (induction xs) auto

lemma find_index_Some:
  "find_index P xs = Some i \<Longrightarrow> i < length xs \<and> P (xs ! i) \<and> (\<forall>j < i. \<not> P (xs ! j))"
proof (induction xs arbitrary: i)
  case Nil
  then show ?case by simp
next
  case (Cons x xs)
  then show ?case by (auto split: if_splits simp: nth_Cons')
qed

lemma find_index_append:
  "find_index P (xs @ ys) =
     (case find_index P xs of Some i \<Rightarrow> Some i
      | None \<Rightarrow> map_option (\<lambda>j. length xs + j) (find_index P ys))"
proof (induction xs)
  case Nil
  show ?case by (cases "find_index P ys") auto
next
  case (Cons x xs)
  then show ?case
    by (auto split: option.splits simp: option.map_comp comp_def intro!: option.map_cong)
qed

lemma find_index_skip: "\<forall>x \<in> set xs. \<not> P x \<Longrightarrow>
    find_index P (xs @ ys) = map_option (\<lambda>j. length xs + j) (find_index P ys)"
  by (simp add: find_index_append find_index_None [THEN iffD2])

lemma find_char_skip: "c \<notin> set xs \<Longrightarrow>
    find_char c (xs @ ys) = map_option (\<lambda>j. length xs + j) (find_char c ys)"
  by (rule find_index_skip) auto

lemma find_index_take: "find_index P xs = Some i \<Longrightarrow> take i xs = takeWhile (\<lambda>x. \<not> P x) xs"
  by (induction xs arbitrary: i) (auto split: if_splits)

lemma find_str_Some: "find_str pat s = Some i \<Longrightarrow> prefix pat (drop i s)"
  by (induction s arbitrary: i) (auto split: if_splits)

lemma find_str_least: "find_str pat s = Some i \<Longrightarrow> j < i \<Longrightarrow> \<not> prefix pat (drop j s)"
proof (induction s arbitrary: i j)
  case Nil
  then show ?case by (auto split: if_splits)
next
  case (Cons x xs)
  then show ?case by (cases j) (auto split: if_splits)
qed

lemma find_str_None: "find_str pat s = None \<Longrightarrow> \<not> prefix pat (drop j s)"
proof (induction s arbitrary: j)
  case Nil
  then show ?case by (auto split: if_splits)
next
  case (Cons x xs)
  then show ?case by (cases j) (auto split: if_splits)
qed

lemma contains_iff: "contains s pat \<longleftrightarrow> (\<exists>us vs. s = us @ pat @ vs)"
proof
  assume "contains s pat"
  then obtain i where "prefix pat (drop i s)"
    by (auto simp: contains_def dest: find_str_Some)
  then obtain vs where "drop i s = pat @ vs" by (auto simp: prefix_def)
  then have "s = take i s @ pat @ vs" by (metis append_take_drop_id)
  then show "\<exists>us vs. s = us @ pat @ vs" by blast
next
  assume "\<exists>us vs. s = us @ pat @ vs"
  then obtain us vs where "s = us @ pat @ vs" by blast
  then have "prefix pat (drop (length us) s)" by simp
  then show "contains s pat"
    unfolding contains_def using find_str_None by blast
qed

lemma strip_front_id: "xs = [] \<or> \<not> P (hd xs) \<Longrightarrow> strip_front P xs = xs"
  by (cases xs) (auto simp: strip_front_def)

lemma strip_back_id: "xs = [] \<or> \<not> P (last xs) \<Longrightarrow> strip_back P xs = xs"
  by (cases xs rule: rev_cases) (auto simp: strip_back_def)

lemma strip_front_nil [simp]: "strip_front P [] = []"
  by (simp add: strip_front_def)

lemma strip_back_nil [simp]: "strip_back P [] = []"
  by (simp add: strip_back_def)

section \<open>Lemmas on folds and concatenation\<close>

lemma fold_invariant:
  assumes "I s" and "\<And>x s. x \<in> set xs \<Longrightarrow> I s \<Longrightarrow> I (f x s)"
  shows "I (fold f xs s)"
  using assms by (induction xs arbitrary: s) auto

lemma nth_concat_pairs: "i < n \<Longrightarrow>
    concat (map (\<lambda>i. [f i, g i]) [0..<n]) ! (i * 2) = f i \<and>
    concat (map (\<lambda>i. [f i, g i]) [0..<n]) ! Suc (i * 2) = g i"
proof (induction n)
  case (Suc n)
  have len: "length (concat (map (\<lambda>i. [f i, g i]) [0..<n])) = n * 2" for n by (induction n) auto
  from Suc show ?case by (cases "i = n") (auto simp: nth_append len)
qed simp

lemma takeWhile_eq_all: "(\<forall>x \<in> set xs. P x) \<Longrightarrow> takeWhile P xs = xs"
  by simp

lemma c_str_no_NUL [simp]: "NUL \<notin> set (c_str s)"
  by (auto simp: c_str_def dest: set_takeWhileD)

lemma c_str_id: "NUL \<notin> set s \<Longrightarrow> c_str s = s"
  unfolding c_str_def by (rule takeWhile_eq_all) auto

lemma c_str_idem [simp]: "c_str (c_str s) = c_str s"
  by (rule c_str_id) simp

lemma takeWhile_dec [simp]: "takeWhile is_digit (dec n) = dec n"
  using dec_digits by (simp add: takeWhile_eq_all)

end
