(* ===== verification/Sink.thy ===== *)
theory Sink
  imports Prelude
begin

text \<open>
  The buffered output sink of \<open>include/util/sink.h\<close>: a growable byte buffer with a small inline
  store, filled and then drained by one write loop. Allocation may fail (the source drops the
  write rather than aborting), so the model carries an oracle that says which allocations succeed;
  \<open>write\<close> may be partial, so draining takes the successive return values of \<open>write\<close>.
\<close>

section \<open>The buffer\<close>

definition MONTAUK_SINK_SBO :: nat where
  "MONTAUK_SINK_SBO = 512"

text \<open>
  \<open>sk_data\<close> holds the \<open>len\<close> bytes written; \<open>sk_heap\<close> says that \<open>data\<close> no longer points at
  \<open>sbo\<close>; \<open>sk_alloc k\<close> says whether the \<open>k\<close>-th call of \<open>malloc\<close> or \<open>realloc\<close> succeeds.
\<close>

record montauk_sink =
  sk_data :: string
  sk_cap :: nat
  sk_fd :: int
  sk_heap :: bool
  sk_alloc :: "nat \<Rightarrow> bool"
  sk_nalloc :: nat

abbreviation sk_len :: "montauk_sink \<Rightarrow> nat" where
  "sk_len s \<equiv> length (sk_data s)"

definition montauk_sink_init :: "(nat \<Rightarrow> bool) \<Rightarrow> int \<Rightarrow> montauk_sink" where
  "montauk_sink_init alloc fd =
     \<lparr>sk_data = [], sk_cap = MONTAUK_SINK_SBO, sk_fd = fd, sk_heap = False,
      sk_alloc = alloc, sk_nalloc = 0\<rparr>"

definition montauk_sink_reserve :: "montauk_sink \<Rightarrow> nat \<Rightarrow> montauk_sink" where
  "montauk_sink_reserve s need =
     (if sk_len s + need \<le> sk_cap s then s
      else let ncap = sk_cap s + sk_cap s div 2;
               ncap = (if ncap < sk_len s + need then sk_len s + need else ncap);
               ok = sk_alloc s (sk_nalloc s);
               s = s\<lparr>sk_nalloc := sk_nalloc s + 1\<rparr>
           in if ok then s\<lparr>sk_heap := True, sk_cap := ncap\<rparr> else s)"

definition montauk_sink_append :: "string \<Rightarrow> montauk_sink \<Rightarrow> montauk_sink" where
  "montauk_sink_append p s =
     (let s = montauk_sink_reserve s (length p)
      in if sk_len s + length p \<le> sk_cap s then s\<lparr>sk_data := sk_data s @ p\<rparr> else s)"

definition montauk_sink_appendc :: "char \<Rightarrow> montauk_sink \<Rightarrow> montauk_sink" where
  "montauk_sink_appendc c s = montauk_sink_append [c] s"

text \<open>
  \<open>montauk_sink_appendf\<close> measures the formatted text, makes room for it and its NUL, and formats
  it in; \<open>txt\<close> is what \<open>vsnprintf\<close> produces for the call's format and arguments.
\<close>

definition montauk_sink_appendf :: "string \<Rightarrow> montauk_sink \<Rightarrow> montauk_sink" where
  "montauk_sink_appendf txt s =
     (if 0 < length txt
      then let s = montauk_sink_reserve s (length txt + 1)
           in if sk_len s + length txt < sk_cap s then s\<lparr>sk_data := sk_data s @ txt\<rparr> else s
      else s)"

section \<open>Digit pairs\<close>

definition D :: string where
  "D = ''0001020304050607080910111213141516171819'' @
       ''2021222324252627282930313233343536373839'' @
       ''4041424344454647484950515253545556575859'' @
       ''6061626364656667686970717273747576777879'' @
       ''8081828384858687888990919293949596979899''"

text \<open>The bytes from \<open>p\<close> to the end of \<open>tmp\<close>, grown at the front by each step.\<close>

function u64_pairs :: "u64 \<Rightarrow> string \<Rightarrow> u64 \<times> string" where
  "u64_pairs v p =
     (if 100 \<le> v
      then let idx = unat (v mod 100) * 2
           in u64_pairs (v div 100) (D ! idx # D ! (idx + 1) # p)
      else (v, p))"
  by pat_completeness auto
termination
proof (relation "measure (\<lambda>(v, p). unat v)")
  fix v :: u64 and p :: string and idx
  assume "100 \<le> v"
  then have "100 \<le> unat v" by (simp add: word_le_nat_alt)
  then show "((v div 100, D ! idx # D ! (idx + 1) # p), v, p) \<in> measure (\<lambda>(v, p). unat v)"
    by (simp add: unat_div)
qed simp

declare u64_pairs.simps [simp del]

definition u64_text :: "u64 \<Rightarrow> string" where
  "u64_text v =
     (case u64_pairs v [] of (v, p) \<Rightarrow>
        if 10 \<le> v then let idx = unat v * 2 in D ! idx # D ! (idx + 1) # p
        else char_of (48 + unat v) # p)"

definition montauk_sink_append_u64 :: "u64 \<Rightarrow> montauk_sink \<Rightarrow> montauk_sink" where
  "montauk_sink_append_u64 v s = montauk_sink_append (u64_text v) s"

definition montauk_sink_append_i64 :: "i64 \<Rightarrow> montauk_sink \<Rightarrow> montauk_sink" where
  "montauk_sink_append_i64 v s =
     (if sint v < 0
      then montauk_sink_append_u64 (- (v + 1) + 1) (montauk_sink_appendc (CHR ''-'') s)
      else montauk_sink_append_u64 v s)"

section \<open>Draining\<close>

text \<open>
  \<open>wr k n\<close> is what the \<open>k\<close>-th call of \<open>write\<close> returns when asked for \<open>n\<close> bytes: negative or zero
  stops the loop, otherwise at most \<open>n\<close> bytes were taken.
\<close>

function drain_loop :: "(nat \<Rightarrow> nat \<Rightarrow> int) \<Rightarrow> nat \<Rightarrow> string \<Rightarrow> string" where
  "drain_loop wr k rest =
     (if rest = [] then []
      else let n = wr k (length rest)
           in if n \<le> 0 then []
              else take (nat n) rest @ drain_loop wr (k + 1) (drop (nat n) rest))"
  by pat_completeness auto
termination
  by (relation "measure (\<lambda>(wr, k, rest). length rest)") auto

declare drain_loop.simps [simp del]

text \<open>The bytes that reached the descriptor and the emptied sink, its store kept.\<close>

definition montauk_sink_drain :: "(nat \<Rightarrow> nat \<Rightarrow> int) \<Rightarrow> montauk_sink \<Rightarrow> string \<times> montauk_sink" where
  "montauk_sink_drain wr s = (drain_loop wr 0 (sk_data s), s\<lparr>sk_data := []\<rparr>)"

definition montauk_sink_free :: "montauk_sink \<Rightarrow> montauk_sink" where
  "montauk_sink_free s = s\<lparr>sk_data := [], sk_cap := MONTAUK_SINK_SBO, sk_heap := False\<rparr>"

section \<open>The buffer keeps within its capacity\<close>

definition sink_ok :: "montauk_sink \<Rightarrow> bool" where
  "sink_ok s \<longleftrightarrow> sk_len s \<le> sk_cap s \<and> MONTAUK_SINK_SBO \<le> sk_cap s \<and>
     (\<not> sk_heap s \<longrightarrow> sk_cap s = MONTAUK_SINK_SBO)"

lemma sink_ok_init: "sink_ok (montauk_sink_init alloc fd)"
  by (simp add: sink_ok_def montauk_sink_init_def)

lemma reserve_data [simp]:
  "sk_data (montauk_sink_reserve s n) = sk_data s"
  "sk_alloc (montauk_sink_reserve s n) = sk_alloc s"
  "sk_fd (montauk_sink_reserve s n) = sk_fd s"
  by (auto simp: montauk_sink_reserve_def Let_def)

lemma reserve_cap: "sk_cap s \<le> sk_cap (montauk_sink_reserve s n)"
  by (auto simp: montauk_sink_reserve_def Let_def)

lemma sink_ok_reserve: "sink_ok s \<Longrightarrow> sink_ok (montauk_sink_reserve s n)"
  by (auto simp: sink_ok_def montauk_sink_reserve_def Let_def)

lemma sink_ok_append: "sink_ok s \<Longrightarrow> sink_ok (montauk_sink_append p s)"
  using sink_ok_reserve [of s "length p"]
  by (auto simp: montauk_sink_append_def Let_def sink_ok_def)

lemma sink_ok_appendf: "sink_ok s \<Longrightarrow> sink_ok (montauk_sink_appendf t s)"
  using sink_ok_reserve [of s "length t + 1"]
  by (auto simp: montauk_sink_appendf_def Let_def sink_ok_def)

text \<open>While allocation succeeds nothing is dropped.\<close>

definition no_oom :: "montauk_sink \<Rightarrow> bool" where
  "no_oom s \<longleftrightarrow> (\<forall>k. sk_alloc s k)"

lemma reserve_room: "no_oom s \<Longrightarrow> sk_len s + n \<le> sk_cap (montauk_sink_reserve s n)"
  by (auto simp: montauk_sink_reserve_def no_oom_def Let_def)

lemma no_oom_append [simp]: "no_oom (montauk_sink_append p s) = no_oom s"
  by (auto simp: montauk_sink_append_def Let_def no_oom_def)

lemma no_oom_appendc [simp]: "no_oom (montauk_sink_appendc c s) = no_oom s"
  by (simp add: montauk_sink_appendc_def)

lemma append_data [simp]: "no_oom s \<Longrightarrow> sk_data (montauk_sink_append p s) = sk_data s @ p"
  using reserve_room [of s "length p"] by (simp add: montauk_sink_append_def Let_def)

lemma appendc_data [simp]: "no_oom s \<Longrightarrow> sk_data (montauk_sink_appendc c s) = sk_data s @ [c]"
  by (simp add: montauk_sink_appendc_def)

lemma appendf_data [simp]: "no_oom s \<Longrightarrow> sk_data (montauk_sink_appendf t s) = sk_data s @ t"
  using reserve_room [of s "length t + 1"]
  by (auto simp: montauk_sink_appendf_def Let_def)

text \<open>In any case a write is all or nothing.\<close>

lemma append_all_or_nothing:
  "sk_data (montauk_sink_append p s) \<in> {sk_data s, sk_data s @ p}"
  by (simp add: montauk_sink_append_def Let_def)

section \<open>Digit pairs print decimals\<close>

lemma D_pairs: "D = concat (map (\<lambda>i. [digit_char (i div 10), digit_char (i mod 10)]) [0..<100])"
  by (simp add: D_def upt_conv_Cons digit_char_lits)

lemma D_pair:
  assumes "i < 100"
  shows "D ! (i * 2) = digit_char (i div 10)" and "D ! Suc (i * 2) = digit_char (i mod 10)"
  using nth_concat_pairs [OF assms, of "\<lambda>i. digit_char (i div 10)" "\<lambda>i. digit_char (i mod 10)"]
  by (simp_all only: D_pairs)

lemma dec_split100: "100 \<le> n \<Longrightarrow>
    dec n = dec (n div 100) @ [digit_char (n mod 100 div 10), digit_char (n mod 100 mod 10)]"
proof -
  assume "100 \<le> n"
  then have "10 \<le> n" "10 \<le> n div 10" by auto
  moreover have "n div 10 mod 10 = n mod 100 div 10"
    by (simp add: mod_mult2_eq [of n 10 10, simplified] div_mult2_eq)
  moreover have "n mod 10 = n mod 100 mod 10" by (simp add: mod_mod_cancel)
  ultimately show ?thesis
    by (simp add: dec.simps [of n] dec.simps [of "n div 10"] div_mult2_eq [symmetric])
qed

lemma u64_pairs_dec:
  "u64_pairs v p = (w, q) \<Longrightarrow> unat w < 100 \<and> dec (unat w) @ q = dec (unat v) @ p"
proof (induction v p arbitrary: w q rule: u64_pairs.induct)
  case (1 v p)
  show ?case
  proof (cases "100 \<le> v")
    case True
    let ?i = "unat (v mod 100)"
    have i: "?i = unat v mod 100" and d: "unat (v div 100) = unat v div 100"
      by (simp_all add: unat_mod unat_div)
    have ge: "100 \<le> unat v" using True by (simp add: word_le_nat_alt)
    have "u64_pairs (v div 100) (D ! (?i * 2) # D ! (?i * 2 + 1) # p) = (w, q)"
      using "1.prems" True by (simp add: u64_pairs.simps [of v p] Let_def)
    from "1.IH" [OF True refl this]
    have "unat w < 100"
      "dec (unat w) @ q = dec (unat v div 100) @ D ! (?i * 2) # D ! (?i * 2 + 1) # p"
      by (simp_all add: d)
    moreover have "?i < 100" by (simp add: i)
    ultimately show ?thesis
      by (simp add: D_pair dec_split100 [OF ge] i)
  next
    case False
    with "1.prems" show ?thesis
      by (simp add: u64_pairs.simps [of v p] word_le_nat_alt)
  qed
qed

text \<open>\<open>montauk_sink_append_u64\<close>'s digit-pair conversion prints exactly the decimal text of its
  argument, for every 64-bit value.\<close>

lemma u64_text_is_dec: "u64_text v = dec (unat v)"
proof -
  obtain w q where wq: "u64_pairs v [] = (w, q)" by (cases "u64_pairs v []")
  from u64_pairs_dec [OF wq] have w: "unat w < 100" and e: "dec (unat w) @ q = dec (unat v)"
    by simp_all
  show ?thesis
  proof (cases "10 \<le> unat w")
    case True
    with w have "dec (unat w) = [digit_char (unat w div 10), digit_char (unat w mod 10)]"
      by (simp add: dec.simps [of "unat w"] dec.simps [of "unat w div 10"])
    with True w e show ?thesis
      by (simp add: u64_text_def wq word_le_nat_alt D_pair)
  next
    case False
    then have "dec (unat w) = [char_of (48 + unat w)]"
      by (simp add: dec.simps [of "unat w"] digit_char_def)
    with False e show ?thesis
      by (simp add: u64_text_def wq word_le_nat_alt)
  qed
qed

lemma append_u64_data [simp]:
  "no_oom s \<Longrightarrow> sk_data (montauk_sink_append_u64 v s) = sk_data s @ dec (unat v)"
  "no_oom (montauk_sink_append_u64 v s) = no_oom s"
  by (simp_all add: montauk_sink_append_u64_def u64_text_is_dec)

text \<open>The 20 bytes of \<open>tmp\<close> hold every 64-bit value.\<close>

lemma dec_length: "n < 10 ^ k \<Longrightarrow> 0 < k \<Longrightarrow> length (dec n) \<le> k"
proof (induction n arbitrary: k rule: dec.induct)
  case (1 n)
  show ?case
  proof (cases "n < 10")
    case True
    with "1.prems" show ?thesis by (simp add: dec.simps [of n])
  next
    case False
    from "1.prems" obtain j where k: "k = Suc j" by (cases k) auto
    with False "1.prems" have j: "0 < j" by (cases j) auto
    from k "1.prems" have "n div 10 < 10 ^ j" by (simp add: less_mult_imp_div_less mult.commute)
    from "1.IH" [OF False this j] False k show ?thesis by (simp add: dec.simps [of n])
  qed
qed

lemma unat_neg_sint: "sint (v :: u64) < 0 \<Longrightarrow> unat (- v) = nat (- sint v)"
proof -
  assume neg: "sint v < 0"
  have "uint (- v) = (- sint v) mod 2 ^ 64"
    using uint_word_of_int_eq [of "- sint v", where 'a = 64] by (simp add: take_bit_eq_mod)
  moreover have "- sint v \<le> 2 ^ 63" using sint_ge [of v] by simp
  ultimately have "uint (- v) = - sint v" using neg by simp
  then show ?thesis by (metis nat_uint_eq)
qed

lemma unat_nonneg_sint: "\<not> sint (v :: u64) < 0 \<Longrightarrow> unat v = nat (sint v)"
proof -
  assume nonneg: "\<not> sint v < 0"
  have "uint v = sint v mod 2 ^ 64"
    using uint_word_of_int_eq [of "sint v", where 'a = 64] by (simp add: take_bit_eq_mod)
  moreover have "sint v < 2 ^ 63" using sint_less [of v] by simp
  ultimately have "uint v = sint v" using nonneg by simp
  then show ?thesis by (metis nat_uint_eq)
qed

lemma append_i64_data [simp]:
  assumes "no_oom s"
  shows "sk_data (montauk_sink_append_i64 v s) = sk_data s @ dec_sint v"
proof (cases "sint v < 0")
  case True
  have "- (v + 1) + 1 = - v" by simp
  with True assms show ?thesis
    by (simp add: montauk_sink_append_i64_def dec_int_def unat_neg_sint)
next
  case False
  with assms show ?thesis
    by (simp add: montauk_sink_append_i64_def dec_int_def unat_nonneg_sint)
qed

lemma no_oom_append_i64 [simp]: "no_oom (montauk_sink_append_i64 v s) = no_oom s"
  by (simp add: montauk_sink_append_i64_def)

section \<open>Draining is partial-write safe\<close>

lemma drain_loop_prefix: "prefix (drain_loop wr k rest) rest"
proof (induction wr k rest rule: drain_loop.induct)
  case (1 wr k rest)
  show ?case
  proof (cases "rest = [] \<or> wr k (length rest) \<le> 0")
    case True
    then show ?thesis by (auto simp: drain_loop.simps [of wr k rest] Let_def)
  next
    case False
    let ?n = "nat (wr k (length rest))"
    from "1.IH" False have "prefix (drain_loop wr (k + 1) (drop ?n rest)) (drop ?n rest)" by simp
    then have "prefix (take ?n rest @ drain_loop wr (k + 1) (drop ?n rest)) (take ?n rest @ drop ?n rest)"
      by (simp only: same_prefix_prefix)
    with False show ?thesis by (simp add: drain_loop.simps [of wr k rest] Let_def)
  qed
qed

lemma drain_loop_all: "(\<And>k n. 0 < n \<Longrightarrow> 0 < wr k n) \<Longrightarrow> drain_loop wr k rest = rest"
proof (induction wr k rest rule: drain_loop.induct)
  case (1 wr k rest)
  show ?case
  proof (cases "rest = []")
    case True
    then show ?thesis by (simp add: drain_loop.simps)
  next
    case False
    then have "0 < wr k (length rest)" using "1.prems" by simp
    then have pos: "\<not> wr k (length rest) \<le> 0" by simp
    with "1.IH" "1.prems" False show ?thesis
      by (simp add: drain_loop.simps [of wr k rest] Let_def pos)
  qed
qed

section \<open>Properties\<close>

text \<open>The two-digits-a-step formatter prints every unsigned value as its decimal digits, at most the
  twenty its scratch array holds, and every signed one with its sign, the smallest included.\<close>

theorem sink_numbers_decimal:
  "u64_text v = dec (unat v) \<and> length (u64_text v) \<le> 20 \<and>
   sk_data (montauk_sink_append_i64 w (montauk_sink_init (\<lambda>_. True) fd)) = dec_sint w"
proof -
  have "unat v < 2 ^ 64" using unsigned_less [where ?'a = nat, of v] by simp
  then have "unat v < 10 ^ 20" by simp
  then have "length (dec (unat v)) \<le> 20" by (rule dec_length) simp
  moreover have "no_oom (montauk_sink_init (\<lambda>_. True) fd)" by (simp add: no_oom_def montauk_sink_init_def)
  ultimately show ?thesis by (simp add: u64_text_is_dec) (simp add: montauk_sink_init_def)
qed

text \<open>C14: whatever the allocator answers, a sink never holds more than its capacity, and each append writes
  all of its bytes or none.\<close>

theorem sink_all_or_nothing:
  assumes "sink_ok s"
  shows "sink_ok (montauk_sink_append p s) \<and> sink_ok (montauk_sink_appendf t s) \<and>
    sk_data (montauk_sink_append p s) \<in> {sk_data s, sk_data s @ p} \<and>
    sk_data (montauk_sink_appendf t s) \<in> {sk_data s, sk_data s @ t}"
  using sink_ok_append [OF assms] sink_ok_appendf [OF assms]
  by (auto simp: montauk_sink_append_def montauk_sink_appendf_def Let_def)

theorem sink_all_or_nothing_witness:
  "sk_data (montauk_sink_append (replicate 600 SPACE) (montauk_sink_init (\<lambda>_. False) 1)) \<in> {[], replicate 600 SPACE}"
  using sink_all_or_nothing [OF sink_ok_init, of "replicate 600 SPACE" "\<lambda>_. False" 1]
  by (simp add: montauk_sink_init_def)

text \<open>Draining sends the bytes in order: always a prefix of the buffer, the whole of it when no write
  fails, however the kernel splits the writes; the sink is empty afterwards.\<close>

theorem sink_drain_in_order:
  "prefix (fst (montauk_sink_drain wr s)) (sk_data s) \<and> sk_data (snd (montauk_sink_drain wr s)) = [] \<and>
   ((\<forall>k n. 0 < n \<longrightarrow> 0 < wr k n) \<longrightarrow> fst (montauk_sink_drain wr s) = sk_data s)"
  using drain_loop_prefix [of wr 0 "sk_data s"] drain_loop_all [of wr 0 "sk_data s"]
  by (auto simp: montauk_sink_drain_def)

theorem sink_drain_in_order_witness:
  "fst (montauk_sink_drain (\<lambda>_ _. 1) (montauk_sink_append ''ab'' (montauk_sink_init (\<lambda>_. True) 1))) = ''ab''"
  using sink_drain_in_order [of "\<lambda>_ _. 1" "montauk_sink_append ''ab'' (montauk_sink_init (\<lambda>_. True) 1)"]
  by (simp add: no_oom_def montauk_sink_init_def)

end
