(* ===== verification/Ieee.thy ===== *)
theory Ieee
  imports Prelude
begin

text \<open>
  IEEE 754 binary64 and binary32 as the sources use them, executable over the rationals: a
  value is a finite rational, a negative zero, an infinity or NaN, and every operation is the
  exact one followed by rounding to nearest, ties to even. On top of it stand the two ways the
  sources print a double: \<open>std::to_chars\<close> (shortest round-trip text, \<open>util/FmtDouble.cpp\<close>)
  and \<open>printf\<close>'s \<open>%.nf\<close>.
\<close>

section \<open>Values and rounding\<close>

datatype dbl = Num rat | NegZero | PosInf | NegInf | NaN

text \<open>The exponent \<open>e\<close> with \<open>2 ^ e \<le> x < 2 ^ (e + 1)\<close>, for positive \<open>x\<close>.\<close>

definition exp2_of :: "rat \<Rightarrow> int" where
  "exp2_of x = (case quotient_of x of (n, d) \<Rightarrow>
     (let e = int (floorlog 2 (nat n)) - int (floorlog 2 (nat d))
      in if 2 powi e \<le> x then e else e - 1))"

definition round_even :: "rat \<Rightarrow> int" where
  "round_even x = (let f = \<lfloor>x\<rfloor>; r = x - of_int f
     in if r < 1/2 then f else if 1/2 < r then f + 1 else if even f then f else f + 1)"

text \<open>Rounding a positive rational to \<open>p\<close> significant bits with least exponent \<open>emin\<close>.\<close>

definition round_pos :: "nat \<Rightarrow> int \<Rightarrow> rat \<Rightarrow> rat" where
  "round_pos p emin x = (let e = max (exp2_of x) emin; u = 2 powi (e - int p + 1)
     in of_int (round_even (x / u)) * u)"

definition fp_round :: "nat \<Rightarrow> int \<Rightarrow> bool \<Rightarrow> rat \<Rightarrow> dbl" where
  "fp_round p emax neg x =
     (if x = 0 then (if neg then NegZero else Num 0)
      else let r = round_pos p (1 - emax) \<bar>x\<bar>
           in if 2 powi (emax + 1) \<le> r then (if x < 0 then NegInf else PosInf)
              else if r = 0 then (if x < 0 then NegZero else Num 0)
              else Num (if x < 0 then - r else r))"

text \<open>The flag is the sign an exact zero takes.\<close>

definition to_dbl :: "bool \<Rightarrow> rat \<Rightarrow> dbl" where
  "to_dbl = fp_round 53 1023"

definition to_flt :: "bool \<Rightarrow> rat \<Rightarrow> dbl" where
  "to_flt = fp_round 24 127"

fun dval :: "dbl \<Rightarrow> rat" where
  "dval (Num r) = r"
| "dval _ = 0"

fun is_finite :: "dbl \<Rightarrow> bool" where
  "is_finite (Num r) = True"
| "is_finite NegZero = True"
| "is_finite _ = False"

fun sign_bit :: "dbl \<Rightarrow> bool" where
  "sign_bit (Num r) = (r < 0)"
| "sign_bit NegZero = True"
| "sign_bit PosInf = False"
| "sign_bit NegInf = True"
| "sign_bit NaN = False"

section \<open>Comparison\<close>

text \<open>Every comparison with NaN is false; the two zeros are equal.\<close>

fun d_less :: "dbl \<Rightarrow> dbl \<Rightarrow> bool" where
  "d_less NaN _ = False"
| "d_less _ NaN = False"
| "d_less _ NegInf = False"
| "d_less NegInf _ = True"
| "d_less PosInf _ = False"
| "d_less _ PosInf = True"
| "d_less x y = (dval x < dval y)"

definition d_eq :: "dbl \<Rightarrow> dbl \<Rightarrow> bool" where
  "d_eq x y \<longleftrightarrow> x \<noteq> NaN \<and> y \<noteq> NaN \<and>
     (if is_finite x \<and> is_finite y then dval x = dval y else x = y)"

definition d_le :: "dbl \<Rightarrow> dbl \<Rightarrow> bool" where
  "d_le x y \<longleftrightarrow> d_less x y \<or> d_eq x y"

section \<open>Arithmetic\<close>

fun d_neg :: "dbl \<Rightarrow> dbl" where
  "d_neg (Num r) = (if r = 0 then NegZero else Num (- r))"
| "d_neg NegZero = Num 0"
| "d_neg PosInf = NegInf"
| "d_neg NegInf = PosInf"
| "d_neg NaN = NaN"

definition fp_add :: "(bool \<Rightarrow> rat \<Rightarrow> dbl) \<Rightarrow> dbl \<Rightarrow> dbl \<Rightarrow> dbl" where
  "fp_add rnd x y =
     (if x = NaN \<or> y = NaN then NaN
      else if is_finite x \<and> is_finite y
           then rnd (sign_bit x \<and> sign_bit y \<and> dval x = 0) (dval x + dval y)
      else if is_finite x then y
      else if is_finite y then x
      else if x = y then x else NaN)"

definition fp_mul :: "(bool \<Rightarrow> rat \<Rightarrow> dbl) \<Rightarrow> dbl \<Rightarrow> dbl \<Rightarrow> dbl" where
  "fp_mul rnd x y =
     (let s = (sign_bit x \<noteq> sign_bit y)
      in if x = NaN \<or> y = NaN then NaN
         else if is_finite x \<and> is_finite y then rnd s (dval x * dval y)
         else if is_finite x \<and> dval x = 0 \<or> is_finite y \<and> dval y = 0 then NaN
         else if s then NegInf else PosInf)"

definition fp_div :: "(bool \<Rightarrow> rat \<Rightarrow> dbl) \<Rightarrow> dbl \<Rightarrow> dbl \<Rightarrow> dbl" where
  "fp_div rnd x y =
     (let s = (sign_bit x \<noteq> sign_bit y)
      in if x = NaN \<or> y = NaN then NaN
         else if is_finite x \<and> is_finite y
              then (if dval y = 0 then (if dval x = 0 then NaN else if s then NegInf else PosInf)
                    else rnd s (dval x / dval y))
         else if is_finite y then (if s then NegInf else PosInf)
         else if is_finite x then (if s then NegZero else Num 0)
         else NaN)"

abbreviation d_add :: "dbl \<Rightarrow> dbl \<Rightarrow> dbl" where "d_add \<equiv> fp_add to_dbl"
abbreviation d_mul :: "dbl \<Rightarrow> dbl \<Rightarrow> dbl" where "d_mul \<equiv> fp_mul to_dbl"
abbreviation d_div :: "dbl \<Rightarrow> dbl \<Rightarrow> dbl" where "d_div \<equiv> fp_div to_dbl"
abbreviation d_sub :: "dbl \<Rightarrow> dbl \<Rightarrow> dbl" where "d_sub x y \<equiv> d_add x (d_neg y)"

definition d_of_int :: "int \<Rightarrow> dbl" where
  "d_of_int i = to_dbl False (of_int i)"

abbreviation d_of_nat :: "nat \<Rightarrow> dbl" where
  "d_of_nat n \<equiv> d_of_int (int n)"

section \<open>Shortest round-trip text\<close>

text \<open>The exponent \<open>k\<close> with \<open>10 ^ k \<le> x < 10 ^ (k + 1)\<close>, found from the binary exponent.\<close>

definition exp10_of :: "rat \<Rightarrow> int" where
  "exp10_of x = (let k = (exp2_of x * 1233) div 4096
     in if 10 powi (k + 1) \<le> x then k + 1 else if x < 10 powi k then k - 1 else k)"

text \<open>
  The decimals \<open>c * 10 ^ q\<close> of \<open>n\<close> significant digits on either side of \<open>x\<close>, and the one
  of them that reads back as \<open>x\<close>, the nearer first.
\<close>

definition try_digits :: "rat \<Rightarrow> nat \<Rightarrow> (nat \<times> int) option" where
  "try_digits x n =
     (let q = exp10_of x - int n + 1; s = x / 10 powi q; lo = nat \<lfloor>s\<rfloor>;
          back = (\<lambda>c. to_dbl False (of_nat c * 10 powi q) = Num x);
          near = nat (round_even s); far = (if near = lo then lo + 1 else lo)
      in if back near then Some (near, q) else if back far then Some (far, q) else None)"

text \<open>Seventeen significant digits always suffice, so the search never runs past them.\<close>

fun strip_zeros :: "nat \<Rightarrow> int \<Rightarrow> nat \<times> int" where
  "strip_zeros c q = (if 0 < c \<and> c mod 10 = 0 then strip_zeros (c div 10) (q + 1) else (c, q))"

declare strip_zeros.simps [simp del]

definition shortest :: "rat \<Rightarrow> nat \<times> int" where
  "shortest x = (case List.find (\<lambda>n. try_digits x n \<noteq> None) [1..<18] of
      Some n \<Rightarrow> (case try_digits x n of Some (c, q) \<Rightarrow> strip_zeros c q | None \<Rightarrow> (0, 0))
    | None \<Rightarrow> (let q = exp10_of x - 16 in strip_zeros (nat (round_even (x / 10 powi q))) q))"

text \<open>
  \<open>std::to_chars\<close> without a format takes the shorter of the fixed and the scientific text,
  the fixed one on a tie. A whole number with trailing zeros in its shortest form is printed
  exactly, as \<open>%f\<close> would.
\<close>

definition fixed_text :: "rat \<Rightarrow> nat \<Rightarrow> int \<Rightarrow> string" where
  "fixed_text x c q =
     (let ds = dec c; k = nat (- q)
      in if 0 \<le> q then dec (nat \<lfloor>x\<rfloor>)
         else if k < length ds then take (length ds - k) ds @ ''.'' @ drop (length ds - k) ds
         else ''0.'' @ replicate (k - length ds) (CHR ''0'') @ ds)"

definition fixed_len :: "nat \<Rightarrow> int \<Rightarrow> nat" where
  "fixed_len c q =
     (let n = length (dec c); k = nat (- q)
      in if 0 \<le> q then n + nat q else if k < n then n + 1 else k + 2)"

definition exp_text :: "int \<Rightarrow> string" where
  "exp_text e = (if e < 0 then ''e-'' else ''e+'') @
     (let m = nat \<bar>e\<bar> in if m < 10 then CHR ''0'' # dec m else dec m)"

definition sci_text :: "nat \<Rightarrow> int \<Rightarrow> string" where
  "sci_text c q =
     (let ds = dec c
      in take 1 ds @ (if length ds = 1 then [] else CHR ''.'' # drop 1 ds) @
         exp_text (q + int (length ds) - 1))"

definition pos_text :: "rat \<Rightarrow> string" where
  "pos_text x = (case shortest x of (c, q) \<Rightarrow>
     if fixed_len c q \<le> length (sci_text c q) then fixed_text x c q else sci_text c q)"

fun to_chars :: "dbl \<Rightarrow> string" where
  "to_chars (Num r) = (if r = 0 then ''0'' else if r < 0 then CHR ''-'' # pos_text (- r) else pos_text r)"
| "to_chars NegZero = ''-0''"
| "to_chars PosInf = ''inf''"
| "to_chars NegInf = ''-inf''"
| "to_chars NaN = ''nan''"

text \<open>
  \<open>montauk_fmt_double\<close> (\<open>src/util/FmtDouble.cpp\<close>): the text, or \<open>None\<close> for the \<open>-1\<close> it
  returns when the buffer is too small.
\<close>

definition montauk_fmt_double :: "nat \<Rightarrow> dbl \<Rightarrow> string option" where
  "montauk_fmt_double cap v = (let t = to_chars v in if length t \<le> cap then Some t else None)"

section \<open>Fixed-point text of printf\<close>

definition fmt_f_pos :: "nat \<Rightarrow> rat \<Rightarrow> string" where
  "fmt_f_pos n x =
     (let m = nat (round_even (x * 10 ^ n)); ds = dec m;
          pad = replicate (n + 1 - length ds) (CHR ''0'') @ ds
      in if n = 0 then ds
         else take (length pad - n) pad @ ''.'' @ drop (length pad - n) pad)"

fun fmt_f :: "nat \<Rightarrow> dbl \<Rightarrow> string" where
  "fmt_f n (Num r) = (if r < 0 then CHR ''-'' # fmt_f_pos n (- r) else fmt_f_pos n r)"
| "fmt_f n NegZero = CHR ''-'' # fmt_f_pos n 0"
| "fmt_f n PosInf = ''inf''"
| "fmt_f n NegInf = ''-inf''"
| "fmt_f n NaN = ''nan''"

end
