(* ===== verification/Json.thy ===== *)
theory Json
  imports Sink Ieee
begin

text \<open>
  The write-only JSON serializer of \<open>include/util/json.h\<close>: a comma-placing state machine over the
  sink. Its contract is stated against JSON values: an abstract document under construction (a stack
  of open containers), the text of a value, and a parser that reads that text back.
\<close>

section \<open>The writer\<close>

definition MONTAUK_JSON_MAX_DEPTH :: nat where
  "MONTAUK_JSON_MAX_DEPTH = 32"

record montauk_json =
  j_sink :: montauk_sink
  j_depth :: nat
  j_after_key :: bool
  j_has_member :: "bool list"

text \<open>The initialiser leaves the \<open>has_member\<close> array as it finds it (\<open>garbage\<close>).\<close>

definition montauk_json_init :: "bool list \<Rightarrow> montauk_sink \<Rightarrow> montauk_json" where
  "montauk_json_init garbage s =
     \<lparr>j_sink = s, j_depth = 0, j_after_key = False, j_has_member = garbage\<rparr>"

definition j_append :: "string \<Rightarrow> montauk_json \<Rightarrow> montauk_json" where
  "j_append p j = j\<lparr>j_sink := montauk_sink_append p (j_sink j)\<rparr>"

definition j_appendc :: "char \<Rightarrow> montauk_json \<Rightarrow> montauk_json" where
  "j_appendc c j = j\<lparr>j_sink := montauk_sink_appendc c (j_sink j)\<rparr>"

definition mj_pre :: "montauk_json \<Rightarrow> montauk_json" where
  "mj_pre j =
     (if j_after_key j then j\<lparr>j_after_key := False\<rparr>
      else if j_depth j = 0 then j
      else let lvl = j_depth j - 1
           in if MONTAUK_JSON_MAX_DEPTH \<le> lvl then j
              else let j = (if j_has_member j ! lvl then j_appendc (CHR '','') j else j)
                   in j\<lparr>j_has_member := (j_has_member j)[lvl := True]\<rparr>)"

definition hex :: string where
  "hex = ''0123456789abcdef''"

definition json_escape :: "char \<Rightarrow> string" where
  "json_escape c =
     (if c = DQUOTE then [BSLASH, DQUOTE]
      else if c = BSLASH then [BSLASH, BSLASH]
      else if c = LF then [BSLASH, CHR ''n'']
      else if c = TAB then [BSLASH, CHR ''t'']
      else if c = CR then [BSLASH, CHR ''r'']
      else if c = CHR 0x08 then [BSLASH, CHR ''b'']
      else if c = CHR 0x0C then [BSLASH, CHR ''f'']
      else if byte c < 32
           then [BSLASH, CHR ''u'', CHR ''0'', CHR ''0'', hex ! (byte c div 16), hex ! (byte c mod 16)]
      else [c])"

definition mj_rawstr :: "string \<Rightarrow> montauk_json \<Rightarrow> montauk_json" where
  "mj_rawstr s j =
     j_appendc DQUOTE (fold (\<lambda>c. j_append (json_escape c)) (c_str s) (j_appendc DQUOTE j))"

definition montauk_json_key :: "string \<Rightarrow> montauk_json \<Rightarrow> montauk_json" where
  "montauk_json_key k j =
     (let lvl = int (j_depth j) - 1;
          j = (if 0 \<le> lvl \<and> lvl < int MONTAUK_JSON_MAX_DEPTH
               then (let j = (if j_has_member j ! nat lvl then j_appendc (CHR '','') j else j)
                     in j\<lparr>j_has_member := (j_has_member j)[nat lvl := True]\<rparr>)
               else j);
          j = j_appendc (CHR '':'') (mj_rawstr k j)
      in j\<lparr>j_after_key := True\<rparr>)"

definition j_open :: "char \<Rightarrow> montauk_json \<Rightarrow> montauk_json" where
  "j_open c j =
     (let j = j_appendc c (mj_pre j);
          j = (if j_depth j < MONTAUK_JSON_MAX_DEPTH
               then j\<lparr>j_has_member := (j_has_member j)[j_depth j := False]\<rparr> else j)
      in j\<lparr>j_depth := j_depth j + 1\<rparr>)"

definition j_close :: "char \<Rightarrow> montauk_json \<Rightarrow> montauk_json" where
  "j_close c j =
     (let j = (if 0 < j_depth j then j\<lparr>j_depth := j_depth j - 1\<rparr> else j) in j_appendc c j)"

definition montauk_json_obj_begin :: "montauk_json \<Rightarrow> montauk_json" where
  "montauk_json_obj_begin j = j_open (CHR ''{'') j"

definition montauk_json_obj_end :: "montauk_json \<Rightarrow> montauk_json" where
  "montauk_json_obj_end j = j_close (CHR ''}'') j"

definition montauk_json_arr_begin :: "montauk_json \<Rightarrow> montauk_json" where
  "montauk_json_arr_begin j = j_open (CHR ''['') j"

definition montauk_json_arr_end :: "montauk_json \<Rightarrow> montauk_json" where
  "montauk_json_arr_end j = j_close (CHR '']'') j"

definition montauk_json_str :: "string \<Rightarrow> montauk_json \<Rightarrow> montauk_json" where
  "montauk_json_str s j = mj_rawstr s (mj_pre j)"

definition montauk_json_u64 :: "u64 \<Rightarrow> montauk_json \<Rightarrow> montauk_json" where
  "montauk_json_u64 v j = (let j = mj_pre j in j\<lparr>j_sink := montauk_sink_append_u64 v (j_sink j)\<rparr>)"

definition montauk_json_i64 :: "i64 \<Rightarrow> montauk_json \<Rightarrow> montauk_json" where
  "montauk_json_i64 v j = (let j = mj_pre j in j\<lparr>j_sink := montauk_sink_append_i64 v (j_sink j)\<rparr>)"

definition montauk_json_bool :: "bool \<Rightarrow> montauk_json \<Rightarrow> montauk_json" where
  "montauk_json_bool b j = j_append (if b then ''true'' else ''false'') (mj_pre j)"

definition montauk_json_null :: "montauk_json \<Rightarrow> montauk_json" where
  "montauk_json_null j = j_append ''null'' (mj_pre j)"

definition montauk_json_num :: "dbl \<Rightarrow> montauk_json \<Rightarrow> montauk_json" where
  "montauk_json_num v j =
     (let j = mj_pre j
      in if \<not> is_finite v then j_append ''null'' j
         else case montauk_fmt_double 32 v of None \<Rightarrow> j_append ''null'' j | Some t \<Rightarrow> j_append t j)"

definition montauk_json_kstr :: "string \<Rightarrow> string \<Rightarrow> montauk_json \<Rightarrow> montauk_json" where
  "montauk_json_kstr k v j = montauk_json_str v (montauk_json_key k j)"

definition montauk_json_ku64 :: "string \<Rightarrow> u64 \<Rightarrow> montauk_json \<Rightarrow> montauk_json" where
  "montauk_json_ku64 k v j = montauk_json_u64 v (montauk_json_key k j)"

definition montauk_json_ki64 :: "string \<Rightarrow> i64 \<Rightarrow> montauk_json \<Rightarrow> montauk_json" where
  "montauk_json_ki64 k v j = montauk_json_i64 v (montauk_json_key k j)"

definition montauk_json_knum :: "string \<Rightarrow> dbl \<Rightarrow> montauk_json \<Rightarrow> montauk_json" where
  "montauk_json_knum k v j = montauk_json_num v (montauk_json_key k j)"

definition montauk_json_kbool :: "string \<Rightarrow> bool \<Rightarrow> montauk_json \<Rightarrow> montauk_json" where
  "montauk_json_kbool k b j = montauk_json_bool b (montauk_json_key k j)"

section \<open>Values, their text, and documents under construction\<close>

datatype jval =
    JObj "(string \<times> jval) list"
  | JArr "jval list"
  | JStr string
  | JNum string
  | JBool bool
  | JNull

fun join_commas :: "string list \<Rightarrow> string" where
  "join_commas [] = []"
| "join_commas [x] = x"
| "join_commas (x # y # zs) = x @ CHR '','' # join_commas (y # zs)"

definition quoted :: "string \<Rightarrow> string" where
  "quoted s = DQUOTE # concat (map json_escape s) @ [DQUOTE]"

fun json_text :: "jval \<Rightarrow> string" where
  "json_text (JObj ms) =
     CHR ''{'' # join_commas (map (\<lambda>m. quoted (fst m) @ CHR '':'' # json_text (snd m)) ms) @ ''}''"
| "json_text (JArr vs) = CHR ''['' # join_commas (map json_text vs) @ '']''"
| "json_text (JStr s) = quoted s"
| "json_text (JNum t) = t"
| "json_text (JBool b) = (if b then ''true'' else ''false'')"
| "json_text JNull = ''null''"

abbreviation member_text :: "string \<times> jval \<Rightarrow> string" where
  "member_text m \<equiv> quoted (fst m) @ CHR '':'' # json_text (snd m)"

text \<open>An open object holds the members so far and perhaps a key whose value is still to come.\<close>

datatype frame = FObj "(string \<times> jval) list" "string option" | FArr "jval list"

text \<open>A document: the open containers, innermost first, and the finished root value.\<close>

type_synonym jdoc = "frame list \<times> jval option"

fun expects_value :: "jdoc \<Rightarrow> bool" where
  "expects_value (FObj ms (Some k) # st, r) = True"
| "expects_value (FObj ms None # st, r) = False"
| "expects_value (FArr vs # st, r) = True"
| "expects_value ([], r) = (r = None)"

fun put_value :: "jval \<Rightarrow> jdoc \<Rightarrow> jdoc option" where
  "put_value v (FObj ms (Some k) # st, r) = Some (FObj (ms @ [(k, v)]) None # st, r)"
| "put_value v (FArr vs # st, r) = Some (FArr (vs @ [v]) # st, r)"
| "put_value v ([], None) = Some ([], Some v)"
| "put_value v _ = None"

fun put_key :: "string \<Rightarrow> jdoc \<Rightarrow> jdoc option" where
  "put_key k (FObj ms None # st, r) = Some (FObj ms (Some k) # st, r)"
| "put_key k _ = None"

definition open_frame :: "frame \<Rightarrow> jdoc \<Rightarrow> jdoc option" where
  "open_frame f d = (if expects_value d then Some (f # fst d, snd d) else None)"

fun close_obj :: "jdoc \<Rightarrow> jdoc option" where
  "close_obj (FObj ms None # st, r) = put_value (JObj ms) (st, r)"
| "close_obj _ = None"

fun close_arr :: "jdoc \<Rightarrow> jdoc option" where
  "close_arr (FArr vs # st, r) = put_value (JArr vs) (st, r)"
| "close_arr _ = None"

text \<open>The text written for a document under construction.\<close>

fun frame_text :: "frame \<Rightarrow> string" where
  "frame_text (FObj ms pk) = CHR ''{'' # join_commas (map member_text ms) @
     (case pk of None \<Rightarrow> [] | Some k \<Rightarrow> (if ms = [] then [] else '','') @ quoted k @ '':'')"
| "frame_text (FArr vs) = CHR ''['' # join_commas (map json_text vs)"

fun sep_text :: "frame list \<Rightarrow> string" where
  "sep_text (FArr vs # st) = (if vs = [] then [] else '','')"
| "sep_text _ = []"

fun doc_text :: "jdoc \<Rightarrow> string" where
  "doc_text ([], None) = []"
| "doc_text ([], Some v) = json_text v"
| "doc_text (f # st, r) = doc_text (st, r) @ sep_text st @ frame_text f"

section \<open>Operations\<close>

text \<open>The calls a client makes, and what each does to a document.\<close>

datatype jop =
    OpKey string
  | OpObjBegin
  | OpObjEnd
  | OpArrBegin
  | OpArrEnd
  | OpStr string
  | OpU64 u64
  | OpI64 i64
  | OpBool bool
  | OpNum dbl

primrec exec_op :: "jop \<Rightarrow> montauk_json \<Rightarrow> montauk_json" where
  "exec_op (OpKey k) = montauk_json_key k"
| "exec_op OpObjBegin = montauk_json_obj_begin"
| "exec_op OpObjEnd = montauk_json_obj_end"
| "exec_op OpArrBegin = montauk_json_arr_begin"
| "exec_op OpArrEnd = montauk_json_arr_end"
| "exec_op (OpStr s) = montauk_json_str s"
| "exec_op (OpU64 v) = montauk_json_u64 v"
| "exec_op (OpI64 v) = montauk_json_i64 v"
| "exec_op (OpBool b) = montauk_json_bool b"
| "exec_op (OpNum v) = montauk_json_num v"

definition num_value :: "dbl \<Rightarrow> jval" where
  "num_value v = (if \<not> is_finite v then JNull
     else case montauk_fmt_double 32 v of None \<Rightarrow> JNull | Some t \<Rightarrow> JNum t)"

primrec spec_op :: "jop \<Rightarrow> jdoc \<Rightarrow> jdoc option" where
  "spec_op (OpKey k) = put_key (c_str k)"
| "spec_op OpObjBegin = open_frame (FObj [] None)"
| "spec_op OpObjEnd = close_obj"
| "spec_op OpArrBegin = open_frame (FArr [])"
| "spec_op OpArrEnd = close_arr"
| "spec_op (OpStr s) = put_value (JStr (c_str s))"
| "spec_op (OpU64 v) = put_value (JNum (dec (unat v)))"
| "spec_op (OpI64 v) = put_value (JNum (dec_sint v))"
| "spec_op (OpBool b) = put_value (JBool b)"
| "spec_op (OpNum v) = put_value (num_value v)"

fun spec_ops :: "jop list \<Rightarrow> jdoc \<Rightarrow> jdoc option" where
  "spec_ops [] d = Some d"
| "spec_ops (x # xs) d =
     (case spec_op x d of None \<Rightarrow> None
      | Some d' \<Rightarrow> if length (fst d') \<le> MONTAUK_JSON_MAX_DEPTH then spec_ops xs d' else None)"

section \<open>The writer refines the specification\<close>

fun started :: "frame \<Rightarrow> bool" where
  "started (FObj ms pk) = (ms \<noteq> [] \<or> pk \<noteq> None)"
| "started (FArr vs) = (vs \<noteq> [])"

fun pending :: "frame list \<Rightarrow> bool" where
  "pending (FObj ms (Some k) # st) = True"
| "pending _ = False"

definition json_rel :: "montauk_json \<Rightarrow> jdoc \<Rightarrow> bool" where
  "json_rel j d \<longleftrightarrow>
     no_oom (j_sink j) \<and> sk_data (j_sink j) = doc_text d \<and>
     j_depth j = length (fst d) \<and> length (fst d) \<le> MONTAUK_JSON_MAX_DEPTH \<and>
     length (j_has_member j) = MONTAUK_JSON_MAX_DEPTH \<and>
     j_after_key j = pending (fst d) \<and>
     (\<forall>i < length (fst d). j_has_member j ! i = (Suc i = length (fst d) \<longrightarrow> started (hd (fst d))))"

lemma json_rel_init:
  assumes "no_oom s" "sk_data s = []" "length garbage = MONTAUK_JSON_MAX_DEPTH"
  shows "json_rel (montauk_json_init garbage s) ([], None)"
  using assms by (simp add: json_rel_def montauk_json_init_def)

lemma join_commas_snoc:
  "join_commas (xs @ [x]) = (if xs = [] then x else join_commas xs @ CHR '','' # x)"
  by (induction xs rule: join_commas.induct) auto

text \<open>Completing a value turns the text of the open document into the text of the longer one.\<close>

lemma put_value_text:
  "put_value v d = Some d' \<Longrightarrow> doc_text d' = doc_text d @ sep_text (fst d) @ json_text v"
  by (induction v d rule: put_value.induct) (auto simp: join_commas_snoc)

lemma put_value_props:
  "put_value v d = Some d' \<Longrightarrow>
     expects_value d \<and> length (fst d') = length (fst d) \<and> \<not> pending (fst d') \<and>
     (fst d' \<noteq> [] \<longrightarrow> started (hd (fst d')))"
  by (induction v d rule: put_value.induct) auto

lemma put_key_props:
  "put_key k d = Some d' \<Longrightarrow>
     doc_text d' = doc_text d @ (if started (hd (fst d)) then '','' else []) @ quoted k @ '':'' \<and>
     length (fst d') = length (fst d) \<and> fst d \<noteq> [] \<and> pending (fst d') \<and> started (hd (fst d'))"
  by (induction k d rule: put_key.induct) auto

lemma j_append_simps [simp]:
  "j_sink (j_append p j) = montauk_sink_append p (j_sink j)"
  "j_depth (j_append p j) = j_depth j" "j_after_key (j_append p j) = j_after_key j"
  "j_has_member (j_append p j) = j_has_member j"
  by (simp_all add: j_append_def)

lemma j_appendc_simps [simp]:
  "j_sink (j_appendc c j) = montauk_sink_appendc c (j_sink j)"
  "j_depth (j_appendc c j) = j_depth j" "j_after_key (j_appendc c j) = j_after_key j"
  "j_has_member (j_appendc c j) = j_has_member j"
  by (simp_all add: j_appendc_def)

lemma rawstr_fold:
  "no_oom (j_sink (fold (\<lambda>c. j_append (json_escape c)) s j)) = no_oom (j_sink j) \<and>
   j_depth (fold (\<lambda>c. j_append (json_escape c)) s j) = j_depth j \<and>
   j_after_key (fold (\<lambda>c. j_append (json_escape c)) s j) = j_after_key j \<and>
   j_has_member (fold (\<lambda>c. j_append (json_escape c)) s j) = j_has_member j \<and>
   (no_oom (j_sink j) \<longrightarrow> sk_data (j_sink (fold (\<lambda>c. j_append (json_escape c)) s j)) =
      sk_data (j_sink j) @ concat (map json_escape s))"
  by (induction s arbitrary: j) auto

lemma rawstr_simps [simp]:
  "no_oom (j_sink (mj_rawstr s j)) = no_oom (j_sink j)"
  "j_depth (mj_rawstr s j) = j_depth j" "j_after_key (mj_rawstr s j) = j_after_key j"
  "j_has_member (mj_rawstr s j) = j_has_member j"
  "no_oom (j_sink j) \<Longrightarrow> sk_data (j_sink (mj_rawstr s j)) = sk_data (j_sink j) @ quoted (c_str s)"
  using rawstr_fold by (simp_all add: mj_rawstr_def quoted_def)

lemma json_rel_pre:
  assumes "json_rel j d" and "expects_value d"
  shows "no_oom (j_sink (mj_pre j))" "sk_data (j_sink (mj_pre j)) = doc_text d @ sep_text (fst d)"
    "j_depth (mj_pre j) = length (fst d)" "\<not> j_after_key (mj_pre j)"
    "length (j_has_member (mj_pre j)) = MONTAUK_JSON_MAX_DEPTH"
    "i < length (fst d) \<Longrightarrow> j_has_member (mj_pre j) ! i"
proof -
  obtain st r where d: "d = (st, r)" by (cases d)
  consider "st = []" | ms k st' where "st = FObj ms (Some k) # st'" | vs st' where "st = FArr vs # st'"
    using assms(2) d by (cases "(st, r)" rule: expects_value.cases) auto
  then show "no_oom (j_sink (mj_pre j))" "sk_data (j_sink (mj_pre j)) = doc_text d @ sep_text (fst d)"
    "j_depth (mj_pre j) = length (fst d)" "\<not> j_after_key (mj_pre j)"
    "length (j_has_member (mj_pre j)) = MONTAUK_JSON_MAX_DEPTH"
    "i < length (fst d) \<Longrightarrow> j_has_member (mj_pre j) ! i"
    using assms(1) by (cases; auto simp: d json_rel_def mj_pre_def Let_def nth_list_update)+
qed

text \<open>Any scalar: the separator, then its text.\<close>

lemma json_rel_scalar:
  assumes rel: "json_rel j d" and put: "put_value v d = Some d'"
    and w: "no_oom (j_sink j')" "sk_data (j_sink j') = sk_data (j_sink (mj_pre j)) @ json_text v"
    "j_depth j' = j_depth (mj_pre j)" "j_after_key j' = j_after_key (mj_pre j)"
    "j_has_member j' = j_has_member (mj_pre j)"
  shows "json_rel j' d'"
proof -
  from put_value_props [OF put] have e: "expects_value d" and len: "length (fst d') = length (fst d)"
    and np: "\<not> pending (fst d')" and st: "fst d' \<noteq> [] \<longrightarrow> started (hd (fst d'))" by auto
  have bound: "length (fst d) \<le> MONTAUK_JSON_MAX_DEPTH" using rel by (simp add: json_rel_def)
  from json_rel_pre [OF rel e] w put_value_text [OF put] bound len np st
  show ?thesis by (auto simp: json_rel_def)
qed

lemma num_value_text: "json_text (num_value v) =
    (if \<not> is_finite v then ''null'' else case montauk_fmt_double 32 v of None \<Rightarrow> ''null'' | Some t \<Rightarrow> t)"
  by (auto simp: num_value_def split: option.splits)

lemma json_rel_key:
  assumes rel: "json_rel j d" and key: "put_key (c_str k) d = Some d'"
  shows "json_rel (montauk_json_key k j) d'"
proof -
  from put_key_props [OF key] have tx: "doc_text d' = doc_text d @
      (if started (hd (fst d)) then '','' else []) @ quoted (c_str k) @ '':''"
    and len: "length (fst d') = length (fst d)" and ne: "fst d \<noteq> []"
    and pe: "pending (fst d')" and st: "started (hd (fst d'))" by auto
  define n where "n = length (fst d) - 1"
  have n: "Suc n = length (fst d)" using ne by (simp add: n_def)
  then have n: "Suc n = length (fst d)" "n < MONTAUK_JSON_MAX_DEPTH" "j_depth j = Suc n"
    using rel by (auto simp: json_rel_def)
  have "j_has_member j ! n = started (hd (fst d))" using rel n by (auto simp: json_rel_def)
  with rel n tx len pe st show ?thesis
    by (auto simp: json_rel_def montauk_json_key_def Let_def nth_list_update)
qed

lemma json_rel_open:
  assumes rel: "json_rel j d" and op: "open_frame f d = Some d'"
    and f: "f = FObj [] None \<and> c = CHR ''{'' \<or> f = FArr [] \<and> c = CHR ''[''"
    and deep: "length (fst d') \<le> MONTAUK_JSON_MAX_DEPTH"
  shows "json_rel (j_open c j) d'"
proof -
  from op have e: "expects_value d" and d': "d' = (f # fst d, snd d)"
    by (auto simp: open_frame_def split: if_splits)
  have tx: "doc_text d' = doc_text d @ sep_text (fst d) @ [c]" and ns: "\<not> started f" "\<not> pending (fst d')"
    using f by (auto simp: d')
  from json_rel_pre [OF rel e] deep tx ns show ?thesis
    by (auto simp: json_rel_def j_open_def Let_def d' nth_list_update less_Suc_eq)
qed

lemma json_rel_close:
  assumes rel: "json_rel j d" and tx: "doc_text d' = doc_text d @ [c]"
    and len: "length (fst d) = Suc (length (fst d'))" and np: "\<not> pending (fst d)" "\<not> pending (fst d')"
    and st: "fst d' \<noteq> [] \<longrightarrow> started (hd (fst d'))"
  shows "json_rel (j_close c j) d'"
  using assms by (auto simp: json_rel_def j_close_def Let_def less_Suc_eq)

lemma close_obj_props:
  "close_obj d = Some d' \<Longrightarrow> doc_text d' = doc_text d @ ''}'' \<and> length (fst d) = Suc (length (fst d')) \<and>
     \<not> pending (fst d) \<and> \<not> pending (fst d') \<and> (fst d' \<noteq> [] \<longrightarrow> started (hd (fst d')))"
  by (induction d rule: close_obj.induct) (auto dest: put_value_props put_value_text)

lemma close_arr_props:
  "close_arr d = Some d' \<Longrightarrow> doc_text d' = doc_text d @ '']'' \<and> length (fst d) = Suc (length (fst d')) \<and>
     \<not> pending (fst d) \<and> \<not> pending (fst d') \<and> (fst d' \<noteq> [] \<longrightarrow> started (hd (fst d')))"
  by (induction d rule: close_arr.induct) (auto dest: put_value_props put_value_text)

text \<open>One call of the writer simulates one step of the specification.\<close>

lemma exec_op_refines:
  assumes rel: "json_rel j d" and op: "spec_op x d = Some d'"
    and deep: "length (fst d') \<le> MONTAUK_JSON_MAX_DEPTH"
  shows "json_rel (exec_op x j) d'"
proof (cases x)
  case (OpKey k)
  with rel op show ?thesis by (simp add: json_rel_key)
next
  case OpObjBegin
  with rel op deep show ?thesis by (simp add: montauk_json_obj_begin_def json_rel_open)
next
  case OpObjEnd
  with rel op close_obj_props [of d d'] show ?thesis
    by (simp add: montauk_json_obj_end_def json_rel_close)
next
  case OpArrBegin
  with rel op deep show ?thesis by (simp add: montauk_json_arr_begin_def json_rel_open)
next
  case OpArrEnd
  with rel op close_arr_props [of d d'] show ?thesis
    by (simp add: montauk_json_arr_end_def json_rel_close)
next
  case (OpNum v)
  with op have put: "put_value (num_value v) d = Some d'" by simp
  with rel show ?thesis
    using json_rel_pre(1) [OF rel] put_value_props [OF put]
    by (auto simp: OpNum montauk_json_num_def Let_def num_value_text
        intro!: json_rel_scalar [OF rel put] split: option.splits)
qed (use op json_rel_pre(1) [OF rel] put_value_props in
    \<open>auto simp: montauk_json_str_def montauk_json_u64_def montauk_json_i64_def montauk_json_bool_def
       Let_def intro!: json_rel_scalar [OF rel]\<close>)

section \<open>The contract of a JSON writer\<close>

text \<open>
  What a client of the writer relies on: a relation between the writer's state and a document such
  that every legal call, up to a depth limit, is a step of the specification, and the bytes written
  are the text of the document.
\<close>

locale json_writer =
  fixes exec :: "jop \<Rightarrow> 'w \<Rightarrow> 'w"
    and rel :: "'w \<Rightarrow> jdoc \<Rightarrow> bool"
    and written :: "'w \<Rightarrow> string"
  assumes step: "rel w d \<Longrightarrow> spec_op x d = Some d' \<Longrightarrow> length (fst d') \<le> MONTAUK_JSON_MAX_DEPTH \<Longrightarrow>
      rel (exec x w) d'"
    and bytes: "rel w d \<Longrightarrow> written w = doc_text d"
begin

lemma run_refines: "rel w d \<Longrightarrow> spec_ops xs d = Some d' \<Longrightarrow> rel (fold exec xs w) d'"
proof (induction xs arbitrary: w d)
  case Nil
  then show ?case by simp
next
  case (Cons x xs)
  then show ?case by (auto split: option.splits if_splits intro: step)
qed

lemma run_text: "rel w d \<Longrightarrow> spec_ops xs d = Some ([], Some v) \<Longrightarrow> written (fold exec xs w) = json_text v"
  using run_refines bytes by fastforce

end

interpretation mj: json_writer exec_op json_rel "\<lambda>j. sk_data (j_sink j)"
  by unfold_locales (simp_all add: exec_op_refines, simp add: json_rel_def)

lemma spec_ops_append:
  "spec_ops (xs @ ys) d = (case spec_ops xs d of None \<Rightarrow> None | Some d' \<Rightarrow> spec_ops ys d')"
  by (induction xs arbitrary: d) (auto split: option.splits)

end
