(* ===== verification/Json_Read.thy ===== *)
theory Json_Read
  imports Json
begin

text \<open>
  A reader for JSON texts, the other half of the writer's specification: the number grammar of
  RFC 8259, string unescaping and a recursive-descent parser, with the proof that it reads back the
  text of every value, and that the numbers the writer prints are JSON numbers.
\<close>

section \<open>Numbers\<close>

definition json_exp :: "string \<Rightarrow> bool" where
  "json_exp s = (case s of [] \<Rightarrow> True
     | c # t \<Rightarrow> (c = CHR ''e'' \<or> c = CHR ''E'') \<and>
         (let u = (case t of [] \<Rightarrow> [] | d # u \<Rightarrow> if d = CHR ''+'' \<or> d = CHR ''-'' then u else t)
          in u \<noteq> [] \<and> list_all is_digit u))"

definition json_frac :: "string \<Rightarrow> bool" where
  "json_frac s = (case s of [] \<Rightarrow> True
     | c # t \<Rightarrow> if c = CHR ''.'' then takeWhile is_digit t \<noteq> [] \<and> json_exp (dropWhile is_digit t)
               else json_exp s)"

definition json_unsigned :: "string \<Rightarrow> bool" where
  "json_unsigned s =
     (let ip = takeWhile is_digit s
      in ip \<noteq> [] \<and> (length ip = 1 \<or> hd ip \<noteq> CHR ''0'') \<and> json_frac (dropWhile is_digit s))"

definition json_number :: "string \<Rightarrow> bool" where
  "json_number s = (case s of [] \<Rightarrow> False | c # t \<Rightarrow> if c = CHR ''-'' then json_unsigned t else json_unsigned s)"

definition num_char :: "char \<Rightarrow> bool" where
  "num_char c \<longleftrightarrow> is_digit c \<or> c \<in> set ''+-.eE''"

section \<open>The parser\<close>

definition unhex :: "char \<Rightarrow> nat option" where
  "unhex c = (if is_digit c then Some (byte c - 48)
     else if 97 \<le> byte c \<and> byte c \<le> 102 then Some (byte c - 87)
     else if 65 \<le> byte c \<and> byte c \<le> 70 then Some (byte c - 55) else None)"

text \<open>What follows a backslash; \<open>\u\<close> escapes are read up to U+007F, the one-byte characters.\<close>

definition unescape :: "string \<Rightarrow> (char \<times> string) option" where
  "unescape s = (case s of [] \<Rightarrow> None | e # u \<Rightarrow>
     if e = DQUOTE \<or> e = BSLASH \<or> e = CHR ''/'' then Some (e, u)
     else if e = CHR ''n'' then Some (LF, u)
     else if e = CHR ''t'' then Some (TAB, u)
     else if e = CHR ''r'' then Some (CR, u)
     else if e = CHR ''b'' then Some (CHR 0x08, u)
     else if e = CHR ''f'' then Some (CHR 0x0C, u)
     else if e = CHR ''u'' \<and> 4 \<le> length u
          then (case map unhex (take 4 u) of
                  [Some a, Some b, Some c, Some d] \<Rightarrow>
                    (let n = ((a * 16 + b) * 16 + c) * 16 + d
                     in if n < 128 then Some (char_of n, drop 4 u) else None)
                | _ \<Rightarrow> None)
     else None)"

lemma unescape_shorter: "unescape s = Some (c, u) \<Longrightarrow> length u < length s"
  by (cases s) (auto simp: unescape_def Let_def split: if_splits list.splits option.splits)

function parse_chars :: "string \<Rightarrow> (string \<times> string) option" where
  "parse_chars [] = None"
| "parse_chars (c # t) =
     (if c = DQUOTE then Some ([], t)
      else if c = BSLASH
           then (case unescape t of None \<Rightarrow> None
                 | Some (b, u) \<Rightarrow> map_option (apfst (Cons b)) (parse_chars u))
      else if byte c < 32 then None
      else map_option (apfst (Cons c)) (parse_chars t))"
  by pat_completeness auto
termination
  by (relation "measure length") (auto dest: unescape_shorter)

definition expect :: "char \<Rightarrow> string \<Rightarrow> string option" where
  "expect c s = (case s of [] \<Rightarrow> None | x # t \<Rightarrow> if x = c then Some t else None)"

fun parse_value :: "nat \<Rightarrow> string \<Rightarrow> (jval \<times> string) option"
  and parse_members :: "nat \<Rightarrow> string \<Rightarrow> ((string \<times> jval) list \<times> string) option"
  and parse_elems :: "nat \<Rightarrow> string \<Rightarrow> (jval list \<times> string) option" where
  "parse_value 0 s = None"
| "parse_value (Suc n) s =
     (case s of [] \<Rightarrow> None | c # t \<Rightarrow>
        if c = CHR ''{''
        then (case expect (CHR ''}'') t of Some u \<Rightarrow> Some (JObj [], u)
              | None \<Rightarrow> map_option (apfst JObj) (parse_members n t))
        else if c = CHR ''[''
        then (case expect (CHR '']'') t of Some u \<Rightarrow> Some (JArr [], u)
              | None \<Rightarrow> map_option (apfst JArr) (parse_elems n t))
        else if c = DQUOTE then map_option (apfst JStr) (parse_chars t)
        else if prefix ''true'' s then Some (JBool True, drop 4 s)
        else if prefix ''false'' s then Some (JBool False, drop 5 s)
        else if prefix ''null'' s then Some (JNull, drop 4 s)
        else let tok = takeWhile num_char s
             in if json_number tok then Some (JNum tok, dropWhile num_char s) else None)"
| "parse_members 0 s = None"
| "parse_members (Suc n) s =
     (case expect DQUOTE s of None \<Rightarrow> None | Some t \<Rightarrow>
      (case parse_chars t of None \<Rightarrow> None | Some (k, u) \<Rightarrow>
       (case expect (CHR '':'') u of None \<Rightarrow> None | Some w \<Rightarrow>
        (case parse_value n w of None \<Rightarrow> None | Some (v, x) \<Rightarrow>
         (case expect (CHR '','') x of
            Some y \<Rightarrow> map_option (apfst (Cons (k, v))) (parse_members n y)
          | None \<Rightarrow> map_option (Pair [(k, v)]) (expect (CHR ''}'') x))))))"
| "parse_elems 0 s = None"
| "parse_elems (Suc n) s =
     (case parse_value n s of None \<Rightarrow> None | Some (v, x) \<Rightarrow>
      (case expect (CHR '','') x of
         Some y \<Rightarrow> map_option (apfst (Cons v)) (parse_elems n y)
       | None \<Rightarrow> map_option (Pair [v]) (expect (CHR '']'') x)))"

text \<open>A whole document: one value, then white space.\<close>

definition json_read :: "string \<Rightarrow> jval option" where
  "json_read s = (case parse_value (Suc (length s)) s of None \<Rightarrow> None
     | Some (v, r) \<Rightarrow> if list_all is_space r then Some v else None)"

section \<open>Strings read back\<close>

lemma unhex_hex: "n < 16 \<Longrightarrow> unhex (hex ! n) = Some n"
proof -
  have "\<forall>n \<in> set [0..<16]. unhex (hex ! n) = Some n"
    by (simp add: upt_conv_Cons hex_def unhex_def is_digit_def byte_def)
  then show "n < 16 \<Longrightarrow> ?thesis" by simp
qed

lemma parse_chars_escape:
  "parse_chars (json_escape c @ t) = map_option (apfst (Cons c)) (parse_chars t)"
proof -
  have u: "byte c < 32 \<Longrightarrow> unescape (CHR ''u'' # CHR ''0'' # CHR ''0'' # hex ! (byte c div 16) #
      hex ! (byte c mod 16) # t) = Some (c, t)"
  proof -
    assume lt: "byte c < 32"
    have zero: "unhex (CHR ''0'') = Some 0" by (simp add: unhex_def is_digit_def byte_def)
    have "unhex (hex ! (byte c div 16)) = Some (byte c div 16)"
      and "unhex (hex ! (byte c mod 16)) = Some (byte c mod 16)"
      using lt by (simp_all add: unhex_hex)
    moreover have "char_of (byte c) = c" by (simp add: byte_def)
    ultimately show ?thesis using lt
      by (simp add: unescape_def zero Let_def)
  qed
  have "unescape (e # t) = Some (c, t)"
    if "(e, c) \<in> {(DQUOTE, DQUOTE), (BSLASH, BSLASH), (CHR ''n'', LF), (CHR ''t'', TAB), (CHR ''r'', CR),
      (CHR ''b'', CHR 0x08), (CHR ''f'', CHR 0x0C)}" for e
    using that by (auto simp: unescape_def)
  then show ?thesis by (auto simp: json_escape_def u)
qed

lemma parse_chars_escapes:
  "parse_chars (concat (map json_escape s) @ DQUOTE # rest) = Some (s, rest)"
  by (induction s) (simp_all add: parse_chars_escape)

section \<open>Values read back\<close>

fun jval_ok :: "jval \<Rightarrow> bool" where
  "jval_ok (JObj ms) = (\<forall>m \<in> set ms. jval_ok (snd m))"
| "jval_ok (JArr vs) = (\<forall>v \<in> set vs. jval_ok v)"
| "jval_ok (JNum t) = json_number t"
| "jval_ok _ = True"

text \<open>A text that ends a number: nothing, or a byte that cannot continue one.\<close>

definition ends_number :: "string \<Rightarrow> bool" where
  "ends_number s \<longleftrightarrow> s = [] \<or> \<not> num_char (hd s)"

lemma json_exp_chars: "json_exp s \<Longrightarrow> list_all num_char s"
  by (auto simp: json_exp_def num_char_def Let_def list_all_iff split: list.splits if_splits)

lemma digits_num_chars: "list_all num_char (dropWhile is_digit s) \<Longrightarrow> list_all num_char s"
  by (induction s) (auto simp: num_char_def split: if_splits)

lemma json_frac_chars: "json_frac s \<Longrightarrow> list_all num_char s"
  by (auto simp: json_frac_def split: list.splits if_splits
      dest: json_exp_chars digits_num_chars [OF json_exp_chars])
    (simp_all add: num_char_def)

lemma json_unsigned_chars: "json_unsigned s \<Longrightarrow> list_all num_char s \<and> s \<noteq> [] \<and> is_digit (hd s)"
  using digits_num_chars [OF json_frac_chars, of s]
  by (cases s) (auto simp: json_unsigned_def Let_def split: if_splits)

lemma json_number_chars:
  assumes "json_number s"
  shows "list_all num_char s" and "\<exists>c t. s = c # t \<and> (is_digit c \<or> c = CHR ''-'')"
proof -
  obtain c t where s: "s = c # t" using assms by (cases s) (auto simp: json_number_def)
  show "list_all num_char s" "\<exists>c t. s = c # t \<and> (is_digit c \<or> c = CHR ''-'')"
    using assms json_unsigned_chars [of t] json_unsigned_chars [of s]
    by (auto simp: json_number_def s num_char_def split: if_splits)
qed

lemma takeWhile_num: "list_all P t \<Longrightarrow> rest = [] \<or> \<not> P (hd rest) \<Longrightarrow>
    takeWhile P (t @ rest) = t \<and> dropWhile P (t @ rest) = rest"
  by (induction t) (auto simp: list_all_iff, (cases rest; auto)+)

lemma parse_number:
  assumes "json_number t" and "ends_number rest"
  shows "parse_value (Suc n) (t @ rest) = Some (JNum t, rest)"
proof -
  obtain c u where t: "t = c # u" and c: "is_digit c \<or> c = CHR ''-''"
    using json_number_chars(2) [OF assms(1)] by auto
  have ne: "c \<noteq> CHR ''{''" "c \<noteq> CHR ''[''" "c \<noteq> DQUOTE" "c \<noteq> CHR ''t''" "c \<noteq> CHR ''f''" "c \<noteq> CHR ''n''"
    using c by (auto simp: is_digit_def byte_def)
  have "takeWhile num_char (t @ rest) = t" "dropWhile num_char (t @ rest) = rest"
    using takeWhile_num [OF json_number_chars(1) [OF assms(1)], of rest] assms(2)
    by (auto simp: ends_number_def)
  with ne assms(1) show ?thesis by (simp add: t Let_def)
qed

lemma json_text_head:
  "jval_ok v \<Longrightarrow> \<exists>c t. json_text v = c # t \<and> c \<noteq> CHR '']''"
  using json_number_chars(2) by (cases v) (fastforce simp: quoted_def is_digit_def byte_def)+

lemma parse_members_text:
  assumes "\<And>m n rest. m \<in> set ms \<Longrightarrow> length (json_text (snd m)) \<le> n \<Longrightarrow> ends_number rest \<Longrightarrow>
      parse_value (Suc n) (json_text (snd m) @ rest) = Some (snd m, rest)"
    and "ms \<noteq> []" and "length (join_commas (map member_text ms)) \<le> n"
  shows "parse_members (Suc n) (join_commas (map member_text ms) @ CHR ''}'' # rest) = Some (ms, rest)"
  using assms
proof (induction ms arbitrary: n rule: induct_list012)
  case 1
  then show ?case by simp
next
  case (2 m)
  then obtain n' where n: "n = Suc n'" by (cases n) (auto simp: quoted_def)
  have "parse_value n (json_text (snd m) @ CHR ''}'' # rest) = Some (snd m, CHR ''}'' # rest)"
    unfolding n using 2 n by (intro "2.prems"(1)) (auto simp: quoted_def ends_number_def num_char_def is_digit_def byte_def)
  then show ?case
    by (simp add: quoted_def expect_def parse_chars_escapes)
next
  case (3 m m' ms)
  let ?more = "join_commas (map member_text (m' # ms))"
  obtain n' where n: "n = Suc n'" using "3.prems"(3) by (cases n) (auto simp: quoted_def)
  have v: "parse_value n (json_text (snd m) @ CHR '','' # ?more @ CHR ''}'' # rest) =
      Some (snd m, CHR '','' # ?more @ CHR ''}'' # rest)"
    unfolding n using "3.prems" n
    by (intro "3.prems"(1)) (auto simp: quoted_def ends_number_def num_char_def is_digit_def byte_def)
  have "parse_members n (?more @ CHR ''}'' # rest) = Some (m' # ms, rest)"
    unfolding n using "3.prems" n by (intro "3.IH"(2)) (auto simp: quoted_def)
  with v show ?case
    by (simp add: quoted_def expect_def parse_chars_escapes)
qed

lemma parse_elems_text:
  assumes "\<And>v n rest. v \<in> set vs \<Longrightarrow> length (json_text v) \<le> n \<Longrightarrow> ends_number rest \<Longrightarrow>
      parse_value (Suc n) (json_text v @ rest) = Some (v, rest)"
    and "vs \<noteq> []" and "length (join_commas (map json_text vs)) < n"
  shows "parse_elems (Suc n) (join_commas (map json_text vs) @ CHR '']'' # rest) = Some (vs, rest)"
  using assms
proof (induction vs arbitrary: n rule: induct_list012)
  case 1
  then show ?case by simp
next
  case (2 v)
  then obtain n' where n: "n = Suc n'" by (cases n) auto
  have "parse_value n (json_text v @ CHR '']'' # rest) = Some (v, CHR '']'' # rest)"
    unfolding n using 2 n by (intro "2.prems"(1)) (auto simp: ends_number_def num_char_def is_digit_def byte_def)
  then show ?case by (simp add: expect_def)
next
  case (3 v v' vs)
  let ?more = "join_commas (map json_text (v' # vs))"
  obtain n' where n: "n = Suc n'" using "3.prems"(3) by (cases n) auto
  have v: "parse_value n (json_text v @ CHR '','' # ?more @ CHR '']'' # rest) =
      Some (v, CHR '','' # ?more @ CHR '']'' # rest)"
    unfolding n using "3.prems" n
    by (intro "3.prems"(1)) (auto simp: ends_number_def num_char_def is_digit_def byte_def)
  have "parse_elems n (?more @ CHR '']'' # rest) = Some (v' # vs, rest)"
    unfolding n using "3.prems" n by (intro "3.IH"(2)) auto
  with v show ?case by (simp add: expect_def)
qed

lemma parse_value_text:
  "jval_ok v \<Longrightarrow> length (json_text v) \<le> n \<Longrightarrow> ends_number rest \<Longrightarrow>
     parse_value (Suc n) (json_text v @ rest) = Some (v, rest)"
proof (induction v arbitrary: n rest rule: json_text.induct)
  case (1 ms)
  then obtain n' where n: "n = Suc n'" by (cases n) auto
  show ?case
  proof (cases "ms = []")
    case True
    then show ?thesis by (simp add: expect_def)
  next
    case False
    then obtain t where t: "join_commas (map member_text ms) = DQUOTE # t"
        by (cases ms; cases "tl ms") (auto simp: quoted_def)
    have "parse_members (Suc n') (join_commas (map member_text ms) @ CHR ''}'' # rest) = Some (ms, rest)"
      using 1 False n by (intro parse_members_text) auto
    then show ?thesis by (simp add: t n expect_def del: parse_members.simps)
  qed
next
  case (2 vs)
  then obtain n' where n: "n = Suc n'" by (cases n) auto
  show ?case
  proof (cases "vs = []")
    case True
    then show ?thesis by (simp add: expect_def)
  next
    case False
    then obtain v vs' where vs: "vs = v # vs'" by (cases vs) auto
    obtain c t where t: "json_text v = c # t" "c \<noteq> CHR '']''"
      using json_text_head "2.prems"(1) vs by fastforce
    then obtain t' where t': "join_commas (map json_text vs) = c # t'"
      by (cases vs') (auto simp: vs)
    have "parse_elems (Suc n') (join_commas (map json_text vs) @ CHR '']'' # rest) = Some (vs, rest)"
      using 2 False n by (intro parse_elems_text) auto
    with t t' show ?thesis by (simp add: n expect_def del: parse_elems.simps)
  qed
next
  case (3 s)
  then show ?case by (simp add: quoted_def parse_chars_escapes)
next
  case (4 t)
  then show ?case using parse_number by simp
qed auto

text \<open>Reading the text of a value, followed by white space, gives the value.\<close>

lemma json_read_text:
  assumes "jval_ok v" and "list_all is_space ws"
  shows "json_read (json_text v @ ws) = Some v"
proof -
  have "ends_number ws"
    using assms(2) by (cases ws) (auto simp: ends_number_def num_char_def is_space_def is_digit_def byte_def)
  then have "parse_value (Suc (length (json_text v @ ws))) (json_text v @ ws) = Some (v, ws)"
    using assms(1) by (intro parse_value_text) auto
  with assms(2) show ?thesis by (simp add: json_read_def del: parse_value.simps)
qed

section \<open>The numbers the writer prints\<close>

lemma json_unsignedI:
  assumes "list_all is_digit ip" "ip \<noteq> []" "length ip = 1 \<or> hd ip \<noteq> CHR ''0''"
    and "rest = [] \<or> \<not> is_digit (hd rest)" "json_frac rest"
  shows "json_unsigned (ip @ rest)"
  using takeWhile_num [OF assms(1), of rest] assms by (auto simp: json_unsigned_def Let_def)

lemma json_fracI:
  assumes "list_all is_digit fp" "fp \<noteq> []" "rest = [] \<or> \<not> is_digit (hd rest)" "json_exp rest"
  shows "json_frac (CHR ''.'' # fp @ rest)"
  using takeWhile_num [OF assms(1), of rest] assms by (auto simp: json_frac_def)

lemma json_number_unsigned: "json_unsigned s \<Longrightarrow> json_number s"
proof -
  assume u: "json_unsigned s"
  from json_unsigned_chars [OF u] obtain c t where "s = c # t" "is_digit c" by (cases s) auto
  moreover have "c \<noteq> CHR ''-''" using \<open>is_digit c\<close> by (auto simp: is_digit_def byte_def)
  ultimately show ?thesis using u by (simp add: json_number_def)
qed

lemma json_number_minus: "json_unsigned s \<Longrightarrow> json_number (CHR ''-'' # s)"
  by (simp add: json_number_def)

lemma dec_head_ok: "length (dec n) = 1 \<or> hd (dec n) \<noteq> CHR ''0''"
  by (cases "n = 0") (simp_all add: dec_hd)

lemma json_unsigned_dec: "json_unsigned (dec n)"
  using json_unsignedI [of "dec n" "[]"] dec_head_ok [of n] by (simp add: json_frac_def)

lemma json_number_dec [simp]: "json_number (dec n)"
  by (rule json_number_unsigned [OF json_unsigned_dec])

lemma json_number_dec_int [simp]: "json_number (dec_int i)"
  by (simp add: dec_int_def json_number_minus json_unsigned_dec)

lemma json_unsigned_fixed: "json_unsigned (fixed_text x c q)"
proof -
  let ?ds = "dec c" and ?k = "nat (- q)"
  consider (whole) "0 \<le> q" | (split) "q < 0" "?k < length ?ds" | (small) "q < 0" "length ?ds \<le> ?k"
    by linarith
  then show ?thesis
  proof cases
    case whole
    then show ?thesis by (simp add: fixed_text_def json_unsigned_dec)
  next
    case split
    let ?i = "length ?ds - ?k"
    have pos: "0 < ?k" "0 < ?i" using split by auto
    have "length (take ?i ?ds) = 1 \<or> hd (take ?i ?ds) \<noteq> CHR ''0''"
      using dec_head_ok [of c] pos split by (auto simp: hd_take)
    moreover have "list_all is_digit (take ?i ?ds)" "list_all is_digit (drop ?i ?ds)"
      using dec_all_digits [of c] by (auto simp: list_all_iff dest: in_set_takeD in_set_dropD)
    moreover have "json_frac (CHR ''.'' # drop ?i ?ds)"
      using json_fracI [of "drop ?i ?ds" "[]"] calculation(3) pos by (simp add: json_exp_def)
    ultimately have "json_unsigned (take ?i ?ds @ CHR ''.'' # drop ?i ?ds)"
      using pos by (intro json_unsignedI) (auto simp: is_digit_def byte_def)
    with split show ?thesis by (simp add: fixed_text_def Let_def)
  next
    case small
    let ?z = "replicate (?k - length ?ds) (CHR ''0'')"
    have "is_digit (CHR ''0'')" by (simp add: is_digit_def byte_def)
    then have "list_all is_digit (?z @ ?ds)" by (auto simp: list_all_iff dest: dec_digits)
    then have "json_frac (CHR ''.'' # ?z @ ?ds)"
      using json_fracI [of "?z @ ?ds" "[]"] by (simp add: json_exp_def)
    then have "json_unsigned (''0'' @ CHR ''.'' # ?z @ ?ds)"
      by (intro json_unsignedI) (auto simp: is_digit_def byte_def)
    with small show ?thesis by (simp add: fixed_text_def Let_def)
  qed
qed

lemma json_exp_exp_text: "json_exp (exp_text e)" "\<not> is_digit (hd (exp_text e))" "exp_text e \<noteq> []"
  "hd (exp_text e) \<noteq> CHR ''.''"
  by (auto simp: exp_text_def json_exp_def Let_def is_digit_def byte_def)

lemma json_unsigned_sci: "json_unsigned (sci_text c q)"
proof -
  obtain d ds where ds: "dec c = d # ds" by (cases "dec c") auto
  have dig: "is_digit d" "list_all is_digit ds" using dec_all_digits [of c] by (auto simp: ds)
  define e where "e = exp_text (q + int (length ds))"
  have e: "json_exp e" "\<not> is_digit (hd e)" "e \<noteq> []" "hd e \<noteq> CHR ''.''"
    by (simp_all add: e_def json_exp_exp_text)
  have "json_frac (if ds = [] then e else CHR ''.'' # ds @ e)"
    using e dig json_fracI [of ds e] by (cases e) (auto simp: json_frac_def)
  then have "json_unsigned ([d] @ (if ds = [] then e else CHR ''.'' # ds @ e))"
    using dig e by (intro json_unsignedI) (auto simp: is_digit_def byte_def)
  then show ?thesis by (cases "ds = []") (simp_all add: sci_text_def ds Let_def e_def)
qed

lemma json_number_to_chars: "is_finite v \<Longrightarrow> json_number (to_chars v)"
proof (cases v)
  case (Num r)
  have "json_unsigned (pos_text x)" for x
    by (auto simp: pos_text_def json_unsigned_fixed json_unsigned_sci split: prod.splits)
  then show ?thesis
    using json_number_dec [of 0] by (simp add: Num json_number_minus json_number_unsigned)
next
  case NegZero
  then show ?thesis using json_number_minus [OF json_unsigned_dec, of 0] by simp
qed simp_all

lemma jval_ok_num_value [simp]: "jval_ok (num_value v)"
  by (auto simp: num_value_def montauk_fmt_double_def Let_def json_number_to_chars split: if_splits)

section \<open>Properties\<close>

text \<open>C5: reading back. Any document built by legal calls of the writer, however nested up to the writer's
  limit and whatever bytes its strings hold, is read back by the JSON reader as the value the calls
  describe.\<close>

theorem json_writer_round_trip:
  assumes "length garbage = MONTAUK_JSON_MAX_DEPTH" and "\<forall>k. alloc k"
    and "spec_ops ops ([], None) = Some ([], Some v)" and "jval_ok v"
  shows "json_read (sk_data (j_sink (fold exec_op ops
      (montauk_json_init garbage (montauk_sink_init alloc fd))))) = Some v"
proof -
  have "json_rel (montauk_json_init garbage (montauk_sink_init alloc fd)) ([], None)"
    using assms(1,2) by (intro json_rel_init) (simp_all add: no_oom_def montauk_sink_init_def)
  from mj.run_text [OF this assms(3)] show ?thesis
    using json_read_text [OF assms(4), of "[]"] by simp
qed

theorem json_writer_round_trip_witness:
  "json_read (sk_data (j_sink (fold exec_op
      [OpObjBegin, OpKey ''a'', OpArrBegin, OpStr [DQUOTE, LF], OpBool True, OpArrEnd, OpObjEnd]
      (montauk_json_init (replicate 32 True) (montauk_sink_init (\<lambda>_. True) 1))))) =
    Some (JObj [(''a'', JArr [JStr [DQUOTE, LF], JBool True])])"
  by (rule json_writer_round_trip)
    (simp_all add: MONTAUK_JSON_MAX_DEPTH_def open_frame_def c_str_def)

end
