(* ===== verification/Model.thy ===== *)
theory Model
  imports Ieee
begin

text \<open>
  The typed result every surface renders: the structs of \<open>include/model/*.hpp\<close> and the bounded
  copies of \<open>include/app/MetricsServer.hpp\<close>, field for field. Record fields carry a short prefix
  for their struct. Fixed \<open>char\<close> arrays are byte strings of that length, read up to their first NUL.
\<close>

section \<open>Processor, counters, memory\<close>

record CpuTimes =
  ct_user :: u64
  ct_nice :: u64
  ct_system :: u64
  ct_idle :: u64
  ct_iowait :: u64
  ct_irq :: u64
  ct_softirq :: u64
  ct_steal :: u64

definition CpuTimes_total :: "CpuTimes \<Rightarrow> u64" where
  "CpuTimes_total t = ct_user t + ct_nice t + ct_system t + ct_idle t + ct_iowait t + ct_irq t +
     ct_softirq t + ct_steal t"

definition CpuTimes_work :: "CpuTimes \<Rightarrow> u64" where
  "CpuTimes_work t = ct_user t + ct_nice t + ct_system t + ct_irq t + ct_softirq t + ct_steal t"

record CpuSnapshot =
  cpu_total_times :: CpuTimes
  cpu_per_core :: "CpuTimes list"
  cpu_usage_pct :: dbl
  cpu_changepoint_score :: dbl
  cpu_per_core_pct :: "dbl list"
  cpu_model :: string
  cpu_physical_cores :: i32
  cpu_logical_threads :: i32
  cpu_has_freq :: bool
  cpu_freq_avg_mhz :: dbl
  cpu_pct_user :: dbl
  cpu_pct_system :: dbl
  cpu_pct_iowait :: dbl
  cpu_pct_irq :: dbl
  cpu_pct_steal :: dbl
  cpu_ctxt_per_sec :: dbl
  cpu_intr_per_sec :: dbl

record DomainL3 =
  dl3_domain_cpu :: i32
  dl3_accesses :: u64
  dl3_misses :: u64
  dl3_miss_pct :: dbl

record ProcCounters =
  pc_pid :: i32
  pc_comm :: string
  pc_instructions :: u64
  pc_cycles :: u64
  pc_dtlb_load_misses :: u64
  pc_cache_misses :: u64
  pc_ipc :: dbl
  pc_instructions_total :: u64
  pc_cycles_total :: u64
  pc_dtlb_load_misses_total :: u64
  pc_cache_misses_total :: u64
  pc_dtlb_misses_per_kilo_instr :: dbl
  pc_cache_misses_per_kilo_instr :: dbl

record PmuSnapshot =
  pmu_available :: bool
  pmu_l3_available :: bool
  pmu_nr_cpus :: i32
  pmu_l2_misses :: u64
  pmu_l2_refs :: u64
  pmu_instructions :: u64
  pmu_cycles :: u64
  pmu_context_switches :: u64
  pmu_cpu_migrations :: u64
  pmu_branch_misses :: u64
  pmu_dtlb_load_misses :: u64
  pmu_cache_misses :: u64
  pmu_instructions_total :: u64
  pmu_cycles_total :: u64
  pmu_context_switches_total :: u64
  pmu_cpu_migrations_total :: u64
  pmu_branch_misses_total :: u64
  pmu_l2_misses_total :: u64
  pmu_dtlb_load_misses_total :: u64
  pmu_cache_misses_total :: u64
  pmu_context_switches_per_sec :: dbl
  pmu_cpu_migrations_per_sec :: dbl
  pmu_branch_misses_per_sec :: dbl
  pmu_ipc :: dbl
  pmu_l2_miss_pct :: dbl
  pmu_cycles_per_l2_miss :: dbl
  pmu_per_cpu_ids :: "i32 list"
  pmu_per_cpu_l2_misses :: "u64 list"
  pmu_per_cpu_l2_refs :: "u64 list"
  pmu_per_cpu_instructions :: "u64 list"
  pmu_per_cpu_cycles :: "u64 list"
  pmu_l3_per_cache_domain :: "DomainL3 list"
  pmu_l3_accesses_total :: u64
  pmu_l3_misses_total :: u64
  pmu_per_process_available :: bool
  pmu_per_process_user_only :: bool
  pmu_per_process :: "ProcCounters list"
  pmu_interval_s :: dbl
  pmu_instructions_per_sec :: dbl
  pmu_cycles_per_sec :: dbl
  pmu_l2_misses_per_sec :: dbl

record Memory =
  mem_total_kb :: u64
  mem_used_kb :: u64
  mem_available_kb :: u64
  mem_cached_kb :: u64
  mem_buffers_kb :: u64
  mem_swap_total_kb :: u64
  mem_swap_used_kb :: u64
  mem_used_pct :: dbl

section \<open>Graphics, network, disks, sensors\<close>

record GpuVramDevice =
  gd_name :: string
  gd_total_mb :: u64
  gd_used_mb :: u64
  gd_has_temp_edge :: bool
  gd_temp_edge_c :: dbl
  gd_has_temp_hotspot :: bool
  gd_temp_hotspot_c :: dbl
  gd_has_temp_mem :: bool
  gd_temp_mem_c :: dbl
  gd_has_thr_edge :: bool
  gd_thr_edge_c :: dbl
  gd_has_thr_hotspot :: bool
  gd_thr_hotspot_c :: dbl
  gd_has_thr_mem :: bool
  gd_thr_mem_c :: dbl
  gd_has_fan :: bool
  gd_fan_speed_pct :: dbl

record GpuVram =
  gpu_devices :: "GpuVramDevice list"
  gpu_total_mb :: u64
  gpu_used_mb :: u64
  gpu_used_pct :: dbl
  gpu_name :: string
  gpu_has_power :: bool
  gpu_power_draw_w :: dbl
  gpu_has_power_limit :: bool
  gpu_power_limit_w :: dbl
  gpu_has_pstate :: bool
  gpu_pstate :: i32
  gpu_has_util :: bool
  gpu_gpu_util_pct :: dbl
  gpu_has_mem_util :: bool
  gpu_mem_util_pct :: dbl
  gpu_has_encdec :: bool
  gpu_enc_util_pct :: dbl
  gpu_dec_util_pct :: dbl

record NetIf =
  if_name :: string
  if_rx_bytes :: u64
  if_tx_bytes :: u64
  if_rx_bps :: dbl
  if_tx_bps :: dbl
  if_last_ts :: dbl

record NetSnapshot =
  net_interfaces :: "NetIf list"
  net_agg_rx_bps :: dbl
  net_agg_tx_bps :: dbl

record DiskDev =
  dd_name :: string
  dd_read_bps :: dbl
  dd_write_bps :: dbl
  dd_util_pct :: dbl

record DiskSnapshot =
  disk_devices :: "DiskDev list"
  disk_total_read_bps :: dbl
  disk_total_write_bps :: dbl

record FsMount =
  fm_device :: string
  fm_mountpoint :: string
  fm_fstype :: string
  fm_total_bytes :: u64
  fm_used_bytes :: u64
  fm_avail_bytes :: u64
  fm_used_pct :: dbl

record FsSnapshot =
  fs_mounts :: "FsMount list"

record CpuIdleState =
  cs_name :: string
  cs_residency_pct :: dbl

record Thermal =
  th_has_temp :: bool
  th_cpu_max_c :: dbl
  th_has_warn :: bool
  th_warn_c :: dbl
  th_has_fan :: bool
  th_fan_rpm :: dbl
  th_has_power :: bool
  th_power_watts :: dbl
  th_has_energy :: bool
  th_energy_joules_total :: dbl
  th_cstates :: "CpuIdleState list"

record ProviderMetric =
  pm_name :: string
  pm_labels :: string
  pm_value :: dbl

record Provider =
  pv_name :: string
  pv_raw_text :: string
  pv_metrics :: "ProviderMetric list"

section \<open>Processes\<close>

datatype ChurnReason = ChurnNone | ReadFailed

record ProcSample =
  ps_pid :: i32
  ps_total_time :: u64
  ps_rss_kb :: u64
  ps_cpu_pct :: dbl
  ps_churn_reason :: ChurnReason
  ps_has_gpu_util :: bool
  ps_gpu_util_pct :: dbl
  ps_has_gpu_mem :: bool
  ps_gpu_mem_kb :: u64
  ps_user_name :: string
  ps_cmd :: string
  ps_exe_path :: string
  ps_flt_raw :: u64
  ps_thread_count :: i32
  ps_vctx_raw :: u64
  ps_nvctx_raw :: u64
  ps_fault_delta :: dbl
  ps_ctxsw_delta :: dbl
  ps_anomaly_score :: dbl
  ps_anomaly_axis :: i8

record ProcessSnapshot =
  pr_processes :: "ProcSample list"
  pr_total_processes :: u64
  pr_running_processes :: u64
  pr_enriched_count :: u64
  pr_tracked_count :: u64
  pr_state_running :: u64
  pr_state_sleeping :: u64
  pr_state_zombie :: u64
  pr_total_threads :: u64
  pr_anomaly_axis_mask :: u32

section \<open>The snapshot\<close>

record AlertItem =
  ai_severity :: string
  ai_message :: string

record ChurnDiag =
  cd_recent_2s_events :: int
  cd_recent_2s_proc :: int
  cd_recent_2s_sys :: int

record NvmlDiag =
  nv_available :: bool
  nv_devices :: i32
  nv_running_pids :: i32
  nv_sampled_pids :: i32
  nv_sample_age_ms :: u64
  nv_last_error :: i32
  nv_mig_enabled :: bool
  nv_driver_version :: string
  nv_nvml_version :: string
  nv_cuda_version :: string

record Snapshot =
  sn_seq :: u64
  sn_cpu :: CpuSnapshot
  sn_pmu :: PmuSnapshot
  sn_mem :: Memory
  sn_vram :: GpuVram
  sn_net :: NetSnapshot
  sn_disk :: DiskSnapshot
  sn_fs :: FsSnapshot
  sn_providers :: "Provider list"
  sn_procs :: ProcessSnapshot
  sn_alerts :: "AlertItem list"
  sn_thermal :: Thermal
  sn_nvml :: NvmlDiag
  sn_churn :: ChurnDiag
  sn_collector_name :: string

section \<open>The bounded snapshot for serialization\<close>

record AnomalyFeatureRow =
  af_pid :: i64
  af_cpu_pct :: dbl
  af_rss_kb :: dbl
  af_gpu_util_pct :: dbl
  af_fault_delta :: dbl
  af_thread_count :: dbl
  af_ctxsw_delta :: dbl
  af_anomaly_score :: dbl
  af_anomaly_axis :: i32
  af_comm :: string

definition MAX_TOP_PROCS :: nat where
  "MAX_TOP_PROCS = 64"

text \<open>\<open>top_procs\<close> is the fixed array; its first \<open>top_procs_count\<close> slots are in use.\<close>

record MetricsSnapshot =
  ms_cpu :: CpuSnapshot
  ms_pmu :: PmuSnapshot
  ms_mem :: Memory
  ms_vram :: GpuVram
  ms_net :: NetSnapshot
  ms_disk :: DiskSnapshot
  ms_fs :: FsSnapshot
  ms_providers :: "Provider list"
  ms_thermal :: Thermal
  ms_total_processes :: u64
  ms_running_processes :: u64
  ms_state_sleeping :: u64
  ms_state_zombie :: u64
  ms_total_threads :: u64
  ms_top_procs :: "ProcSample list"
  ms_top_procs_count :: nat
  ms_anomaly_features :: "AnomalyFeatureRow list"
  ms_anomaly_axis_mask :: u32

definition empty_ProcSample :: ProcSample where
  "empty_ProcSample =
     \<lparr>ps_pid = 0, ps_total_time = 0, ps_rss_kb = 0, ps_cpu_pct = Num 0, ps_churn_reason = ChurnNone,
      ps_has_gpu_util = False, ps_gpu_util_pct = Num 0, ps_has_gpu_mem = False, ps_gpu_mem_kb = 0,
      ps_user_name = [], ps_cmd = [], ps_exe_path = [], ps_flt_raw = 0, ps_thread_count = 1,
      ps_vctx_raw = 0, ps_nvctx_raw = 0, ps_fault_delta = Num 0, ps_ctxsw_delta = Num 0,
      ps_anomaly_score = Num 0, ps_anomaly_axis = - 1\<rparr>"

text \<open>
  The program name of a row (lines 122 to 130 of \<open>MetricsServer.hpp\<close>): the first token of the
  command line, its basename when it is an absolute path, at most 15 bytes, NUL padded to 16.
\<close>

definition first_token :: "string \<Rightarrow> string" where
  "first_token cmd = takeWhile (\<lambda>c. c \<noteq> SPACE \<and> c \<noteq> TAB \<and> c \<noteq> LF) cmd"

definition program_name :: "string \<Rightarrow> string" where
  "program_name cmd =
     (let name = first_token cmd
      in if starts_with name ''/''
         then (case rfind_char (CHR ''/'') name of None \<Rightarrow> name
               | Some slash \<Rightarrow> if slash + 1 < length name then drop (slash + 1) name else name)
         else name)"

definition row_comm :: "string \<Rightarrow> string" where
  "row_comm cmd =
     (let name = program_name cmd; n = min (length name) 15
      in take n name @ replicate (16 - n) NUL)"

definition anomaly_row :: "ProcSample \<Rightarrow> AnomalyFeatureRow" where
  "anomaly_row p =
     \<lparr>af_pid = scast (ps_pid p), af_cpu_pct = ps_cpu_pct p,
      af_rss_kb = d_of_int (uint (ps_rss_kb p)),
      af_gpu_util_pct = (if ps_has_gpu_util p then ps_gpu_util_pct p else Num 0),
      af_fault_delta = ps_fault_delta p, af_thread_count = d_of_int (sint (ps_thread_count p)),
      af_ctxsw_delta = ps_ctxsw_delta p, af_anomaly_score = ps_anomaly_score p,
      af_anomaly_axis = scast (ps_anomaly_axis p), af_comm = row_comm (ps_cmd p)\<rparr>"

definition read_metrics_snapshot :: "Snapshot \<Rightarrow> MetricsSnapshot" where
  "read_metrics_snapshot s =
     (let ps = pr_processes (sn_procs s); n = min (length ps) MAX_TOP_PROCS
      in \<lparr>ms_cpu = sn_cpu s, ms_pmu = sn_pmu s, ms_mem = sn_mem s, ms_vram = sn_vram s,
          ms_net = sn_net s, ms_disk = sn_disk s, ms_fs = sn_fs s, ms_providers = sn_providers s,
          ms_thermal = sn_thermal s,
          ms_total_processes = pr_total_processes (sn_procs s),
          ms_running_processes = pr_running_processes (sn_procs s),
          ms_state_sleeping = pr_state_sleeping (sn_procs s),
          ms_state_zombie = pr_state_zombie (sn_procs s),
          ms_total_threads = pr_total_threads (sn_procs s),
          ms_top_procs = take n ps @ replicate (MAX_TOP_PROCS - n) empty_ProcSample,
          ms_top_procs_count = n,
          ms_anomaly_features = map anomaly_row ps,
          ms_anomaly_axis_mask = pr_anomaly_axis_mask (sn_procs s)\<rparr>)"

section \<open>The trace snapshot\<close>

record ThreadSample =
  ts_pid :: i32
  ts_tid :: i32
  ts_state :: char
  ts_cpu_pct :: dbl
  ts_utime :: u64
  ts_stime :: u64
  ts_syscall_nr :: i32
  ts_syscall_arg1 :: u64
  ts_syscall_arg2 :: u64
  ts_comm :: string
  ts_wchan :: string
  ts_syscall_name :: string
  ts_io_fd :: i32
  ts_io_count :: u64
  ts_io_whence :: u32
  ts_io_result :: i64
  ts_io_timestamp_ns :: u64
  ts_cur_cpu :: i32
  ts_migrations :: u64

record FdSample =
  fd_pid :: i32
  fd_num :: i32
  fd_target :: string

record TracedProcess =
  tp_pid :: i32
  tp_ppid :: i32
  tp_is_root :: bool
  tp_exited :: bool
  tp_exit_code :: i32
  tp_fork_ts :: u64
  tp_exec_ts :: u64
  tp_exit_ts :: u64
  tp_cmd :: string
  tp_exec_file :: string

record NtsyncSample =
  ns_pid :: i32
  ns_tid :: i32
  ns_op :: u8
  ns_fd :: i32
  ns_result :: i64
  ns_timestamp_ns :: u64
  ns_arg0 :: u32
  ns_arg1 :: u32
  ns_timeout_ns :: u64
  ns_wait_count :: u32
  ns_wait_index :: u32
  ns_wait_owner :: u32
  ns_wait_alert :: u32
  ns_wait_fds :: "u32 list"
  ns_comm :: string

text \<open>The arrays with their element counts; \<open>sched_op_total\<close> has seven slots.\<close>

record TraceSnapshot =
  t_procs :: "TracedProcess list"
  t_procs_count :: nat
  t_threads :: "ThreadSample list"
  t_thread_count :: nat
  t_fds :: "FdSample list"
  t_fd_count :: nat
  t_ntsync_events :: "NtsyncSample list"
  t_ntsync_count :: nat
  t_sched_op_total :: "u64 list"
  t_mig_intra_domain :: u64
  t_mig_cross_domain :: u64
  t_mig_unknown_domain :: u64
  t_mig_intra_wake :: u64
  t_mig_intra_steal :: u64
  t_mig_cross_wake :: u64
  t_mig_cross_steal :: u64
  t_waiting_for_match :: bool
  t_seq :: u64

section \<open>Zeroed snapshots\<close>

definition empty_CpuTimes :: CpuTimes where
  "empty_CpuTimes =
     \<lparr>ct_user = 0, ct_nice = 0, ct_system = 0, ct_idle = 0, ct_iowait = 0, ct_irq = 0,
      ct_softirq = 0, ct_steal = 0\<rparr>"

definition empty_CpuSnapshot :: CpuSnapshot where
  "empty_CpuSnapshot =
     \<lparr>cpu_total_times = empty_CpuTimes, cpu_per_core = [], cpu_usage_pct = Num 0,
      cpu_changepoint_score = Num 0, cpu_per_core_pct = [], cpu_model = [],
      cpu_physical_cores = 0, cpu_logical_threads = 0, cpu_has_freq = False,
      cpu_freq_avg_mhz = Num 0, cpu_pct_user = Num 0, cpu_pct_system = Num 0,
      cpu_pct_iowait = Num 0, cpu_pct_irq = Num 0, cpu_pct_steal = Num 0,
      cpu_ctxt_per_sec = Num 0, cpu_intr_per_sec = Num 0\<rparr>"

definition empty_PmuSnapshot :: PmuSnapshot where
  "empty_PmuSnapshot =
     \<lparr>pmu_available = False, pmu_l3_available = False, pmu_nr_cpus = 0, pmu_l2_misses = 0,
      pmu_l2_refs = 0, pmu_instructions = 0, pmu_cycles = 0, pmu_context_switches = 0,
      pmu_cpu_migrations = 0, pmu_branch_misses = 0, pmu_dtlb_load_misses = 0,
      pmu_cache_misses = 0, pmu_instructions_total = 0, pmu_cycles_total = 0,
      pmu_context_switches_total = 0, pmu_cpu_migrations_total = 0, pmu_branch_misses_total = 0,
      pmu_l2_misses_total = 0, pmu_dtlb_load_misses_total = 0, pmu_cache_misses_total = 0,
      pmu_context_switches_per_sec = Num 0, pmu_cpu_migrations_per_sec = Num 0,
      pmu_branch_misses_per_sec = Num 0, pmu_ipc = Num 0, pmu_l2_miss_pct = Num 0,
      pmu_cycles_per_l2_miss = Num 0, pmu_per_cpu_ids = [], pmu_per_cpu_l2_misses = [],
      pmu_per_cpu_l2_refs = [], pmu_per_cpu_instructions = [], pmu_per_cpu_cycles = [],
      pmu_l3_per_cache_domain = [], pmu_l3_accesses_total = 0, pmu_l3_misses_total = 0,
      pmu_per_process_available = False, pmu_per_process_user_only = False, pmu_per_process = [],
      pmu_interval_s = Num 0, pmu_instructions_per_sec = Num 0, pmu_cycles_per_sec = Num 0,
      pmu_l2_misses_per_sec = Num 0\<rparr>"

definition empty_Memory :: Memory where
  "empty_Memory =
     \<lparr>mem_total_kb = 0, mem_used_kb = 0, mem_available_kb = 0, mem_cached_kb = 0,
      mem_buffers_kb = 0, mem_swap_total_kb = 0, mem_swap_used_kb = 0,
      mem_used_pct = Num 0\<rparr>"

definition empty_GpuVram :: GpuVram where
  "empty_GpuVram =
     \<lparr>gpu_devices = [], gpu_total_mb = 0, gpu_used_mb = 0, gpu_used_pct = Num 0,
      gpu_name = [], gpu_has_power = False, gpu_power_draw_w = Num 0, gpu_has_power_limit = False,
      gpu_power_limit_w = Num 0, gpu_has_pstate = False, gpu_pstate = 0, gpu_has_util = False,
      gpu_gpu_util_pct = Num 0, gpu_has_mem_util = False, gpu_mem_util_pct = Num 0,
      gpu_has_encdec = False, gpu_enc_util_pct = Num 0, gpu_dec_util_pct = Num 0\<rparr>"

definition empty_NetSnapshot :: NetSnapshot where
  "empty_NetSnapshot =
     \<lparr>net_interfaces = [], net_agg_rx_bps = Num 0, net_agg_tx_bps = Num 0\<rparr>"

definition empty_DiskSnapshot :: DiskSnapshot where
  "empty_DiskSnapshot =
     \<lparr>disk_devices = [], disk_total_read_bps = Num 0, disk_total_write_bps = Num 0\<rparr>"

definition empty_FsSnapshot :: FsSnapshot where
  "empty_FsSnapshot =
     \<lparr>fs_mounts = []\<rparr>"

definition empty_Thermal :: Thermal where
  "empty_Thermal =
     \<lparr>th_has_temp = False, th_cpu_max_c = Num 0, th_has_warn = False, th_warn_c = Num 0,
      th_has_fan = False, th_fan_rpm = Num 0, th_has_power = False, th_power_watts = Num 0,
      th_has_energy = False, th_energy_joules_total = Num 0, th_cstates = []\<rparr>"

definition empty_MetricsSnapshot :: MetricsSnapshot where
  "empty_MetricsSnapshot =
     \<lparr>ms_cpu = empty_CpuSnapshot, ms_pmu = empty_PmuSnapshot, ms_mem = empty_Memory,
      ms_vram = empty_GpuVram, ms_net = empty_NetSnapshot, ms_disk = empty_DiskSnapshot,
      ms_fs = empty_FsSnapshot, ms_providers = [], ms_thermal = empty_Thermal,
      ms_total_processes = 0, ms_running_processes = 0, ms_state_sleeping = 0,
      ms_state_zombie = 0, ms_total_threads = 0, ms_top_procs = replicate MAX_TOP_PROCS empty_ProcSample, ms_top_procs_count = 0,
      ms_anomaly_features = [], ms_anomaly_axis_mask = 0\<rparr>"

definition empty_TraceSnapshot :: TraceSnapshot where
  "empty_TraceSnapshot =
     \<lparr>t_procs = [], t_procs_count = 0, t_threads = [], t_thread_count = 0, t_fds = [],
      t_fd_count = 0, t_ntsync_events = [], t_ntsync_count = 0, t_sched_op_total = replicate 7 0,
      t_mig_intra_domain = 0, t_mig_cross_domain = 0, t_mig_unknown_domain = 0,
      t_mig_intra_wake = 0, t_mig_intra_steal = 0, t_mig_cross_wake = 0, t_mig_cross_steal = 0,
      t_waiting_for_match = False, t_seq = 0\<rparr>"

definition empty_ProcessSnapshot :: ProcessSnapshot where
  "empty_ProcessSnapshot =
     \<lparr>pr_processes = [], pr_total_processes = 0, pr_running_processes = 0,
      pr_enriched_count = 0, pr_tracked_count = 0, pr_state_running = 0, pr_state_sleeping = 0,
      pr_state_zombie = 0, pr_total_threads = 0, pr_anomaly_axis_mask = 0\<rparr>"

definition empty_NvmlDiag :: NvmlDiag where
  "empty_NvmlDiag =
     \<lparr>nv_available = False, nv_devices = 0, nv_running_pids = 0, nv_sampled_pids = 0,
      nv_sample_age_ms = 0, nv_last_error = 0, nv_mig_enabled = False, nv_driver_version = [],
      nv_nvml_version = [], nv_cuda_version = []\<rparr>"

definition empty_ChurnDiag :: ChurnDiag where
  "empty_ChurnDiag =
     \<lparr>cd_recent_2s_events = 0, cd_recent_2s_proc = 0, cd_recent_2s_sys = 0\<rparr>"

definition empty_Snapshot :: Snapshot where
  "empty_Snapshot =
     \<lparr>sn_seq = 0, sn_cpu = empty_CpuSnapshot, sn_pmu = empty_PmuSnapshot,
      sn_mem = empty_Memory, sn_vram = empty_GpuVram, sn_net = empty_NetSnapshot,
      sn_disk = empty_DiskSnapshot, sn_fs = empty_FsSnapshot, sn_providers = [],
      sn_procs = empty_ProcessSnapshot, sn_alerts = [], sn_thermal = empty_Thermal,
      sn_nvml = empty_NvmlDiag, sn_churn = empty_ChurnDiag, sn_collector_name = []\<rparr>"

section \<open>The bounded copy\<close>

lemma program_name_prefix_free:
  "program_name cmd = first_token cmd \<or>
   (\<exists>i. program_name cmd = drop i (first_token cmd) \<and> i < length (first_token cmd))"
  by (auto simp: program_name_def Let_def split: option.splits)

lemma program_name_one_token:
  assumes "c \<in> set (program_name cmd)"
  shows "c \<noteq> SPACE \<and> c \<noteq> TAB \<and> c \<noteq> LF"
proof -
  have "c \<in> set (first_token cmd)"
    using assms program_name_prefix_free [of cmd] by (auto dest: in_set_dropD)
  then show ?thesis by (auto simp: first_token_def dest: set_takeWhileD)
qed

lemma row_comm_length [simp]: "length (row_comm cmd) = 16"
  by (simp add: row_comm_def Let_def)

lemma row_comm_c_str: "NUL \<notin> set cmd \<Longrightarrow> c_str (row_comm cmd) = take 15 (program_name cmd)"
proof -
  assume nn: "NUL \<notin> set cmd"
  have "set (program_name cmd) \<subseteq> set (first_token cmd)"
    using program_name_prefix_free [of cmd] by (auto dest: in_set_dropD)
  also have "\<dots> \<subseteq> set cmd"
    by (auto simp: first_token_def dest: set_takeWhileD)
  finally have "set (program_name cmd) \<subseteq> set cmd" .
  with nn have a: "\<forall>c \<in> set (take 15 (program_name cmd)). c \<noteq> NUL"
    by (auto dest: in_set_takeD)
  have "\<exists>n. row_comm cmd = take 15 (program_name cmd) @ replicate (Suc n) NUL"
    by (rule exI [of _ "15 - min (length (program_name cmd)) 15"])
      (auto simp: row_comm_def Let_def min_def simp del: replicate_Suc)
  then obtain n where n: "row_comm cmd = take 15 (program_name cmd) @ NUL # replicate n NUL"
    by (auto simp only: replicate_Suc)
  show ?thesis unfolding c_str_def n using a by (subst takeWhile_append2) simp_all
qed

lemma read_metrics_snapshot_bounds:
  "length (ms_top_procs (read_metrics_snapshot s)) = MAX_TOP_PROCS"
  "ms_top_procs_count (read_metrics_snapshot s) \<le> MAX_TOP_PROCS"
  by (simp_all add: read_metrics_snapshot_def Let_def)

end
