(* ===== verification/Metrics_Sink.thy ===== *)
theory Metrics_Sink
  imports Json_Read Model
begin

text \<open>
  The visitor both metric surfaces share (\<open>include/app/MetricsSink.hpp\<close>): its calls, the discipline
  a walk keeps (sections and collections are bracketed, entries hold members, scalar collections hold
  bare values), and the contract a sink gives to a walk that keeps it. \<open>Json_Sink\<close> and
  \<open>Prometheus_Sink\<close> provide the two implementations; \<open>Metrics_Render\<close> and \<open>Trace_Render\<close> are the
  walks.
\<close>

section \<open>The interface\<close>

datatype MetricKind = Gauge | Counter

datatype Shape = Scalars | Objects

record Label =
  lb_key :: string
  lb_value :: string

text \<open>A null pointer is \<open>None\<close>: the call is for the other sink only.\<close>

record MetricDesc =
  d_json_key :: "string option"
  d_prom_name :: "string option"
  d_help :: "string option"
  d_kind :: MetricKind

abbreviation json_desc :: "string \<Rightarrow> MetricDesc" where
  "json_desc k \<equiv> \<lparr>d_json_key = Some k, d_prom_name = None, d_help = None, d_kind = Gauge\<rparr>"

abbreviation prom_desc :: "string \<Rightarrow> string \<Rightarrow> MetricKind \<Rightarrow> MetricDesc" where
  "prom_desc n h k \<equiv> \<lparr>d_json_key = None, d_prom_name = Some n, d_help = Some h, d_kind = k\<rparr>"

abbreviation both_desc :: "string \<Rightarrow> string \<Rightarrow> string \<Rightarrow> MetricKind \<Rightarrow> MetricDesc" where
  "both_desc j n h k \<equiv> \<lparr>d_json_key = Some j, d_prom_name = Some n, d_help = Some h, d_kind = k\<rparr>"

abbreviation label :: "string \<Rightarrow> string \<Rightarrow> Label" where
  "label k v \<equiv> \<lparr>lb_key = k, lb_value = v\<rparr>"

text \<open>One constructor per virtual method of \<open>MetricsSink\<close>.\<close>

datatype sink_call =
    Section_begin string
  | Section_end
  | Collection_begin string Shape
  | Collection_end
  | Entry_begin
  | Entry_end
  | F64 MetricDesc dbl
  | U64 MetricDesc u64
  | I64 MetricDesc i64
  | Boolean MetricDesc bool
  | Str MetricDesc string
  | Labeled_f64 MetricDesc "Label list" dbl
  | Labeled_u64 MetricDesc "Label list" u64
  | Labeled_i64 MetricDesc "Label list" i64
  | Info_line string string "Label list"
  | Provider_call Provider
  | Raw_comment string

text \<open>The three brackets a walk opens and closes.\<close>

abbreviation section_calls :: "string \<Rightarrow> sink_call list \<Rightarrow> sink_call list" where
  "section_calls k body \<equiv> Section_begin k # body @ [Section_end]"

abbreviation entry_calls :: "sink_call list \<Rightarrow> sink_call list" where
  "entry_calls body \<equiv> Entry_begin # body @ [Entry_end]"

abbreviation objects_calls :: "string \<Rightarrow> sink_call list list \<Rightarrow> sink_call list" where
  "objects_calls k es \<equiv> Collection_begin k Objects # concat (map entry_calls es) @ [Collection_end]"

abbreviation scalars_calls :: "string \<Rightarrow> sink_call list \<Rightarrow> sink_call list" where
  "scalars_calls k body \<equiv> Collection_begin k Scalars # body @ [Collection_end]"

abbreviation guarded :: "bool \<Rightarrow> sink_call list \<Rightarrow> sink_call list" where
  "guarded b xs \<equiv> if b then xs else []"

section \<open>The discipline of a walk\<close>

text \<open>
  A description a Prometheus sample can be written from: a named metric has a help text, both on one
  line; label keys are on one line (label values are free).
\<close>

definition one_line :: "string \<Rightarrow> bool" where
  "one_line s \<longleftrightarrow> LF \<notin> set s"

definition desc_ok :: "MetricDesc \<Rightarrow> bool" where
  "desc_ok d \<longleftrightarrow> (case d_prom_name d of None \<Rightarrow> True
     | Some n \<Rightarrow> one_line n \<and> (case d_help d of None \<Rightarrow> False | Some h \<Rightarrow> one_line h))"

definition labels_ok :: "Label list \<Rightarrow> bool" where
  "labels_ok ls \<longleftrightarrow> list_all (\<lambda>l. one_line (lb_key l)) ls"

fun leaf_call :: "sink_call \<Rightarrow> bool" where
  "leaf_call (F64 d v) = desc_ok d"
| "leaf_call (U64 d v) = desc_ok d"
| "leaf_call (I64 d v) = desc_ok d"
| "leaf_call (Boolean d v) = desc_ok d"
| "leaf_call (Str d v) = desc_ok d"
| "leaf_call (Labeled_f64 d ls v) = (desc_ok d \<and> labels_ok ls)"
| "leaf_call (Labeled_u64 d ls v) = (desc_ok d \<and> labels_ok ls)"
| "leaf_call (Labeled_i64 d ls v) = (desc_ok d \<and> labels_ok ls)"
| "leaf_call (Info_line n h ls) = (one_line n \<and> one_line h \<and> labels_ok ls)"
| "leaf_call _ = False"

fun scalar_call :: "sink_call \<Rightarrow> bool" where
  "scalar_call (Labeled_f64 d ls v) = (desc_ok d \<and> labels_ok ls \<and> d_json_key d = None)"
| "scalar_call (Labeled_u64 d ls v) = (desc_ok d \<and> labels_ok ls \<and> d_json_key d = None)"
| "scalar_call (Labeled_i64 d ls v) = (desc_ok d \<and> labels_ok ls \<and> d_json_key d = None)"
| "scalar_call _ = False"

lemma scalar_is_leaf: "scalar_call c \<Longrightarrow> leaf_call c"
  by (cases c) auto

text \<open>
  \<open>obj_calls n xs\<close>: the calls \<open>xs\<close> write whole members of an open object and open at most \<open>n\<close>
  further levels.
\<close>

inductive obj_calls :: "nat \<Rightarrow> sink_call list \<Rightarrow> bool" where
  obj_nil: "obj_calls n []"
| obj_leaf: "leaf_call c \<Longrightarrow> obj_calls n xs \<Longrightarrow> obj_calls n (c # xs)"
| obj_comment: "t = [] \<or> last t = LF \<Longrightarrow> obj_calls n xs \<Longrightarrow> obj_calls n (Raw_comment t # xs)"
| obj_provider: "obj_calls (Suc (Suc n)) xs \<Longrightarrow> obj_calls (Suc (Suc n)) (Provider_call p # xs)"
| obj_section: "obj_calls n body \<Longrightarrow> obj_calls (Suc n) xs \<Longrightarrow>
    obj_calls (Suc n) (Section_begin k # body @ Section_end # xs)"
| obj_objects: "(\<And>e. e \<in> set es \<Longrightarrow> obj_calls n e) \<Longrightarrow> obj_calls (Suc (Suc n)) xs \<Longrightarrow>
    obj_calls (Suc (Suc n)) (Collection_begin k Objects # concat (map entry_calls es) @ Collection_end # xs)"
| obj_scalars: "list_all scalar_call body \<Longrightarrow> obj_calls (Suc n) xs \<Longrightarrow>
    obj_calls (Suc n) (Collection_begin k Scalars # body @ Collection_end # xs)"

lemma obj_append: "obj_calls n xs \<Longrightarrow> obj_calls n ys \<Longrightarrow> obj_calls n (xs @ ys)"
  by (induction rule: obj_calls.induct) (simp_all add: obj_calls.intros)

lemma obj_leaves: "list_all leaf_call xs \<Longrightarrow> obj_calls n xs"
  by (induction xs) (auto intro: obj_calls.intros)

lemma obj_section1: "obj_calls n body \<Longrightarrow> obj_calls (Suc n) (section_calls k body)"
  using obj_section [OF _ obj_nil] .

lemma obj_objects1: "(\<And>e. e \<in> set es \<Longrightarrow> obj_calls n e) \<Longrightarrow> obj_calls (Suc (Suc n)) (objects_calls k es)"
  using obj_objects [OF _ obj_nil] .

lemma obj_scalars1: "list_all scalar_call body \<Longrightarrow> obj_calls (Suc n) (scalars_calls k body)"
  using obj_scalars [OF _ obj_nil] .

lemma obj_when: "(b \<Longrightarrow> obj_calls n xs) \<Longrightarrow> obj_calls n (guarded b xs)"
  by (simp add: obj_nil)

lemma obj_mono: "obj_calls n xs \<Longrightarrow> n \<le> m \<Longrightarrow> obj_calls m xs"
proof (induction arbitrary: m rule: obj_calls.induct)
  case (obj_objects es n xs k)
  then obtain m' where "m = Suc (Suc m')" "n \<le> m'" by (auto simp: Suc_le_eq dest!: less_imp_Suc_add)
  with obj_objects show ?case by (auto intro!: obj_calls.obj_objects)
next
  case (obj_section n body xs k)
  then obtain m' where "m = Suc m'" "n \<le> m'" by (auto simp: Suc_le_eq dest!: less_imp_Suc_add)
  with obj_section show ?case by (auto intro!: obj_calls.obj_section)
next
  case (obj_scalars body n xs k)
  then obtain m' where "m = Suc m'" by (auto simp: Suc_le_eq dest!: less_imp_Suc_add)
  with obj_scalars show ?case by (auto intro!: obj_calls.obj_scalars)
next
  case (obj_provider n xs p)
  then obtain m' where "m = Suc (Suc m')" by (auto simp: Suc_le_eq dest!: less_imp_Suc_add)
  with obj_provider show ?case by (auto intro!: obj_calls.obj_provider)
qed (auto intro: obj_calls.intros)

lemmas walk_intros = obj_append obj_section1 obj_objects1 obj_scalars1 obj_when obj_nil

section \<open>The contract of a sink\<close>

text \<open>
  \<open>inv xs s\<close>: the sink is in state \<open>s\<close> after the calls \<open>xs\<close>. A fresh sink satisfies it, a disciplined walk
  of at most \<open>limit\<close> levels keeps it, and finishing gives a document that \<open>format\<close> relates to the calls.
\<close>

locale metrics_sink =
  fixes start :: "'s \<Rightarrow> bool"
    and call :: "sink_call \<Rightarrow> 's \<Rightarrow> 's"
    and finish :: "'s \<Rightarrow> string"
    and inv :: "sink_call list \<Rightarrow> 's \<Rightarrow> bool"
    and limit :: nat
    and format :: "sink_call list \<Rightarrow> string \<Rightarrow> bool"
  assumes start_inv: "start s \<Longrightarrow> inv [] s"
    and walk_inv: "inv ys s \<Longrightarrow> obj_calls limit xs \<Longrightarrow> inv (ys @ xs) (fold call xs s)"
    and finish_format: "inv xs s \<Longrightarrow> format xs (finish s)"
begin

lemma walk_format:
  assumes "start s" and "n \<le> limit" and "obj_calls n xs"
  shows "format xs (finish (fold call xs s))"
  using start_inv [OF assms(1)] walk_inv [of "[]" s xs] finish_format obj_mono [OF assms(3,2)] by simp

end

end
