(* ===== verification/Json_Sink.thy ===== *)
theory Json_Sink
  imports Metrics_Sink
begin

text \<open>
  \<open>src/app/JsonSink.cpp\<close>: the sink that renders a walk as one JSON object. Each method is a short
  run of writer calls; the stack of collection shapes decides what an entry and an unkeyed value are.
\<close>

section \<open>The sink\<close>

text \<open>\<open>collection_stack\<close> is innermost first.\<close>

record JsonSink =
  js_json :: montauk_json
  collection_stack :: "Shape list"

definition JsonSink_init :: "(nat \<Rightarrow> bool) \<Rightarrow> bool list \<Rightarrow> JsonSink" where
  "JsonSink_init alloc garbage =
     \<lparr>js_json = montauk_json_ku64 ''schema_version'' 1
        (montauk_json_obj_begin (montauk_json_init garbage (montauk_sink_init alloc (- 1)))),
      collection_stack = []\<rparr>"

definition js_do :: "(montauk_json \<Rightarrow> montauk_json) \<Rightarrow> JsonSink \<Rightarrow> JsonSink" where
  "js_do f s = s\<lparr>js_json := f (js_json s)\<rparr>"

definition in_shape :: "Shape \<Rightarrow> Shape list \<Rightarrow> bool" where
  "in_shape sh cs \<longleftrightarrow> cs \<noteq> [] \<and> hd cs = sh"

definition JsonSink_section_begin :: "string \<Rightarrow> JsonSink \<Rightarrow> JsonSink" where
  "JsonSink_section_begin k s = js_do montauk_json_obj_begin (js_do (montauk_json_key k) s)"

definition JsonSink_section_end :: "JsonSink \<Rightarrow> JsonSink" where
  "JsonSink_section_end s = js_do montauk_json_obj_end s"

definition JsonSink_collection_begin :: "string \<Rightarrow> Shape \<Rightarrow> JsonSink \<Rightarrow> JsonSink" where
  "JsonSink_collection_begin k shape s =
     (let s = js_do montauk_json_arr_begin (js_do (montauk_json_key k) s)
      in s\<lparr>collection_stack := shape # collection_stack s\<rparr>)"

definition JsonSink_collection_end :: "JsonSink \<Rightarrow> JsonSink" where
  "JsonSink_collection_end s =
     (let s = js_do montauk_json_arr_end s in s\<lparr>collection_stack := tl (collection_stack s)\<rparr>)"

definition JsonSink_entry_begin :: "JsonSink \<Rightarrow> JsonSink" where
  "JsonSink_entry_begin s =
     (if in_shape Objects (collection_stack s) then js_do montauk_json_obj_begin s else s)"

definition JsonSink_entry_end :: "JsonSink \<Rightarrow> JsonSink" where
  "JsonSink_entry_end s =
     (if in_shape Objects (collection_stack s) then js_do montauk_json_obj_end s else s)"

definition JsonSink_f64 :: "MetricDesc \<Rightarrow> dbl \<Rightarrow> JsonSink \<Rightarrow> JsonSink" where
  "JsonSink_f64 d v s =
     (case d_json_key d of None \<Rightarrow> s | Some k \<Rightarrow> js_do (montauk_json_knum k v) s)"

definition JsonSink_u64 :: "MetricDesc \<Rightarrow> u64 \<Rightarrow> JsonSink \<Rightarrow> JsonSink" where
  "JsonSink_u64 d v s =
     (case d_json_key d of None \<Rightarrow> s | Some k \<Rightarrow> js_do (montauk_json_ku64 k v) s)"

definition JsonSink_i64 :: "MetricDesc \<Rightarrow> i64 \<Rightarrow> JsonSink \<Rightarrow> JsonSink" where
  "JsonSink_i64 d v s =
     (case d_json_key d of None \<Rightarrow> s | Some k \<Rightarrow> js_do (montauk_json_ki64 k v) s)"

definition JsonSink_boolean :: "MetricDesc \<Rightarrow> bool \<Rightarrow> JsonSink \<Rightarrow> JsonSink" where
  "JsonSink_boolean d v s =
     (case d_json_key d of None \<Rightarrow> s | Some k \<Rightarrow> js_do (montauk_json_kbool k v) s)"

definition JsonSink_str :: "MetricDesc \<Rightarrow> string \<Rightarrow> JsonSink \<Rightarrow> JsonSink" where
  "JsonSink_str d v s =
     (case d_json_key d of None \<Rightarrow> s | Some k \<Rightarrow> js_do (montauk_json_kstr k v) s)"

definition JsonSink_labeled_f64 :: "MetricDesc \<Rightarrow> Label list \<Rightarrow> dbl \<Rightarrow> JsonSink \<Rightarrow> JsonSink" where
  "JsonSink_labeled_f64 d ls v s =
     (case d_json_key d of Some k \<Rightarrow> js_do (montauk_json_knum k v) s
      | None \<Rightarrow> if in_shape Scalars (collection_stack s) then js_do (montauk_json_num v) s else s)"

definition JsonSink_labeled_u64 :: "MetricDesc \<Rightarrow> Label list \<Rightarrow> u64 \<Rightarrow> JsonSink \<Rightarrow> JsonSink" where
  "JsonSink_labeled_u64 d ls v s =
     (case d_json_key d of Some k \<Rightarrow> js_do (montauk_json_ku64 k v) s
      | None \<Rightarrow> if in_shape Scalars (collection_stack s) then js_do (montauk_json_u64 v) s else s)"

definition JsonSink_labeled_i64 :: "MetricDesc \<Rightarrow> Label list \<Rightarrow> i64 \<Rightarrow> JsonSink \<Rightarrow> JsonSink" where
  "JsonSink_labeled_i64 d ls v s =
     (case d_json_key d of Some k \<Rightarrow> js_do (montauk_json_ki64 k v) s
      | None \<Rightarrow> if in_shape Scalars (collection_stack s) then js_do (montauk_json_i64 v) s else s)"

definition JsonSink_info_line :: "string \<Rightarrow> string \<Rightarrow> Label list \<Rightarrow> JsonSink \<Rightarrow> JsonSink" where
  "JsonSink_info_line n h ls s = s"

definition provider_metric_json :: "ProviderMetric \<Rightarrow> montauk_json \<Rightarrow> montauk_json" where
  "provider_metric_json m j =
     (let j = montauk_json_obj_begin j;
          j = montauk_json_kstr ''name'' (pm_name m) j;
          j = (if pm_labels m \<noteq> [] then montauk_json_kstr ''labels'' (pm_labels m) j else j);
          j = montauk_json_knum ''value'' (pm_value m) j
      in montauk_json_obj_end j)"

definition JsonSink_provider :: "Provider \<Rightarrow> JsonSink \<Rightarrow> JsonSink" where
  "JsonSink_provider p s =
     (let s = js_do (montauk_json_kstr ''name'' (pv_name p)) s
      in if pv_metrics p \<noteq> []
         then js_do (\<lambda>j. montauk_json_arr_end (fold provider_metric_json (pv_metrics p)
                (montauk_json_arr_begin (montauk_json_key ''metrics'' j)))) s
         else js_do (montauk_json_kstr ''raw_text'' (pv_raw_text p)) s)"

fun JsonSink_call :: "sink_call \<Rightarrow> JsonSink \<Rightarrow> JsonSink" where
  "JsonSink_call (Section_begin k) = JsonSink_section_begin k"
| "JsonSink_call Section_end = JsonSink_section_end"
| "JsonSink_call (Collection_begin k sh) = JsonSink_collection_begin k sh"
| "JsonSink_call Collection_end = JsonSink_collection_end"
| "JsonSink_call Entry_begin = JsonSink_entry_begin"
| "JsonSink_call Entry_end = JsonSink_entry_end"
| "JsonSink_call (F64 d v) = JsonSink_f64 d v"
| "JsonSink_call (U64 d v) = JsonSink_u64 d v"
| "JsonSink_call (I64 d v) = JsonSink_i64 d v"
| "JsonSink_call (Boolean d v) = JsonSink_boolean d v"
| "JsonSink_call (Str d v) = JsonSink_str d v"
| "JsonSink_call (Labeled_f64 d ls v) = JsonSink_labeled_f64 d ls v"
| "JsonSink_call (Labeled_u64 d ls v) = JsonSink_labeled_u64 d ls v"
| "JsonSink_call (Labeled_i64 d ls v) = JsonSink_labeled_i64 d ls v"
| "JsonSink_call (Info_line n h ls) = JsonSink_info_line n h ls"
| "JsonSink_call (Provider_call p) = JsonSink_provider p"
| "JsonSink_call (Raw_comment t) = (\<lambda>s. s)"

definition JsonSink_finish :: "JsonSink \<Rightarrow> string" where
  "JsonSink_finish s = sk_data (montauk_sink_appendc LF (j_sink (montauk_json_obj_end (js_json s))))"

section \<open>Each call as writer operations\<close>

definition keyed_ops :: "MetricDesc \<Rightarrow> jop \<Rightarrow> jop list" where
  "keyed_ops d x = (case d_json_key d of None \<Rightarrow> [] | Some k \<Rightarrow> [OpKey k, x])"

definition labeled_ops :: "Shape list \<Rightarrow> MetricDesc \<Rightarrow> jop \<Rightarrow> jop list" where
  "labeled_ops cs d x = (case d_json_key d of Some k \<Rightarrow> [OpKey k, x]
     | None \<Rightarrow> if in_shape Scalars cs then [x] else [])"

definition provider_metric_ops :: "ProviderMetric \<Rightarrow> jop list" where
  "provider_metric_ops m = [OpObjBegin, OpKey ''name'', OpStr (pm_name m)] @
     (if pm_labels m \<noteq> [] then [OpKey ''labels'', OpStr (pm_labels m)] else []) @
     [OpKey ''value'', OpNum (pm_value m), OpObjEnd]"

definition provider_ops :: "Provider \<Rightarrow> jop list" where
  "provider_ops p = [OpKey ''name'', OpStr (pv_name p)] @
     (if pv_metrics p \<noteq> []
      then [OpKey ''metrics'', OpArrBegin] @ concat (map provider_metric_ops (pv_metrics p)) @ [OpArrEnd]
      else [OpKey ''raw_text'', OpStr (pv_raw_text p)])"

fun call_ops :: "Shape list \<Rightarrow> sink_call \<Rightarrow> jop list" where
  "call_ops cs (Section_begin k) = [OpKey k, OpObjBegin]"
| "call_ops cs Section_end = [OpObjEnd]"
| "call_ops cs (Collection_begin k sh) = [OpKey k, OpArrBegin]"
| "call_ops cs Collection_end = [OpArrEnd]"
| "call_ops cs Entry_begin = (if in_shape Objects cs then [OpObjBegin] else [])"
| "call_ops cs Entry_end = (if in_shape Objects cs then [OpObjEnd] else [])"
| "call_ops cs (F64 d v) = keyed_ops d (OpNum v)"
| "call_ops cs (U64 d v) = keyed_ops d (OpU64 v)"
| "call_ops cs (I64 d v) = keyed_ops d (OpI64 v)"
| "call_ops cs (Boolean d v) = keyed_ops d (OpBool v)"
| "call_ops cs (Str d v) = keyed_ops d (OpStr v)"
| "call_ops cs (Labeled_f64 d ls v) = labeled_ops cs d (OpNum v)"
| "call_ops cs (Labeled_u64 d ls v) = labeled_ops cs d (OpU64 v)"
| "call_ops cs (Labeled_i64 d ls v) = labeled_ops cs d (OpI64 v)"
| "call_ops cs (Info_line n h ls) = []"
| "call_ops cs (Provider_call p) = provider_ops p"
| "call_ops cs (Raw_comment t) = []"

fun call_stack :: "Shape list \<Rightarrow> sink_call \<Rightarrow> Shape list" where
  "call_stack cs (Collection_begin k sh) = sh # cs"
| "call_stack cs Collection_end = tl cs"
| "call_stack cs _ = cs"

fun walk_ops :: "Shape list \<Rightarrow> sink_call list \<Rightarrow> jop list" where
  "walk_ops cs [] = []"
| "walk_ops cs (c # xs) = call_ops cs c @ walk_ops (call_stack cs c) xs"

abbreviation walk_stack :: "Shape list \<Rightarrow> sink_call list \<Rightarrow> Shape list" where
  "walk_stack cs xs \<equiv> fold (\<lambda>c s. call_stack s c) xs cs"

lemma provider_metric_json_ops: "provider_metric_json m = fold exec_op (provider_metric_ops m)"
  by (rule ext) (simp add: provider_metric_json_def provider_metric_ops_def Let_def
      montauk_json_kstr_def montauk_json_knum_def)

lemma provider_metrics_json_ops:
  "fold provider_metric_json ms = fold exec_op (concat (map provider_metric_ops ms))"
  by (induction ms) (auto simp: provider_metric_json_ops)

lemma JsonSink_call_ops:
  "JsonSink_call c s =
     \<lparr>js_json = fold exec_op (call_ops (collection_stack s) c) (js_json s),
      collection_stack = call_stack (collection_stack s) c\<rparr>"
  by (cases c)
    (simp_all add: JsonSink_section_begin_def JsonSink_section_end_def JsonSink_collection_begin_def
      JsonSink_collection_end_def JsonSink_entry_begin_def JsonSink_entry_end_def JsonSink_f64_def
      JsonSink_u64_def JsonSink_i64_def JsonSink_boolean_def JsonSink_str_def JsonSink_labeled_f64_def
      JsonSink_labeled_u64_def JsonSink_labeled_i64_def JsonSink_info_line_def JsonSink_provider_def
      provider_metrics_json_ops provider_ops_def
      js_do_def keyed_ops_def labeled_ops_def Let_def montauk_json_kstr_def montauk_json_knum_def
      montauk_json_ku64_def montauk_json_ki64_def montauk_json_kbool_def split: option.split)

lemma JsonSink_walk_ops:
  "fold JsonSink_call xs s =
     \<lparr>js_json = fold exec_op (walk_ops (collection_stack s) xs) (js_json s),
      collection_stack = walk_stack (collection_stack s) xs\<rparr>"
  by (induction xs arbitrary: s) (simp_all add: JsonSink_call_ops)

lemma walk_ops_append: "walk_ops cs (xs @ ys) = walk_ops cs xs @ walk_ops (walk_stack cs xs) ys"
  by (induction xs arbitrary: cs) auto

section \<open>What a walk writes\<close>

text \<open>
  \<open>writes n xs ms\<close>: run inside an open object with room for \<open>n\<close> more levels, the calls \<open>xs\<close> add
  exactly the members \<open>ms\<close>, each a value the reader accepts, and leave the collection stack alone.
\<close>

definition writes :: "nat \<Rightarrow> sink_call list \<Rightarrow> (string \<times> jval) list \<Rightarrow> bool" where
  "writes n xs ms \<longleftrightarrow> (\<forall>m \<in> set ms. jval_ok (snd m)) \<and>
     (\<forall>cs. \<not> in_shape Scalars cs \<longrightarrow> walk_stack cs xs = cs \<and>
       (\<forall>ms0 st r. length st + n < MONTAUK_JSON_MAX_DEPTH \<longrightarrow>
          spec_ops (walk_ops cs xs) (FObj ms0 None # st, r) = Some (FObj (ms0 @ ms) None # st, r)))"

definition key_members :: "MetricDesc \<Rightarrow> jval \<Rightarrow> (string \<times> jval) list" where
  "key_members d v = (case d_json_key d of None \<Rightarrow> [] | Some k \<Rightarrow> [(c_str k, v)])"

fun leaf_members :: "sink_call \<Rightarrow> (string \<times> jval) list" where
  "leaf_members (F64 d v) = key_members d (num_value v)"
| "leaf_members (U64 d v) = key_members d (JNum (dec (unat v)))"
| "leaf_members (I64 d v) = key_members d (JNum (dec_sint v))"
| "leaf_members (Boolean d v) = key_members d (JBool v)"
| "leaf_members (Str d v) = key_members d (JStr (c_str v))"
| "leaf_members (Labeled_f64 d ls v) = key_members d (num_value v)"
| "leaf_members (Labeled_u64 d ls v) = key_members d (JNum (dec (unat v)))"
| "leaf_members (Labeled_i64 d ls v) = key_members d (JNum (dec_sint v))"
| "leaf_members _ = []"

definition provider_metric_value :: "ProviderMetric \<Rightarrow> jval" where
  "provider_metric_value m = JObj ([(''name'', JStr (c_str (pm_name m)))] @
     (if pm_labels m \<noteq> [] then [(''labels'', JStr (c_str (pm_labels m)))] else []) @
     [(''value'', num_value (pm_value m))])"

definition provider_members :: "Provider \<Rightarrow> (string \<times> jval) list" where
  "provider_members p = [(''name'', JStr (c_str (pv_name p)))] @
     (if pv_metrics p \<noteq> [] then [(''metrics'', JArr (map provider_metric_value (pv_metrics p)))]
      else [(''raw_text'', JStr (c_str (pv_raw_text p)))])"

fun scalar_value :: "sink_call \<Rightarrow> jval" where
  "scalar_value (Labeled_f64 d ls v) = num_value v"
| "scalar_value (Labeled_u64 d ls v) = JNum (dec (unat v))"
| "scalar_value (Labeled_i64 d ls v) = JNum (dec_sint v)"
| "scalar_value _ = JNull"

lemma c_str_lits [simp]:
  "c_str ''name'' = ''name''" "c_str ''labels'' = ''labels''" "c_str ''value'' = ''value''"
  "c_str ''metrics'' = ''metrics''" "c_str ''raw_text'' = ''raw_text''"
  "c_str ''schema_version'' = ''schema_version''"
  by (simp_all add: c_str_def)

lemma writes_nil [simp]: "writes n [] []"
  by (simp add: writes_def)

lemma writes_append: "writes n xs ms \<Longrightarrow> writes n ys ms' \<Longrightarrow> writes n (xs @ ys) (ms @ ms')"
  by (auto simp: writes_def walk_ops_append spec_ops_append)

lemma writes_mono: "writes n xs ms \<Longrightarrow> n \<le> m \<Longrightarrow> writes m xs ms"
  by (auto simp: writes_def)

lemma writes_leaf: "leaf_call c \<Longrightarrow> writes n [c] (leaf_members c)"
  by (cases c) (auto simp: writes_def keyed_ops_def labeled_ops_def key_members_def in_shape_def
      split: option.splits)

lemma writes_comment: "writes n [Raw_comment t] []"
  by (simp add: writes_def)

lemma writes_leaves: "list_all leaf_call xs \<Longrightarrow> writes n xs (concat (map leaf_members xs))"
  by (induction xs) (auto dest: writes_leaf intro: writes_append [of _ "[_]", simplified])

lemma writes_section:
  assumes "writes n xs ms"
  shows "writes (Suc n) (section_calls k xs) [(c_str k, JObj ms)]"
  using assms by (auto simp: writes_def walk_ops_append spec_ops_append open_frame_def)

lemma scalars_run:
  assumes "list_all scalar_call body" and "length st < MONTAUK_JSON_MAX_DEPTH"
  shows "spec_ops (walk_ops (Scalars # cs) body) (FArr vs # st, r) =
      Some (FArr (vs @ map scalar_value body) # st, r)"
  using assms
proof (induction body arbitrary: vs)
  case Nil
  then show ?case by simp
next
  case (Cons c body)
  then show ?case by (cases c) (auto simp: labeled_ops_def in_shape_def)
qed

lemma scalars_stack: "list_all scalar_call body \<Longrightarrow> walk_stack cs body = cs"
proof (induction body)
  case (Cons c body)
  then show ?case by (cases c) auto
qed simp

lemma scalar_value_ok: "scalar_call c \<Longrightarrow> jval_ok (scalar_value c)"
  by (cases c) auto

lemma writes_scalars:
  assumes "list_all scalar_call body"
  shows "writes (Suc n) (scalars_calls k body) [(c_str k, JArr (map scalar_value body))]"
  using assms scalars_run [OF assms] scalars_stack [OF assms]
  by (auto simp: writes_def walk_ops_append spec_ops_append open_frame_def list_all_iff scalar_value_ok)

lemma objects_run:
  assumes "list_all2 (writes n) es mss" and "Suc (length st) + n < MONTAUK_JSON_MAX_DEPTH"
  shows "spec_ops (walk_ops (Objects # cs) (concat (map entry_calls es))) (FArr vs # st, r) =
      Some (FArr (vs @ map JObj mss) # st, r)"
  using assms(1)
proof (induction arbitrary: vs rule: list_all2_induct)
  case Nil
  then show ?case by simp
next
  case (Cons e es ms mss)
  from Cons(1) have "walk_stack (Objects # cs) e = Objects # cs"
    and "spec_ops (walk_ops (Objects # cs) e) (FObj [] None # FArr vs # st, r) =
      Some (FObj ms None # FArr vs # st, r)"
    using assms(2) by (auto simp: writes_def in_shape_def)
  with Cons assms(2) show ?case
    by (simp add: walk_ops_append spec_ops_append in_shape_def open_frame_def)
qed

lemma objects_stack:
  "list_all2 (writes n) es mss \<Longrightarrow> walk_stack (Objects # cs) (concat (map entry_calls es)) = Objects # cs"
  by (induction rule: list_all2_induct) (auto simp: writes_def in_shape_def)

lemma writes_objects:
  assumes "list_all2 (writes n) es mss"
  shows "writes (Suc (Suc n)) (objects_calls k es) [(c_str k, JArr (map JObj mss))]"
proof -
  have "\<forall>ms \<in> set mss. \<forall>m \<in> set ms. jval_ok (snd m)"
    using assms by (induction rule: list_all2_induct) (auto simp: writes_def)
  with objects_run [OF assms] objects_stack [OF assms] show ?thesis
    by (auto simp: writes_def walk_ops_append spec_ops_append open_frame_def)
qed

lemma provider_metrics_run:
  assumes "length st + 2 \<le> MONTAUK_JSON_MAX_DEPTH"
  shows "spec_ops (concat (map provider_metric_ops ms)) (FArr vs # st, r) =
    Some (FArr (vs @ map provider_metric_value ms) # st, r)"
  using assms
  by (induction ms arbitrary: vs)
    (auto simp: provider_metric_ops_def provider_metric_value_def spec_ops_append open_frame_def)

lemma writes_provider: "writes (Suc (Suc n)) [Provider_call p] (provider_members p)"
  using provider_metrics_run
  by (auto simp: writes_def provider_ops_def provider_members_def provider_metric_value_def
      spec_ops_append open_frame_def)

lemma list_all2_choice: "(\<And>e. e \<in> set es \<Longrightarrow> \<exists>m. R e m) \<Longrightarrow> \<exists>ms. list_all2 R es ms"
proof (induction es)
  case (Cons e es)
  then obtain m ms where "R e m" "list_all2 R es ms" by (meson list.set_intros)
  then show ?case by (intro exI [of _ "m # ms"]) simp
qed (auto intro: exI [of _ "[]"])

text \<open>Every disciplined walk writes some members.\<close>

lemma obj_calls_writes: "obj_calls n xs \<Longrightarrow> \<exists>ms. writes n xs ms"
proof (induction rule: obj_calls.induct)
  case (obj_nil n)
  show ?case by (rule exI [of _ "[]"]) simp
next
  case (obj_leaf c n xs)
  then show ?case using writes_append [OF writes_leaf [OF obj_leaf(1)]] by fastforce
next
  case (obj_comment t n xs)
  then show ?case using writes_append [OF writes_comment] by fastforce
next
  case (obj_provider n xs p)
  then show ?case using writes_append [OF writes_provider] by fastforce
next
  case (obj_section n body xs k)
  then obtain ms ms' where "writes n body ms" "writes (Suc n) xs ms'" by blast
  from writes_append [OF writes_section [OF this(1)] this(2)] show ?case by (auto intro: exI)
next
  case (obj_objects es n xs k)
  then obtain mss ms' where "list_all2 (writes n) es mss" "writes (Suc (Suc n)) xs ms'"
    using list_all2_choice [of es "writes n"] by blast
  from writes_append [OF writes_objects [OF this(1)] this(2)] show ?case by (auto intro: exI)
next
  case (obj_scalars body n xs k)
  then obtain ms' where "writes (Suc n) xs ms'" by blast
  from writes_append [OF writes_scalars [OF obj_scalars(1)] this] show ?case by (auto intro: exI)
qed

section \<open>The document\<close>

text \<open>The sink holds the text of the root object with the members so far.\<close>

definition js_holds :: "(string \<times> jval) list \<Rightarrow> JsonSink \<Rightarrow> bool" where
  "js_holds ms s \<longleftrightarrow> json_rel (js_json s) ([FObj ms None], None) \<and> collection_stack s = [] \<and>
     (\<forall>m \<in> set ms. jval_ok (snd m))"

definition js_limit :: nat where
  "js_limit = 31"

lemma js_holds_init:
  assumes "length garbage = MONTAUK_JSON_MAX_DEPTH" and "\<forall>k. alloc k"
  shows "js_holds [(''schema_version'', JNum ''1'')] (JsonSink_init alloc garbage)"
proof -
  let ?s = "montauk_sink_init alloc (- 1)"
  have rel: "json_rel (montauk_json_init garbage ?s) ([], None)"
    using assms by (intro json_rel_init) (auto simp: no_oom_def montauk_sink_init_def)
  have one: "dec (Suc 0) = ''1''" by (subst dec.simps) (simp add: digit_char_lits)
  have "spec_ops [OpObjBegin, OpKey ''schema_version'', OpU64 1] ([], None) =
      Some ([FObj [(''schema_version'', JNum ''1'')] None], None)"
    by (simp add: open_frame_def MONTAUK_JSON_MAX_DEPTH_def one)
  from mj.run_refines [OF rel this] show ?thesis
    using json_number_dec [of "Suc 0"] by (simp add: js_holds_def JsonSink_init_def montauk_json_ku64_def one)
qed

lemma js_holds_walk:
  assumes "js_holds ms s" and "writes n xs ms'" and "n \<le> js_limit"
  shows "js_holds (ms @ ms') (fold JsonSink_call xs s)"
proof -
  from assms have "spec_ops (walk_ops [] xs) ([FObj ms None], None) = Some ([FObj (ms @ ms') None], None)"
    and st: "walk_stack [] xs = []"
    by (auto simp: writes_def in_shape_def js_limit_def MONTAUK_JSON_MAX_DEPTH_def)
  from mj.run_refines [OF _ this(1)] assms st show ?thesis
    by (auto simp: js_holds_def JsonSink_walk_ops writes_def)
qed

lemma js_holds_finish:
  assumes "js_holds ms s"
  shows "JsonSink_finish s = json_text (JObj ms) @ [LF]" and "json_read (JsonSink_finish s) = Some (JObj ms)"
proof -
  have "spec_ops [OpObjEnd] ([FObj ms None], None) = Some ([], Some (JObj ms))" by simp
  with assms mj.run_refines [of "js_json s" "([FObj ms None], None)" "[OpObjEnd]"]
  have "json_rel (montauk_json_obj_end (js_json s)) ([], Some (JObj ms))"
    by (simp add: js_holds_def)
  then show t: "JsonSink_finish s = json_text (JObj ms) @ [LF]"
    by (simp add: JsonSink_finish_def json_rel_def)
  show "json_read (JsonSink_finish s) = Some (JObj ms)"
    unfolding t using assms by (intro json_read_text) (auto simp: js_holds_def is_space_def byte_def)
qed

definition JsonSink_start :: "JsonSink \<Rightarrow> bool" where
  "JsonSink_start s \<longleftrightarrow> (\<exists>alloc garbage. s = JsonSink_init alloc garbage \<and>
     length garbage = MONTAUK_JSON_MAX_DEPTH \<and> (\<forall>k. alloc k))"

text \<open>A JSON document of some calls: one object of the schema version and the members they write.\<close>

definition json_document :: "sink_call list \<Rightarrow> string \<Rightarrow> bool" where
  "json_document xs t \<longleftrightarrow> (\<exists>ms. writes js_limit xs ms \<and>
     json_read t = Some (JObj ((''schema_version'', JNum ''1'') # ms)))"

interpretation json_sink: metrics_sink JsonSink_start JsonSink_call JsonSink_finish
  "\<lambda>xs s. \<exists>ms. writes js_limit xs ms \<and> js_holds ((''schema_version'', JNum ''1'') # ms) s" js_limit json_document
proof unfold_locales
  fix s assume "JsonSink_start s"
  then show "\<exists>ms. writes js_limit [] ms \<and> js_holds ((''schema_version'', JNum ''1'') # ms) s"
    using js_holds_init by (auto simp: JsonSink_start_def intro!: exI [of _ "[]"])
next
  fix ys s xs
  assume "\<exists>ms. writes js_limit ys ms \<and> js_holds ((''schema_version'', JNum ''1'') # ms) s"
    and w: "obj_calls js_limit xs"
  then obtain ms ms' where "writes js_limit ys ms" "js_holds ((''schema_version'', JNum ''1'') # ms) s"
    "writes js_limit xs ms'" using obj_calls_writes by blast
  with js_holds_walk [OF this(2,3)] writes_append [OF this(1,3)]
  show "\<exists>ms. writes js_limit (ys @ xs) ms \<and>
      js_holds ((''schema_version'', JNum ''1'') # ms) (fold JsonSink_call xs s)" by auto
next
  fix xs s assume "\<exists>ms. writes js_limit xs ms \<and> js_holds ((''schema_version'', JNum ''1'') # ms) s"
  then show "json_document xs (JsonSink_finish s)" using js_holds_finish(2) by (auto simp: json_document_def)
qed

end
