(* ===== verification/Prometheus_Sink.thy ===== *)
theory Prometheus_Sink
  imports Metrics_Sink "HOL-Library.Multiset"
begin

text \<open>
  \<open>src/app/PrometheusSink.cpp\<close>: the sink that renders a walk in the Prometheus text exposition
  format. Unlabelled samples are written at once; samples inside a collection are buffered by metric
  family and flushed, one header per family, when the outermost collection closes.
\<close>

section \<open>The sink\<close>

definition append_double :: "string \<Rightarrow> dbl \<Rightarrow> string" where
  "append_double out v = (case montauk_fmt_double 32 v of Some t \<Rightarrow> out @ t | None \<Rightarrow> out @ ''0'')"

definition append_uint :: "string \<Rightarrow> u64 \<Rightarrow> string" where
  "append_uint out v = out @ dec_word v"

definition append_int :: "string \<Rightarrow> i64 \<Rightarrow> string" where
  "append_int out v = out @ dec_sint v"

definition prom_escape :: "char \<Rightarrow> string" where
  "prom_escape c =
     (if c = BSLASH then [BSLASH, BSLASH] else if c = DQUOTE then [BSLASH, DQUOTE]
      else if c = LF then [BSLASH, CHR ''n''] else [c])"

definition append_escaped :: "string \<Rightarrow> string \<Rightarrow> string" where
  "append_escaped out sv = fold (\<lambda>c out. out @ prom_escape c) sv out"

definition emit_header :: "string \<Rightarrow> string \<Rightarrow> string \<Rightarrow> string \<Rightarrow> string" where
  "emit_header out name help type =
     out @ ''# HELP '' @ name @ [SPACE] @ help @ [LF] @ ''# TYPE '' @ name @ [SPACE] @ type @ [LF]"

definition label_step :: "nat \<times> Label \<Rightarrow> string \<Rightarrow> string" where
  "label_step il line =
     append_escaped ((if 0 < fst il then line @ '','' else line) @ lb_key (snd il) @ ''='' @ [DQUOTE])
       (lb_value (snd il)) @ [DQUOTE]"

definition labeled_line :: "string \<Rightarrow> Label list \<Rightarrow> string" where
  "labeled_line name labels =
     (if labels \<noteq> [] then fold label_step (enumerate 0 labels) (name @ ''{'') @ ''} ''
      else name @ [SPACE])"

record Family =
  fam_name :: string
  fam_help :: string
  fam_kind :: MetricKind
  fam_lines :: "string list"

record PrometheusSink =
  pr_out :: string
  pr_pending :: "Family list"
  collection_depth :: int

definition PrometheusSink_init :: PrometheusSink where
  "PrometheusSink_init = \<lparr>pr_out = [], pr_pending = [], collection_depth = 0\<rparr>"

definition type_name :: "MetricKind \<Rightarrow> string" where
  "type_name k = (if k = Counter then ''counter'' else ''gauge'')"

text \<open>\<open>family_for(d).lines.push_back(line)\<close>: the first family of that name, or a new one at the end.\<close>

fun family_push :: "string \<Rightarrow> MetricDesc \<Rightarrow> string \<Rightarrow> Family list \<Rightarrow> Family list" where
  "family_push n d line [] =
     [\<lparr>fam_name = n, fam_help = (case d_help d of None \<Rightarrow> [] | Some h \<Rightarrow> h), fam_kind = d_kind d,
       fam_lines = [line]\<rparr>]"
| "family_push n d line (f # fs) =
     (if fam_name f = n then f\<lparr>fam_lines := fam_lines f @ [line]\<rparr> # fs
      else f # family_push n d line fs)"

definition flush_family :: "Family \<Rightarrow> string \<Rightarrow> string" where
  "flush_family f out =
     emit_header out (fam_name f) (fam_help f) (type_name (fam_kind f)) @ concat (fam_lines f)"

definition flush_families :: "PrometheusSink \<Rightarrow> PrometheusSink" where
  "flush_families s = s\<lparr>pr_out := fold flush_family (pr_pending s) (pr_out s), pr_pending := []\<rparr>"

definition PrometheusSink_collection_begin :: "PrometheusSink \<Rightarrow> PrometheusSink" where
  "PrometheusSink_collection_begin s = s\<lparr>collection_depth := collection_depth s + 1\<rparr>"

definition PrometheusSink_collection_end :: "PrometheusSink \<Rightarrow> PrometheusSink" where
  "PrometheusSink_collection_end s =
     (let s = s\<lparr>collection_depth := collection_depth s - 1\<rparr>
      in if collection_depth s = 0 then flush_families s else s)"

text \<open>An unlabelled sample: its header, then its line. A missing help text is empty here.\<close>

definition desc_help :: "MetricDesc \<Rightarrow> string" where
  "desc_help d = (case d_help d of None \<Rightarrow> [] | Some h \<Rightarrow> h)"

definition PrometheusSink_f64 :: "MetricDesc \<Rightarrow> dbl \<Rightarrow> PrometheusSink \<Rightarrow> PrometheusSink" where
  "PrometheusSink_f64 d v s =
     (case d_prom_name d of None \<Rightarrow> s
      | Some n \<Rightarrow> let out = emit_header (pr_out s) n (desc_help d) (type_name (d_kind d))
                  in s\<lparr>pr_out := append_double (out @ n @ [SPACE]) v @ [LF]\<rparr>)"

definition PrometheusSink_u64 :: "MetricDesc \<Rightarrow> u64 \<Rightarrow> PrometheusSink \<Rightarrow> PrometheusSink" where
  "PrometheusSink_u64 d v s =
     (case d_prom_name d of None \<Rightarrow> s
      | Some n \<Rightarrow> let out = emit_header (pr_out s) n (desc_help d) (type_name (d_kind d))
                  in s\<lparr>pr_out := append_uint (out @ n @ [SPACE]) v @ [LF]\<rparr>)"

definition PrometheusSink_i64 :: "MetricDesc \<Rightarrow> i64 \<Rightarrow> PrometheusSink \<Rightarrow> PrometheusSink" where
  "PrometheusSink_i64 d v s =
     (case d_prom_name d of None \<Rightarrow> s
      | Some n \<Rightarrow> let out = emit_header (pr_out s) n (desc_help d) (type_name (d_kind d))
                  in s\<lparr>pr_out := append_int (out @ n @ [SPACE]) v @ [LF]\<rparr>)"

definition PrometheusSink_boolean :: "MetricDesc \<Rightarrow> bool \<Rightarrow> PrometheusSink \<Rightarrow> PrometheusSink" where
  "PrometheusSink_boolean d v s =
     (case d_prom_name d of None \<Rightarrow> s | Some n \<Rightarrow> PrometheusSink_i64 d (if v then 1 else 0) s)"

text \<open>The tail the three labelled methods share: buffered in a collection, written at once outside.\<close>

definition labeled_emit :: "MetricDesc \<Rightarrow> string \<Rightarrow> string \<Rightarrow> PrometheusSink \<Rightarrow> PrometheusSink" where
  "labeled_emit d n line s =
     (if 0 < collection_depth s then s\<lparr>pr_pending := family_push n d line (pr_pending s)\<rparr>
      else s\<lparr>pr_out := emit_header (pr_out s) n (desc_help d) (type_name (d_kind d)) @ line\<rparr>)"

definition PrometheusSink_labeled_f64 ::
    "MetricDesc \<Rightarrow> Label list \<Rightarrow> dbl \<Rightarrow> PrometheusSink \<Rightarrow> PrometheusSink" where
  "PrometheusSink_labeled_f64 d ls v s =
     (case d_prom_name d of None \<Rightarrow> s
      | Some n \<Rightarrow> labeled_emit d n (append_double (labeled_line n ls) v @ [LF]) s)"

definition PrometheusSink_labeled_u64 ::
    "MetricDesc \<Rightarrow> Label list \<Rightarrow> u64 \<Rightarrow> PrometheusSink \<Rightarrow> PrometheusSink" where
  "PrometheusSink_labeled_u64 d ls v s =
     (case d_prom_name d of None \<Rightarrow> s
      | Some n \<Rightarrow> labeled_emit d n (append_uint (labeled_line n ls) v @ [LF]) s)"

definition PrometheusSink_labeled_i64 ::
    "MetricDesc \<Rightarrow> Label list \<Rightarrow> i64 \<Rightarrow> PrometheusSink \<Rightarrow> PrometheusSink" where
  "PrometheusSink_labeled_i64 d ls v s =
     (case d_prom_name d of None \<Rightarrow> s
      | Some n \<Rightarrow> labeled_emit d n (append_int (labeled_line n ls) v @ [LF]) s)"

definition PrometheusSink_info_line ::
    "string \<Rightarrow> string \<Rightarrow> Label list \<Rightarrow> PrometheusSink \<Rightarrow> PrometheusSink" where
  "PrometheusSink_info_line n h ls s =
     s\<lparr>pr_out := emit_header (pr_out s) n h ''gauge'' @ labeled_line n ls @ ''1'' @ [LF]\<rparr>"

definition PrometheusSink_provider :: "Provider \<Rightarrow> PrometheusSink \<Rightarrow> PrometheusSink" where
  "PrometheusSink_provider p s =
     (let out = pr_out s @ pv_raw_text p
      in s\<lparr>pr_out := (if pv_raw_text p \<noteq> [] \<and> last (pv_raw_text p) \<noteq> LF then out @ [LF] else out)\<rparr>)"

definition PrometheusSink_raw_comment :: "string \<Rightarrow> PrometheusSink \<Rightarrow> PrometheusSink" where
  "PrometheusSink_raw_comment t s = s\<lparr>pr_out := pr_out s @ t\<rparr>"

fun PrometheusSink_call :: "sink_call \<Rightarrow> PrometheusSink \<Rightarrow> PrometheusSink" where
  "PrometheusSink_call (Section_begin k) = (\<lambda>s. s)"
| "PrometheusSink_call Section_end = (\<lambda>s. s)"
| "PrometheusSink_call (Collection_begin k sh) = PrometheusSink_collection_begin"
| "PrometheusSink_call Collection_end = PrometheusSink_collection_end"
| "PrometheusSink_call Entry_begin = (\<lambda>s. s)"
| "PrometheusSink_call Entry_end = (\<lambda>s. s)"
| "PrometheusSink_call (F64 d v) = PrometheusSink_f64 d v"
| "PrometheusSink_call (U64 d v) = PrometheusSink_u64 d v"
| "PrometheusSink_call (I64 d v) = PrometheusSink_i64 d v"
| "PrometheusSink_call (Boolean d v) = PrometheusSink_boolean d v"
| "PrometheusSink_call (Str d v) = (\<lambda>s. s)"
| "PrometheusSink_call (Labeled_f64 d ls v) = PrometheusSink_labeled_f64 d ls v"
| "PrometheusSink_call (Labeled_u64 d ls v) = PrometheusSink_labeled_u64 d ls v"
| "PrometheusSink_call (Labeled_i64 d ls v) = PrometheusSink_labeled_i64 d ls v"
| "PrometheusSink_call (Info_line n h ls) = PrometheusSink_info_line n h ls"
| "PrometheusSink_call (Provider_call p) = PrometheusSink_provider p"
| "PrometheusSink_call (Raw_comment t) = PrometheusSink_raw_comment t"

definition PrometheusSink_finish :: "PrometheusSink \<Rightarrow> string" where
  "PrometheusSink_finish s = pr_out (flush_families s)"

section \<open>Label values\<close>

text \<open>Reading a quoted label value back: up to the closing quote, undoing the three escapes.\<close>

fun read_label_value :: "string \<Rightarrow> (string \<times> string) option" where
  "read_label_value [] = None"
| "read_label_value (c # s) =
     (if c = DQUOTE then Some ([], s)
      else if c = LF then None
      else if c = BSLASH
      then (case s of [] \<Rightarrow> None
            | e # s' \<Rightarrow>
              if e = BSLASH \<or> e = DQUOTE \<or> e = CHR ''n''
              then map_option (\<lambda>(v, r). ((if e = CHR ''n'' then LF else e) # v, r)) (read_label_value s')
              else None)
      else map_option (\<lambda>(v, r). (c # v, r)) (read_label_value s))"

lemma append_escaped_eq: "append_escaped out sv = out @ concat (map prom_escape sv)"
  unfolding append_escaped_def by (induction sv arbitrary: out) simp_all

lemma read_label_value_escaped:
  "read_label_value (concat (map prom_escape v) @ DQUOTE # rest) = Some (v, rest)"
  by (induction v) (auto simp: prom_escape_def)

lemma prom_escape_one_line: "LF \<notin> set (concat (map prom_escape v))"
  by (auto simp: prom_escape_def split: if_splits)

definition label_text :: "Label \<Rightarrow> string" where
  "label_text l = lb_key l @ ''='' @ [DQUOTE] @ concat (map prom_escape (lb_value l)) @ [DQUOTE]"

lemma label_step_text:
  "label_step (i, l) line = line @ (if 0 < i then '','' else []) @ label_text l"
  by (simp add: label_step_def append_escaped_eq label_text_def)

lemma join_commas_Cons: "join_commas (x # xs) = x @ concat (map (\<lambda>y. CHR '','' # y) xs)"
  by (induction xs arbitrary: x) auto

lemma label_steps_rest:
  "0 < n \<Longrightarrow> fold label_step (enumerate n ls) line = line @ concat (map (\<lambda>l. CHR '','' # label_text l) ls)"
  by (induction ls arbitrary: n line) (simp_all add: label_step_text)

lemma label_steps:
  "fold label_step (enumerate 0 ls) line = line @ join_commas (map label_text ls)"
  by (cases ls) (simp_all add: label_step_text label_steps_rest join_commas_Cons comp_def)

lemma labeled_line_text:
  "labeled_line n ls =
     n @ (if ls = [] then [SPACE] else ''{'' @ join_commas (map label_text ls) @ ''} '')"
  by (simp add: labeled_line_def label_steps)

section \<open>Families in first-seen order\<close>

text \<open>
  The reference for the buffer: the distinct metric names in the order first seen, each with the help
  and kind of its first sample and all its lines in order.
\<close>

type_synonym item = "string \<times> MetricDesc \<times> string"

definition first_seen :: "'a list \<Rightarrow> 'a list" where
  "first_seen xs = rev (remdups (rev xs))"

definition family_of :: "item list \<Rightarrow> string \<Rightarrow> Family" where
  "family_of items n =
     (let own = filter (\<lambda>x. fst x = n) items; d = fst (snd (hd own))
      in \<lparr>fam_name = n, fam_help = desc_help d, fam_kind = d_kind d, fam_lines = map (snd \<circ> snd) own\<rparr>)"

definition grouped :: "item list \<Rightarrow> Family list" where
  "grouped items = map (family_of items) (first_seen (map fst items))"

definition push_item :: "item \<Rightarrow> Family list \<Rightarrow> Family list" where
  "push_item x = family_push (fst x) (fst (snd x)) (snd (snd x))"

lemma first_seen_snoc: "first_seen (xs @ [x]) = (if x \<in> set xs then first_seen xs else first_seen xs @ [x])"
  by (simp add: first_seen_def)

lemma set_first_seen [simp]: "set (first_seen xs) = set xs"
  by (simp add: first_seen_def)

lemma distinct_first_seen [simp]: "distinct (first_seen xs)"
  by (simp add: first_seen_def)

lemma family_of_snoc_other: "n \<noteq> fst x \<Longrightarrow> family_of (items @ [x]) n = family_of items n"
  by (simp add: family_of_def)

lemma family_of_snoc_same:
  assumes "fst x \<in> set (map fst items)"
  shows "family_of (items @ [x]) (fst x) =
    family_of items (fst x) \<lparr>fam_lines := fam_lines (family_of items (fst x)) @ [snd (snd x)]\<rparr>"
proof -
  have "filter (\<lambda>y. fst y = fst x) items \<noteq> []" using assms by (force simp: filter_empty_conv)
  then show ?thesis by (simp add: family_of_def Let_def)
qed

lemma family_of_name [simp]: "fam_name (family_of items n) = n"
  by (simp add: family_of_def Let_def)

lemma family_push_new:
  "n \<notin> fam_name ` set fs \<Longrightarrow> family_push n d line fs = fs @ family_push n d line []"
  by (induction fs) auto

lemma family_push_old:
  assumes "distinct ns" and "x \<in> set ns" and "\<And>n. fam_name (f n) = n"
    and "\<And>n. n \<noteq> x \<Longrightarrow> g n = f n" and "g x = (f x)\<lparr>fam_lines := fam_lines (f x) @ [line]\<rparr>"
  shows "family_push x d line (map f ns) = map g ns"
  using assms(1,2)
proof (induction ns)
  case (Cons n ns)
  show ?case
  proof (cases "n = x")
    case True
    with Cons.prems have "\<forall>m \<in> set ns. m \<noteq> x" by auto
    with True show ?thesis using assms(3-5) by simp
  next
    case False
    with Cons show ?thesis using assms(3,4) by simp
  qed
qed simp

lemma push_item_grouped: "push_item x (grouped items) = grouped (items @ [x])"
proof (cases "fst x \<in> set (map fst items)")
  case True
  then show ?thesis
    unfolding push_item_def grouped_def
    by (simp add: first_seen_snoc del: set_map)
      (rule family_push_old, simp_all add: family_of_snoc_other family_of_snoc_same del: set_map)
next
  case False
  then have "\<forall>n \<in> set (first_seen (map fst items)). family_of (items @ [x]) n = family_of items n"
    by (metis family_of_snoc_other set_first_seen)
  moreover have "filter (\<lambda>y. fst y = fst x) items = []"
    using False by (simp add: filter_empty_conv) (metis image_eqI)
  then have "family_of (items @ [x]) (fst x) =
      \<lparr>fam_name = fst x, fam_help = desc_help (fst (snd x)), fam_kind = d_kind (fst (snd x)),
       fam_lines = [snd (snd x)]\<rparr>"
    by (simp add: family_of_def Let_def)
  moreover have "fst x \<notin> fam_name ` set (grouped items)"
    using False by (simp add: grouped_def image_image)
  ultimately show ?thesis
    using False by (simp add: push_item_def family_push_new grouped_def first_seen_snoc desc_help_def)
qed

lemma fold_push_grouped: "fold push_item items (grouped pre) = grouped (pre @ items)"
  by (induction items arbitrary: pre) (simp_all add: push_item_grouped)

section \<open>A collection, field by field\<close>

text \<open>
  What a leaf call writes at once and what it buffers while a collection is open. \<open>collection_end\<close>
  then appends one block per family: entity-major calls become field-major text.
\<close>

definition double_text :: "dbl \<Rightarrow> string" where
  "double_text v = append_double [] v"

definition header_text :: "string \<Rightarrow> string \<Rightarrow> MetricKind \<Rightarrow> string" where
  "header_text n h k = emit_header [] n h (type_name k)"

definition sample_text :: "MetricDesc \<Rightarrow> string \<Rightarrow> string" where
  "sample_text d v = (case d_prom_name d of None \<Rightarrow> []
     | Some n \<Rightarrow> header_text n (desc_help d) (d_kind d) @ n @ [SPACE] @ v @ [LF])"

fun direct_text :: "sink_call \<Rightarrow> string" where
  "direct_text (F64 d v) = sample_text d (double_text v)"
| "direct_text (U64 d v) = sample_text d (dec_word v)"
| "direct_text (I64 d v) = sample_text d (dec_sint v)"
| "direct_text (Boolean d v) = sample_text d (if v then ''1'' else ''0'')"
| "direct_text (Info_line n h ls) = header_text n h Gauge @ labeled_line n ls @ ''1'' @ [LF]"
| "direct_text _ = []"

definition labeled_item :: "MetricDesc \<Rightarrow> Label list \<Rightarrow> string \<Rightarrow> item list" where
  "labeled_item d ls v = (case d_prom_name d of None \<Rightarrow> []
     | Some n \<Rightarrow> [(n, d, labeled_line n ls @ v @ [LF])])"

fun buffered :: "sink_call \<Rightarrow> item list" where
  "buffered (Labeled_f64 d ls v) = labeled_item d ls (double_text v)"
| "buffered (Labeled_u64 d ls v) = labeled_item d ls (dec_word v)"
| "buffered (Labeled_i64 d ls v) = labeled_item d ls (dec_sint v)"
| "buffered _ = []"

definition family_text :: "Family \<Rightarrow> string" where
  "family_text f = header_text (fam_name f) (fam_help f) (fam_kind f) @ concat (fam_lines f)"

lemma append_double_out: "append_double out v = out @ double_text v"
  by (simp add: append_double_def double_text_def split: option.split)

lemma emit_header_out: "emit_header out n h (type_name k) = out @ header_text n h k"
  "emit_header out n h ''gauge'' = out @ header_text n h Gauge"
  by (simp_all add: emit_header_def header_text_def type_name_def)

lemma flush_family_text: "fold flush_family fs out = out @ concat (map family_text fs)"
  by (induction fs arbitrary: out) (simp_all add: flush_family_def family_text_def emit_header_out)

lemma flush_families_text:
  "flush_families s = s\<lparr>pr_out := pr_out s @ concat (map family_text (pr_pending s)), pr_pending := []\<rparr>"
  by (simp add: flush_families_def flush_family_text)

lemma dec_bit: "dec_int 1 = ''1''" "dec_int 0 = ''0''"
proof -
  have "dec (Suc 0) = ''1''" by (subst dec.simps) (simp add: digit_char_lits)
  then show "dec_int 1 = ''1''" by (simp add: dec_int_def)
qed (simp add: dec_int_def)

lemmas prom_method_defs = PrometheusSink_f64_def PrometheusSink_u64_def PrometheusSink_i64_def
  PrometheusSink_boolean_def PrometheusSink_labeled_f64_def PrometheusSink_labeled_u64_def
  PrometheusSink_labeled_i64_def PrometheusSink_info_line_def labeled_emit_def

lemma leaf_in_collection:
  assumes "leaf_call c" and "0 < collection_depth s"
  shows "PrometheusSink_call c s =
    s\<lparr>pr_out := pr_out s @ direct_text c, pr_pending := fold push_item (buffered c) (pr_pending s)\<rparr>"
  using assms
  by (cases c) (auto simp: dec_bit prom_method_defs sample_text_def labeled_item_def push_item_def Let_def
      append_double_out append_uint_def append_int_def emit_header_out split: option.splits)

lemma leaf_outside:
  assumes "leaf_call c" and "\<not> 0 < collection_depth s"
  shows "PrometheusSink_call c s =
    s\<lparr>pr_out := pr_out s @ direct_text c @ concat (map family_text (fold push_item (buffered c) []))\<rparr>"
  using assms
  by (cases c) (auto simp: dec_bit prom_method_defs sample_text_def labeled_item_def push_item_def Let_def
      family_text_def desc_help_def [symmetric]
      append_double_out append_uint_def append_int_def emit_header_out split: option.splits)

fun in_collection :: "sink_call \<Rightarrow> bool" where
  "in_collection Entry_begin = True"
| "in_collection Entry_end = True"
| "in_collection c = leaf_call c"

lemma collection_body:
  assumes "list_all in_collection body" and "0 < collection_depth s"
  shows "fold PrometheusSink_call body s =
    s\<lparr>pr_out := pr_out s @ concat (map direct_text body),
      pr_pending := fold push_item (concat (map buffered body)) (pr_pending s)\<rparr>"
  using assms
proof (induction body arbitrary: s)
  case (Cons c body)
  then have "c = Entry_begin \<or> c = Entry_end \<or> leaf_call c" by (cases c) auto
  with Cons show ?case by (auto simp: leaf_in_collection)
qed simp

lemma collection_text:
  assumes "list_all in_collection body" and "collection_depth s = 0" and "pr_pending s = []"
  shows "fold PrometheusSink_call (Collection_begin k sh # body @ [Collection_end]) s =
    s\<lparr>pr_out := pr_out s @ concat (map direct_text body) @
        concat (map family_text (grouped (concat (map buffered body))))\<rparr>"
proof -
  have "grouped [] = []" by (simp add: grouped_def first_seen_def)
  with fold_push_grouped [of _ "[]"]
  have "fold push_item items [] = grouped items" for items by simp
  with assms show ?thesis
    by (simp add: PrometheusSink_collection_begin_def PrometheusSink_collection_end_def
        collection_body flush_families_text)
qed

section \<open>The shape of the exposition\<close>

text \<open>
  A document is a sequence of blocks: a metric's header followed by its samples, each on one line, or
  text passed through that ends its last line.
\<close>

definition sample_line :: "string \<Rightarrow> string \<Rightarrow> bool" where
  "sample_line n line \<longleftrightarrow>
     (\<exists>ls v. line = labeled_line n ls @ v @ [LF] \<and> labels_ok ls \<and> v \<noteq> [] \<and> one_line v)"

definition family_ok :: "Family \<Rightarrow> bool" where
  "family_ok f \<longleftrightarrow> one_line (fam_name f) \<and> one_line (fam_help f) \<and> fam_lines f \<noteq> [] \<and>
     list_all (sample_line (fam_name f)) (fam_lines f)"

definition line_ended :: "string \<Rightarrow> bool" where
  "line_ended t \<longleftrightarrow> t = [] \<or> last t = LF"

datatype block = Metric Family | Passed string

fun block_text :: "block \<Rightarrow> string" where
  "block_text (Metric f) = family_text f"
| "block_text (Passed t) = t"

fun block_ok :: "block \<Rightarrow> bool" where
  "block_ok (Metric f) = family_ok f"
| "block_ok (Passed t) = line_ended t"

fun block_lines :: "block \<Rightarrow> string list" where
  "block_lines (Metric f) = fam_lines f"
| "block_lines (Passed t) = []"

fun block_passed :: "block \<Rightarrow> string list" where
  "block_passed (Metric f) = []"
| "block_passed (Passed t) = [t]"

text \<open>The sample lines a call is for, and the text it passes through.\<close>

definition direct_line :: "MetricDesc \<Rightarrow> string \<Rightarrow> string list" where
  "direct_line d v = (case d_prom_name d of None \<Rightarrow> [] | Some n \<Rightarrow> [n @ [SPACE] @ v @ [LF]])"

fun direct_lines :: "sink_call \<Rightarrow> string list" where
  "direct_lines (F64 d v) = direct_line d (double_text v)"
| "direct_lines (U64 d v) = direct_line d (dec_word v)"
| "direct_lines (I64 d v) = direct_line d (dec_sint v)"
| "direct_lines (Boolean d v) = direct_line d (if v then ''1'' else ''0'')"
| "direct_lines (Info_line n h ls) = [labeled_line n ls @ ''1'' @ [LF]]"
| "direct_lines _ = []"

definition call_samples :: "sink_call \<Rightarrow> string list" where
  "call_samples c = direct_lines c @ map (snd \<circ> snd) (buffered c)"

definition provider_text :: "Provider \<Rightarrow> string" where
  "provider_text p =
     (if pv_raw_text p = [] \<or> last (pv_raw_text p) = LF then pv_raw_text p else pv_raw_text p @ [LF])"

fun call_passed :: "sink_call \<Rightarrow> string list" where
  "call_passed (Raw_comment t) = [t]"
| "call_passed (Provider_call p) = [provider_text p]"
| "call_passed _ = []"

text \<open>
  \<open>blocks ps ls t\<close>: the text is a sequence of well-formed blocks that passes through exactly \<open>ps\<close>, in
  order, and whose metrics have exactly the samples \<open>ls\<close>. The document of some calls has their samples,
  none lost, repeated or added, and passes their text through.
\<close>

definition blocks :: "string list \<Rightarrow> string multiset \<Rightarrow> string \<Rightarrow> bool" where
  "blocks ps ls t \<longleftrightarrow> (\<exists>bs. t = concat (map block_text bs) \<and> list_all block_ok bs \<and>
     concat (map block_passed bs) = ps \<and> mset (concat (map block_lines bs)) = ls)"

definition prom_document :: "sink_call list \<Rightarrow> string \<Rightarrow> bool" where
  "prom_document xs t \<longleftrightarrow>
     blocks (concat (map call_passed xs)) (mset (concat (map call_samples xs))) t"

text \<open>No escaped label can break its line.\<close>

lemma one_line_simps [simp]:
  "one_line []" "one_line (c # s) = (c \<noteq> LF \<and> one_line s)"
  "one_line (s @ t) = (one_line s \<and> one_line t)"
  by (auto simp: one_line_def)

lemma labels_one_line:
  "labels_ok ls \<Longrightarrow> one_line (join_commas (map label_text ls))"
  by (induction ls rule: induct_list012)
    (auto simp: labels_ok_def label_text_def one_line_def prom_escape_def split: if_splits)

lemma labeled_line_one_line: "one_line n \<Longrightarrow> labels_ok ls \<Longrightarrow> one_line (labeled_line n ls)"
  by (simp add: labeled_line_text labels_one_line)

lemma dec_one_line [simp]: "one_line (dec n)" "one_line (dec_int i)"
  using dec_all_digits [of n] dec_all_digits [of "nat i"] dec_all_digits [of "nat (- i)"]
  by (auto simp: one_line_def dec_int_def list_all_iff is_digit_def byte_def dest: dec_digits)

lemma to_chars_one_line: "one_line (to_chars v)"
proof (cases "is_finite v")
  case True
  from json_number_chars(1) [OF json_number_to_chars [OF True]] show ?thesis
    by (auto simp: one_line_def list_all_iff num_char_def is_digit_def byte_def)
next
  case False
  then show ?thesis by (cases v) auto
qed

lemma double_text_one_line [simp]: "one_line (double_text v)" "double_text v \<noteq> []"
  using to_chars_one_line [of v] json_number_chars(2) [OF json_number_to_chars, of v]
  by (cases v; auto simp: double_text_def append_double_def montauk_fmt_double_def Let_def
      split: option.splits if_splits)+

lemma blocks_append: "blocks ps ls t \<Longrightarrow> blocks qs ms u \<Longrightarrow> blocks (ps @ qs) (ls + ms) (t @ u)"
  unfolding blocks_def
  by (elim exE conjE, rule_tac x = "bs @ bsa" in exI) simp

lemma prom_document_append: "prom_document xs t \<Longrightarrow> prom_document ys u \<Longrightarrow> prom_document (xs @ ys) (t @ u)"
  by (simp add: prom_document_def blocks_append)

lemma blocks_one: "block_ok b \<Longrightarrow> blocks (block_passed b) (mset (block_lines b)) (block_text b)"
  unfolding blocks_def by (rule exI [of _ "[b]"]) simp

lemma blocks_nil [simp]: "blocks [] {#} []"
  unfolding blocks_def by (rule exI [of _ "[]"]) simp

lemma blocks_families:
  "list_all family_ok fs \<Longrightarrow> blocks [] (mset (concat (map fam_lines fs))) (concat (map family_text fs))"
proof (induction fs)
  case (Cons f fs)
  then show ?case using blocks_append [OF blocks_one [of "Metric f"]] by fastforce
qed simp

definition item_ok :: "item \<Rightarrow> bool" where
  "item_ok x \<longleftrightarrow> one_line (fst x) \<and> one_line (desc_help (fst (snd x))) \<and> sample_line (fst x) (snd (snd x))"

lemma push_item_ok: "item_ok x \<Longrightarrow> list_all family_ok fs \<Longrightarrow> list_all family_ok (push_item x fs)"
  by (induction fs) (auto simp: push_item_def item_ok_def family_ok_def desc_help_def)

lemma push_items_ok: "list_all item_ok xs \<Longrightarrow> list_all family_ok fs \<Longrightarrow> list_all family_ok (fold push_item xs fs)"
  by (induction xs arbitrary: fs) (auto intro: push_item_ok)

lemma desc_help_ok: "desc_ok d \<Longrightarrow> d_prom_name d = Some n \<Longrightarrow> one_line n \<and> one_line (desc_help d)"
  by (auto simp: desc_ok_def desc_help_def split: option.splits)

lemma dec_int_nonempty [simp]: "dec_int i \<noteq> []"
  by (simp add: dec_int_def)

lemma labeled_item_ok:
  assumes "desc_ok d" "labels_ok ls" "v \<noteq> []" "one_line v"
  shows "list_all item_ok (labeled_item d ls v)"
proof (cases "d_prom_name d")
  case (Some n)
  have "sample_line n (labeled_line n ls @ v @ [LF])" using assms sample_line_def by blast
  with Some assms(1) show ?thesis by (simp add: labeled_item_def item_ok_def desc_help_ok)
qed (simp add: labeled_item_def)

lemma buffered_ok: "leaf_call c \<Longrightarrow> list_all item_ok (buffered c)"
  by (cases c) (auto simp: labeled_item_ok)

lemma push_item_lines:
  "mset (concat (map fam_lines (push_item x fs))) = mset (concat (map fam_lines fs)) + {#snd (snd x)#}"
  by (induction fs) (auto simp: push_item_def)

lemma push_items_lines:
  "mset (concat (map fam_lines (fold push_item xs fs))) =
     mset (concat (map fam_lines fs)) + mset (map (snd \<circ> snd) xs)"
  by (induction xs arbitrary: fs) (simp_all add: push_item_lines)

lemma sample_block:
  assumes "one_line n" "one_line h" "labels_ok ls" "v \<noteq> []" "one_line v"
  shows "blocks [] {#labeled_line n ls @ v @ [LF]#} (header_text n h k @ labeled_line n ls @ v @ [LF])"
proof -
  have "sample_line n (labeled_line n ls @ v @ [LF])" using assms unfolding sample_line_def by blast
  with assms blocks_one [of "Metric \<lparr>fam_name = n, fam_help = h, fam_kind = k,
      fam_lines = [labeled_line n ls @ v @ [LF]]\<rparr>"] show ?thesis
    by (simp add: family_ok_def family_text_def)
qed

lemma sample_text_blocks:
  assumes "desc_ok d" "v \<noteq> []" "one_line v"
  shows "blocks [] (mset (direct_line d v)) (sample_text d v)"
proof (cases "d_prom_name d")
  case (Some n)
  with sample_block [of n "desc_help d" "[]" v "d_kind d"] assms desc_help_ok [OF assms(1) Some]
  show ?thesis by (simp add: sample_text_def direct_line_def labels_ok_def labeled_line_def)
qed (simp add: sample_text_def direct_line_def)

lemma direct_text_blocks: "leaf_call c \<Longrightarrow> blocks [] (mset (direct_lines c)) (direct_text c)"
  using sample_block [where v = "''1''"] by (cases c) (auto intro!: sample_text_blocks)

section \<open>The invariant of a walk\<close>

text \<open>What is written holds some of the samples; the pending families hold the rest.\<close>

definition prom_inv :: "int \<Rightarrow> sink_call list \<Rightarrow> PrometheusSink \<Rightarrow> bool" where
  "prom_inv d xs s \<longleftrightarrow> collection_depth s = d \<and> 0 \<le> d \<and> list_all family_ok (pr_pending s) \<and>
     (d = 0 \<longrightarrow> pr_pending s = []) \<and>
     (\<exists>ls. blocks (concat (map call_passed xs)) ls (pr_out s) \<and>
       ls + mset (concat (map fam_lines (pr_pending s))) = mset (concat (map call_samples xs)))"

lemma leaf_passed [simp]: "leaf_call c \<Longrightarrow> call_passed c = []"
  by (cases c) auto

lemma leaves_passed: "list_all leaf_call xs \<Longrightarrow> concat (map call_passed xs) = []"
  by (induction xs) auto

lemma prom_inv_leaf:
  assumes "leaf_call c" and "prom_inv d xs s"
  shows "prom_inv d (xs @ [c]) (PrometheusSink_call c s)"
proof -
  from assms(2) obtain ls where ls: "blocks (concat (map call_passed xs)) ls (pr_out s)"
    "ls + mset (concat (map fam_lines (pr_pending s))) = mset (concat (map call_samples xs))"
    by (auto simp: prom_inv_def)
  note direct = blocks_append [OF ls(1) direct_text_blocks [OF assms(1)]]
  let ?fs = "fold push_item (buffered c)"
  show ?thesis
  proof (cases "0 < d")
    case True
    have "ls + mset (direct_lines c) + mset (concat (map fam_lines (?fs (pr_pending s)))) =
        mset (concat (map call_samples (xs @ [c])))"
      using ls(2) by (simp add: push_items_lines call_samples_def add_ac)
    with True assms direct show ?thesis
      by (auto simp: prom_inv_def leaf_in_collection intro!: push_items_ok buffered_ok)
  next
    case False
    have "blocks (concat (map call_passed (xs @ [c])))
        (ls + mset (direct_lines c) + mset (map (snd \<circ> snd) (buffered c)))
        (pr_out s @ direct_text c @ concat (map family_text (?fs [])))"
      using blocks_append [OF direct blocks_families [OF push_items_ok [OF buffered_ok [OF assms(1)]], of "[]"]]
        assms(1) by (simp add: push_items_lines)
    with False assms ls(2) show ?thesis
      by (auto simp: prom_inv_def leaf_outside call_samples_def add_ac)
  qed
qed

lemma prom_inv_leaves:
  "list_all leaf_call cs \<Longrightarrow> prom_inv d xs s \<Longrightarrow> prom_inv d (xs @ cs) (fold PrometheusSink_call cs s)"
proof (induction cs arbitrary: xs s)
  case (Cons c cs)
  then show ?case using Cons.IH [OF _ prom_inv_leaf [of c d xs s]] by simp
qed simp

lemma silent_calls:
  "prom_inv d (xs @ [Section_begin k]) s = prom_inv d xs s" "prom_inv d (xs @ [Section_end]) s = prom_inv d xs s"
  "prom_inv d (xs @ [Entry_begin]) s = prom_inv d xs s" "prom_inv d (xs @ [Entry_end]) s = prom_inv d xs s"
  by (simp_all add: prom_inv_def call_samples_def)

lemma prom_inv_collection:
  assumes "prom_inv d xs s"
    and "\<And>ys t. prom_inv (d + 1) ys t \<Longrightarrow> prom_inv (d + 1) (ys @ body) (fold PrometheusSink_call body t)"
  shows "prom_inv d (xs @ Collection_begin k sh # body @ [Collection_end])
    (fold PrometheusSink_call (Collection_begin k sh # body @ [Collection_end]) s)"
proof -
  let ?t = "fold PrometheusSink_call body (PrometheusSink_collection_begin s)"
  let ?ys = "(xs @ [Collection_begin k sh]) @ body"
  have "prom_inv (d + 1) (xs @ [Collection_begin k sh]) (PrometheusSink_collection_begin s)"
    using assms(1) by (auto simp: prom_inv_def PrometheusSink_collection_begin_def call_samples_def)
  from assms(2) [OF this] have t: "prom_inv (d + 1) ?ys ?t" .
  then obtain ls where ls: "blocks (concat (map call_passed ?ys)) ls (pr_out ?t)"
    "ls + mset (concat (map fam_lines (pr_pending ?t))) = mset (concat (map call_samples ?ys))"
    and fam: "list_all family_ok (pr_pending ?t)"
    by (auto simp: prom_inv_def)
  have "0 \<le> d" using assms(1) by (simp add: prom_inv_def)
  with t ls fam blocks_append [OF ls(1) blocks_families [OF fam]] show ?thesis
    by (auto simp: prom_inv_def PrometheusSink_collection_end_def flush_families_text Let_def call_samples_def)
qed

lemma prom_inv_passed:
  assumes "line_ended t" and "prom_inv d xs s" and "call_passed c = [t]" and "call_samples c = []"
  shows "prom_inv d (xs @ [c]) (s\<lparr>pr_out := pr_out s @ t\<rparr>)"
  using assms blocks_append [OF _ blocks_one [of "Passed t"]] by (fastforce simp: prom_inv_def)

lemma provider_call_text: "PrometheusSink_provider p s = s\<lparr>pr_out := pr_out s @ provider_text p\<rparr>"
  by (auto simp: PrometheusSink_provider_def provider_text_def Let_def)

lemma prom_inv_provider: "prom_inv d xs s \<Longrightarrow> prom_inv d (xs @ [Provider_call p]) (PrometheusSink_provider p s)"
  unfolding provider_call_text
  by (rule prom_inv_passed) (auto simp: line_ended_def provider_text_def call_samples_def)

lemma prom_inv_comment:
  "t = [] \<or> last t = LF \<Longrightarrow> prom_inv d xs s \<Longrightarrow> prom_inv d (xs @ [Raw_comment t]) (PrometheusSink_raw_comment t s)"
  unfolding PrometheusSink_raw_comment_def
  by (rule prom_inv_passed) (auto simp: line_ended_def call_samples_def)

lemma prom_inv_entries:
  assumes "\<And>e ys t. e \<in> set es \<Longrightarrow> prom_inv d ys t \<Longrightarrow> prom_inv d (ys @ e) (fold PrometheusSink_call e t)"
    and "prom_inv d xs s"
  shows "prom_inv d (xs @ concat (map entry_calls es)) (fold PrometheusSink_call (concat (map entry_calls es)) s)"
  using assms
proof (induction es arbitrary: xs s)
  case (Cons e es)
  have "prom_inv d ((xs @ [Entry_begin]) @ e) (fold PrometheusSink_call e s)"
    using Cons.prems by (intro Cons.prems(1)) (simp_all only: silent_calls list.set_intros)
  then have "prom_inv d (((xs @ [Entry_begin]) @ e) @ [Entry_end]) (fold PrometheusSink_call e s)"
    by (simp only: silent_calls)
  from Cons.IH [OF _ this] Cons.prems(1) show ?case by simp
qed simp

lemma prom_inv_walk:
  "obj_calls n zs \<Longrightarrow> prom_inv d xs s \<Longrightarrow> prom_inv d (xs @ zs) (fold PrometheusSink_call zs s)"
proof (induction arbitrary: d xs s rule: obj_calls.induct)
  case (obj_leaf c n zs)
  then show ?case using obj_leaf.IH [OF prom_inv_leaf] by simp
next
  case (obj_comment t n zs)
  then show ?case using obj_comment.IH [OF prom_inv_comment] by simp
next
  case (obj_provider n zs p)
  then show ?case using obj_provider.IH [OF prom_inv_provider] by simp
next
  case (obj_section n body zs k)
  have "prom_inv d ((xs @ [Section_begin k]) @ body) (fold PrometheusSink_call body s)"
    by (rule obj_section.IH(1)) (simp only: silent_calls obj_section.prems)
  then have "prom_inv d (((xs @ [Section_begin k]) @ body) @ [Section_end]) (fold PrometheusSink_call body s)"
    by (simp only: silent_calls)
  from obj_section.IH(2) [OF this] show ?case by simp
next
  case (obj_objects es n zs k)
  from obj_objects.IH(2) [OF prom_inv_collection [OF obj_objects.prems prom_inv_entries]] obj_objects.IH(1)
  show ?case by simp
next
  case (obj_scalars body n zs k)
  then have "list_all leaf_call body" using scalar_is_leaf by (auto simp: list_all_iff)
  from obj_scalars.IH [OF prom_inv_collection [OF obj_scalars.prems prom_inv_leaves [OF this]]]
  show ?case by simp
qed simp

interpretation prom_sink: metrics_sink "\<lambda>s. s = PrometheusSink_init" PrometheusSink_call
  PrometheusSink_finish "prom_inv 0" 31 prom_document
proof unfold_locales
  show "s = PrometheusSink_init \<Longrightarrow> prom_inv 0 [] s" for s
    by (simp add: prom_inv_def PrometheusSink_init_def)
  show "prom_inv 0 ys s \<Longrightarrow> obj_calls 31 xs \<Longrightarrow> prom_inv 0 (ys @ xs) (fold PrometheusSink_call xs s)" for ys s xs
    by (rule prom_inv_walk)
  show "prom_inv 0 xs s \<Longrightarrow> prom_document xs (PrometheusSink_finish s)" for xs s
    by (auto simp: PrometheusSink_finish_def flush_families_text prom_inv_def prom_document_def)
qed

section \<open>Properties\<close>

text \<open>A collection comes out field by field: what its calls write at once, then one block per metric in
  the order first seen, each with a single header and all its samples in call order.\<close>

theorem collection_field_major:
  assumes "list_all in_collection body"
  shows "PrometheusSink_finish (fold PrometheusSink_call (Collection_begin k sh # body @ [Collection_end])
      PrometheusSink_init) =
    concat (map direct_text body) @ concat (map family_text (grouped (concat (map buffered body)))) \<and>
    distinct (map fam_name (grouped (concat (map buffered body))))"
proof -
  have "distinct (map fam_name (grouped items))" for items
    by (simp add: grouped_def comp_def)
  then show ?thesis
    using collection_text [OF assms, of PrometheusSink_init k sh]
    by (simp add: PrometheusSink_init_def PrometheusSink_finish_def flush_families_text
        del: fold_append fold.simps)
qed

theorem collection_field_major_witness:
  "PrometheusSink_finish (fold PrometheusSink_call (Collection_begin ''c'' Objects #
       [Labeled_u64 (prom_desc ''a'' ''h'' Gauge) [] 1, Labeled_u64 (prom_desc ''b'' ''h'' Gauge) [] 2,
        Labeled_u64 (prom_desc ''a'' ''h'' Gauge) [] 3] @ [Collection_end]) PrometheusSink_init) =
    header_text ''a'' ''h'' Gauge @ ''a 1'' @ [LF] @ ''a 3'' @ [LF] @ header_text ''b'' ''h'' Gauge @ ''b 2'' @ [LF]"
proof -
  have d: "dec (Suc 0) = ''1''" "dec 2 = ''2''" "dec 3 = ''3''"
    by (subst dec.simps, simp add: digit_char_lits)+
  show ?thesis
    by (subst collection_field_major [THEN conjunct1])
      (simp_all add: desc_ok_def labels_ok_def one_line_def labeled_item_def grouped_def first_seen_def
        family_of_def family_text_def desc_help_def labeled_line_def d)
qed

text \<open>Label values are safe: read up to its closing quote, an escaped value is the original bytes, and
  no value can end its line.\<close>

theorem label_value_round_trip:
  "read_label_value (append_escaped [] v @ DQUOTE # rest) = Some (v, rest) \<and> LF \<notin> set (append_escaped [] v)"
  using read_label_value_escaped [of v rest] prom_escape_one_line [of v] by (simp add: append_escaped_eq)

end
