(* ===== verification/Formatting.thy ===== *)
theory Formatting
  imports Model
begin

text \<open>
  The readers and formatters of \<open>src/ui/Formatting.cpp\<close> the other components use, over the path
  redirection of \<open>src/util/Procfs.cpp\<close>: host identity with its caches, the smoothing cache of the
  process bars, and the text helpers. The file system, the environment and the clock are inputs.
\<close>

section \<open>Redirected reads\<close>

text \<open>
  The two environment variables, and what opening a path yields (\<open>None\<close> when it cannot be read).
\<close>

record Env =
  env_proc_root :: "string option"
  env_sys_root :: "string option"
  env_file :: "string \<Rightarrow> string option"

definition proc_root :: "Env \<Rightarrow> string" where
  "proc_root e = (case env_proc_root e of None \<Rightarrow> [] | Some r \<Rightarrow> r)"

definition sys_root :: "Env \<Rightarrow> string" where
  "sys_root e = (case env_sys_root e of None \<Rightarrow> [] | Some r \<Rightarrow> r)"

text \<open>\<open>path /= relative\<close>: a separator unless the left side already ends with one.\<close>

definition path_join :: "string \<Rightarrow> string \<Rightarrow> string" where
  "path_join rt rel = (if rt = [] \<or> last rt = CHR ''/'' then rt @ rel else rt @ ''/'' @ rel)"

definition map_proc_path :: "Env \<Rightarrow> string \<Rightarrow> string" where
  "map_proc_path e ab =
     (if \<not> starts_with ab ''/proc'' then ab
      else let rt = proc_root e in if rt = [] then ab else path_join rt (drop 1 ab))"

definition map_sys_path :: "Env \<Rightarrow> string \<Rightarrow> string" where
  "map_sys_path e ab =
     (if \<not> starts_with ab ''/sys'' then ab
      else let rt = sys_root e in if rt = [] then ab else path_join rt (drop 1 ab))"

definition map_path :: "Env \<Rightarrow> string \<Rightarrow> string" where
  "map_path e ab = map_sys_path e (map_proc_path e ab)"

definition read_file_string :: "Env \<Rightarrow> string \<Rightarrow> string option" where
  "read_file_string e ab = env_file e (map_path e ab)"

section \<open>Host identity\<close>

definition identity_root_key :: "Env \<Rightarrow> string" where
  "identity_root_key e =
     (case env_proc_root e of None \<Rightarrow> [] | Some p \<Rightarrow> p) @ [CHR 0x1F] @
     (case env_sys_root e of None \<Rightarrow> [] | Some s \<Rightarrow> s)"

definition rstrip_line :: "string \<Rightarrow> string" where
  "rstrip_line s = strip_back (\<lambda>c. c = LF \<or> c = CR \<or> c = SPACE) s"

record IdentityCache =
  ic_root :: string
  ic_value :: string
  ic_have :: bool

definition read_identity :: "string \<Rightarrow> Env \<Rightarrow> IdentityCache \<Rightarrow> string \<times> IdentityCache" where
  "read_identity path e c =
     (let rt = identity_root_key e
      in if ic_have c \<and> rt = ic_root c then (ic_value c, c)
         else let txt = (case read_file_string e path of Some t \<Rightarrow> t | None \<Rightarrow> []);
                  host = rstrip_line txt;
                  host = (if host = [] then ''unknown'' else host)
              in (host, \<lparr>ic_root = rt, ic_value = host, ic_have = True\<rparr>))"

definition read_hostname :: "Env \<Rightarrow> IdentityCache \<Rightarrow> string \<times> IdentityCache" where
  "read_hostname = read_identity ''/proc/sys/kernel/hostname''"

definition read_kernel_version :: "Env \<Rightarrow> IdentityCache \<Rightarrow> string \<times> IdentityCache" where
  "read_kernel_version = read_identity ''/proc/sys/kernel/osrelease''"

text \<open>\<open>std::atoi\<close>: white space, a sign, digits; the value as \<open>long\<close>, cut to an \<open>int\<close>.\<close>

definition atoi :: "string \<Rightarrow> int" where
  "atoi s =
     (let t = dropWhile is_space s;
          neg = (t \<noteq> [] \<and> hd t = CHR ''-'');
          u = (if t \<noteq> [] \<and> (hd t = CHR ''-'' \<or> hd t = CHR ''+'') then tl t else t);
          m = int (undec (takeWhile is_digit u));
          l = (if neg then max (- (2 ^ 63)) (- m) else min (2 ^ 63 - 1) m)
      in sint (word_of_int l :: i32))"

record SchedCache =
  sc_last :: int
  sc_root :: string
  sc_cache :: string

text \<open>The kernel scheduler a release string stands for.\<close>

definition builtin_scheduler :: "string option \<Rightarrow> string" where
  "builtin_scheduler osrelease =
     (case osrelease of None \<Rightarrow> ''CFS''
      | Some ver \<Rightarrow>
        (let (major, minor) =
           (case find_char (CHR ''.'') ver of None \<Rightarrow> (0, 0)
            | Some dot \<Rightarrow> (atoi (c_str ver), atoi (c_str (drop (dot + 1) ver))))
         in if 6 < major \<or> major = 6 \<and> 6 \<le> minor then ''EEVDF'' else ''CFS''))"

definition scheduler_name :: "Env \<Rightarrow> string" where
  "scheduler_name e =
     (let name = (case read_file_string e ''/sys/kernel/sched_ext/root/ops'' of
                    None \<Rightarrow> [] | Some t \<Rightarrow> rstrip_line t)
      in if name \<noteq> [] then name
         else builtin_scheduler (read_file_string e ''/proc/sys/kernel/osrelease''))"

text \<open>\<open>now\<close> and \<open>sc_last\<close> are nanosecond counts of the steady clock; the difference is cut to milliseconds.\<close>

definition read_scheduler :: "int \<Rightarrow> Env \<Rightarrow> SchedCache \<Rightarrow> string \<times> SchedCache" where
  "read_scheduler now e c =
     (let rt = identity_root_key e
      in if sc_last c \<noteq> 0 \<and> rt = sc_root c \<and> (now - sc_last c) div 1000000 < 1000
         then (sc_cache c, c)
         else let out = scheduler_name e in (out, \<lparr>sc_last = now, sc_root = rt, sc_cache = out\<rparr>))"

section \<open>Smoothing\<close>

text \<open>
  \<open>LRUCache\<close>: the list of items, most recent first, and the keys the index holds. The index maps a
  key to its list node, which the key identifies.
\<close>

record LRUCache =
  lru_items :: "(string \<times> dbl) list"
  lru_index :: "string set"

definition LRU_MAX_SIZE :: nat where
  "LRU_MAX_SIZE = 512"

fun remove_key :: "string \<Rightarrow> (string \<times> 'a) list \<Rightarrow> (string \<times> 'a) list" where
  "remove_key k [] = []"
| "remove_key k (x # xs) = (if fst x = k then xs else x # remove_key k xs)"

definition lru_smooth :: "string \<Rightarrow> dbl \<Rightarrow> dbl \<Rightarrow> LRUCache \<Rightarrow> dbl \<times> LRUCache" where
  "lru_smooth key raw alpha c =
     (if key \<in> lru_index c
      then (let old = (case map_of (lru_items c) key of Some v \<Rightarrow> v | None \<Rightarrow> Num 0);
                sm = d_add (d_mul alpha raw) (d_mul (d_sub (Num 1) alpha) old)
            in (sm, c\<lparr>lru_items := (key, sm) # remove_key key (lru_items c)\<rparr>))
      else (let items = (key, raw) # lru_items c; index = insert key (lru_index c)
            in (raw,
                if LRU_MAX_SIZE < length items
                then \<lparr>lru_items = butlast items, lru_index = index - {fst (last items)}\<rparr>
                else \<lparr>lru_items = items, lru_index = index\<rparr>)))"

definition chart_should_emit :: "u64 \<Rightarrow> bool \<Rightarrow> bool" where
  "chart_should_emit frame_tick forced \<longleftrightarrow> forced \<or> frame_tick mod 4 = 0"

section \<open>Text\<close>

definition display_char :: "char \<Rightarrow> char" where
  "display_char c =
     (if 32 \<le> byte c \<and> byte c < 127 then c else if 0x80 \<le> byte c then c
      else if c = TAB then SPACE else CHR ''?'')"

fun sanitize_loop :: "nat \<Rightarrow> string \<Rightarrow> string \<Rightarrow> string" where
  "sanitize_loop max_len out [] = out"
| "sanitize_loop max_len out (c # s) =
     (if length out < max_len then sanitize_loop max_len (out @ [display_char c]) s else out)"

definition sanitize_for_display :: "string \<Rightarrow> nat \<Rightarrow> string" where
  "sanitize_for_display s max_len = sanitize_loop max_len [] s"

definition uptime_text :: "u64 \<Rightarrow> string" where
  "uptime_text total_secs =
     dec_word (total_secs div 86400) @ ''D '' @ dec_word ((total_secs mod 86400) div 3600) @ ''H '' @
     dec_word ((total_secs mod 3600) div 60) @ ''M '' @ dec_word (total_secs mod 60) @ ''S''"

section \<open>Behaviour of the readers\<close>

lemma rstrip_line_last: "rstrip_line s \<noteq> [] \<Longrightarrow> last (rstrip_line s) \<notin> {LF, CR, SPACE}"
  using hd_dropWhile [of "\<lambda>c. c = LF \<or> c = CR \<or> c = SPACE" "rev s"]
  by (auto simp: rstrip_line_def strip_back_def last_rev)

lemma read_identity_nonempty:
  assumes "ic_have c \<longrightarrow> ic_value c \<noteq> []"
  shows "fst (read_identity path e c) \<noteq> []"
    and "ic_have (snd (read_identity path e c))" "ic_value (snd (read_identity path e c)) \<noteq> []"
  using assms by (auto simp: read_identity_def Let_def)

text \<open>A cached answer never outlives a change of the redirection roots.\<close>

lemma read_identity_fresh_root:
  assumes "identity_root_key e \<noteq> ic_root c"
  shows "read_identity path e c = read_identity path e \<lparr>ic_root = [], ic_value = [], ic_have = False\<rparr>"
  using assms by (simp add: read_identity_def Let_def)

section \<open>The smoothing cache\<close>

definition lru_ok :: "LRUCache \<Rightarrow> bool" where
  "lru_ok c \<longleftrightarrow> lru_index c = fst ` set (lru_items c) \<and> distinct (map fst (lru_items c)) \<and>
     length (lru_items c) \<le> LRU_MAX_SIZE"

lemma remove_key_props:
  assumes "distinct (map fst xs)"
  shows "set (remove_key k xs) = {x \<in> set xs. fst x \<noteq> k}" "distinct (map fst (remove_key k xs))"
    "k \<in> fst ` set xs \<Longrightarrow> Suc (length (remove_key k xs)) = length xs"
  using assms by (induction xs) (auto simp: rev_image_eqI)

lemma remove_key_map_of: "distinct (map fst xs) \<Longrightarrow> j \<noteq> k \<Longrightarrow> map_of (remove_key k xs) j = map_of xs j"
  by (induction xs) auto

lemma lru_ok_smooth:
  assumes "lru_ok c"
  shows "lru_ok (snd (lru_smooth key raw alpha c))"
proof (cases "key \<in> lru_index c")
  case True
  with assms remove_key_props [of "lru_items c" key] show ?thesis
    by (auto simp: lru_ok_def lru_smooth_def Let_def)
next
  case False
  let ?items = "(key, raw) # lru_items c"
  have d: "distinct (map fst ?items)" and ix: "insert key (lru_index c) = fst ` set ?items"
    using False assms by (auto simp: lru_ok_def)
  have split: "map fst ?items = map fst (butlast ?items) @ [fst (last ?items)]"
    by (metis append_butlast_last_id list.distinct(1) list.simps(8,9) map_append)
  have "fst ` set ?items = insert (fst (last ?items)) (fst ` set (butlast ?items))"
    using arg_cong [OF split, of set] by simp
  moreover have "distinct (map fst (butlast ?items))" "fst (last ?items) \<notin> fst ` set (butlast ?items)"
    using d unfolding split by auto
  ultimately show ?thesis
    using False d ix assms by (auto simp: lru_ok_def lru_smooth_def Let_def)
qed

section \<open>Properties\<close>

text \<open>The smoothing cache never exceeds its limit and keeps its list and index in step; a known key moves
  by the given weight from its stored value, a new key starts at the raw one, and either is what the
  next call finds.\<close>

theorem lru_smooth_correct:
  assumes "lru_ok c" and "lru_smooth key raw alpha c = (v, c')"
  shows "lru_ok c' \<and> map_of (lru_items c') key = Some v \<and>
    v = (case map_of (lru_items c) key of None \<Rightarrow> raw
         | Some old \<Rightarrow> d_add (d_mul alpha raw) (d_mul (d_sub (Num 1) alpha) old))"
proof -
  have c': "c' = snd (lru_smooth key raw alpha c)" "v = fst (lru_smooth key raw alpha c)"
    using assms(2) by simp_all
  have mem: "key \<in> lru_index c \<longleftrightarrow> map_of (lru_items c) key \<noteq> None"
    using assms(1) by (simp add: lru_ok_def map_of_eq_None_iff)
  have "map_of (butlast ((key, raw) # lru_items c)) key = Some raw" if "LRU_MAX_SIZE \<le> length (lru_items c)"
    using that by (cases "lru_items c") (simp_all add: LRU_MAX_SIZE_def)
  then have "map_of (lru_items c') key = Some v \<and>
    v = (case map_of (lru_items c) key of None \<Rightarrow> raw
         | Some old \<Rightarrow> d_add (d_mul alpha raw) (d_mul (d_sub (Num 1) alpha) old))"
    using mem unfolding c' by (auto simp: lru_smooth_def Let_def simp del: butlast.simps split: option.split)
  with lru_ok_smooth [OF assms(1)] c'(1) show ?thesis by simp
qed

theorem lru_smooth_correct_witness:
  "fst (lru_smooth ''p1'' (Num 4) (Num (1/2)) \<lparr>lru_items = [], lru_index = {}\<rparr>) = Num 4"
  using lru_smooth_correct [of "\<lparr>lru_items = [], lru_index = {}\<rparr>" "''p1''" "Num 4" "Num (1/2)"]
  by (simp add: lru_ok_def lru_smooth_def Let_def LRU_MAX_SIZE_def)

end
