(* ===== verification/Metrics_Render.thy ===== *)
theory Metrics_Render
  imports Json_Sink Prometheus_Sink Formatting
begin

text \<open>
  \<open>src/app/MetricsRender.cpp\<close>: the single walk over a metrics snapshot, as the list of sink calls it
  makes, section by section, and the two serializers that drive it
  (\<open>src/app/JsonSerializer.cpp\<close>, \<open>src/app/PrometheusSerializer.cpp\<close>).
\<close>

section \<open>Host\<close>

definition MONTAUK_VERSION :: string where
  "MONTAUK_VERSION = ''8.9.0''"

definition san :: "string \<Rightarrow> string" where
  "san v = map (\<lambda>c. if c = DQUOTE \<or> c = BSLASH \<or> c = LF then SPACE else c) v"

definition system_gpu :: "MetricsSnapshot \<Rightarrow> string" where
  "system_gpu s =
     (let gpu = gpu_name (ms_vram s)
      in if gpu = [] \<and> gpu_devices (ms_vram s) \<noteq> [] then gd_name (hd (gpu_devices (ms_vram s))) else gpu)"

definition mem_total_gib :: "MetricsSnapshot \<Rightarrow> dbl" where
  "mem_total_gib s = d_div (d_of_int (uint (mem_total_kb (ms_mem s)))) (d_mul (Num 1024) (Num 1024))"

definition system_labels :: "string \<Rightarrow> string \<Rightarrow> MetricsSnapshot \<Rightarrow> Label list" where
  "system_labels kver sched s =
     [label ''version'' MONTAUK_VERSION, label ''cpu_model'' (san (cpu_model (ms_cpu s))),
      label ''physical_cores'' (dec_sint (cpu_physical_cores (ms_cpu s))),
      label ''logical_cpus'' (dec_sint (cpu_logical_threads (ms_cpu s))),
      label ''mem_total_gib'' (take 31 (fmt_f 1 (mem_total_gib s))),
      label ''gpu'' (san (system_gpu s)), label ''kernel'' (san kver), label ''sched'' (san sched)] @
     (if pmu_l3_per_cache_domain (ms_pmu s) \<noteq> []
      then [label ''cache_domain'' (dec (length (pmu_l3_per_cache_domain (ms_pmu s))))] else [])"

definition render_system :: "string \<Rightarrow> string \<Rightarrow> MetricsSnapshot \<Rightarrow> sink_call list" where
  "render_system kver sched s =
     section_calls ''system''
       [Str (json_desc ''version'') MONTAUK_VERSION,
        Str (json_desc ''cpu_model'') (cpu_model (ms_cpu s)),
        I64 (json_desc ''physical_cores'') (scast (cpu_physical_cores (ms_cpu s))),
        I64 (json_desc ''logical_cpus'') (scast (cpu_logical_threads (ms_cpu s))),
        F64 (json_desc ''mem_total_gib'') (mem_total_gib s),
        Str (json_desc ''gpu'') (system_gpu s),
        Str (json_desc ''kernel'') kver,
        Str (json_desc ''scheduler'') sched] @
     [Info_line ''montauk_system_info''
        ''System specs: montauk version, cpu model, cores, memory, gpu, kernel, scheduler''
        (system_labels kver sched s)]"

section \<open>Processor and counters\<close>

definition render_cpu :: "MetricsSnapshot \<Rightarrow> sink_call list" where
  "render_cpu s =
     (let c = ms_cpu s in
      section_calls ''cpu''
       ([F64 (both_desc ''usage_pct'' ''montauk_cpu_usage_percent'' ''Aggregate CPU utilization'' Gauge)
           (cpu_usage_pct c),
         F64 (both_desc ''user_pct'' ''montauk_cpu_user_percent'' ''CPU user time percent'' Gauge)
           (cpu_pct_user c),
         F64 (both_desc ''system_pct'' ''montauk_cpu_system_percent'' ''CPU system time percent'' Gauge)
           (cpu_pct_system c),
         F64 (both_desc ''iowait_pct'' ''montauk_cpu_iowait_percent'' ''CPU I/O wait percent'' Gauge)
           (cpu_pct_iowait c),
         F64 (both_desc ''irq_pct'' ''montauk_cpu_irq_percent'' ''CPU IRQ handling percent'' Gauge)
           (cpu_pct_irq c),
         F64 (both_desc ''steal_pct'' ''montauk_cpu_steal_percent'' ''CPU steal percent'' Gauge)
           (cpu_pct_steal c),
         F64 (both_desc ''changepoint_score'' ''montauk_cpu_changepoint_score''
           ''Machine load-regime changepoint (fast vs slow EWMA divergence over aggregate-CPU history)''
           Gauge) (cpu_changepoint_score c)] @
        guarded (cpu_has_freq c)
         [F64 (both_desc ''freq_mhz_avg'' ''montauk_cpu_frequency_mhz_avg''
           ''Average current CPU frequency across online cores (MHz)'' Gauge) (cpu_freq_avg_mhz c)] @
        [F64 (both_desc ''context_switches_per_sec'' ''montauk_cpu_context_switches_per_second''
           ''Context switches per second'' Gauge) (cpu_ctxt_per_sec c),
         F64 (both_desc ''interrupts_per_sec'' ''montauk_cpu_interrupts_per_second''
           ''Hardware interrupts per second'' Gauge) (cpu_intr_per_sec c),
         I64 (prom_desc ''montauk_cpu_physical_cores'' ''Physical CPU cores'' Gauge)
           (scast (cpu_physical_cores c)),
         I64 (prom_desc ''montauk_cpu_logical_threads'' ''Logical CPU threads'' Gauge)
           (scast (cpu_logical_threads c))] @
        guarded (cpu_per_core_pct c \<noteq> [])
         (scalars_calls ''per_core_pct''
           (map (\<lambda>(i, v). Labeled_f64
                (prom_desc ''montauk_cpu_core_usage_percent'' ''Per-core CPU utilization'' Gauge)
                [label ''core'' (dec i)] v)
              (enumerate 0 (cpu_per_core_pct c))))))"

definition pmu_core_calls :: "MetricsSnapshot \<Rightarrow> sink_call list" where
  "pmu_core_calls s =
     (let p = ms_pmu s in
      [F64 (both_desc ''l2_misses_per_sec'' ''montauk_pmu_l2_misses_per_second''
         ''L2 cache misses per second (sysfs cache-misses event)'' Gauge) (pmu_l2_misses_per_sec p),
       F64 (both_desc ''l2_miss_pct'' ''montauk_pmu_l2_miss_percent''
         ''L2 misses as percent of L2 references'' Gauge) (pmu_l2_miss_pct p),
       F64 (both_desc ''ipc'' ''montauk_pmu_ipc'' ''Instructions per cycle (interval)'' Gauge) (pmu_ipc p),
       F64 (both_desc ''cycles_per_l2_miss'' ''montauk_pmu_cycles_per_l2_miss''
         ''Cycles per L2 miss (interval)'' Gauge) (pmu_cycles_per_l2_miss p),
       U64 (prom_desc ''montauk_pmu_l2_misses_interval'' ''L2 misses this interval'' Gauge) (pmu_l2_misses p),
       F64 (both_desc ''instructions_per_sec'' ''montauk_pmu_instructions_per_second''
         ''Instructions per second (interval)'' Gauge) (pmu_instructions_per_sec p),
       F64 (both_desc ''context_switches_per_sec'' ''montauk_pmu_context_switches_per_second''
         ''Context switches per second'' Gauge) (pmu_context_switches_per_sec p),
       F64 (both_desc ''cpu_migrations_per_sec'' ''montauk_pmu_cpu_migrations_per_second''
         ''CPU migrations per second'' Gauge) (pmu_cpu_migrations_per_sec p),
       F64 (both_desc ''branch_misses_per_sec'' ''montauk_pmu_branch_misses_per_second''
         ''Branch mispredictions per second'' Gauge) (pmu_branch_misses_per_sec p)])"

definition pmu_total_calls :: "MetricsSnapshot \<Rightarrow> sink_call list" where
  "pmu_total_calls s =
     (let p = ms_pmu s in
      [U64 (both_desc ''instructions_total'' ''montauk_pmu_instructions_total''
         ''Retired instructions since counters opened (cumulative)'' Counter) (pmu_instructions_total p),
       U64 (both_desc ''cycles_total'' ''montauk_pmu_cycles_total''
         ''CPU cycles since counters opened (cumulative)'' Counter) (pmu_cycles_total p),
       U64 (both_desc ''context_switches_total'' ''montauk_pmu_context_switches_total''
         ''Context switches since counters opened (cumulative)'' Counter) (pmu_context_switches_total p),
       U64 (both_desc ''cpu_migrations_total'' ''montauk_pmu_cpu_migrations_total''
         ''CPU migrations since counters opened (cumulative)'' Counter) (pmu_cpu_migrations_total p),
       U64 (both_desc ''branch_misses_total'' ''montauk_pmu_branch_misses_total''
         ''Branch mispredictions since counters opened (cumulative)'' Counter) (pmu_branch_misses_total p),
       U64 (both_desc ''l2_misses_total'' ''montauk_pmu_l2_misses_total''
         ''L2 cache misses since counters opened (cumulative)'' Counter) (pmu_l2_misses_total p),
       U64 (both_desc ''dtlb_load_misses_interval'' ''montauk_pmu_dtlb_load_misses_interval''
         ''dTLB load misses this interval'' Gauge) (pmu_dtlb_load_misses p),
       U64 (both_desc ''dtlb_load_misses_total'' ''montauk_pmu_dtlb_load_misses_total''
         ''dTLB load misses since counters opened (cumulative)'' Counter) (pmu_dtlb_load_misses_total p),
       U64 (both_desc ''cache_misses_total'' ''montauk_pmu_cache_misses_total''
         ''Last-level cache misses since counters opened (cumulative)'' Counter) (pmu_cache_misses_total p)] @
      guarded (th_has_power (ms_thermal s) \<and> d_less (Num 0) (pmu_instructions_per_sec p))
       [F64 (prom_desc ''montauk_energy_per_instruction_pj''
         ''Energy per retired instruction (picojoules), RAPL power / IPS'' Gauge)
         (d_mul (d_div (th_power_watts (ms_thermal s)) (pmu_instructions_per_sec p)) (Num 1000000000000))])"

definition per_cpu_entry :: "PmuSnapshot \<Rightarrow> nat \<Rightarrow> sink_call list" where
  "per_cpu_entry p i =
     (let misses = pmu_per_cpu_l2_misses p ! i;
          cpu = (if i < length (pmu_per_cpu_ids p) then pmu_per_cpu_ids p ! i else word_of_nat i);
          refs = (if i < length (pmu_per_cpu_l2_refs p) then d_of_int (uint (pmu_per_cpu_l2_refs p ! i)) else Num 0);
          pct = (if d_less (Num 0) refs then d_div (d_mul (Num 100) (d_of_int (uint misses))) refs else Num 0);
          l = [label ''cpu'' (dec_sint cpu)]
      in [I64 (json_desc ''cpu'') (scast cpu), U64 (json_desc ''l2_misses'') misses,
          F64 (json_desc ''l2_miss_pct'') pct,
          Labeled_u64 (prom_desc ''montauk_pmu_l2_misses_per_cpu''
            ''L2 misses this interval, per logical CPU'' Gauge) l misses,
          Labeled_f64 (prom_desc ''montauk_pmu_l2_miss_percent_per_cpu''
            ''L2 miss percent, per logical CPU'' Gauge) l pct])"

definition l3_entry :: "DomainL3 \<Rightarrow> sink_call list" where
  "l3_entry d =
     (let l = [label ''cache_domain'' (dec_sint (dl3_domain_cpu d))]
      in [I64 (json_desc ''cache_domain'') (scast (dl3_domain_cpu d)),
          U64 (json_desc ''misses'') (dl3_misses d), U64 (json_desc ''accesses'') (dl3_accesses d),
          F64 (json_desc ''miss_pct'') (dl3_miss_pct d),
          Labeled_u64 (prom_desc ''montauk_pmu_l3_misses_interval''
            ''L3 misses this interval, per cache domain domain'' Gauge) l (dl3_misses d),
          Labeled_u64 (prom_desc ''montauk_pmu_l3_accesses_interval''
            ''L3 accesses this interval, per cache domain domain'' Gauge) l (dl3_accesses d),
          Labeled_f64 (prom_desc ''montauk_pmu_l3_miss_percent''
            ''L3 miss percent, per cache domain domain'' Gauge) l (dl3_miss_pct d)])"

definition per_process_entry :: "ProcCounters \<Rightarrow> sink_call list" where
  "per_process_entry p =
     (let l = [label ''pid'' (dec_sint (pc_pid p)), label ''comm'' (pc_comm p)]
      in [I64 (json_desc ''pid'') (scast (pc_pid p)), Str (json_desc ''comm'') (pc_comm p),
          U64 (json_desc ''instructions_total'') (pc_instructions_total p),
          U64 (json_desc ''cycles_total'') (pc_cycles_total p),
          U64 (json_desc ''dtlb_load_misses_total'') (pc_dtlb_load_misses_total p),
          U64 (json_desc ''cache_misses_total'') (pc_cache_misses_total p),
          F64 (json_desc ''dtlb_misses_per_kilo_instr'') (pc_dtlb_misses_per_kilo_instr p),
          F64 (json_desc ''cache_misses_per_kilo_instr'') (pc_cache_misses_per_kilo_instr p),
          F64 (json_desc ''ipc'') (pc_ipc p),
          Labeled_u64 (prom_desc ''montauk_pmu_process_instructions_total''
            ''Retired instructions since attach, per process'' Counter) l (pc_instructions_total p),
          Labeled_u64 (prom_desc ''montauk_pmu_process_cycles_total''
            ''CPU cycles since attach, per process'' Counter) l (pc_cycles_total p),
          Labeled_u64 (prom_desc ''montauk_pmu_process_dtlb_load_misses_total''
            ''dTLB load misses since attach, per process'' Counter) l (pc_dtlb_load_misses_total p),
          Labeled_u64 (prom_desc ''montauk_pmu_process_cache_misses_total''
            ''Last-level cache misses since attach, per process'' Counter) l (pc_cache_misses_total p),
          Labeled_f64 (prom_desc ''montauk_pmu_process_dtlb_misses_per_kilo_instruction''
            ''dTLB load misses per 1000 retired instructions, per process'' Gauge) l
            (pc_dtlb_misses_per_kilo_instr p),
          Labeled_f64 (prom_desc ''montauk_pmu_process_cache_misses_per_kilo_instruction''
            ''Cache misses per 1000 retired instructions, per process'' Gauge) l
            (pc_cache_misses_per_kilo_instr p),
          Labeled_f64 (prom_desc ''montauk_pmu_process_ipc''
            ''Instructions per cycle (interval), per process'' Gauge) l (pc_ipc p)])"

definition pmu_domain_calls :: "MetricsSnapshot \<Rightarrow> sink_call list" where
  "pmu_domain_calls s =
     (let p = ms_pmu s in
      guarded (pmu_per_cpu_l2_misses p \<noteq> [])
        (objects_calls ''per_cpu'' (map (per_cpu_entry p) [0..<length (pmu_per_cpu_l2_misses p)])) @
      [Boolean (both_desc ''l3_available'' ''montauk_pmu_l3_available'' ''amd_l3 uncore PMU available'' Gauge)
         (pmu_l3_available p)] @
      guarded (pmu_l3_available p)
        (objects_calls ''l3_per_cache_domain'' (map l3_entry (pmu_l3_per_cache_domain p))))"

definition pmu_process_calls :: "MetricsSnapshot \<Rightarrow> sink_call list" where
  "pmu_process_calls s =
     (let p = ms_pmu s in
      [Boolean (both_desc ''per_process_available'' ''montauk_pmu_per_process_available''
         ''Per-process PMU attribution active (needs no privilege)'' Gauge) (pmu_per_process_available p)] @
      guarded (pmu_per_process_available p)
       [Boolean (both_desc ''per_process_user_only'' ''montauk_pmu_per_process_user_only''
         ''Per-process counts exclude kernel time (forced at perf_event_paranoid >= 2)'' Gauge)
         (pmu_per_process_user_only p)] @
      guarded (pmu_per_process p \<noteq> [])
        (objects_calls ''per_process'' (map per_process_entry (pmu_per_process p))))"

definition render_pmu :: "MetricsSnapshot \<Rightarrow> sink_call list" where
  "render_pmu s =
     section_calls ''pmu''
       ([Boolean (both_desc ''available'' ''montauk_pmu_available'' ''Core PMU counters available'' Gauge)
           (pmu_available (ms_pmu s))] @
        guarded (pmu_available (ms_pmu s)) (pmu_core_calls s @ pmu_total_calls s @ pmu_domain_calls s) @
        pmu_process_calls s)"

section \<open>Memory, graphics, sensors\<close>

definition render_memory :: "MetricsSnapshot \<Rightarrow> sink_call list" where
  "render_memory s =
     (let m = ms_mem s in
      section_calls ''memory''
       [U64 (json_desc ''total_kb'') (mem_total_kb m),
        U64 (prom_desc ''montauk_memory_total_bytes'' ''Total physical memory'' Gauge) (mem_total_kb m * 1024),
        U64 (json_desc ''used_kb'') (mem_used_kb m),
        U64 (prom_desc ''montauk_memory_used_bytes'' ''Used physical memory'' Gauge) (mem_used_kb m * 1024),
        U64 (json_desc ''available_kb'') (mem_available_kb m),
        U64 (prom_desc ''montauk_memory_available_bytes'' ''Available memory (MemAvailable)'' Gauge)
          (mem_available_kb m * 1024),
        U64 (json_desc ''cached_kb'') (mem_cached_kb m),
        U64 (prom_desc ''montauk_memory_cached_bytes'' ''Cached memory'' Gauge) (mem_cached_kb m * 1024),
        U64 (json_desc ''buffers_kb'') (mem_buffers_kb m),
        U64 (prom_desc ''montauk_memory_buffers_bytes'' ''Buffer memory'' Gauge) (mem_buffers_kb m * 1024),
        U64 (json_desc ''swap_total_kb'') (mem_swap_total_kb m),
        U64 (prom_desc ''montauk_memory_swap_total_bytes'' ''Total swap space'' Gauge) (mem_swap_total_kb m * 1024),
        U64 (json_desc ''swap_used_kb'') (mem_swap_used_kb m),
        U64 (prom_desc ''montauk_memory_swap_used_bytes'' ''Used swap space'' Gauge) (mem_swap_used_kb m * 1024),
        F64 (both_desc ''used_pct'' ''montauk_memory_used_percent'' ''Memory utilization percent'' Gauge)
          (mem_used_pct m)])"

definition gpu_device_entry :: "GpuVramDevice \<Rightarrow> sink_call list" where
  "gpu_device_entry d =
     (let l = [label ''device'' (gd_name d)] in
      [Str (json_desc ''name'') (gd_name d), U64 (json_desc ''total_mb'') (gd_total_mb d),
       U64 (json_desc ''used_mb'') (gd_used_mb d),
       Labeled_u64 (prom_desc ''montauk_gpu_vram_total_bytes'' ''Per-device GPU VRAM total'' Gauge) l
         (gd_total_mb d * 1048576),
       Labeled_u64 (prom_desc ''montauk_gpu_vram_used_bytes'' ''Per-device GPU VRAM used'' Gauge) l
         (gd_used_mb d * 1048576)] @
      guarded (gd_has_temp_edge d)
       [F64 (json_desc ''temp_edge_c'') (gd_temp_edge_c d),
        Labeled_f64 (prom_desc ''montauk_gpu_temperature_edge_celsius'' ''GPU edge temperature'' Gauge) l
          (gd_temp_edge_c d)] @
      guarded (gd_has_temp_hotspot d)
       [F64 (json_desc ''temp_hotspot_c'') (gd_temp_hotspot_c d),
        Labeled_f64 (prom_desc ''montauk_gpu_temperature_hotspot_celsius'' ''GPU hotspot temperature'' Gauge) l
          (gd_temp_hotspot_c d)] @
      guarded (gd_has_temp_mem d)
       [F64 (json_desc ''temp_mem_c'') (gd_temp_mem_c d),
        Labeled_f64 (prom_desc ''montauk_gpu_temperature_memory_celsius'' ''GPU memory temperature'' Gauge) l
          (gd_temp_mem_c d)] @
      guarded (gd_has_fan d)
       [F64 (json_desc ''fan_speed_pct'') (gd_fan_speed_pct d),
        Labeled_f64 (prom_desc ''montauk_gpu_fan_speed_percent'' ''GPU fan speed percent'' Gauge) l
          (gd_fan_speed_pct d)])"

definition render_gpu :: "MetricsSnapshot \<Rightarrow> sink_call list" where
  "render_gpu s =
     (let v = ms_vram s in
      section_calls ''gpu''
       ([Str (json_desc ''name'') (gpu_name v), U64 (json_desc ''total_mb'') (gpu_total_mb v),
         U64 (prom_desc ''montauk_gpu_vram_total_bytes_aggregate'' ''Total GPU VRAM'' Gauge)
           (gpu_total_mb v * 1048576),
         U64 (json_desc ''used_mb'') (gpu_used_mb v),
         U64 (prom_desc ''montauk_gpu_vram_used_bytes_aggregate'' ''Used GPU VRAM'' Gauge)
           (gpu_used_mb v * 1048576),
         F64 (both_desc ''used_pct'' ''montauk_gpu_vram_used_percent'' ''GPU VRAM utilization percent'' Gauge)
           (gpu_used_pct v)] @
        guarded (gpu_has_util v)
         [F64 (both_desc ''util_pct'' ''montauk_gpu_utilization_percent'' ''GPU core utilization'' Gauge)
           (gpu_gpu_util_pct v)] @
        guarded (gpu_has_mem_util v)
         [F64 (both_desc ''mem_util_pct'' ''montauk_gpu_memory_controller_percent''
           ''GPU memory controller utilization'' Gauge) (gpu_mem_util_pct v)] @
        guarded (gpu_has_encdec v)
         [F64 (both_desc ''enc_util_pct'' ''montauk_gpu_encoder_percent'' ''GPU encoder utilization'' Gauge)
           (gpu_enc_util_pct v),
          F64 (both_desc ''dec_util_pct'' ''montauk_gpu_decoder_percent'' ''GPU decoder utilization'' Gauge)
           (gpu_dec_util_pct v)] @
        guarded (gpu_has_power v)
         [F64 (both_desc ''power_draw_w'' ''montauk_gpu_power_draw_watts'' ''GPU power draw'' Gauge)
           (gpu_power_draw_w v)] @
        guarded (gpu_has_power_limit v)
         [F64 (both_desc ''power_limit_w'' ''montauk_gpu_power_limit_watts'' ''GPU power limit'' Gauge)
           (gpu_power_limit_w v)] @
        guarded (gpu_devices v \<noteq> []) (objects_calls ''devices'' (map gpu_device_entry (gpu_devices v)))))"

definition cstate_entry :: "CpuIdleState \<Rightarrow> sink_call list" where
  "cstate_entry cs =
     [Str (json_desc ''name'') (cs_name cs), F64 (json_desc ''residency_pct'') (cs_residency_pct cs),
      Labeled_f64 (prom_desc ''montauk_cstate_residency_percent''
        ''Idle-state residency this interval, per state (across CPUs)'' Gauge)
        [label ''state'' (cs_name cs)] (cs_residency_pct cs)]"

definition render_thermal :: "MetricsSnapshot \<Rightarrow> sink_call list" where
  "render_thermal s =
     (let t = ms_thermal s in
      section_calls ''thermal''
       (guarded (th_has_temp t)
         [F64 (json_desc ''cpu_max_c'') (th_cpu_max_c t),
          F64 (prom_desc ''montauk_thermal_cpu_temperature_celsius'' ''CPU max temperature'' Gauge)
            (th_cpu_max_c t)] @
        guarded (th_has_fan t)
         [F64 (json_desc ''fan_rpm'') (th_fan_rpm t),
          F64 (prom_desc ''montauk_thermal_fan_speed_rpm'' ''CPU fan speed RPM'' Gauge) (th_fan_rpm t)] @
        guarded (th_has_power t)
         [F64 (json_desc ''power_watts'') (th_power_watts t),
          F64 (prom_desc ''montauk_power_watts''
            ''Package power draw from RAPL/powercap (energy delta per interval)'' Gauge) (th_power_watts t)] @
        guarded (th_has_energy t)
         [F64 (prom_desc ''montauk_package_energy_joules_total''
            ''Cumulative package energy from RAPL/powercap (joules, wrap-safe); window-integral energy is the counter delta''
            Counter) (th_energy_joules_total t)] @
        guarded (th_cstates t \<noteq> []) (objects_calls ''cstates'' (map cstate_entry (th_cstates t)))))"

section \<open>Network, disks, file systems, providers\<close>

definition interface_entry :: "NetIf \<Rightarrow> sink_call list" where
  "interface_entry f =
     (let l = [label ''interface'' (if_name f)] in
      [Str (json_desc ''name'') (if_name f), F64 (json_desc ''rx_bps'') (if_rx_bps f),
       F64 (json_desc ''tx_bps'') (if_tx_bps f),
       Labeled_f64 (prom_desc ''montauk_network_interface_receive_bps''
         ''Per-interface receive bytes/sec'' Gauge) l (if_rx_bps f),
       Labeled_f64 (prom_desc ''montauk_network_interface_transmit_bps''
         ''Per-interface transmit bytes/sec'' Gauge) l (if_tx_bps f)])"

definition render_network :: "MetricsSnapshot \<Rightarrow> sink_call list" where
  "render_network s =
     (let n = ms_net s in
      section_calls ''network''
       ([F64 (both_desc ''agg_rx_bps'' ''montauk_network_receive_bps_total''
           ''Aggregate receive bytes/sec'' Gauge) (net_agg_rx_bps n),
         F64 (both_desc ''agg_tx_bps'' ''montauk_network_transmit_bps_total''
           ''Aggregate transmit bytes/sec'' Gauge) (net_agg_tx_bps n)] @
        guarded (net_interfaces n \<noteq> [])
          (objects_calls ''interfaces'' (map interface_entry (net_interfaces n)))))"

definition disk_entry :: "DiskDev \<Rightarrow> sink_call list" where
  "disk_entry d =
     (let l = [label ''device'' (dd_name d)] in
      [Str (json_desc ''name'') (dd_name d), F64 (json_desc ''read_bps'') (dd_read_bps d),
       F64 (json_desc ''write_bps'') (dd_write_bps d), F64 (json_desc ''util_pct'') (dd_util_pct d),
       Labeled_f64 (prom_desc ''montauk_disk_device_read_bps'' ''Per-device read bytes/sec'' Gauge) l
         (dd_read_bps d),
       Labeled_f64 (prom_desc ''montauk_disk_device_write_bps'' ''Per-device write bytes/sec'' Gauge) l
         (dd_write_bps d),
       Labeled_f64 (prom_desc ''montauk_disk_device_utilization_percent'' ''Per-device I/O utilization'' Gauge)
         l (dd_util_pct d)])"

definition render_disk :: "MetricsSnapshot \<Rightarrow> sink_call list" where
  "render_disk s =
     (let d = ms_disk s in
      section_calls ''disk''
       ([F64 (both_desc ''total_read_bps'' ''montauk_disk_read_bps_total''
           ''Aggregate disk read bytes/sec'' Gauge) (disk_total_read_bps d),
         F64 (both_desc ''total_write_bps'' ''montauk_disk_write_bps_total''
           ''Aggregate disk write bytes/sec'' Gauge) (disk_total_write_bps d)] @
        guarded (disk_devices d \<noteq> []) (objects_calls ''devices'' (map disk_entry (disk_devices d)))))"

definition filesystem_entry :: "FsMount \<Rightarrow> sink_call list" where
  "filesystem_entry m =
     (let l = [label ''device'' (fm_device m), label ''mountpoint'' (fm_mountpoint m),
               label ''fstype'' (fm_fstype m)] in
      [Str (json_desc ''device'') (fm_device m), Str (json_desc ''mountpoint'') (fm_mountpoint m),
       Str (json_desc ''fstype'') (fm_fstype m), U64 (json_desc ''total_bytes'') (fm_total_bytes m),
       U64 (json_desc ''used_bytes'') (fm_used_bytes m), U64 (json_desc ''avail_bytes'') (fm_avail_bytes m),
       F64 (json_desc ''used_pct'') (fm_used_pct m),
       Labeled_u64 (prom_desc ''montauk_filesystem_total_bytes'' ''Filesystem total size'' Gauge) l
         (fm_total_bytes m),
       Labeled_u64 (prom_desc ''montauk_filesystem_used_bytes'' ''Filesystem used bytes'' Gauge) l
         (fm_used_bytes m),
       Labeled_u64 (prom_desc ''montauk_filesystem_available_bytes'' ''Filesystem available bytes'' Gauge) l
         (fm_avail_bytes m),
       Labeled_f64 (prom_desc ''montauk_filesystem_used_percent'' ''Filesystem utilization percent'' Gauge) l
         (fm_used_pct m)])"

definition render_filesystems :: "MetricsSnapshot \<Rightarrow> sink_call list" where
  "render_filesystems s = objects_calls ''filesystems'' (map filesystem_entry (fs_mounts (ms_fs s)))"

definition render_providers :: "MetricsSnapshot \<Rightarrow> sink_call list" where
  "render_providers s =
     guarded (ms_providers s \<noteq> []) (objects_calls ''providers'' (map (\<lambda>p. [Provider_call p]) (ms_providers s)))"

section \<open>Processes\<close>

definition top_entry :: "ProcSample \<Rightarrow> sink_call list" where
  "top_entry p =
     (let l = [label ''pid'' (dec_sint (ps_pid p)), label ''cmd'' (take 32 (ps_cmd p))] in
      [I64 (json_desc ''pid'') (scast (ps_pid p)), Str (json_desc ''cmd'') (ps_cmd p),
       Str (json_desc ''user'') (ps_user_name p), F64 (json_desc ''cpu_pct'') (ps_cpu_pct p),
       U64 (json_desc ''rss_kb'') (ps_rss_kb p)] @
      guarded (ps_has_gpu_util p) [F64 (json_desc ''gpu_util_pct'') (ps_gpu_util_pct p)] @
      guarded (ps_has_gpu_mem p) [U64 (json_desc ''gpu_mem_kb'') (ps_gpu_mem_kb p)] @
      [F64 (json_desc ''anomaly_score'') (ps_anomaly_score p),
       I64 (json_desc ''anomaly_axis'') (scast (ps_anomaly_axis p)),
       Labeled_f64 (prom_desc ''montauk_process_cpu_percent'' ''Per-process CPU utilization'' Gauge) l
         (ps_cpu_pct p),
       Labeled_u64 (prom_desc ''montauk_process_memory_bytes'' ''Per-process resident memory'' Gauge) l
         (ps_rss_kb p * 1024)] @
      guarded (ps_has_gpu_util p)
       [Labeled_f64 (prom_desc ''montauk_process_gpu_utilization_percent'' ''Per-process GPU utilization'' Gauge)
         l (ps_gpu_util_pct p)] @
      guarded (ps_has_gpu_mem p)
       [Labeled_u64 (prom_desc ''montauk_process_gpu_memory_bytes'' ''Per-process GPU memory'' Gauge) l
         (ps_gpu_mem_kb p * 1024)] @
      [Labeled_f64 (prom_desc ''montauk_process_anomaly_score'' ''Per-process fused anomaly score'' Gauge) l
         (ps_anomaly_score p)])"

definition kAxisNames :: "string list" where
  "kAxisNames = [''cpu'', ''rss'', ''gpu'', ''faults'', ''threads'', ''ctxsw'']"

definition axes_live :: "u32 \<Rightarrow> string" where
  "axes_live am =
     fold (\<lambda>j live. if bit am j then (if live \<noteq> [] then live @ '','' else live) @ kAxisNames ! j else live)
       [0..<6] []"

definition feature_entry :: "AnomalyFeatureRow \<Rightarrow> sink_call list" where
  "feature_entry r =
     [I64 (json_desc ''pid'') (af_pid r), Str (json_desc ''comm'') (c_str (af_comm r)),
      F64 (json_desc ''cpu_pct'') (af_cpu_pct r), F64 (json_desc ''rss_kb'') (af_rss_kb r),
      F64 (json_desc ''gpu_util_pct'') (af_gpu_util_pct r), F64 (json_desc ''fault_delta'') (af_fault_delta r),
      F64 (json_desc ''ctxsw_delta'') (af_ctxsw_delta r), F64 (json_desc ''thread_count'') (af_thread_count r),
      F64 (json_desc ''anomaly_score'') (af_anomaly_score r),
      I64 (json_desc ''anomaly_axis'') (scast (af_anomaly_axis r))]"

definition render_processes :: "MetricsSnapshot \<Rightarrow> sink_call list" where
  "render_processes s =
     section_calls ''processes''
       ([U64 (both_desc ''total'' ''montauk_processes_total'' ''Total processes'' Gauge) (ms_total_processes s),
         U64 (both_desc ''running'' ''montauk_processes_running'' ''Running processes'' Gauge)
           (ms_running_processes s),
         U64 (both_desc ''sleeping'' ''montauk_processes_sleeping'' ''Sleeping processes'' Gauge)
           (ms_state_sleeping s),
         U64 (both_desc ''zombie'' ''montauk_processes_zombie'' ''Zombie processes'' Gauge) (ms_state_zombie s),
         U64 (both_desc ''threads'' ''montauk_threads_total'' ''Total threads'' Gauge) (ms_total_threads s)] @
        guarded (0 < ms_top_procs_count s)
          (objects_calls ''top'' (map (\<lambda>i. top_entry (ms_top_procs s ! i)) [0..<ms_top_procs_count s])) @
        guarded (ms_anomaly_features s \<noteq> [])
          (Str (json_desc ''anomaly_axes_live'') (axes_live (ms_anomaly_axis_mask s)) #
           objects_calls ''anomaly_features'' (map feature_entry (ms_anomaly_features s))))"

definition render_snapshot :: "string \<Rightarrow> string \<Rightarrow> MetricsSnapshot \<Rightarrow> sink_call list" where
  "render_snapshot kver sched s =
     render_system kver sched s @ render_cpu s @ render_pmu s @ render_memory s @ render_gpu s @
     render_thermal s @ render_network s @ render_disk s @ render_filesystems s @ render_providers s @
     render_processes s"

section \<open>The serializers\<close>

text \<open>
  The kernel and scheduler strings come from the identity readers, whose caches the calls share;
  \<open>alloc\<close> and \<open>garbage\<close> are the allocator's answers and the writer's uninitialised array.
\<close>

record Identity =
  id_kernel :: IdentityCache
  id_sched :: SchedCache

definition system_walk :: "int \<Rightarrow> Env \<Rightarrow> Identity \<Rightarrow> MetricsSnapshot \<Rightarrow> sink_call list \<times> Identity" where
  "system_walk now e ids s =
     (let (kver, kc) = read_kernel_version e (id_kernel ids);
          (sched, sc) = read_scheduler now e (id_sched ids)
      in (render_snapshot kver sched s, \<lparr>id_kernel = kc, id_sched = sc\<rparr>))"

definition snapshot_to_json ::
    "(nat \<Rightarrow> bool) \<Rightarrow> bool list \<Rightarrow> int \<Rightarrow> Env \<Rightarrow> Identity \<Rightarrow> MetricsSnapshot \<Rightarrow> string \<times> Identity" where
  "snapshot_to_json alloc garbage now e ids s =
     (let (calls, ids') = system_walk now e ids s
      in (JsonSink_finish (fold JsonSink_call calls (JsonSink_init alloc garbage)), ids'))"

definition snapshot_to_prometheus :: "int \<Rightarrow> Env \<Rightarrow> Identity \<Rightarrow> MetricsSnapshot \<Rightarrow> string \<times> Identity" where
  "snapshot_to_prometheus now e ids s =
     (let (calls, ids') = system_walk now e ids s
      in (PrometheusSink_finish (fold PrometheusSink_call calls PrometheusSink_init), ids'))"

section \<open>The walk keeps the discipline of the sinks\<close>

lemma desc_ok_simps [simp]:
  "desc_ok (json_desc k)"
  "desc_ok (prom_desc n h kd) = (one_line n \<and> one_line h)"
  "desc_ok (both_desc k n h kd) = (one_line n \<and> one_line h)"
  by (simp_all add: desc_ok_def)

lemma labels_ok_simps [simp]:
  "labels_ok []" "labels_ok (l # ls) = (one_line (lb_key l) \<and> labels_ok ls)"
  "labels_ok (ls @ ls') = (labels_ok ls \<and> labels_ok ls')"
  by (simp_all add: labels_ok_def)

lemma entry_leaves:
  "list_all leaf_call (per_cpu_entry p i)" "list_all leaf_call (l3_entry d)"
  "list_all leaf_call (per_process_entry q)" "list_all leaf_call (gpu_device_entry g)"
  "list_all leaf_call (cstate_entry cs)" "list_all leaf_call (interface_entry f)"
  "list_all leaf_call (disk_entry dd)" "list_all leaf_call (filesystem_entry m)"
  "list_all leaf_call (top_entry ps)" "list_all leaf_call (feature_entry r)"
  by (simp_all add: per_cpu_entry_def l3_entry_def per_process_entry_def gpu_device_entry_def
      cstate_entry_def interface_entry_def disk_entry_def filesystem_entry_def top_entry_def
      feature_entry_def Let_def)

text \<open>Four levels are enough: a section, a collection in it, its entries, and a provider's own list.\<close>

definition render_depth :: nat where
  "render_depth = Suc (Suc (Suc (Suc 0)))"

text \<open>A part of the walk that writes exactly one member, under a known key.\<close>

definition member_walk :: "string \<Rightarrow> sink_call list \<Rightarrow> bool" where
  "member_walk k xs \<longleftrightarrow> obj_calls render_depth xs \<and> (\<exists>v. writes render_depth xs [(k, v)])"

lemma member_walk_section:
  assumes "obj_calls (Suc (Suc (Suc 0))) body"
  shows "member_walk (c_str k) (section_calls k body)"
proof -
  obtain ms where "writes (Suc (Suc (Suc 0))) body ms" using obj_calls_writes [OF assms] by blast
  then show ?thesis
    unfolding member_walk_def render_depth_def
    using obj_section1 [OF assms] writes_section by blast
qed

lemma member_walk_objects:
  assumes "\<And>e. e \<in> set es \<Longrightarrow> obj_calls (Suc (Suc 0)) e"
  shows "member_walk (c_str k) (objects_calls k es)"
proof -
  have "\<exists>ms. writes (Suc (Suc 0)) e ms" if "e \<in> set es" for e
    using obj_calls_writes [OF assms [OF that]] .
  from list_all2_choice [of es "writes (Suc (Suc 0))", OF this]
  obtain mss where "list_all2 (writes (Suc (Suc 0))) es mss" by blast
  then show ?thesis
    unfolding member_walk_def render_depth_def
    using obj_objects1 [OF assms] writes_objects by blast
qed

lemma section_key:
  "obj_calls (Suc (Suc (Suc 0))) body \<Longrightarrow> c_str k = k' \<Longrightarrow> member_walk k' (section_calls k body)"
  using member_walk_section by blast

lemma entries_of:
  assumes "\<And>x. list_all leaf_call (f x)"
  shows "obj_calls (Suc (Suc n)) (objects_calls k (map f xs))"
  using assms by (intro obj_objects1) (auto intro: obj_leaves)

lemmas member_intros = section_key obj_append obj_section1 obj_scalars1 obj_when obj_nil
  entries_of [OF entry_leaves(1)] entries_of [OF entry_leaves(2)] entries_of [OF entry_leaves(3)]
  entries_of [OF entry_leaves(4)] entries_of [OF entry_leaves(5)] entries_of [OF entry_leaves(6)]
  entries_of [OF entry_leaves(7)] entries_of [OF entry_leaves(8)] entries_of [OF entry_leaves(9)]
  entries_of [OF entry_leaves(10)] obj_leaves

lemma render_cpu_walk: "member_walk ''cpu'' (render_cpu s)"
  unfolding render_cpu_def Let_def
  by (intro member_intros) (auto simp: list_all_iff c_str_def)

lemma render_pmu_walk: "member_walk ''pmu'' (render_pmu s)"
  unfolding render_pmu_def pmu_domain_calls_def pmu_process_calls_def Let_def
  by (intro member_intros)
    (simp_all add: pmu_core_calls_def pmu_total_calls_def Let_def c_str_def)

lemma render_memory_walk: "member_walk ''memory'' (render_memory s)"
  unfolding render_memory_def Let_def
  by (intro member_intros) (simp_all add: c_str_def)

lemma render_gpu_walk: "member_walk ''gpu'' (render_gpu s)"
  unfolding render_gpu_def Let_def
  by (intro member_intros)
    (simp_all add: c_str_def)

lemma render_thermal_walk: "member_walk ''thermal'' (render_thermal s)"
  unfolding render_thermal_def Let_def
  by (intro member_intros)
    (simp_all add: c_str_def)

lemma render_network_walk: "member_walk ''network'' (render_network s)"
  unfolding render_network_def Let_def
  by (intro member_intros)
    (simp_all add: c_str_def)

lemma render_disk_walk: "member_walk ''disk'' (render_disk s)"
  unfolding render_disk_def Let_def
  by (intro member_intros)
    (simp_all add: c_str_def)

lemma render_filesystems_walk: "member_walk ''filesystems'' (render_filesystems s)"
  unfolding render_filesystems_def
  using member_walk_objects [of "map filesystem_entry (fs_mounts (ms_fs s))" "''filesystems''"] entry_leaves(8)
  by (auto simp: c_str_def intro: obj_leaves)

lemma render_processes_walk: "member_walk ''processes'' (render_processes s)"
proof -
  have top: "(\<lambda>i. top_entry (ms_top_procs s ! i)) = top_entry \<circ> (\<lambda>i. ms_top_procs s ! i)" by auto
  show ?thesis
    unfolding render_processes_def top map_map [symmetric]
    by (intro member_intros obj_leaf) (simp_all add: c_str_def)
qed

lemma render_system_walk: "member_walk ''system'' (render_system kver sched s)"
proof -
  let ?i = "[Info_line ''montauk_system_info''
        ''System specs: montauk version, cpu model, cores, memory, gpu, kernel, scheduler''
        (system_labels kver sched s)]"
  obtain sec where r: "render_system kver sched s = sec @ ?i" and m: "member_walk ''system'' sec"
  proof
    show "render_system kver sched s = section_calls ''system''
       [Str (json_desc ''version'') MONTAUK_VERSION, Str (json_desc ''cpu_model'') (cpu_model (ms_cpu s)),
        I64 (json_desc ''physical_cores'') (scast (cpu_physical_cores (ms_cpu s))),
        I64 (json_desc ''logical_cpus'') (scast (cpu_logical_threads (ms_cpu s))),
        F64 (json_desc ''mem_total_gib'') (mem_total_gib s), Str (json_desc ''gpu'') (system_gpu s),
        Str (json_desc ''kernel'') kver, Str (json_desc ''scheduler'') sched] @ ?i"
      by (simp add: render_system_def)
  qed (intro member_intros, simp_all add: c_str_def)
  have "list_all leaf_call ?i" by (simp add: system_labels_def)
  then have "obj_calls render_depth ?i" "writes render_depth ?i []"
    using obj_leaves writes_leaves [of ?i] by auto
  then show ?thesis
    using m writes_append [of render_depth sec _ ?i "[]"]
    by (auto simp: r member_walk_def intro: obj_append)
qed

definition provider_keys :: "MetricsSnapshot \<Rightarrow> string list" where
  "provider_keys s = (if ms_providers s \<noteq> [] then [''providers''] else [])"

lemma render_providers_walk:
  "obj_calls render_depth (render_providers s)"
  "\<exists>ms. writes render_depth (render_providers s) ms \<and> map fst ms = provider_keys s"
proof -
  have m: "member_walk ''providers'' (objects_calls ''providers'' (map (\<lambda>p. [Provider_call p]) (ms_providers s)))"
    using member_walk_objects [of "map (\<lambda>p. [Provider_call p]) (ms_providers s)" "''providers''"]
    by (auto simp: c_str_def intro: obj_provider obj_nil)
  show "obj_calls render_depth (render_providers s)"
    using m by (auto simp: render_providers_def member_walk_def obj_nil)
  show "\<exists>ms. writes render_depth (render_providers s) ms \<and> map fst ms = provider_keys s"
  proof (cases "ms_providers s = []")
    case True
    then show ?thesis by (auto simp: render_providers_def provider_keys_def intro!: exI [of _ "[]"])
  next
    case False
    from m obtain v where "writes render_depth (render_providers s) [(''providers'', v)]"
      using False by (auto simp: render_providers_def member_walk_def)
    with False show ?thesis by (auto simp: provider_keys_def intro!: exI [of _ "[(''providers'', v)]"])
  qed
qed

lemmas part_walks = render_system_walk render_cpu_walk render_pmu_walk render_memory_walk render_gpu_walk
  render_thermal_walk render_network_walk render_disk_walk render_filesystems_walk render_processes_walk

lemma render_snapshot_walk: "obj_calls render_depth (render_snapshot kver sched s)"
  using part_walks render_providers_walk(1) unfolding render_snapshot_def member_walk_def
  by (intro obj_append) blast+

text \<open>Key by key: a part adds its own key after those before it.\<close>

definition writes_keys :: "sink_call list \<Rightarrow> string list \<Rightarrow> bool" where
  "writes_keys xs ks \<longleftrightarrow> (\<exists>ms. writes render_depth xs ms \<and> map fst ms = ks)"

lemma writes_keys_append: "writes_keys xs ks \<Longrightarrow> writes_keys ys ks' \<Longrightarrow> writes_keys (xs @ ys) (ks @ ks')"
  unfolding writes_keys_def using writes_append by (metis map_append)

lemma writes_keys_member: "member_walk k xs \<Longrightarrow> writes_keys xs [k]"
  unfolding writes_keys_def member_walk_def by (auto intro: exI [of _ "[(k, v)]" for v])

definition top_keys :: "MetricsSnapshot \<Rightarrow> string list" where
  "top_keys s = [''system''] @ [''cpu''] @ [''pmu''] @ [''memory''] @ [''gpu''] @ [''thermal''] @
     [''network''] @ [''disk''] @ [''filesystems''] @ provider_keys s @ [''processes'']"

lemma render_snapshot_keys: "writes_keys (render_snapshot kver sched s) (top_keys s)"
  unfolding render_snapshot_def top_keys_def
  using render_providers_walk(2)
  by (intro writes_keys_append writes_keys_member part_walks) (simp add: writes_keys_def)

section \<open>What the memory section says\<close>

abbreviation u64_value :: "u64 \<Rightarrow> jval" where
  "u64_value v \<equiv> JNum (dec_word v)"

definition memory_value :: "Memory \<Rightarrow> jval" where
  "memory_value m = JObj
     [(''total_kb'', u64_value (mem_total_kb m)), (''used_kb'', u64_value (mem_used_kb m)),
      (''available_kb'', u64_value (mem_available_kb m)), (''cached_kb'', u64_value (mem_cached_kb m)),
      (''buffers_kb'', u64_value (mem_buffers_kb m)), (''swap_total_kb'', u64_value (mem_swap_total_kb m)),
      (''swap_used_kb'', u64_value (mem_swap_used_kb m)), (''used_pct'', num_value (mem_used_pct m))]"

lemma writes_section_leaves:
  assumes "list_all leaf_call xs" and "concat (map leaf_members xs) = ms" and "c_str k = k'"
  shows "writes (Suc n) (section_calls k xs) [(k', JObj ms)]"
  unfolding assms(2,3) [symmetric] by (rule writes_section [OF writes_leaves [OF assms(1)]])

lemma render_memory_writes: "writes render_depth (render_memory s) [(''memory'', memory_value (ms_mem s))]"
  unfolding render_memory_def Let_def memory_value_def render_depth_def
  by (intro writes_section_leaves) (simp_all add: key_members_def c_str_def)

lemma render_snapshot_memory:
  "\<exists>ms1 ms2. writes render_depth (render_snapshot kver sched s)
       (ms1 @ (''memory'', memory_value (ms_mem s)) # ms2) \<and> map fst ms1 = [''system'', ''cpu'', ''pmu'']"
proof -
  let ?pre = "render_system kver sched s @ render_cpu s @ render_pmu s"
  let ?post = "render_gpu s @ render_thermal s @ render_network s @ render_disk s @ render_filesystems s @
     render_providers s @ render_processes s"
  have "writes_keys ?pre ([''system''] @ [''cpu''] @ [''pmu''])"
    by (intro writes_keys_append writes_keys_member part_walks)
  then obtain ms1 where 1: "writes render_depth ?pre ms1" "map fst ms1 = [''system'', ''cpu'', ''pmu'']"
    by (auto simp: writes_keys_def)
  have "obj_calls render_depth ?post"
    using part_walks render_providers_walk(1) unfolding member_walk_def by (intro obj_append) blast+
  then obtain ms2 where 2: "writes render_depth ?post ms2" using obj_calls_writes by blast
  from writes_append [OF 1(1) writes_append [OF render_memory_writes [of s] 2]] 1(2) show ?thesis
    by (auto simp: render_snapshot_def)
qed

section \<open>Properties\<close>

text \<open>A concrete host: readable release file, nothing cached.\<close>

definition sample_env :: Env where
  "sample_env = \<lparr>env_proc_root = None, env_sys_root = None,
     env_file = (\<lambda>p. if p = ''/proc/sys/kernel/osrelease'' then Some ''6.12.1-arch1'' else None)\<rparr>"

definition sample_identity :: Identity where
  "sample_identity = \<lparr>id_kernel = \<lparr>ic_root = [], ic_value = [], ic_have = False\<rparr>,
     id_sched = \<lparr>sc_last = 0, sc_root = [], sc_cache = []\<rparr>\<rparr>"

lemma json_walk_document:
  assumes "length garbage = MONTAUK_JSON_MAX_DEPTH" and "\<forall>k. alloc k" and "writes n xs ms" and "n \<le> js_limit"
  shows "json_read (JsonSink_finish (fold JsonSink_call xs (JsonSink_init alloc garbage))) =
    Some (JObj ((''schema_version'', JNum ''1'') # ms))"
  using js_holds_finish(2) [OF js_holds_walk [OF js_holds_init [OF assms(1,2)] assms(3,4)]] by simp

lemma system_walk_render: "\<exists>kver sched. fst (system_walk now e ids s) = render_snapshot kver sched s"
  by (auto simp: system_walk_def case_prod_beta Let_def)

lemma render_depth_limit: "render_depth \<le> js_limit"
  by (simp add: render_depth_def js_limit_def)

text \<open>C2: the JSON document of every snapshot is read back by a JSON reader as one object whose keys are
  the schema version and the sections, in order.\<close>

theorem snapshot_to_json_reads_back:
  assumes "length garbage = MONTAUK_JSON_MAX_DEPTH" and "\<forall>k. alloc k"
  shows "\<exists>ms. json_read (fst (snapshot_to_json alloc garbage now e ids s)) = Some (JObj ms) \<and>
    map fst ms = ''schema_version'' # top_keys s"
proof -
  obtain kver sched where w: "fst (system_walk now e ids s) = render_snapshot kver sched s"
    using system_walk_render by blast
  obtain ms where "writes render_depth (render_snapshot kver sched s) ms" "map fst ms = top_keys s"
    using render_snapshot_keys [of kver sched s] by (auto simp: writes_keys_def)
  with json_walk_document [OF assms this(1) render_depth_limit] w show ?thesis
    by (auto simp: snapshot_to_json_def split: prod.splits)
qed

theorem snapshot_to_json_reads_back_witness:
  "\<exists>ms. json_read (fst (snapshot_to_json (\<lambda>_. True) (replicate 32 True) 5 sample_env sample_identity
       empty_MetricsSnapshot)) = Some (JObj ms) \<and>
     map fst ms = [''schema_version'', ''system'', ''cpu'', ''pmu'', ''memory'', ''gpu'', ''thermal'',
       ''network'', ''disk'', ''filesystems'', ''processes'']"
  using snapshot_to_json_reads_back [of "replicate 32 True" "\<lambda>_. True" 5 sample_env sample_identity
      empty_MetricsSnapshot]
  by (simp add: MONTAUK_JSON_MAX_DEPTH_def top_keys_def provider_keys_def empty_MetricsSnapshot_def)

text \<open>The reader finds every memory figure of the snapshot under its name in the document.\<close>

theorem snapshot_to_json_memory:
  assumes "length garbage = MONTAUK_JSON_MAX_DEPTH" and "\<forall>k. alloc k"
  shows "\<exists>ms. json_read (fst (snapshot_to_json alloc garbage now e ids s)) = Some (JObj ms) \<and>
    map_of ms ''memory'' = Some (memory_value (ms_mem s))"
proof -
  obtain kver sched where w: "fst (system_walk now e ids s) = render_snapshot kver sched s"
    using system_walk_render by blast
  obtain ms1 ms2 where 1: "writes render_depth (render_snapshot kver sched s)
      (ms1 @ (''memory'', memory_value (ms_mem s)) # ms2)" and k: "map fst ms1 = [''system'', ''cpu'', ''pmu'']"
    using render_snapshot_memory [of kver sched s] by (elim exE conjE)
  from k have "map_of ms1 ''memory'' = None" by (auto simp: map_of_eq_None_iff simp flip: set_map)
  with json_walk_document [OF assms 1 render_depth_limit] w show ?thesis
    by (auto simp: snapshot_to_json_def map_add_def split: prod.splits)
qed

theorem snapshot_to_json_memory_witness:
  "\<exists>ms. json_read (fst (snapshot_to_json (\<lambda>_. True) (replicate 32 False) 5 sample_env sample_identity
       (empty_MetricsSnapshot\<lparr>ms_mem := empty_Memory\<lparr>mem_total_kb := 7\<rparr>\<rparr>))) = Some (JObj ms) \<and>
     map_of ms ''memory'' = Some (memory_value (empty_Memory\<lparr>mem_total_kb := 7\<rparr>))"
  using snapshot_to_json_memory [of "replicate 32 False" "\<lambda>_. True" 5 sample_env sample_identity
      "empty_MetricsSnapshot\<lparr>ms_mem := empty_Memory\<lparr>mem_total_kb := 7\<rparr>\<rparr>"]
  by (simp add: MONTAUK_JSON_MAX_DEPTH_def)

lemma snapshot_document:
  "prom_document (fst (system_walk now e ids s)) (fst (snapshot_to_prometheus now e ids s))"
proof -
  obtain kver sched where w: "fst (system_walk now e ids s) = render_snapshot kver sched s"
    using system_walk_render by blast
  have "prom_document (render_snapshot kver sched s) (PrometheusSink_finish
      (fold PrometheusSink_call (render_snapshot kver sched s) PrometheusSink_init))"
    by (rule prom_sink.walk_format [OF refl _ render_snapshot_walk]) (simp add: render_depth_def)
  with w show ?thesis by (auto simp: snapshot_to_prometheus_def split: prod.splits)
qed


end
