(* ===== verification/Trace_Render.thy ===== *)
theory Trace_Render
  imports Metrics_Render
begin

text \<open>
  \<open>src/app/TraceRender.cpp\<close>: the walk over a trace snapshot (process group, scheduler counters,
  threads, migrations, synchronisation events, descriptors) and its two serializers.
\<close>

unbundle bit_operations_syntax

section \<open>The walk\<close>

definition kSchedOpName :: "string list" where
  "kSchedOpName = ['''', ''enqueue'', ''pick'', ''pick_empty'', ''preempt_tick'', ''preempt_wakeup'', ''wakeup'']"

definition kNtsyncOps :: "string list" where
  "kNtsyncOps = [''create_sem'', ''sem_release'', ''wait_any'', ''wait_all'', ''create_mutex'',
     ''mutex_unlock'', ''mutex_kill'', ''create_event'', ''event_set'', ''event_reset'', ''event_pulse'',
     ''sem_read'', ''mutex_read'', ''event_read'']"

definition exit_signal :: "i32 \<Rightarrow> i32" where
  "exit_signal code = code AND 0x7f"

definition exit_status :: "i32 \<Rightarrow> i32" where
  "exit_status code = signed_drop_bit 8 code AND 0xff"

abbreviation flag_text :: "bool \<Rightarrow> string" where
  "flag_text b \<equiv> (if b then ''1'' else ''0'')"

definition process_labels :: "TracedProcess \<Rightarrow> Label list" where
  "process_labels p =
     [label ''pid'' (dec_sint (tp_pid p)), label ''ppid'' (dec_sint (tp_ppid p)),
      label ''cmd'' (c_str (tp_cmd p)), label ''root'' (flag_text (tp_is_root p)),
      label ''exited'' (flag_text (tp_exited p)),
      label ''exit_status'' (dec_sint (exit_status (tp_exit_code p))),
      label ''exit_signal'' (dec_sint (exit_signal (tp_exit_code p))),
      label ''exec_file'' (c_str (tp_exec_file p)), label ''fork_ts'' (dec_word (tp_fork_ts p)),
      label ''exec_ts'' (dec_word (tp_exec_ts p)), label ''exit_ts'' (dec_word (tp_exit_ts p))]"

definition proc_entry :: "TracedProcess \<Rightarrow> sink_call list" where
  "proc_entry p =
     [I64 (json_desc ''pid'') (scast (tp_pid p)), I64 (json_desc ''ppid'') (scast (tp_ppid p)),
      Str (json_desc ''cmd'') (c_str (tp_cmd p)), Boolean (json_desc ''is_root'') (tp_is_root p),
      Boolean (json_desc ''exited'') (tp_exited p),
      I64 (json_desc ''exit_status'') (scast (exit_status (tp_exit_code p))),
      I64 (json_desc ''exit_signal'') (scast (exit_signal (tp_exit_code p))),
      Str (json_desc ''exec_file'') (c_str (tp_exec_file p)), U64 (json_desc ''fork_ts'') (tp_fork_ts p),
      U64 (json_desc ''exec_ts'') (tp_exec_ts p), U64 (json_desc ''exit_ts'') (tp_exit_ts p),
      Info_line ''montauk_trace_process_info'' ''Traced process group member'' (process_labels p)]"

definition render_procs :: "TraceSnapshot \<Rightarrow> sink_call list" where
  "render_procs t = objects_calls ''procs'' (map proc_entry (map ((!) (t_procs t)) [0..<t_procs_count t]))"

definition sched_op_entry :: "TraceSnapshot \<Rightarrow> nat \<Rightarrow> sink_call list" where
  "sched_op_entry t k =
     [Str (json_desc ''op'') (kSchedOpName ! k), U64 (json_desc ''count'') (t_sched_op_total t ! k),
      Labeled_u64 (prom_desc ''montauk_sched_op_total''
        ''Scheduler-decision tracepoint counts (per op, summed across CPUs)'' Counter)
        [label ''op'' (kSchedOpName ! k)] (t_sched_op_total t ! k)]"

definition render_sched_ops :: "TraceSnapshot \<Rightarrow> sink_call list" where
  "render_sched_ops t =
     guarded (list_ex (\<lambda>k. t_sched_op_total t ! k \<noteq> 0) [1..<7])
       (objects_calls ''sched_op_total'' (map (sched_op_entry t) [1..<7]))"

definition thread_entry :: "ThreadSample \<Rightarrow> sink_call list" where
  "thread_entry th =
     (let state = c_str [ts_state th];
          pt = [label ''pid'' (dec_sint (ts_pid th)), label ''tid'' (dec_sint (ts_tid th)),
                label ''comm'' (c_str (ts_comm th))];
          syscall = label ''syscall'' (c_str (ts_syscall_name th))
      in [I64 (json_desc ''pid'') (scast (ts_pid th)), I64 (json_desc ''tid'') (scast (ts_tid th)),
          Str (json_desc ''state'') state, F64 (json_desc ''cpu_pct'') (ts_cpu_pct th),
          I64 (json_desc ''cur_cpu'') (scast (ts_cur_cpu th)),
          U64 (json_desc ''migrations'') (ts_migrations th),
          I64 (json_desc ''syscall_nr'') (scast (ts_syscall_nr th)),
          Str (json_desc ''syscall_name'') (c_str (ts_syscall_name th)),
          Str (json_desc ''wchan'') (c_str (ts_wchan th)),
          Labeled_i64 (prom_desc ''montauk_trace_thread_state'' ''Per-thread state for traced group'' Gauge)
            (pt @ [label ''state'' state]) 1,
          Labeled_f64 (prom_desc ''montauk_trace_thread_cpu_percent'' ''Per-thread CPU utilization'' Gauge)
            pt (ts_cpu_pct th),
          Labeled_i64 (prom_desc ''montauk_trace_thread_cpu'' ''Per-thread current on-CPU core'' Gauge)
            pt (scast (ts_cur_cpu th)),
          Labeled_u64 (prom_desc ''montauk_trace_thread_migrations''
            ''Per-thread cross-CPU migration count'' Counter) pt (ts_migrations th),
          Labeled_i64 (prom_desc ''montauk_trace_thread_syscall'' ''Per-thread current syscall'' Gauge)
            (pt @ [syscall, label ''wchan'' (c_str (ts_wchan th))]) (scast (ts_syscall_nr th))] @
         guarded (0 \<le> sint (ts_io_fd th))
          [I64 (json_desc ''io_fd'') (scast (ts_io_fd th)), U64 (json_desc ''io_count'') (ts_io_count th),
           I64 (json_desc ''io_result'') (ts_io_result th),
           U64 (json_desc ''io_whence'') (ucast (ts_io_whence th)),
           U64 (json_desc ''io_timestamp_ns'') (ts_io_timestamp_ns th),
           Labeled_u64 (prom_desc ''montauk_trace_thread_io'' ''Per-thread last I/O syscall details'' Gauge)
            (pt @ [syscall, label ''fd'' (dec_sint (ts_io_fd th)), label ''count'' (dec_word (ts_io_count th)),
               label ''result'' (dec_sint (ts_io_result th)), label ''whence'' (dec_word (ts_io_whence th))])
            (ts_io_timestamp_ns th)])"

definition render_threads :: "TraceSnapshot \<Rightarrow> sink_call list" where
  "render_threads t =
     objects_calls ''threads'' (map thread_entry (map ((!) (t_threads t)) [0..<t_thread_count t]))"

definition render_migrations :: "TraceSnapshot \<Rightarrow> sink_call list" where
  "render_migrations t =
     section_calls ''migrations''
       [U64 (both_desc ''intra_domain'' ''montauk_trace_migrations_intra_domain''
          ''Cross-core migrations within one cache domain/L3 domain'' Counter) (t_mig_intra_domain t),
        U64 (both_desc ''cross_domain'' ''montauk_trace_migrations_cross_domain''
          ''Cross-core migrations across cache domain/L3 domains (cross-domain interconnect)'' Counter)
          (t_mig_cross_domain t),
        U64 (both_desc ''unknown_domain'' ''montauk_trace_migrations_unknown_domain''
          ''Cross-core migrations with unmapped cache domain (topology not pushed)'' Counter)
          (t_mig_unknown_domain t),
        U64 (both_desc ''intra_wake'' ''montauk_trace_migrations_intra_wake''
          ''Intra-domain migrations that placed a woken task (select_cpu / enqueue spill push)'' Counter)
          (t_mig_intra_wake t),
        U64 (both_desc ''intra_steal'' ''montauk_trace_migrations_intra_steal''
          ''Intra-domain migrations that pulled an already-runnable task at dispatch (steal)'' Counter)
          (t_mig_intra_steal t),
        U64 (both_desc ''cross_wake'' ''montauk_trace_migrations_cross_wake''
          ''Cross-domain wake-placements (select_cpu / enqueue spill push)'' Counter) (t_mig_cross_wake t),
        U64 (both_desc ''cross_steal'' ''montauk_trace_migrations_cross_steal''
          ''Cross-domain dispatch steals (pull)'' Counter) (t_mig_cross_steal t)]"

definition ntsync_op_name :: "u8 \<Rightarrow> string" where
  "ntsync_op_name x = (if x < 14 then kNtsyncOps ! unat x else ''unknown'')"

definition ntsync_entry :: "NtsyncSample \<Rightarrow> sink_call list" where
  "ntsync_entry ns =
     [I64 (json_desc ''pid'') (scast (ns_pid ns)), I64 (json_desc ''tid'') (scast (ns_tid ns)),
      Str (json_desc ''comm'') (c_str (ns_comm ns)), Str (json_desc ''op'') (ntsync_op_name (ns_op ns)),
      I64 (json_desc ''fd'') (scast (ns_fd ns)), I64 (json_desc ''result'') (ns_result ns),
      U64 (json_desc ''timestamp_ns'') (ns_timestamp_ns ns), U64 (json_desc ''arg0'') (ucast (ns_arg0 ns)),
      U64 (json_desc ''arg1'') (ucast (ns_arg1 ns)), U64 (json_desc ''wait_owner'') (ucast (ns_wait_owner ns)),
      Labeled_u64 (prom_desc ''montauk_trace_ntsync'' ''ntsync synchronization operations'' Gauge)
        [label ''pid'' (dec_sint (ns_pid ns)), label ''tid'' (dec_sint (ns_tid ns)),
         label ''comm'' (c_str (ns_comm ns)), label ''op'' (ntsync_op_name (ns_op ns)),
         label ''fd'' (dec_sint (ns_fd ns)), label ''result'' (dec_sint (ns_result ns)),
         label ''arg0'' (dec_word (ns_arg0 ns)), label ''arg1'' (dec_word (ns_arg1 ns)),
         label ''owner'' (dec_word (ns_wait_owner ns))] (ns_timestamp_ns ns)]"

definition render_ntsync :: "TraceSnapshot \<Rightarrow> sink_call list" where
  "render_ntsync t =
     objects_calls ''ntsync'' (map ntsync_entry (map ((!) (t_ntsync_events t)) [0..<t_ntsync_count t]))"

definition fd_entry :: "FdSample \<Rightarrow> sink_call list" where
  "fd_entry f =
     [I64 (json_desc ''pid'') (scast (fd_pid f)), I64 (json_desc ''fd'') (scast (fd_num f)),
      Str (json_desc ''target'') (c_str (fd_target f)),
      Info_line ''montauk_trace_fd_target'' ''Per-process fd targets''
        [label ''pid'' (dec_sint (fd_pid f)), label ''fd'' (dec_sint (fd_num f)),
         label ''target'' (c_str (fd_target f))]]"

definition render_fds :: "TraceSnapshot \<Rightarrow> sink_call list" where
  "render_fds t = objects_calls ''fds'' (map fd_entry (map ((!) (t_fds t)) [0..<t_fd_count t]))"

definition trace_head :: "TraceSnapshot \<Rightarrow> sink_call list" where
  "trace_head t =
     [Boolean (both_desc ''waiting_for_match'' ''montauk_trace_waiting''
        ''Trace mode waiting for pattern match'' Gauge) (t_waiting_for_match t),
      I64 (both_desc ''group_size'' ''montauk_trace_group_size''
        ''Number of processes in traced group'' Gauge) (word_of_nat (t_procs_count t)),
      I64 (both_desc ''thread_total'' ''montauk_trace_thread_total''
        ''Total threads across traced group'' Gauge) (word_of_nat (t_thread_count t))]"

definition trace_group :: "TraceSnapshot \<Rightarrow> sink_call list" where
  "trace_group t =
     guarded (t_procs_count t \<noteq> 0)
      (render_procs t @ render_sched_ops t @
       guarded (0 < t_thread_count t) (render_threads t @ render_migrations t) @
       guarded (0 < t_ntsync_count t) (render_ntsync t) @
       guarded (0 < t_fd_count t) (render_fds t))"

definition render_trace :: "TraceSnapshot \<Rightarrow> sink_call list" where
  "render_trace t = [Raw_comment (LF # ''# Trace'' @ [LF])] @ trace_head t @ trace_group t"

definition trace_to_json :: "(nat \<Rightarrow> bool) \<Rightarrow> bool list \<Rightarrow> TraceSnapshot \<Rightarrow> string" where
  "trace_to_json alloc garbage t =
     JsonSink_finish (fold JsonSink_call (render_trace t) (JsonSink_init alloc garbage))"

definition trace_to_prometheus :: "TraceSnapshot \<Rightarrow> string" where
  "trace_to_prometheus t = PrometheusSink_finish (fold PrometheusSink_call (render_trace t) PrometheusSink_init)"

section \<open>The discipline\<close>

lemma trace_entry_leaves:
  "list_all leaf_call (proc_entry p)" "list_all leaf_call (sched_op_entry t k)"
  "list_all leaf_call (thread_entry th)" "list_all leaf_call (ntsync_entry ns)"
  "list_all leaf_call (fd_entry f)"
  by (simp_all add: proc_entry_def process_labels_def sched_op_entry_def thread_entry_def ntsync_entry_def
      fd_entry_def Let_def)

lemmas trace_intros = obj_append obj_when obj_nil entries_of [OF trace_entry_leaves(1)]
  entries_of [OF trace_entry_leaves(2)] entries_of [OF trace_entry_leaves(3)]
  entries_of [OF trace_entry_leaves(4)] entries_of [OF trace_entry_leaves(5)]

lemma render_migrations_walk: "obj_calls (Suc n) (render_migrations t)"
  unfolding render_migrations_def by (intro obj_section1 obj_leaves) simp

lemma trace_head_leaves: "list_all leaf_call (trace_head t)"
  by (simp add: trace_head_def)

lemma trace_group_walk: "obj_calls (Suc (Suc 0)) (trace_group t)"
  unfolding trace_group_def render_procs_def render_sched_ops_def render_threads_def render_ntsync_def
    render_fds_def
  by (intro trace_intros render_migrations_walk)

lemma render_trace_walk: "obj_calls (Suc (Suc 0)) (render_trace t)"
  unfolding render_trace_def
  by (intro obj_append obj_comment obj_nil trace_group_walk obj_leaves trace_head_leaves) simp

lemma render_trace_writes:
  "\<exists>ms. writes (Suc (Suc 0)) (render_trace t) (concat (map leaf_members (trace_head t)) @ ms)"
proof -
  obtain ms where w: "writes (Suc (Suc 0)) (trace_group t) ms"
    using obj_calls_writes [OF trace_group_walk] by blast
  from writes_append [OF writes_comment writes_append [OF writes_leaves [OF trace_head_leaves] w]]
  show ?thesis by (auto simp: render_trace_def)
qed

section \<open>Properties\<close>

text \<open>C6: the JSON document of every trace snapshot is read back by a JSON reader, and begins with the
  schema version and the three facts of the group.\<close>

theorem trace_to_json_reads_back:
  assumes "length garbage = MONTAUK_JSON_MAX_DEPTH" and "\<forall>k. alloc k"
  shows "\<exists>ms. json_read (trace_to_json alloc garbage t) = Some (JObj
    ([(''schema_version'', JNum ''1''), (''waiting_for_match'', JBool (t_waiting_for_match t)),
      (''group_size'', JNum (dec_sint (word_of_nat (t_procs_count t) :: i64))),
      (''thread_total'', JNum (dec_sint (word_of_nat (t_thread_count t) :: i64)))] @ ms))"
proof -
  obtain ms where "writes (Suc (Suc 0)) (render_trace t) (concat (map leaf_members (trace_head t)) @ ms)"
    using render_trace_writes by blast
  from json_walk_document [OF assms this] show ?thesis
    by (auto simp: trace_to_json_def js_limit_def trace_head_def key_members_def c_str_def)
qed

theorem trace_to_json_reads_back_witness:
  "\<exists>ms. json_read (trace_to_json (\<lambda>_. True) (replicate 32 True) (empty_TraceSnapshot\<lparr>t_waiting_for_match := True\<rparr>)) =
    Some (JObj ([(''schema_version'', JNum ''1''), (''waiting_for_match'', JBool True),
      (''group_size'', JNum ''0''), (''thread_total'', JNum ''0'')] @ ms))"
  using trace_to_json_reads_back [of "replicate 32 True" "\<lambda>_. True" "empty_TraceSnapshot\<lparr>t_waiting_for_match := True\<rparr>"]
  by (simp add: MONTAUK_JSON_MAX_DEPTH_def empty_TraceSnapshot_def dec_int_def)

lemma trace_group_passed: "concat (map call_passed (trace_group t)) = []"
proof -
  have "call_passed c = []" if "c \<in> set xs" "list_all leaf_call xs" for c xs
    using that by (auto simp: list_all_iff)
  note entry = this [OF _ trace_entry_leaves(1)] this [OF _ trace_entry_leaves(2)]
    this [OF _ trace_entry_leaves(3)] this [OF _ trace_entry_leaves(4)] this [OF _ trace_entry_leaves(5)]
  have "\<forall>c \<in> set (render_migrations t). call_passed c = []" by (simp add: render_migrations_def)
  then show ?thesis
    by (auto simp: trace_group_def render_procs_def render_sched_ops_def render_threads_def render_ntsync_def
        render_fds_def dest: entry)
qed

lemma trace_document: "prom_document (render_trace t) (trace_to_prometheus t)"
  unfolding trace_to_prometheus_def
  by (rule prom_sink.walk_format [OF refl _ render_trace_walk]) simp

text \<open>The Prometheus document of every trace snapshot is a sequence of well-formed blocks with exactly
  the samples of the walk over the trace.\<close>

theorem trace_to_prometheus_document:
  "\<exists>bs. trace_to_prometheus t = concat (map block_text bs) \<and> list_all block_ok bs \<and>
     mset (concat (map block_lines bs)) = mset (concat (map call_samples (render_trace t))) \<and>
     concat (map block_passed bs) = [LF # ''# Trace'' @ [LF]]"
proof -
  have "concat (map call_passed (render_trace t)) = [LF # ''# Trace'' @ [LF]]"
    by (simp add: render_trace_def trace_group_passed leaves_passed [OF trace_head_leaves])
  with trace_document [of t] show ?thesis unfolding prom_document_def blocks_def by metis
qed

definition process_row :: "TracedProcess \<Rightarrow> string" where
  "process_row p = header_text ''montauk_trace_process_info'' ''Traced process group member'' Gauge @
     labeled_line ''montauk_trace_process_info'' (process_labels p) @ ''1'' @ [LF]"

lemma proc_entries_text:
  "concat (map direct_text (concat (map entry_calls (map proc_entry ps)))) = concat (map process_row ps)"
  by (induction ps) (simp_all add: proc_entry_def process_row_def sample_text_def)

lemma proc_entries_buffered: "concat (map buffered (concat (map entry_calls (map proc_entry ps)))) = []"
  by (induction ps) (simp_all add: proc_entry_def)

lemma entries_in_collection:
  assumes "\<And>x. list_all leaf_call (f x)"
  shows "list_all in_collection (concat (map entry_calls (map f xs)))"
proof -
  have "in_collection c" if "leaf_call c" for c using that by (cases c) auto
  then have "list_all in_collection (f x)" for x using assms [of x] by (auto simp: list_all_iff)
  then show ?thesis by (induction xs) auto
qed

text \<open>The rows of the traced process group: one help line, one type line and one sample for every
  process, so a group of several processes repeats the type line of its metric.\<close>

theorem render_procs_prometheus:
  assumes "collection_depth s = 0" and "pr_pending s = []"
  shows "pr_out (fold PrometheusSink_call (render_procs t) s) =
    pr_out s @ concat (map (\<lambda>i. process_row (t_procs t ! i)) [0..<t_procs_count t])"
  unfolding render_procs_def
    collection_text [OF entries_in_collection [OF trace_entry_leaves(1)] assms]
    proc_entries_text proc_entries_buffered
  by (simp add: grouped_def first_seen_def comp_def)

definition sample_process :: TracedProcess where
  "sample_process = \<lparr>tp_pid = 41, tp_ppid = 1, tp_is_root = True, tp_exited = False, tp_exit_code = 0,
     tp_fork_ts = 0, tp_exec_ts = 0, tp_exit_ts = 0, tp_cmd = ''wine'', tp_exec_file = ''wine''\<rparr>"

theorem render_procs_prometheus_witness:
  "pr_out (fold PrometheusSink_call (render_procs (empty_TraceSnapshot\<lparr>t_procs := [sample_process, sample_process],
      t_procs_count := 2\<rparr>)) PrometheusSink_init) = process_row sample_process @ process_row sample_process"
  using render_procs_prometheus [of PrometheusSink_init
      "empty_TraceSnapshot\<lparr>t_procs := [sample_process, sample_process], t_procs_count := 2\<rparr>"]
  by (simp add: PrometheusSink_init_def upt_rec)

end
