(* ===== verification/Server.thy ===== *)
theory Server
  imports Trace_Render
begin

text \<open>
  The two consumers of the Prometheus text: one HTTP exchange of \<open>src/app/MetricsServer.cpp\<close>
  (\<open>handle_client\<close>) and one turn of the log writer's loop (\<open>src/app/LogWriter.cpp\<close>) with its hourly
  files. Sockets, sleeping and the calendar are inputs: the bytes received, the local broken-down time
  and whether a file opens.
\<close>

section \<open>The body both serve\<close>

record Source =
  src_now :: int
  src_env :: Env
  src_snapshot :: Snapshot
  src_trace :: "TraceSnapshot option"

definition metrics_body :: "Source \<Rightarrow> Identity \<Rightarrow> string \<times> Identity" where
  "metrics_body src ids =
     (let (body, ids') = snapshot_to_prometheus (src_now src) (src_env src) ids
            (read_metrics_snapshot (src_snapshot src))
      in (case src_trace src of None \<Rightarrow> body | Some ts \<Rightarrow> body @ trace_to_prometheus ts, ids'))"

section \<open>One HTTP exchange\<close>

abbreviation CRLF :: string where
  "CRLF \<equiv> [CR, LF]"

definition request_line :: "string \<Rightarrow> string" where
  "request_line req =
     (case find_char CR req of Some i \<Rightarrow> take i req
      | None \<Rightarrow> (case find_char LF req of Some i \<Rightarrow> take i req | None \<Rightarrow> req))"

text \<open>\<open>received\<close> is what \<open>recv\<close> put in the 4096-byte buffer; nothing is sent when it is empty.\<close>

definition handle_client :: "Source \<Rightarrow> string \<Rightarrow> Identity \<Rightarrow> string option \<times> Identity" where
  "handle_client src received ids =
     (let req = take 4095 received in
      if req = [] then (None, ids)
      else let rl = request_line req in
        if contains rl ''GET /metrics'' then
          (let (body, ids') = metrics_body src ids
           in (Some (''HTTP/1.1 200 OK'' @ CRLF @
                ''Content-Type: text/plain; version=0.0.4; charset=utf-8'' @ CRLF @
                ''Connection: close'' @ CRLF @ ''Content-Length: '' @ dec (length body) @ CRLF @ CRLF @ body),
               ids'))
        else if starts_with rl ''GET / '' \<or> rl = ''GET /'' then
          (let body = ''montauk: use /metrics'' @ [LF]
           in (Some (''HTTP/1.1 200 OK'' @ CRLF @ ''Content-Type: text/plain'' @ CRLF @
                ''Connection: close'' @ CRLF @ ''Content-Length: '' @ dec (length body) @ CRLF @ CRLF @ body),
               ids))
        else
          (let body = ''404 Not Found'' @ [LF]
           in (Some (''HTTP/1.1 404 Not Found'' @ CRLF @ ''Content-Type: text/plain'' @ CRLF @
                ''Connection: close'' @ CRLF @ ''Content-Length: 14'' @ CRLF @ CRLF @ body),
               ids)))"

text \<open>An HTTP reader: header lines up to an empty one, the value of a header, the rest as the body.\<close>

fun split_crlf :: "string \<Rightarrow> (string \<times> string) option" where
  "split_crlf (a # b # s) =
     (if a = CR \<and> b = LF then Some ([], s) else map_option (\<lambda>(l, r). (a # l, r)) (split_crlf (b # s)))"
| "split_crlf _ = None"

fun http_lines :: "nat \<Rightarrow> string \<Rightarrow> (string list \<times> string) option" where
  "http_lines 0 s = None"
| "http_lines (Suc n) s =
     (case split_crlf s of None \<Rightarrow> None
      | Some (l, r) \<Rightarrow> if l = [] then Some ([], r) else map_option (\<lambda>(ls, b). (l # ls, b)) (http_lines n r))"

definition header_value :: "string \<Rightarrow> string list \<Rightarrow> string option" where
  "header_value k ls = map_option (drop (length k)) (List.find (\<lambda>l. prefix k l) ls)"

text \<open>A response as the reader sees it: the header lines, then a body of the announced length.\<close>

definition http_ok :: "string \<Rightarrow> string list \<Rightarrow> string \<Rightarrow> bool" where
  "http_ok resp ls body \<longleftrightarrow> http_lines 8 resp = Some (ls, body) \<and>
     map_option undec (header_value ''Content-Length: '' ls) = Some (length body)"

lemma split_crlf_line:
  assumes "CR \<notin> set l"
  shows "split_crlf (l @ CR # LF # s) = Some (l, s)"
  using assms
proof (induction l)
  case (Cons a l)
  then show ?case by (cases l) auto
qed simp

lemma CR_dec: "CR \<notin> set (dec n)"
  using dec_digits [of CR n] by (auto simp: is_digit_def byte_def)

lemma http_lines_all:
  assumes "\<forall>l \<in> set ls. CR \<notin> set l \<and> l \<noteq> []" and "length ls < n"
  shows "http_lines n (concat (map (\<lambda>l. l @ CRLF) ls) @ CRLF @ b) = Some (ls, b)"
  using assms
proof (induction ls arbitrary: n)
  case Nil
  then show ?case by (cases n) auto
next
  case (Cons l ls)
  then obtain m where "n = Suc m" by (cases n) auto
  with Cons split_crlf_line [of l] show ?case by auto
qed

definition response_lines :: "string \<Rightarrow> string \<Rightarrow> nat \<Rightarrow> string list" where
  "response_lines st ct n = [st, ct, ''Connection: close'', ''Content-Length: '' @ dec n]"

definition response :: "string \<Rightarrow> string \<Rightarrow> string \<Rightarrow> string" where
  "response st ct body = concat (map (\<lambda>l. l @ CRLF) (response_lines st ct (length body))) @ CRLF @ body"

lemma response_ok:
  assumes "CR \<notin> set st" "st \<noteq> []" "CR \<notin> set ct" "ct \<noteq> []"
    and "\<not> prefix ''Content-Length: '' st" "\<not> prefix ''Content-Length: '' ct"
  shows "http_ok (response st ct body) (response_lines st ct (length body)) body"
proof -
  have "http_lines 8 (response st ct body) = Some (response_lines st ct (length body), body)"
    unfolding response_def using assms CR_dec
    by (intro http_lines_all) (auto simp: response_lines_def)
  then show ?thesis using assms by (simp add: http_ok_def header_value_def response_lines_def)
qed

lemma response_unfold:
  "response st ct body = st @ CRLF @ ct @ CRLF @ ''Connection: close'' @ CRLF @ ''Content-Length: '' @
     dec (length body) @ CRLF @ CRLF @ body"
  by (simp add: response_def response_lines_def)

definition http_body :: "Source \<Rightarrow> string \<Rightarrow> Identity \<Rightarrow> string \<times> string \<times> string" where
  "http_body src rl ids =
     (if contains rl ''GET /metrics''
      then (''HTTP/1.1 200 OK'', ''Content-Type: text/plain; version=0.0.4; charset=utf-8'',
            fst (metrics_body src ids))
      else if starts_with rl ''GET / '' \<or> rl = ''GET /''
      then (''HTTP/1.1 200 OK'', ''Content-Type: text/plain'', ''montauk: use /metrics'' @ [LF])
      else (''HTTP/1.1 404 Not Found'', ''Content-Type: text/plain'', ''404 Not Found'' @ [LF]))"

lemma not_found_length: "dec (length (''404 Not Found'' @ [LF])) = ''14''"
proof -
  have "dec 14 = ''14''" by (subst dec.simps, subst dec.simps) (simp add: digit_char_lits)
  moreover have "length (''404 Not Found'' @ [LF]) = 14" by simp
  ultimately show ?thesis by (simp only:)
qed

lemma handle_client_eq:
  assumes "received \<noteq> []"
  shows "fst (handle_client src received ids) =
    (case http_body src (request_line (take 4095 received)) ids of (st, ct, body) \<Rightarrow> Some (response st ct body))"
proof -
  have "take 4095 received \<noteq> []" using assms by (cases received) auto
  then show ?thesis
    using not_found_length unfolding response_unfold
    by (simp add: handle_client_def http_body_def Let_def split: prod.split)
qed

section \<open>The log writer\<close>

text \<open>Broken-down local time, as \<open>localtime_r\<close> fills it.\<close>

record Tm =
  tm_year :: int
  tm_mon :: int
  tm_mday :: int
  tm_hour :: int

text \<open>\<open>%0wd\<close>: the sign, zeros up to the width, the digits.\<close>

definition pad_dec :: "nat \<Rightarrow> int \<Rightarrow> string" where
  "pad_dec w i =
     (let ds = dec (nat \<bar>i\<bar>); sgn = (if i < 0 then ''-'' else [])
      in sgn @ replicate (w - length sgn - length ds) (CHR ''0'') @ ds)"

definition chunk_path :: "string \<Rightarrow> Tm \<Rightarrow> string" where
  "chunk_path dir tm =
     path_join dir (take 63 (''montauk_'' @ pad_dec 4 (tm_year tm + 1900) @ ''-'' @
       pad_dec 2 (tm_mon tm + 1) @ ''-'' @ pad_dec 2 (tm_mday tm) @ ''_'' @ pad_dec 2 (tm_hour tm) @ ''.prom''))"

text \<open>
  The loop's locals and the log directory: the stream (open on a path, or closed), the path the loop
  believes current, and the files.
\<close>

record LogState =
  lw_stream :: "string option"
  lw_current :: string
  lw_files :: "string \<Rightarrow> string option"

definition lw_init :: "(string \<Rightarrow> string option) \<Rightarrow> LogState" where
  "lw_init fs = \<lparr>lw_stream = None, lw_current = [], lw_files = fs\<rparr>"

definition log_block :: "int \<Rightarrow> string \<Rightarrow> string" where
  "log_block epoch_ms body = ''# montauk_scrape_timestamp_ms '' @ dec_int epoch_ms @ [LF] @ body"

definition stream_write :: "string \<Rightarrow> LogState \<Rightarrow> LogState" where
  "stream_write t st =
     (case lw_stream st of None \<Rightarrow> st
      | Some p \<Rightarrow> st\<lparr>lw_files := (lw_files st)(p \<mapsto>
          (case lw_files st p of None \<Rightarrow> [] | Some c \<Rightarrow> c) @ t)\<rparr>)"

text \<open>
  One turn: rotate if the required path differs, open for appending (\<open>opens\<close> tells whether it
  succeeds), then write the block. The flag tells whether the block was written; a failed open goes
  back to the head of the loop.
\<close>

definition log_turn :: "(string \<Rightarrow> bool) \<Rightarrow> string \<Rightarrow> int \<Rightarrow> string \<Rightarrow> LogState \<Rightarrow> bool \<times> LogState" where
  "log_turn opens required epoch_ms body st =
     (if required \<noteq> lw_current st
      then (let st = st\<lparr>lw_stream := None\<rparr>
            in if opens required
               then (let st = st\<lparr>lw_stream := Some required, lw_current := required,
                       lw_files := (lw_files st)(required \<mapsto>
                         (case lw_files st required of None \<Rightarrow> [] | Some c \<Rightarrow> c))\<rparr>
                     in (True, stream_write (log_block epoch_ms body) st))
               else (False, st))
      else (True, stream_write (log_block epoch_ms body) st))"

text \<open>A run of turns, each with its required path, time, body and whether files open then.\<close>

record Turn =
  tn_path :: string
  tn_ms :: int
  tn_body :: string
  tn_opens :: bool

definition log_run :: "Turn list \<Rightarrow> LogState \<Rightarrow> LogState" where
  "log_run = fold (\<lambda>t st. snd (log_turn (\<lambda>_. tn_opens t) (tn_path t) (tn_ms t) (tn_body t) st))"

definition lw_ok :: "LogState \<Rightarrow> bool" where
  "lw_ok st \<longleftrightarrow> (lw_stream st = None \<longrightarrow> lw_current st = []) \<and>
     (\<forall>p. lw_stream st = Some p \<longrightarrow> p = lw_current st \<and> p \<noteq> [] \<and> lw_files st p \<noteq> None)"

definition file_text :: "LogState \<Rightarrow> string \<Rightarrow> string" where
  "file_text st p = (case lw_files st p of None \<Rightarrow> [] | Some c \<Rightarrow> c)"

text \<open>What a path should gain: the blocks of its own turns, in order.\<close>

definition path_blocks :: "Turn list \<Rightarrow> string \<Rightarrow> string" where
  "path_blocks ts p = concat (map (\<lambda>t. if tn_path t = p then log_block (tn_ms t) (tn_body t) else []) ts)"

lemma log_turn_opens:
  assumes "lw_ok st" and "tn_opens t" and "tn_path t \<noteq> []"
  shows "lw_ok (snd (log_turn (\<lambda>_. tn_opens t) (tn_path t) (tn_ms t) (tn_body t) st)) \<and>
    file_text (snd (log_turn (\<lambda>_. tn_opens t) (tn_path t) (tn_ms t) (tn_body t) st)) p =
      file_text st p @ path_blocks [t] p"
  using assms
  by (cases "lw_stream st")
    (auto simp: log_turn_def lw_ok_def stream_write_def file_text_def path_blocks_def Let_def
      split: option.splits)

lemma log_run_opens:
  assumes "lw_ok st" and "\<forall>t \<in> set ts. tn_opens t \<and> tn_path t \<noteq> []"
  shows "file_text (log_run ts st) p = file_text st p @ path_blocks ts p"
  using assms
proof (induction ts arbitrary: st)
  case (Cons t ts)
  have "path_blocks (t # ts) p = path_blocks [t] p @ path_blocks ts p" by (simp add: path_blocks_def)
  with Cons log_turn_opens [OF Cons.prems(1), of t] show ?case by (simp add: log_run_def)
qed (simp add: log_run_def path_blocks_def)

section \<open>Properties\<close>

text \<open>C8: every exchange that received something is answered by one complete HTTP response, by route: a
  reader finds the status and header lines and, after them, a body of exactly the announced length.\<close>

theorem handle_client_response:
  assumes "received \<noteq> []" and "http_body src (request_line (take 4095 received)) ids = (st, ct, body)"
  shows "\<exists>resp. fst (handle_client src received ids) = Some resp \<and>
    http_ok resp [st, ct, ''Connection: close'', ''Content-Length: '' @ dec (length body)] body"
proof -
  have "CR \<notin> set st" "st \<noteq> []" "CR \<notin> set ct" "ct \<noteq> []"
    "\<not> prefix ''Content-Length: '' st" "\<not> prefix ''Content-Length: '' ct"
    using assms(2) by (auto simp: http_body_def split: if_splits)
  from response_ok [OF this] assms(2) show ?thesis
    unfolding handle_client_eq [OF assms(1)] by (simp add: response_lines_def)
qed

definition sample_source :: Source where
  "sample_source = \<lparr>src_now = 1, src_env = sample_env, src_snapshot = empty_Snapshot, src_trace = None\<rparr>"

theorem handle_client_response_witness:
  "\<exists>resp. fst (handle_client sample_source ''GET /nope'' sample_identity) = Some resp \<and>
    http_ok resp [''HTTP/1.1 404 Not Found'', ''Content-Type: text/plain'', ''Connection: close'',
      ''Content-Length: 14''] (''404 Not Found'' @ [LF])"
  using not_found_length handle_client_response [of "''GET /nope''" sample_source sample_identity
      "''HTTP/1.1 404 Not Found''" "''Content-Type: text/plain''" "''404 Not Found'' @ [LF]"]
  by (simp add: http_body_def request_line_def contains_def starts_with_def)



end
