(* ===== verification/Double_Buffer.thy ===== *)
theory Double_Buffer
  imports Prelude
begin

text \<open>
  The publication protocol of \<open>include/app/DoubleBuffer.hpp\<close> as a step relation: one writer that
  locks, fills and publishes the back buffer, and any number of readers that load the front pointer,
  take a shared lock, re-check and read. Every atomic access, lock and unlock is one step, interleaved
  freely under sequential consistency. The unguarded \<open>back()\<close> path is for single-threaded tests and
  is not a step.
\<close>

section \<open>State\<close>

datatype side = SideA | SideB

datatype 'v reader = RIdle | RLoaded side | RLocked side | RReading side "u64 \<times> 'v"

text \<open>
  Where the writer stands inside \<open>publish\<close>: the sequence number written into the buffer, the front
  pointer stored (the old front kept), the sequence stored, the lock released.
\<close>

datatype wpc = WRun | WSeq | WFront side | WStored side | WUnlocked side

text \<open>
  \<open>db_xlock\<close> and \<open>db_shared\<close> are the exclusive and shared holders of each buffer's mutex; \<open>db_log\<close>
  records the initial buffer and every publication, for the statements below.
\<close>

record 'v DoubleBuffer =
  db_buf :: "side \<Rightarrow> u64 \<times> 'v"
  db_front :: side
  db_back :: side
  db_seq :: u64
  db_write_locked :: bool
  db_xlock :: "side \<Rightarrow> bool"
  db_shared :: "side \<Rightarrow> nat set"
  db_pc :: wpc
  db_readers :: "nat \<Rightarrow> 'v reader"
  db_log :: "(u64 \<times> 'v) list"

definition db_init :: "'v \<Rightarrow> 'v DoubleBuffer" where
  "db_init v =
     \<lparr>db_buf = (\<lambda>_. (0, v)), db_front = SideA, db_back = SideB, db_seq = 0, db_write_locked = False,
      db_xlock = (\<lambda>_. False), db_shared = (\<lambda>_. {}), db_pc = WRun, db_readers = (\<lambda>_. RIdle),
      db_log = [(0, v)]\<rparr>"

section \<open>Steps\<close>

inductive db_step :: "'v DoubleBuffer \<Rightarrow> 'v DoubleBuffer \<Rightarrow> bool" where
  begin_write: "db_pc s = WRun \<Longrightarrow> \<not> db_write_locked s \<Longrightarrow> \<not> db_xlock s (db_back s) \<Longrightarrow>
    db_shared s (db_back s) = {} \<Longrightarrow>
    db_step s (s\<lparr>db_xlock := (db_xlock s)(db_back s := True), db_write_locked := True\<rparr>)"
| fill: "db_pc s = WRun \<Longrightarrow> db_write_locked s \<Longrightarrow>
    db_step s (s\<lparr>db_buf := (db_buf s)(db_back s := (fst (db_buf s (db_back s)), v))\<rparr>)"
| publish_seq: "db_pc s = WRun \<Longrightarrow> db_write_locked s \<Longrightarrow>
    db_step s (s\<lparr>db_buf := (db_buf s)(db_back s := (db_seq s + 1, snd (db_buf s (db_back s)))),
                 db_pc := WSeq\<rparr>)"
| publish_front: "db_pc s = WSeq \<Longrightarrow>
    db_step s (s\<lparr>db_pc := WFront (db_front s), db_front := db_back s,
                 db_log := db_log s @ [db_buf s (db_back s)]\<rparr>)"
| publish_store: "db_pc s = WFront old \<Longrightarrow>
    db_step s (s\<lparr>db_seq := db_seq s + 1, db_pc := WStored old\<rparr>)"
| publish_unlock: "db_pc s = WStored old \<Longrightarrow>
    db_step s (s\<lparr>db_write_locked := False, db_xlock := (db_xlock s)(db_back s := False),
                 db_pc := WUnlocked old\<rparr>)"
| publish_swap: "db_pc s = WUnlocked old \<Longrightarrow> db_step s (s\<lparr>db_back := old, db_pc := WRun\<rparr>)"
| read_load: "db_readers s r = RIdle \<Longrightarrow>
    db_step s (s\<lparr>db_readers := (db_readers s)(r := RLoaded (db_front s))\<rparr>)"
| read_lock: "db_readers s r = RLoaded f \<Longrightarrow> \<not> db_xlock s f \<Longrightarrow>
    db_step s (s\<lparr>db_shared := (db_shared s)(f := insert r (db_shared s f)),
                 db_readers := (db_readers s)(r := RLocked f)\<rparr>)"
| read_retry: "db_readers s r = RLocked f \<Longrightarrow> db_front s \<noteq> f \<Longrightarrow>
    db_step s (s\<lparr>db_shared := (db_shared s)(f := db_shared s f - {r}),
                 db_readers := (db_readers s)(r := RIdle)\<rparr>)"
| read_enter: "db_readers s r = RLocked f \<Longrightarrow> db_front s = f \<Longrightarrow>
    db_step s (s\<lparr>db_readers := (db_readers s)(r := RReading f (db_buf s f))\<rparr>)"
| read_leave: "db_readers s r = RReading f v \<Longrightarrow>
    db_step s (s\<lparr>db_shared := (db_shared s)(f := db_shared s f - {r}),
                 db_readers := (db_readers s)(r := RIdle)\<rparr>)"

inductive db_reachable :: "'v \<Rightarrow> 'v DoubleBuffer \<Rightarrow> bool" for v0 where
  db_start: "db_reachable v0 (db_init v0)"
| db_next: "db_reachable v0 s \<Longrightarrow> db_step s t \<Longrightarrow> db_reachable v0 t"

inductive_cases db_stepE: "db_step s t"

section \<open>Invariants\<close>

text \<open>Which buffer is which, and who holds its lock.\<close>

definition wr_inv :: "'v DoubleBuffer \<Rightarrow> bool" where
  "wr_inv s \<longleftrightarrow>
     (case db_pc s of WRun \<Rightarrow> db_front s \<noteq> db_back s
      | WSeq \<Rightarrow> db_front s \<noteq> db_back s \<and> db_write_locked s
      | WFront old \<Rightarrow> db_front s = db_back s \<and> old \<noteq> db_back s \<and> db_write_locked s
      | WStored old \<Rightarrow> db_front s = db_back s \<and> old \<noteq> db_back s \<and> db_write_locked s
      | WUnlocked old \<Rightarrow> db_front s = db_back s \<and> old \<noteq> db_back s \<and> \<not> db_write_locked s) \<and>
     (\<forall>d. db_xlock s d = (db_write_locked s \<and> d = db_back s))"

fun holds :: "'v reader \<Rightarrow> side \<Rightarrow> bool" where
  "holds (RLocked f) d = (f = d)"
| "holds (RReading f v) d = (f = d)"
| "holds _ d = False"

definition rd_inv :: "'v DoubleBuffer \<Rightarrow> bool" where
  "rd_inv s \<longleftrightarrow> (\<forall>d r. (r \<in> db_shared s d) = holds (db_readers s r) d) \<and>
     (\<forall>d. db_xlock s d \<longrightarrow> db_shared s d = {})"

text \<open>The published versions carry consecutive sequence numbers and the front buffer is the newest.\<close>

definition log_inv :: "'v DoubleBuffer \<Rightarrow> bool" where
  "log_inv s \<longleftrightarrow> db_log s \<noteq> [] \<and> db_buf s (db_front s) = last (db_log s) \<and>
     db_seq s = of_nat (length (db_log s) - (case db_pc s of WFront old \<Rightarrow> 2 | _ \<Rightarrow> 1)) \<and>
     ((\<exists>old. db_pc s = WFront old) \<longrightarrow> 2 \<le> length (db_log s)) \<and>
     (db_pc s = WSeq \<longrightarrow> fst (db_buf s (db_back s)) = of_nat (length (db_log s))) \<and>
     (\<forall>i < length (db_log s). fst (db_log s ! i) = of_nat i)"

definition read_inv :: "'v DoubleBuffer \<Rightarrow> bool" where
  "read_inv s \<longleftrightarrow> (\<forall>r f v. db_readers s r = RReading f v \<longrightarrow> db_buf s f = v \<and> v \<in> set (db_log s))"

lemma side_other: "a \<noteq> b \<Longrightarrow> c \<noteq> b \<Longrightarrow> (a::side) = c"
  by (cases a; cases b; cases c) auto

lemma wr_inv_step: "db_step s t \<Longrightarrow> wr_inv s \<Longrightarrow> wr_inv t"
  by (induction rule: db_step.induct) (auto simp: wr_inv_def split: wpc.splits)

lemma rd_inv_step: "db_step s t \<Longrightarrow> wr_inv s \<Longrightarrow> rd_inv s \<Longrightarrow> rd_inv t"
  by (induction rule: db_step.induct) (auto simp: rd_inv_def wr_inv_def split: wpc.splits)

lemma count_next: "xs \<noteq> [] \<Longrightarrow> word_of_nat (length xs - Suc 0) + 1 = (word_of_nat (length xs) :: u64)"
  by (cases xs) simp_all

lemma log_inv_step: "db_step s t \<Longrightarrow> wr_inv s \<Longrightarrow> log_inv s \<Longrightarrow> log_inv t"
  by (induction rule: db_step.induct)
    (auto simp: wr_inv_def log_inv_def nth_append less_Suc_eq count_next Suc_le_eq split: wpc.splits)

text \<open>While the writer holds its lock, nobody reads the buffer it fills.\<close>

lemma back_unread:
  assumes "wr_inv s" "rd_inv s" "db_write_locked s"
  shows "db_readers s r \<noteq> RReading (db_back s) v"
proof
  assume "db_readers s r = RReading (db_back s) v"
  then have "r \<in> db_shared s (db_back s)" using assms(2) by (simp add: rd_inv_def)
  moreover have "db_shared s (db_back s) = {}"
    using assms by (auto simp: wr_inv_def rd_inv_def)
  ultimately show False by simp
qed

lemma read_inv_step:
  assumes "db_step s t" "wr_inv s" "rd_inv s" "log_inv s" "read_inv s"
  shows "read_inv t"
  using assms
proof (induction rule: db_step.induct)
  case (fill s v)
  with back_unread [of s] show ?case by (auto simp: read_inv_def)
next
  case (publish_seq s)
  with back_unread [of s] show ?case by (auto simp: read_inv_def)
next
  case (read_enter s r f)
  then have "db_buf s f \<in> set (db_log s)" using last_in_set [of "db_log s"] by (simp add: log_inv_def)
  with read_enter show ?case by (auto simp: read_inv_def)
qed (auto simp: read_inv_def split: if_splits)

lemma reachable_inv:
  assumes "db_reachable v0 s"
  shows "wr_inv s \<and> rd_inv s \<and> log_inv s \<and> read_inv s"
  using assms
proof (induction rule: db_reachable.induct)
  case db_start
  show ?case by (simp add: db_init_def wr_inv_def rd_inv_def log_inv_def read_inv_def)
next
  case (db_next s t)
  then show ?case using wr_inv_step rd_inv_step log_inv_step read_inv_step by blast
qed

section \<open>Properties\<close>

text \<open>C3: whatever the interleaving, the buffer a reader is copying holds one published version, whole,
  for as long as the reader is on it, and the writer's buffer is never the one being read.\<close>

theorem double_buffer_reads_are_whole:
  assumes "db_reachable v0 s" and "db_readers s r = RReading f v"
  shows "db_buf s f = v \<and> v \<in> set (db_log s) \<and> (db_write_locked s \<longrightarrow> f \<noteq> db_back s)"
  using reachable_inv [OF assms(1)] assms(2) back_unread [of s r v]
  by (cases v) (auto simp: read_inv_def)

lemma first_read:
  "db_reachable v ((db_init v)\<lparr>db_readers := (\<lambda>_. RIdle)(0 := RReading SideA (0, v)),
     db_shared := (\<lambda>_. {})(SideA := {0})\<rparr>)"
proof -
  let ?s = "db_init v"
  let ?t = "?s\<lparr>db_readers := (\<lambda>_. RIdle)(0 := RLoaded SideA)\<rparr>"
  let ?u = "?t\<lparr>db_shared := (\<lambda>_. {})(SideA := {0}), db_readers := (\<lambda>_. RIdle)(0 := RLocked SideA)\<rparr>"
  have 1: "db_reachable v ?t"
    using db_next [OF db_start read_load [of ?s 0]] by (simp add: db_init_def)
  have 2: "db_reachable v ?u"
    using db_next [OF 1 read_lock [of ?t 0 SideA]] by (simp add: db_init_def)
  show ?thesis
    using db_next [OF 2 read_enter [of ?u 0 SideA]] by (simp add: db_init_def)
qed

theorem double_buffer_reads_are_whole_witness:
  "(0, ''old'') \<in> set (db_log (db_init ''old'')) \<and> db_buf (db_init ''old'') SideA = (0, ''old'')"
  using double_buffer_reads_are_whole [OF first_read [of "''old''"], of 0 SideA "(0, ''old'')"] by (simp add: db_init_def)

text \<open>The published sequence numbers are consecutive, the lock-free counter is behind the newest one
  by at most the publication in progress, and a reader enters only on the newest version.\<close>

theorem double_buffer_sequence:
  assumes "db_reachable v0 s"
  shows "(\<forall>i < length (db_log s). fst (db_log s ! i) = of_nat i) \<and>
    db_buf s (db_front s) = last (db_log s) \<and>
    (fst (last (db_log s)) = db_seq s \<or> fst (last (db_log s)) = db_seq s + 1 \<and> (\<exists>old. db_pc s = WFront old))"
proof -
  have li: "log_inv s" using reachable_inv [OF assms] by simp
  then obtain n where n: "length (db_log s) = Suc n" by (cases "db_log s") (auto simp: log_inv_def)
  then have l: "last (db_log s) = db_log s ! n" by (simp add: last_conv_nth flip: length_greater_0_conv)
  have "fst (last (db_log s)) = of_nat n" using li n l by (simp add: log_inv_def)
  moreover have "db_seq s = of_nat n \<or> (\<exists>old. db_pc s = WFront old) \<and> db_seq s + 1 = of_nat n"
  proof (cases "\<exists>old. db_pc s = WFront old")
    case True
    then obtain m where "n = Suc m" using li n by (cases n) (auto simp: log_inv_def)
    with True li n show ?thesis by (auto simp: log_inv_def)
  next
    case False
    with li n show ?thesis by (auto simp: log_inv_def split: wpc.splits)
  qed
  ultimately show ?thesis using li by (auto simp: log_inv_def)
qed

theorem double_buffer_sequence_witness:
  "db_buf (db_init (7::nat)) SideA = (0, 7) \<and> db_seq (db_init (7::nat)) = 0"
  using double_buffer_sequence [OF db_start, of "7::nat"] by (simp add: db_init_def)

lemma writer_progress:
  assumes "wr_inv s" "rd_inv s"
  shows "(\<exists>t. db_step s t \<and> db_readers t = db_readers s) \<or>
    (\<exists>r. holds (db_readers s r) (db_back s) \<and> \<not> db_write_locked s)"
proof (cases "db_pc s")
  case WRun
  show ?thesis
  proof (cases "db_write_locked s")
    case True
    show ?thesis by (rule disjI1, rule exI, rule conjI, rule publish_seq [OF WRun True]) simp
  next
    case False
    have free: "\<not> db_xlock s (db_back s)" using assms(1) False by (simp add: wr_inv_def)
    show ?thesis
    proof (cases "db_shared s (db_back s) = {}")
      case True
      show ?thesis by (rule disjI1, rule exI, rule conjI, rule begin_write [OF WRun False free True]) simp
    next
      case held: False
      then show ?thesis using assms(2) False by (auto simp: rd_inv_def)
    qed
  qed
next
  case WSeq
  show ?thesis by (rule disjI1, rule exI, rule conjI, rule publish_front [OF WSeq]) simp
next
  case (WFront old)
  show ?thesis by (rule disjI1, rule exI, rule conjI, rule publish_store [OF WFront]) simp
next
  case (WStored old)
  show ?thesis by (rule disjI1, rule exI, rule conjI, rule publish_unlock [OF WStored]) simp
next
  case (WUnlocked old)
  show ?thesis by (rule disjI1, rule exI, rule conjI, rule publish_swap [OF WUnlocked]) simp
qed

lemma reader_progress:
  assumes "holds (db_readers s r) d"
  shows "\<exists>t. db_step s t \<and> (db_readers t r = RIdle \<or> db_readers t r = RReading d (db_buf s d))"
proof (cases "db_readers s r")
  case (RLocked f)
  with assms have f: "db_readers s r = RLocked d" by simp
  show ?thesis
  proof (cases "db_front s = d")
    case True
    show ?thesis by (rule exI, rule conjI, rule read_enter [OF f True]) simp
  next
    case False
    show ?thesis by (rule exI, rule conjI, rule read_retry [OF f False]) simp
  qed
next
  case (RReading f v)
  show ?thesis by (rule exI, rule conjI, rule read_leave [OF RReading]) simp
qed (use assms in simp_all)



end
