(* ===== verification/Monitors.thy ===== *)
theory Monitors
  imports Model
begin

text \<open>
  The small stateful watchers around a snapshot: the churn window (\<open>src/util/Churn.cpp\<close>), the alert
  engine (\<open>src/app/Alerts.cpp\<close>) and the process filter (\<open>src/app/Filter.cpp\<close>). Clock readings are
  inputs (nanoseconds of the steady clock). The text matcher of the filter is a parameter: it is the
  search library's, not the program's.
\<close>

section \<open>Churn\<close>

datatype ChurnKind = ChurnProc | ChurnSysfs

type_synonym churn_event = "int \<times> ChurnKind"

abbreviation churn_keep :: int where
  "churn_keep \<equiv> 10 * 10 ^ 9"

definition prune_older_than :: "int \<Rightarrow> churn_event list \<Rightarrow> churn_event list" where
  "prune_older_than cutoff es = dropWhile (\<lambda>e. fst e < cutoff) es"

definition note_churn :: "int \<Rightarrow> ChurnKind \<Rightarrow> churn_event list \<Rightarrow> churn_event list" where
  "note_churn now kind es = prune_older_than (now - churn_keep) es @ [(now, kind)]"

definition count_recent_ms :: "int \<Rightarrow> int \<Rightarrow> churn_event list \<Rightarrow> nat \<times> churn_event list" where
  "count_recent_ms now ms es =
     (let cutoff = now - ms * 10 ^ 6; es = prune_older_than (now - churn_keep) es
      in (length (filter (\<lambda>e. cutoff \<le> fst e) es), es))"

definition count_recent_kind_ms :: "ChurnKind \<Rightarrow> int \<Rightarrow> int \<Rightarrow> churn_event list \<Rightarrow> nat \<times> churn_event list" where
  "count_recent_kind_ms kind now ms es =
     (let cutoff = now - ms * 10 ^ 6; es = prune_older_than (now - churn_keep) es
      in (length (filter (\<lambda>e. cutoff \<le> fst e \<and> snd e = kind) es), es))"

text \<open>
  The reference is the whole history of notes. The window holds, in order, at least every note of the
  last ten seconds.
\<close>

definition churn_rel :: "int \<Rightarrow> churn_event list \<Rightarrow> churn_event list \<Rightarrow> bool" where
  "churn_rel prev hist es \<longleftrightarrow>
     sorted (map fst hist) \<and> (\<forall>e \<in> set hist. fst e \<le> prev) \<and>
     (\<exists>old. hist = old @ es \<and> (\<forall>e \<in> set old. fst e < prev - churn_keep))"

lemma prune_suffix: "\<exists>old. es = old @ prune_older_than c es \<and> (\<forall>e \<in> set old. fst e < c)"
  unfolding prune_older_than_def
  by (metis (mono_tags, lifting) set_takeWhileD takeWhile_dropWhile_id)

lemma churn_rel_prune:
  assumes "churn_rel prev hist es" and "prev \<le> now"
  shows "churn_rel now hist (prune_older_than (now - churn_keep) es)"
proof -
  obtain old where "hist = old @ es" "\<forall>e \<in> set old. fst e < prev - churn_keep"
    using assms(1) by (auto simp: churn_rel_def)
  moreover obtain mid where "es = mid @ prune_older_than (now - churn_keep) es"
    "\<forall>e \<in> set mid. fst e < now - churn_keep" using prune_suffix by blast
  ultimately have "hist = (old @ mid) @ prune_older_than (now - churn_keep) es"
    "\<forall>e \<in> set (old @ mid). fst e < now - churn_keep" using assms(2) by fastforce+
  then show ?thesis using assms unfolding churn_rel_def by fastforce
qed

lemma churn_rel_note:
  assumes "churn_rel prev hist es" and "prev \<le> now"
  shows "churn_rel now (hist @ [(now, kind)]) (note_churn now kind es)"
  using churn_rel_prune [OF assms] by (auto simp: churn_rel_def note_churn_def sorted_append)

lemma churn_filter:
  assumes "churn_rel prev hist es" and "prev \<le> now" and "ms \<le> 10000"
  shows "filter (\<lambda>e. now - ms * 10 ^ 6 \<le> fst e \<and> P e) (prune_older_than (now - churn_keep) es) =
    filter (\<lambda>e. now - ms * 10 ^ 6 \<le> fst e \<and> P e) hist"
proof -
  obtain old where h: "hist = old @ prune_older_than (now - churn_keep) es"
    and o: "\<forall>e \<in> set old. fst e < now - churn_keep"
    using churn_rel_prune [OF assms(1,2)] by (auto simp: churn_rel_def)
  have "\<forall>e \<in> set old. \<not> (now - ms * 10 ^ 6 \<le> fst e \<and> P e)" using o assms(3) by fastforce
  then have "filter (\<lambda>e. now - ms * 10 ^ 6 \<le> fst e \<and> P e) old = []" by (simp add: filter_empty_conv)
  with arg_cong [OF h, of "filter (\<lambda>e. now - ms * 10 ^ 6 \<le> fst e \<and> P e)"] show ?thesis by simp
qed

section \<open>Alerts\<close>

record AlertRules =
  cpu_total_high_pct :: dbl
  mem_high_pct :: dbl
  top_proc_cpu_pct :: dbl
  sustain :: int

definition default_rules :: AlertRules where
  "default_rules = \<lparr>cpu_total_high_pct = Num 90, mem_high_pct = Num 90, top_proc_cpu_pct = Num 80,
     sustain = 3 * 10 ^ 9\<rparr>"

record AlertEngine =
  ae_rules :: AlertRules
  cpu_high_since :: int
  mem_high_since :: int

definition alert_engine :: "AlertRules \<Rightarrow> AlertEngine" where
  "alert_engine rules = \<lparr>ae_rules = rules, cpu_high_since = 0, mem_high_since = 0\<rparr>"

text \<open>One sustained condition: the time it became true (0 while it is false), and whether it has lasted.\<close>

definition sustained :: "int \<Rightarrow> bool \<Rightarrow> int \<Rightarrow> int \<Rightarrow> bool \<times> int" where
  "sustained hold high now since =
     (if high then let since = (if since = 0 then now else since) in (hold \<le> now - since, since)
      else (False, 0))"

definition evaluate :: "int \<Rightarrow> Snapshot \<Rightarrow> AlertEngine \<Rightarrow> AlertItem list \<times> AlertEngine" where
  "evaluate now s e =
     (let r = ae_rules e;
          (cpu, cs) = sustained (sustain r) (d_le (cpu_total_high_pct r) (cpu_usage_pct (sn_cpu s))) now
             (cpu_high_since e);
          (mem, ms) = sustained (sustain r) (d_le (mem_high_pct r) (mem_used_pct (sn_mem s))) now
             (mem_high_since e);
          ps = pr_processes (sn_procs s);
          top = (ps \<noteq> [] \<and> d_le (top_proc_cpu_pct r) (ps_cpu_pct (hd ps)))
      in ((if cpu then [\<lparr>ai_severity = ''crit'', ai_message = ''CPU total sustained high''\<rparr>] else []) @
          (if mem then [\<lparr>ai_severity = ''crit'', ai_message = ''Memory usage sustained high''\<rparr>] else []) @
          (if top then [\<lparr>ai_severity = ''warn'', ai_message = ''Top process CPU high''\<rparr>] else []),
          e\<lparr>cpu_high_since := cs, mem_high_since := ms\<rparr>))"

text \<open>Successive readings of one condition, oldest first.\<close>

definition watch :: "int \<Rightarrow> (int \<times> bool) list \<Rightarrow> int" where
  "watch hold xs = fold (\<lambda>(now, high) since. snd (sustained hold high now since)) xs 0"

text \<open>The start of the current run of high readings.\<close>

definition run_start :: "(int \<times> bool) list \<Rightarrow> int" where
  "run_start xs = (let run = takeWhile snd (rev xs) in if run = [] then 0 else fst (last run))"

lemma watch_snoc: "watch hold (xs @ [(now, high)]) = snd (sustained hold high now (watch hold xs))"
  by (simp add: watch_def)

lemma watch_run_start:
  assumes "\<forall>x \<in> set xs. fst x \<noteq> 0"
  shows "watch hold xs = run_start xs"
  using assms
proof (induction xs rule: rev_induct)
  case Nil
  then show ?case by (simp add: watch_def run_start_def)
next
  case (snoc x xs)
  obtain now high where x: "x = (now, high)" by (cases x)
  have "run_start xs = 0 \<longleftrightarrow> takeWhile snd (rev xs) = []"
    using snoc.prems set_takeWhileD [of "last (takeWhile snd (rev xs))" snd "rev xs"]
    by (auto simp: run_start_def Let_def)
  with snoc show ?case by (auto simp: x watch_snoc sustained_def run_start_def Let_def)
qed

section \<open>The process filter\<close>

text \<open>
  \<open>find_fixed needle hay\<close> and \<open>find_regex pattern hay\<close> stand for the compiled case-insensitive
  matchers' search (found or not); \<open>regex_valid\<close> for a pattern that compiles.
\<close>

record ProcessFilterSpec =
  name_contains :: "string option"
  name_regex :: "string option"
  user_equals :: "string option"
  cpu_min :: "dbl option"
  mem_min_kb :: "u64 option"

record ProcessFilter =
  pf_spec :: ProcessFilterSpec
  pf_compiled :: "string option"
  pf_bmh :: "string option"

definition process_filter :: "(string \<Rightarrow> bool) \<Rightarrow> ProcessFilterSpec \<Rightarrow> ProcessFilter" where
  "process_filter regex_valid spec =
     \<lparr>pf_spec = spec,
      pf_compiled = (case name_regex spec of None \<Rightarrow> None | Some rx \<Rightarrow> if regex_valid rx then Some rx else None),
      pf_bmh = (case name_contains spec of None \<Rightarrow> None | Some sub \<Rightarrow> if sub \<noteq> [] then Some sub else None)\<rparr>"

definition filter_accepts ::
    "(string \<Rightarrow> string \<Rightarrow> bool) \<Rightarrow> (string \<Rightarrow> string \<Rightarrow> bool) \<Rightarrow> ProcessFilter \<Rightarrow> ProcSample \<Rightarrow> bool" where
  "filter_accepts find_fixed find_regex f p =
     (let ok = (case pf_bmh f of None \<Rightarrow> True | Some sub \<Rightarrow> find_fixed sub (ps_cmd p));
          ok = (ok \<and> (case pf_compiled f of None \<Rightarrow> True | Some rx \<Rightarrow> find_regex rx (ps_cmd p)));
          ok = (ok \<and> (case user_equals (pf_spec f) of None \<Rightarrow> True | Some u \<Rightarrow> ps_user_name p = u));
          ok = (ok \<and> (case cpu_min (pf_spec f) of None \<Rightarrow> True | Some c \<Rightarrow> \<not> d_less (ps_cpu_pct p) c))
      in ok \<and> (case mem_min_kb (pf_spec f) of None \<Rightarrow> True | Some m \<Rightarrow> \<not> ps_rss_kb p < m))"

fun filter_loop :: "(ProcSample \<Rightarrow> bool) \<Rightarrow> nat \<Rightarrow> ProcSample list \<Rightarrow> nat list \<Rightarrow> nat list" where
  "filter_loop ok i [] out = out"
| "filter_loop ok i (p # ps) out = filter_loop ok (i + 1) ps (if ok p then out @ [i] else out)"

definition filter_apply ::
    "(string \<Rightarrow> string \<Rightarrow> bool) \<Rightarrow> (string \<Rightarrow> string \<Rightarrow> bool) \<Rightarrow> ProcessFilter \<Rightarrow> ProcessSnapshot \<Rightarrow> nat list" where
  "filter_apply find_fixed find_regex f ps =
     filter_loop (filter_accepts find_fixed find_regex f) 0 (pr_processes ps) []"

lemma filter_loop_eq:
  "filter_loop ok i ps out = out @ map ((+) i) (filter (\<lambda>k. ok (ps ! k)) [0..<length ps])"
proof (induction ps arbitrary: i out)
  case (Cons p ps)
  have "filter (\<lambda>k. ok ((p # ps) ! k)) [0..<Suc (length ps)] =
      (if ok p then [0] else []) @ map Suc (filter (\<lambda>k. ok (ps ! k)) [0..<length ps])"
    by (simp add: upt_conv_Cons map_Suc_upt [symmetric] filter_map comp_def del: upt_Suc)
  with Cons show ?case by (simp add: comp_def del: upt_Suc)
qed simp

text \<open>The constraints as one condition on a process.\<close>

definition constraint :: "'c option \<Rightarrow> ('c \<Rightarrow> bool) \<Rightarrow> bool" where
  "constraint c P = (case c of None \<Rightarrow> True | Some x \<Rightarrow> P x)"

definition meets_spec ::
    "(string \<Rightarrow> string \<Rightarrow> bool) \<Rightarrow> (string \<Rightarrow> string \<Rightarrow> bool) \<Rightarrow> (string \<Rightarrow> bool) \<Rightarrow> ProcessFilterSpec \<Rightarrow>
     ProcSample \<Rightarrow> bool" where
  "meets_spec find_fixed find_regex regex_valid spec p \<longleftrightarrow>
     constraint (name_contains spec) (\<lambda>sub. sub = [] \<or> find_fixed sub (ps_cmd p)) \<and>
     constraint (name_regex spec) (\<lambda>rx. \<not> regex_valid rx \<or> find_regex rx (ps_cmd p)) \<and>
     constraint (user_equals spec) (\<lambda>u. ps_user_name p = u) \<and>
     constraint (cpu_min spec) (\<lambda>c. \<not> d_less (ps_cpu_pct p) c) \<and>
     constraint (mem_min_kb spec) (\<lambda>m. m \<le> ps_rss_kb p)"

lemma filter_accepts_spec:
  "filter_accepts ff fr (process_filter valid spec) p = meets_spec ff fr valid spec p"
  by (simp add: filter_accepts_def process_filter_def meets_spec_def constraint_def Let_def not_less
      split: option.split)

section \<open>Properties\<close>

text \<open>C13: a churn count over a window of at most ten seconds is exact, although the store forgets: it is
  the number of notes of that window in the whole history.\<close>

theorem churn_count_exact:
  assumes "churn_rel prev hist es" and "prev \<le> now" and "ms \<le> 10000"
  shows "fst (count_recent_ms now ms es) = length (filter (\<lambda>e. now - ms * 10 ^ 6 \<le> fst e) hist) \<and>
    fst (count_recent_kind_ms kind now ms es) =
      length (filter (\<lambda>e. now - ms * 10 ^ 6 \<le> fst e \<and> snd e = kind) hist) \<and>
    churn_rel now hist (snd (count_recent_ms now ms es)) \<and>
    churn_rel now (hist @ [(now, kind)]) (note_churn now kind es)"
  using churn_filter [OF assms, of "\<lambda>_. True"] churn_filter [OF assms, of "\<lambda>e. snd e = kind"]
    churn_rel_prune [OF assms(1,2)] churn_rel_note [OF assms(1,2)]
  by (simp add: count_recent_ms_def count_recent_kind_ms_def Let_def)

theorem churn_count_exact_witness:
  "fst (count_recent_ms (20 * 10 ^ 9) 2000 [(19 * 10 ^ 9, ChurnProc)]) = 1"
  using churn_count_exact [of "19 * 10 ^ 9" "[(1, ChurnSysfs), (19 * 10 ^ 9, ChurnProc)]"
      "[(19 * 10 ^ 9, ChurnProc)]" "20 * 10 ^ 9" 2000 ChurnProc]
  by (simp add: churn_rel_def)

text \<open>The CPU alarm is raised exactly when the load has been high at every evaluation since one at
  least the hold time ago; a single low reading resets it.\<close>

theorem cpu_alert_sustained:
  assumes "\<forall>x \<in> set xs. fst x \<noteq> 0" and "now \<noteq> 0"
    and "cpu_high_since e = watch (sustain (ae_rules e)) xs"
    and "high = d_le (cpu_total_high_pct (ae_rules e)) (cpu_usage_pct (sn_cpu s))"
  shows "(\<lparr>ai_severity = ''crit'', ai_message = ''CPU total sustained high''\<rparr> \<in> set (fst (evaluate now s e)) \<longleftrightarrow>
      high \<and> sustain (ae_rules e) \<le> now - run_start (xs @ [(now, high)])) \<and>
    cpu_high_since (snd (evaluate now s e)) = watch (sustain (ae_rules e)) (xs @ [(now, high)])"
proof -
  have w: "watch (sustain (ae_rules e)) (xs @ [(now, high)]) = run_start (xs @ [(now, high)])"
    using assms(1,2) by (intro watch_run_start) auto
  show ?thesis
    using assms(3,4) unfolding w [symmetric] watch_snoc
    by (auto simp: evaluate_def Let_def sustained_def split: prod.split)
qed

theorem cpu_alert_sustained_witness:
  "\<lparr>ai_severity = ''crit'', ai_message = ''CPU total sustained high''\<rparr> \<in>
     set (fst (evaluate (5 * 10 ^ 9) (empty_Snapshot\<lparr>sn_cpu := empty_CpuSnapshot\<lparr>cpu_usage_pct := Num 95\<rparr>\<rparr>)
       ((alert_engine default_rules)\<lparr>cpu_high_since := 2 * 10 ^ 9\<rparr>)))"
  using cpu_alert_sustained [of "[(2 * 10 ^ 9, True)]" "5 * 10 ^ 9"
      "(alert_engine default_rules)\<lparr>cpu_high_since := 2 * 10 ^ 9\<rparr>" True
      "empty_Snapshot\<lparr>sn_cpu := empty_CpuSnapshot\<lparr>cpu_usage_pct := Num 95\<rparr>\<rparr>"]
  by (simp add: watch_def sustained_def run_start_def alert_engine_def default_rules_def empty_Snapshot_def
      empty_CpuSnapshot_def d_le_def)

text \<open>The filter returns, in ascending order, exactly the indices of the processes that meet every
  constraint given; an empty substring and a pattern that does not compile constrain nothing.\<close>

theorem filter_apply_exact:
  "filter_apply ff fr (process_filter valid spec) ps =
     filter (\<lambda>i. meets_spec ff fr valid spec (pr_processes ps ! i)) [0..<length (pr_processes ps)]"
  by (simp add: filter_apply_def filter_loop_eq filter_accepts_spec map_idI)

end
