(* ===== verification/Proc_Parse.thy ===== *)
theory Proc_Parse
  imports Formatting
begin

text \<open>
  The shared \<open>/proc\<close> readers of \<open>include/collectors/ProcessParsing.hpp\<close>: the stat line, the CPU
  totals, the status file, the command line and the passwd cache. File contents come from the redirected reads.
\<close>

section \<open>Numbers\<close>

text \<open>
  \<open>std::from_chars\<close> into an unsigned or signed integer of \<open>w\<close> bits: the leading digits (with a minus
  sign when signed); no digits or a value out of range leaves the target as it was.
\<close>

definition from_chars_u :: "nat \<Rightarrow> string \<Rightarrow> int \<Rightarrow> int" where
  "from_chars_u w s old =
     (let ds = takeWhile is_digit s; v = int (undec ds) in if ds = [] \<or> 2 ^ w \<le> v then old else v)"

definition from_chars_i :: "nat \<Rightarrow> string \<Rightarrow> int \<Rightarrow> int" where
  "from_chars_i w s old =
     (let neg = (s \<noteq> [] \<and> hd s = CHR ''-''); ds = takeWhile is_digit (if neg then tl s else s);
          v = (if neg then - int (undec ds) else int (undec ds))
      in if ds = [] \<or> v < - (2 ^ (w - 1)) \<or> 2 ^ (w - 1) \<le> v then old else v)"

section \<open>The stat line\<close>

definition is_blank :: "char \<Rightarrow> bool" where
  "is_blank c \<longleftrightarrow> c = SPACE \<or> c = TAB \<or> c = LF"

definition next_field :: "string \<Rightarrow> string \<times> string" where
  "next_field p =
     (let q = dropWhile is_blank p in (takeWhile (\<lambda>c. \<not> is_blank c) q, dropWhile (\<lambda>c. \<not> is_blank c) q))"

fun skip_fields :: "nat \<Rightarrow> string \<Rightarrow> string" where
  "skip_fields 0 p = p"
| "skip_fields (Suc n) p = skip_fields n (snd (next_field p))"

record StatFields =
  st_state :: char
  st_utime :: int
  st_stime :: int
  st_rss_pages :: int
  st_comm :: string
  st_minflt :: int
  st_majflt :: int
  st_num_threads :: int

definition stat_tail :: "string \<Rightarrow> StatFields \<Rightarrow> StatFields" where
  "stat_tail p r =
     (let (f, p) = next_field p;
          r = (if f \<noteq> [] then r\<lparr>st_state := hd f\<rparr> else r);
          p = skip_fields 6 p;
          (f, p) = next_field p; r = r\<lparr>st_minflt := from_chars_u 64 f (st_minflt r)\<rparr>;
          p = skip_fields 1 p;
          (f, p) = next_field p; r = r\<lparr>st_majflt := from_chars_u 64 f (st_majflt r)\<rparr>;
          p = skip_fields 1 p;
          (f, p) = next_field p; r = r\<lparr>st_utime := from_chars_u 64 f (st_utime r)\<rparr>;
          (f, p) = next_field p; r = r\<lparr>st_stime := from_chars_u 64 f (st_stime r)\<rparr>;
          p = skip_fields 4 p;
          (f, p) = next_field p; r = r\<lparr>st_num_threads := from_chars_i 32 f (st_num_threads r)\<rparr>;
          p = skip_fields 3 p;
          (f, p) = next_field p
      in r\<lparr>st_rss_pages := from_chars_i 64 f (st_rss_pages r)\<rparr>)"

definition parse_stat_line :: "string \<Rightarrow> StatFields \<Rightarrow> bool \<times> StatFields" where
  "parse_stat_line content r =
     (case (find_char (CHR ''('') content, rfind_char (CHR '')'') content) of
        (Some lp, Some rp) \<Rightarrow>
          if rp < lp then (False, r)
          else (True, stat_tail (drop (rp + 1) content)
                 (r\<lparr>st_comm := take (rp - lp - 1) (drop (lp + 1) content)\<rparr>))
      | _ \<Rightarrow> (False, r))"

section \<open>CPU lines of /proc/stat\<close>

text \<open>The scan for at most eight numbers; \<open>fuel\<close> bounds it by the length of the text.\<close>

fun cpu_vals :: "nat \<Rightarrow> string \<Rightarrow> u64 list \<Rightarrow> u64 list" where
  "cpu_vals 0 s vals = vals"
| "cpu_vals (Suc fuel) s vals =
     (if length vals = 8 \<or> s = [] then vals
      else let s = dropWhile (\<lambda>c. c = SPACE \<or> c = TAB) s; ds = takeWhile is_digit s;
               v = int (undec ds)
           in cpu_vals fuel (drop (length ds + 1) s)
                (if ds \<noteq> [] then vals @ [if v < 2 ^ 64 then word_of_int v else 0] else vals))"

definition read_cpu_total :: "string option \<Rightarrow> u64" where
  "read_cpu_total file =
     (case file of None \<Rightarrow> 0
      | Some text \<Rightarrow>
        let line = takeWhile (\<lambda>c. c \<noteq> LF) text
        in case find_char SPACE line of None \<Rightarrow> 0
           | Some pos \<Rightarrow> let rest = drop (pos + 1) line in sum_list (cpu_vals (length rest) rest []))"

definition split_lines :: "string \<Rightarrow> string list" where
  "split_lines s = (let ls = fold (\<lambda>c (cur, ls). if c = LF then ([], ls @ [cur]) else (cur @ [c], ls)) s ([], [])
     in snd ls @ (if fst ls = [] then [] else [fst ls]))"

fun cpu_count_loop :: "string list \<Rightarrow> bool \<Rightarrow> nat \<Rightarrow> nat" where
  "cpu_count_loop [] first n = n"
| "cpu_count_loop (l # ls) first n =
     (if starts_with l ''cpu''
      then (if first then cpu_count_loop ls False n
            else if 4 \<le> length l \<and> is_digit (l ! 3) then cpu_count_loop ls first (n + 1)
            else cpu_count_loop ls first n)
      else if \<not> first then n else cpu_count_loop ls first n)"

definition read_cpu_count :: "string option \<Rightarrow> nat" where
  "read_cpu_count file =
     (case file of None \<Rightarrow> 1
      | Some text \<Rightarrow> let n = cpu_count_loop (split_lines text) True 0 in if n = 0 then 1 else n)"

section \<open>Status\<close>

record StatusInfo =
  si_user :: string
  si_thread_count :: int

text \<open>The passwd file's entry for a user id: \<open>strtoul\<close> of the third field, cut to 32 bits.\<close>

definition strtoul32 :: "string \<Rightarrow> int" where
  "strtoul32 s =
     (let t = dropWhile is_space s; neg = (t \<noteq> [] \<and> hd t = CHR ''-'');
          u = (if t \<noteq> [] \<and> (hd t = CHR ''-'' \<or> hd t = CHR ''+'') then tl t else t);
          m = int (undec (takeWhile is_digit u));
          l = (if 2 ^ 64 \<le> m then 2 ^ 64 - 1 else if neg then - m else m)
      in l mod 2 ^ 32)"

definition passwd_entry :: "string \<Rightarrow> (string \<times> int) option" where
  "passwd_entry pl =
     (case find_char (CHR '':'') pl of None \<Rightarrow> None
      | Some c1 \<Rightarrow> (case find_char (CHR '':'') (drop (c1 + 1) pl) of None \<Rightarrow> None
        | Some d \<Rightarrow> (let c2 = c1 + 1 + d in
            case find_char (CHR '':'') (drop (c2 + 1) pl) of None \<Rightarrow> None
            | Some _ \<Rightarrow> Some (take c1 pl, strtoul32 (c_str (drop (c2 + 1) pl))))))"

fun passwd_find :: "int \<Rightarrow> string list \<Rightarrow> string option" where
  "passwd_find uid [] = None"
| "passwd_find uid (l # ls) =
     (case passwd_entry l of Some (name, u) \<Rightarrow> if u = uid then Some name else passwd_find uid ls
      | None \<Rightarrow> passwd_find uid ls)"

definition user_name_cached :: "string list \<Rightarrow> int \<Rightarrow> (int \<rightharpoonup> string) \<Rightarrow> string \<times> (int \<rightharpoonup> string)" where
  "user_name_cached passwd uid cache =
     (case cache uid of Some n \<Rightarrow> (n, cache)
      | None \<Rightarrow> let name = (case passwd_find uid passwd of Some n \<Rightarrow> n | None \<Rightarrow> dec_int uid)
                in (name, cache(uid \<mapsto> name)))"

definition skip_blanks :: "string \<Rightarrow> string" where
  "skip_blanks s = dropWhile (\<lambda>c. c = SPACE \<or> c = TAB) s"

definition status_line :: "string list \<Rightarrow> string \<Rightarrow> StatusInfo \<times> (int \<rightharpoonup> string) \<Rightarrow> StatusInfo \<times> (int \<rightharpoonup> string)" where
  "status_line passwd line st =
     (if starts_with line ''Uid:''
      then (let uid = from_chars_u 32 (skip_blanks (drop 4 line)) 0;
                (name, cache) = user_name_cached passwd uid (snd st)
            in ((fst st)\<lparr>si_user := name\<rparr>, cache))
      else if starts_with line ''Threads:''
      then ((fst st)\<lparr>si_thread_count :=
              from_chars_i 32 (skip_blanks (drop 8 line)) (si_thread_count (fst st))\<rparr>, snd st)
      else st)"

definition info_from_status :: "string list \<Rightarrow> string option \<Rightarrow> (int \<rightharpoonup> string) \<Rightarrow> StatusInfo \<times> (int \<rightharpoonup> string)" where
  "info_from_status passwd file cache =
     (let info = \<lparr>si_user = [], si_thread_count = 1\<rparr>
      in case file of None \<Rightarrow> (info, cache)
         | Some text \<Rightarrow> fold (status_line passwd) (split_lines text) (info, cache))"

record CtxSwitches =
  cx_voluntary :: int
  cx_involuntary :: int
  cx_ok :: bool

fun ctx_loop :: "string list \<Rightarrow> nat \<Rightarrow> CtxSwitches \<Rightarrow> nat \<times> CtxSwitches" where
  "ctx_loop [] found c = (found, c)"
| "ctx_loop (l # ls) found c =
     (if 2 \<le> found then (found, c)
      else let colon = (case find_char (CHR '':'') l of Some i \<Rightarrow> i + 1 | None \<Rightarrow> 0);
               v = skip_blanks (drop colon l)
           in if starts_with l ''nonvoluntary_ctxt_switches:''
              then ctx_loop ls (found + 1) (c\<lparr>cx_involuntary := from_chars_u 64 v (cx_involuntary c)\<rparr>)
              else if starts_with l ''voluntary_ctxt_switches:''
              then ctx_loop ls (found + 1) (c\<lparr>cx_voluntary := from_chars_u 64 v (cx_voluntary c)\<rparr>)
              else ctx_loop ls found c)"

definition ctx_switches_from_status :: "string option \<Rightarrow> CtxSwitches" where
  "ctx_switches_from_status file =
     (let c = \<lparr>cx_voluntary = 0, cx_involuntary = 0, cx_ok = False\<rparr>
      in case file of None \<Rightarrow> c
         | Some text \<Rightarrow> (let (found, c) = ctx_loop (split_lines text) 0 c in c\<lparr>cx_ok := 0 < found\<rparr>))"

section \<open>Command lines\<close>

fun cmdline_loop :: "string \<Rightarrow> bool \<Rightarrow> string \<Rightarrow> string" where
  "cmdline_loop [] sep out = out"
| "cmdline_loop (b # bs) sep out =
     (if b = NUL then (if \<not> sep then cmdline_loop bs True (out @ [SPACE]) else cmdline_loop bs sep out)
      else cmdline_loop bs False (out @ [b]))"

definition read_cmdline :: "string option \<Rightarrow> string" where
  "read_cmdline file =
     (case file of None \<Rightarrow> []
      | Some bytes \<Rightarrow> if bytes = [] then []
          else let out = cmdline_loop bytes True [] in if out \<noteq> [] \<and> last out = SPACE then butlast out else out)"

definition kCmdlineMax :: nat where
  "kCmdlineMax = 512"

definition cap_cmdline :: "string \<Rightarrow> string" where
  "cap_cmdline cmd = (if kCmdlineMax < length cmd then take kCmdlineMax cmd else cmd)"

section \<open>Reading what the kernel writes\<close>

lemma from_chars_u_dec: "n < 2 ^ w \<Longrightarrow> from_chars_u w (dec n) old = int n"
  by (simp add: from_chars_u_def Let_def)

lemma from_chars_u_dec_int: "0 \<le> v \<Longrightarrow> v < 2 ^ w \<Longrightarrow> from_chars_u w (dec_int v) old = v"
  using from_chars_u_dec [of "nat v" w old] by (simp add: dec_int_def nat_less_iff)

lemma from_chars_i_dec_int:
  assumes "- (2 ^ (w - 1)) \<le> v" "v < 2 ^ (w - 1)"
  shows "from_chars_i w (dec_int v) old = v"
proof -
  have "hd (dec n) \<noteq> CHR ''-''" for n
    using dec_digits [OF hd_in_set [OF dec_nonempty], of n] by (auto simp: is_digit_def byte_def)
  then show ?thesis using assms by (simp add: from_chars_i_def dec_int_def Let_def)
qed

definition field_ok :: "string \<Rightarrow> bool" where
  "field_ok f \<longleftrightarrow> f \<noteq> [] \<and> (\<forall>c \<in> set f. \<not> is_blank c \<and> c \<noteq> CHR '')'')"

lemma dec_int_chars: "c \<in> set (dec_int v) \<Longrightarrow> is_digit c \<or> c = CHR ''-''"
  by (auto simp: dec_int_def dest: dec_digits split: if_splits)

lemma field_ok_dec_int: "field_ok (dec_int v)"
  using dec_int_chars [of _ v]
  by (fastforce simp: field_ok_def is_blank_def is_digit_def byte_def dec_int_def)

definition fields_text :: "string list \<Rightarrow> string" where
  "fields_text fs = concat (map (\<lambda>f. SPACE # f) fs)"

lemma fields_text_simps [simp]: "fields_text [] = []" "fields_text (f # fs) = SPACE # f @ fields_text fs"
  by (simp_all add: fields_text_def)

lemma next_field_text:
  assumes "field_ok f"
  shows "next_field (SPACE # f @ fields_text fs) = (f, fields_text fs)"
proof -
  have b: "\<forall>c \<in> set f. \<not> is_blank c" "f \<noteq> []" "is_blank SPACE" using assms by (auto simp: field_ok_def is_blank_def)
  have "dropWhile is_blank (SPACE # f @ fields_text fs) = f @ fields_text fs"
    using b by (cases f) auto
  moreover have "takeWhile (\<lambda>c. \<not> is_blank c) (f @ fields_text fs) = f"
    "dropWhile (\<lambda>c. \<not> is_blank c) (f @ fields_text fs) = fields_text fs"
    using b by (cases fs; simp)+
  ultimately show ?thesis by (simp add: next_field_def)
qed

lemma skip_fields_text:
  "list_all field_ok fs \<Longrightarrow> n \<le> length fs \<Longrightarrow> skip_fields n (fields_text fs) = fields_text (drop n fs)"
proof (induction n arbitrary: fs)
  case (Suc n)
  then obtain f gs where "fs = f # gs" by (cases fs) auto
  with Suc show ?case by (simp add: next_field_text)
qed simp

text \<open>Reading the field at an index: the text before it is skipped whole.\<close>

lemma next_field_drop:
  assumes "list_all field_ok fs" "n < length fs"
  shows "next_field (fields_text (drop n fs)) = (fs ! n, fields_text (drop (Suc n) fs))"
  using assms by (simp add: Cons_nth_drop_Suc [symmetric] next_field_text list_all_length)

lemma skip_fields_drop:
  assumes "list_all field_ok fs" "n + k \<le> length fs"
  shows "skip_fields k (fields_text (drop n fs)) = fields_text (drop (n + k) fs)"
proof -
  have "list_all field_ok (drop n fs)" using assms(1) by (auto simp: list_all_iff dest: in_set_dropD)
  then show ?thesis using skip_fields_text [of "drop n fs" k] assms(2) by (simp add: add.commute)
qed

lemma stat_tail_fields:
  assumes ok: "list_all field_ok fs" and len: "22 \<le> length fs"
  shows "stat_tail (fields_text fs) r = r\<lparr>st_state := hd (fs ! 0),
    st_minflt := from_chars_u 64 (fs ! 7) (st_minflt r), st_majflt := from_chars_u 64 (fs ! 9) (st_majflt r),
    st_utime := from_chars_u 64 (fs ! 11) (st_utime r), st_stime := from_chars_u 64 (fs ! 12) (st_stime r),
    st_num_threads := from_chars_i 32 (fs ! 17) (st_num_threads r),
    st_rss_pages := from_chars_i 64 (fs ! 21) (st_rss_pages r)\<rparr>"
proof -
  note nf = next_field_drop [OF ok] and sk = skip_fields_drop [OF ok]
  have ne: "fs ! 0 \<noteq> []" using ok len by (cases fs) (auto simp: field_ok_def)
  have f0: "next_field (fields_text fs) = (fs ! 0, fields_text (drop 1 fs))" using nf [of 0] len by force
  show ?thesis
    unfolding stat_tail_def f0 Let_def prod.case
    using ne len by (simp add: sk nf)
qed

lemma rfind_after:
  assumes "CHR '')'' \<notin> set post"
  shows "rfind_char (CHR '')'') (pre @ CHR '')'' # post) = Some (length pre)"
  using assms by (simp add: rfind_char_def find_char_skip)

definition kernel_stat :: "nat \<Rightarrow> string \<Rightarrow> char \<Rightarrow> int list \<Rightarrow> string" where
  "kernel_stat pid comm state vs = dec pid @ '' ('' @ comm @ '')'' @ fields_text ([state] # map dec_int vs)"

section \<open>Command lines\<close>

definition cmdline_bytes :: "string list \<Rightarrow> string" where
  "cmdline_bytes argv = concat (map (\<lambda>a. a @ [NUL]) argv)"

fun join_spaces :: "string list \<Rightarrow> string" where
  "join_spaces [] = []"
| "join_spaces [a] = a"
| "join_spaces (a # b # as) = a @ SPACE # join_spaces (b # as)"

lemma cmdline_loop_arg:
  "a \<noteq> [] \<Longrightarrow> NUL \<notin> set a \<Longrightarrow> cmdline_loop (a @ NUL # bs) sep out = cmdline_loop bs True (out @ a @ [SPACE])"
proof (induction a arbitrary: sep out)
  case (Cons c a)
  then show ?case by (cases a) auto
qed simp

lemma cmdline_loop_args:
  "\<forall>a \<in> set argv. a \<noteq> [] \<and> NUL \<notin> set a \<Longrightarrow>
     cmdline_loop (cmdline_bytes argv) True out = out @ concat (map (\<lambda>a. a @ [SPACE]) argv)"
  by (induction argv arbitrary: out) (auto simp: cmdline_bytes_def cmdline_loop_arg)

lemma join_spaces_trailing: "argv \<noteq> [] \<Longrightarrow> concat (map (\<lambda>a. a @ [SPACE]) argv) = join_spaces argv @ [SPACE]"
  by (induction argv rule: join_spaces.induct) auto

section \<open>Properties\<close>

text \<open>C7: the stat line the kernel prints is read back exactly, whatever bytes the program name holds,
  parentheses and blanks included.\<close>

theorem parse_stat_line_kernel:
  assumes "21 \<le> length vs" and "\<not> is_blank state" and "state \<noteq> CHR '')''"
    and "\<forall>i \<in> {6, 8, 10, 11}. 0 \<le> vs ! i \<and> vs ! i < 2 ^ 64"
    and "- (2 ^ 31) \<le> vs ! 16 \<and> vs ! 16 < 2 ^ 31" and "- (2 ^ 63) \<le> vs ! 20 \<and> vs ! 20 < 2 ^ 63"
  shows "parse_stat_line (kernel_stat pid comm state vs) r =
    (True, \<lparr>st_state = state, st_utime = vs ! 10, st_stime = vs ! 11, st_rss_pages = vs ! 20, st_comm = comm,
       st_minflt = vs ! 6, st_majflt = vs ! 8, st_num_threads = vs ! 16\<rparr>)"
proof -
  let ?fs = "[state] # map dec_int vs"
  have ok: "list_all field_ok ?fs" "22 \<le> length ?fs"
    using assms(1-3) field_ok_dec_int by (auto simp: list_all_iff field_ok_def [of "[state]"])
  have np: "CHR '')'' \<notin> set (fields_text fs)" if "list_all field_ok fs" for fs
    using that by (induction fs) (auto simp: field_ok_def)
  have "CHR ''('' \<notin> set (dec pid)" using dec_digits by (fastforce simp: is_digit_def byte_def)
  then have lp: "find_char (CHR ''('') (kernel_stat pid comm state vs) = Some (length (dec pid) + 1)"
    by (simp add: kernel_stat_def find_char_skip)
  have rp: "rfind_char (CHR '')'') (kernel_stat pid comm state vs) = Some (length (dec pid) + 2 + length comm)"
    using rfind_after [OF np [OF ok(1)], of "dec pid @ '' ('' @ comm"] by (simp add: kernel_stat_def)
  have d: "drop (length (dec pid) + 2 + length comm + 1) (kernel_stat pid comm state vs) = fields_text ?fs"
    and t: "take (length comm) (drop (length (dec pid) + 2) (kernel_stat pid comm state vs)) = comm"
    by (simp_all add: kernel_stat_def numeral_3_eq_3)
  have nums: "map dec_int vs ! i = dec_int (vs ! i)" if "i < 21" for i
    using assms(1) that by simp
  show ?thesis
    using lp rp d t stat_tail_fields [OF ok] assms(4-6)
    by (cases r) (simp add: parse_stat_line_def nums from_chars_u_dec_int from_chars_i_dec_int)
qed

theorem parse_stat_line_kernel_witness:
  "parse_stat_line (kernel_stat 7 ''a) (b'' (CHR ''S'') (replicate 21 5))
      \<lparr>st_state = CHR ''?'', st_utime = 0, st_stime = 0, st_rss_pages = 0, st_comm = [], st_minflt = 0,
       st_majflt = 0, st_num_threads = 1\<rparr> =
    (True, \<lparr>st_state = CHR ''S'', st_utime = 5, st_stime = 5, st_rss_pages = 5, st_comm = ''a) (b'',
       st_minflt = 5, st_majflt = 5, st_num_threads = 5\<rparr>)"
  using parse_stat_line_kernel [of "replicate 21 5" "CHR ''S''" 7 "''a) (b''"]
  by (simp add: is_blank_def)

text \<open>The NUL-separated argument vector becomes the arguments joined by single spaces, with no trailing
  separator.\<close>

theorem read_cmdline_argv:
  assumes "\<forall>a \<in> set argv. a \<noteq> [] \<and> NUL \<notin> set a" and "argv \<noteq> []"
  shows "read_cmdline (Some (cmdline_bytes argv)) = join_spaces argv"
proof -
  have "cmdline_bytes argv \<noteq> []" using assms by (cases argv) (auto simp: cmdline_bytes_def)
  then show ?thesis
    using cmdline_loop_args [OF assms(1), of "[]"] join_spaces_trailing [OF assms(2)]
    by (simp add: read_cmdline_def)
qed

theorem read_cmdline_argv_witness: "read_cmdline (Some (cmdline_bytes [''ls'', ''-l''])) = ''ls -l''"
  using read_cmdline_argv [of "[''ls'', ''-l'']"] by simp

end
