(* ===== verification/History.thy ===== *)
theory History
  imports Prelude
begin

text \<open>
  The sample ring of \<open>include/util/History.hpp\<close>: a fixed buffer, a write position and a fill count.
  Its contract is a sliding window over everything pushed; the contract is a locale, provided by the
  ring and used for whole runs of samples.
\<close>

section \<open>The ring\<close>

record 'a History =
  h_buffer :: "'a list"
  h_capacity :: nat
  h_head :: nat
  h_size :: nat

definition history_new :: "'a \<Rightarrow> nat \<Rightarrow> 'a History" where
  "history_new zero capacity =
     \<lparr>h_buffer = replicate capacity zero, h_capacity = capacity, h_head = 0, h_size = 0\<rparr>"

definition history_push :: "'a \<Rightarrow> 'a History \<Rightarrow> 'a History" where
  "history_push sample h =
     (if h_capacity h = 0 then h
      else h\<lparr>h_buffer := (h_buffer h)[h_head h := sample], h_head := (h_head h + 1) mod h_capacity h,
             h_size := (if h_size h < h_capacity h then h_size h + 1 else h_size h)\<rparr>)"

definition history_recent :: "nat \<Rightarrow> 'a History \<Rightarrow> 'a list" where
  "history_recent count h =
     (if h_size h = 0 \<or> count = 0 then []
      else let tk = (if count < h_size h then count else h_size h);
               start = (h_head h + h_capacity h - tk) mod h_capacity h
           in map (\<lambda>i. h_buffer h ! ((start + i) mod h_capacity h)) [0..<tk])"

definition history_resize :: "'a \<Rightarrow> nat \<Rightarrow> 'a History \<Rightarrow> 'a History" where
  "history_resize zero new_capacity h =
     \<lparr>h_buffer = replicate new_capacity zero, h_capacity = new_capacity, h_head = 0, h_size = 0\<rparr>"

section \<open>The window\<close>

definition lastn :: "nat \<Rightarrow> 'a list \<Rightarrow> 'a list" where
  "lastn n xs = drop (length xs - n) xs"

lemma length_lastn [simp]: "length (lastn n xs) = min n (length xs)"
  by (simp add: lastn_def)

lemma lastn_all [simp]: "length xs \<le> n \<Longrightarrow> lastn n xs = xs"
  by (simp add: lastn_def)

lemma lastn_lastn [simp]: "lastn n (lastn m xs) = lastn (min n m) xs"
  by (auto simp: lastn_def min_def intro!: arg_cong2 [of _ _ _ _ drop])

lemma lastn_append: "lastn n (xs @ ys) = lastn (n - length ys) xs @ lastn n ys"
  by (cases "n \<le> length ys") (auto simp: lastn_def intro!: arg_cong2 [of _ _ _ _ drop])

lemma lastn_snoc: "lastn n (lastn n xs @ ys) = lastn n (xs @ ys)"
  by (simp add: lastn_append min_def)

text \<open>
  What a client relies on: pushing slides a window of the given capacity, and \<open>recent\<close> reads the
  newest samples of the window, oldest first.
\<close>

locale sample_window =
  fixes inv :: "'h \<Rightarrow> bool"
    and cap :: "'h \<Rightarrow> nat"
    and window :: "'h \<Rightarrow> 'a list"
    and push :: "'a \<Rightarrow> 'h \<Rightarrow> 'h"
    and recent :: "nat \<Rightarrow> 'h \<Rightarrow> 'a list"
  assumes push_inv: "inv h \<Longrightarrow> inv (push x h)"
    and push_cap: "inv h \<Longrightarrow> cap (push x h) = cap h"
    and push_window: "inv h \<Longrightarrow> window (push x h) = lastn (cap h) (window h @ [x])"
    and recent_window: "inv h \<Longrightarrow> recent n h = lastn n (window h)"
    and window_cap: "inv h \<Longrightarrow> length (window h) \<le> cap h"
begin

lemma pushes:
  assumes "inv h"
  shows "inv (fold push xs h) \<and> cap (fold push xs h) = cap h \<and>
    window (fold push xs h) = lastn (cap h) (window h @ xs)"
  using assms
proof (induction xs arbitrary: h)
  case Nil
  then show ?case using window_cap by simp
next
  case (Cons x xs)
  from Cons.IH [OF push_inv [OF Cons.prems, of x]] show ?case
    using push_cap [OF Cons.prems] push_window [OF Cons.prems]
      lastn_snoc [of "cap h" "window h @ [x]" xs] by simp
qed

lemma recent_pushes:
  assumes "inv h"
  shows "recent n (fold push xs h) = lastn (min n (cap h)) (window h @ xs)"
  using pushes [OF assms, of xs] recent_window by simp

end

section \<open>The ring provides the window\<close>

definition history_ok :: "'a History \<Rightarrow> bool" where
  "history_ok h \<longleftrightarrow> length (h_buffer h) = h_capacity h \<and> h_size h \<le> h_capacity h \<and>
     (h_head h < h_capacity h \<or> h_capacity h = 0 \<and> h_head h = 0)"

abbreviation ring_index :: "'a History \<Rightarrow> nat \<Rightarrow> nat \<Rightarrow> nat" where
  "ring_index h n i \<equiv> (h_head h + h_capacity h - n + i) mod h_capacity h"

definition history_window :: "'a History \<Rightarrow> 'a list" where
  "history_window h = map (\<lambda>i. h_buffer h ! ring_index h (h_size h) i) [0..<h_size h]"

lemma history_ok_new: "history_ok (history_new z n)"
  by (auto simp: history_ok_def history_new_def)

lemma history_window_new: "history_window (history_new z n) = []"
  by (simp add: history_window_def history_new_def)

lemma history_ok_push: "history_ok h \<Longrightarrow> history_ok (history_push x h)"
  by (auto simp: history_ok_def history_push_def)

lemma ring_index_other:
  assumes "head < (cap::nat)" "i < n" "n \<le> cap" "i \<noteq> 0 \<or> n < cap"
  shows "(head + cap - n + i) mod cap \<noteq> head"
proof
  assume e: "(head + cap - n + i) mod cap = head"
  have lt: "head + cap - n + i < 2 * cap" using assms by linarith
  show False
  proof (cases "head + cap - n + i < cap")
    case True
    then show False using e assms by auto
  next
    case False
    then have "(head + cap - n + i) mod cap = head + cap - n + i - cap"
      using lt by (simp add: mod_if)
    then show False using e assms False by linarith
  qed
qed

lemma ring_index_next:
  assumes "head < (cap::nat)" "n < cap"
  shows "((head + 1) mod cap + cap - Suc n + i) mod cap = (head + cap - n + i) mod cap"
proof (cases "head + 1 < cap")
  case True
  then show ?thesis using assms by (simp add: Suc_diff_Suc)
next
  case False
  with assms have h: "head + 1 = cap" by linarith
  then have "(head + 1) mod cap = 0" by simp
  moreover have e: "head + cap - n + i = (cap - Suc n + i) + cap" using h assms by linarith
  ultimately show ?thesis by (simp only: e) simp
qed

lemma history_push_window:
  assumes ok: "history_ok h"
  shows "history_window (history_push x h) = lastn (h_capacity h) (history_window h @ [x])"
proof (cases "h_capacity h = 0")
  case True
  with ok show ?thesis
    by (simp add: history_ok_def history_push_def history_window_def lastn_def)
next
  case False
  define c where "c = h_capacity h"
  have c: "0 < c" "h_head h < c" "h_size h \<le> c" "length (h_buffer h) = c"
    using ok False by (auto simp: history_ok_def c_def)
  show ?thesis
  proof (cases "h_size h < c")
    case True
    have "ring_index h (h_size h) (h_size h) = h_head h"
      using c True by (simp add: c_def)
    moreover have "(h_buffer h)[h_head h := x] ! ring_index h (h_size h) i = h_buffer h ! ring_index h (h_size h) i"
      if "i < h_size h" for i
      using ring_index_other [of "h_head h" c i "h_size h"] that c True by (simp add: c_def)
    ultimately show ?thesis
      using True c ring_index_next [of "h_head h" c "h_size h"]
      by (simp add: history_window_def history_push_def lastn_def flip: c_def)
  next
    case False
    with c have full: "h_size h = c" by simp
    obtain m where m: "c = Suc m" using c(1) gr0_implies_Suc by blast
    let ?b = "h_buffer h"
    have step: "((h_head h + 1) mod c + i) mod c = (h_head h + Suc i) mod c" for i
      by (simp add: mod_simps)
    have new: "history_window (history_push x h) = map (\<lambda>i. ?b[h_head h := x] ! ((h_head h + Suc i) mod c)) [0..<c]"
      using c full step by (simp add: history_window_def history_push_def flip: c_def)
    have old: "history_window h = map (\<lambda>i. ?b ! ((h_head h + i) mod c)) [0..<c]"
      using full by (simp add: history_window_def flip: c_def)
    have "?b[h_head h := x] ! ((h_head h + Suc i) mod c) = ?b ! ((h_head h + Suc i) mod c)" if "i < m" for i
      using ring_index_other [of "h_head h" c "Suc i" c] that c m by simp
    moreover have "(h_head h + Suc m) mod c = h_head h" using c by (simp flip: m)
    ultimately have "history_window (history_push x h) = map (\<lambda>i. ?b ! ((h_head h + Suc i) mod c)) [0..<m] @ [x]"
      using c unfolding new by (simp add: m)
    also have "\<dots> = tl (history_window h) @ [x]"
      unfolding old by (simp add: m map_tl [symmetric] del: upt_Suc)
        (simp add: upt_conv_Cons map_Suc_upt [symmetric] del: upt_Suc)
    finally have "history_window (history_push x h) = tl (history_window h) @ [x]" .
    moreover have "length (history_window h) = c" unfolding old by simp
    then have "lastn c (history_window h @ [x]) = tl (history_window h) @ [x]"
      using m by (cases "history_window h") (simp_all add: lastn_def)
    ultimately show ?thesis by (simp flip: c_def)
  qed
qed

lemma history_recent_window:
  assumes ok: "history_ok h"
  shows "history_recent n h = lastn n (history_window h)"
proof (cases "h_size h = 0 \<or> n = 0")
  case True
  then show ?thesis by (auto simp: history_recent_def history_window_def lastn_def)
next
  case False
  then have c: "h_head h < h_capacity h" "h_size h \<le> h_capacity h" using ok by (auto simp: history_ok_def)
  define k where "k = min n (h_size h)"
  have "history_recent n h = map (\<lambda>i. h_buffer h ! ring_index h k i) [0..<k]"
    using False by (auto simp: history_recent_def k_def Let_def mod_simps min_def)
  also have "\<dots> = map (\<lambda>i. h_buffer h ! ring_index h (h_size h) (h_size h - k + i)) [0..<k]"
  proof (rule map_cong [OF refl])
    fix i assume "i \<in> set [0..<k]"
    have "h_head h + h_capacity h - k + i = h_head h + h_capacity h - h_size h + (h_size h - k + i)"
      using c by (simp add: k_def)
    then show "h_buffer h ! ring_index h k i = h_buffer h ! ring_index h (h_size h) (h_size h - k + i)"
      by (rule arg_cong)
  qed
  also have "\<dots> = lastn n (history_window h)"
  proof -
    have "h_size h - k = h_size h - n" by (simp add: k_def)
    then show ?thesis
      by (intro nth_equalityI) (auto simp: lastn_def history_window_def k_def simp del: add_diff_assoc2)
  qed
  finally show ?thesis .
qed

interpretation ring: sample_window history_ok h_capacity history_window history_push history_recent
proof unfold_locales
  show "length (history_window h) \<le> h_capacity h" if "history_ok h" for h :: "'a History"
    using that by (simp add: history_window_def history_ok_def)
qed (simp_all add: history_ok_push history_push_window history_recent_window, simp add: history_push_def)

section \<open>Properties\<close>

text \<open>C12: after any run of samples, \<open>recent\<close> returns exactly the newest ones the ring can hold, oldest
  first, and never more than asked for.\<close>

theorem history_recent_after_pushes:
  "history_recent n (fold history_push xs (history_new z capacity)) = lastn (min n capacity) xs"
  using ring.recent_pushes [OF history_ok_new, of n xs z capacity]
  by (simp add: history_window_new) (simp add: history_new_def)

end
