(* ===== verification/Toml.thy ===== *)
theory Toml
  imports Prelude
begin

text \<open>
  The configuration store of \<open>include/util/TomlReader.hpp\<close>: sections of key/value entries in file
  order, a line reader, a writer, and typed access. The file is its content.
\<close>

section \<open>The store\<close>

type_synonym toml_section = "(string \<times> string) list"
type_synonym toml = "(string \<times> toml_section) list"

fun section_set :: "string \<Rightarrow> string \<Rightarrow> toml_section \<Rightarrow> toml_section" where
  "section_set key val [] = [(key, val)]"
| "section_set key val ((k, v) # es) = (if k = key then (k, val) # es else (k, v) # section_set key val es)"

fun section_get :: "string \<Rightarrow> string \<Rightarrow> toml_section \<Rightarrow> string" where
  "section_get key def [] = def"
| "section_get key def ((k, v) # es) = (if k = key then v else section_get key def es)"

fun section_has :: "string \<Rightarrow> toml_section \<Rightarrow> bool" where
  "section_has key [] = False"
| "section_has key ((k, v) # es) = (k = key \<or> section_has key es)"

text \<open>\<open>ensure_section(name)\<close> followed by an update of the section it returns.\<close>

fun with_section :: "string \<Rightarrow> (toml_section \<Rightarrow> toml_section) \<Rightarrow> toml \<Rightarrow> toml" where
  "with_section name f [] = [(name, f [])]"
| "with_section name f ((n, s) # ss) = (if n = name then (n, f s) # ss else (n, s) # with_section name f ss)"

fun find_section :: "string \<Rightarrow> toml \<Rightarrow> toml_section option" where
  "find_section name [] = None"
| "find_section name ((n, s) # ss) = (if n = name then Some s else find_section name ss)"

definition trim :: "string \<Rightarrow> string" where
  "trim sv = strip_back is_space (strip_front is_space sv)"

definition needs_quoting :: "string \<Rightarrow> bool" where
  "needs_quoting val =
     (if val = [] then True
      else if val = ''true'' \<or> val = ''false'' then False
      else let digits = (if hd val = CHR ''-'' then tl val else val)
           in \<not> (digits \<noteq> [] \<and> list_all is_digit digits))"

section \<open>Reading\<close>

text \<open>\<open>std::getline\<close> until the end of the file: a last line without a newline is still a line.\<close>

function getlines :: "string \<Rightarrow> string list" where
  "getlines s =
     (if s = [] then []
      else takeWhile (\<lambda>c. c \<noteq> LF) s # getlines (drop 1 (dropWhile (\<lambda>c. c \<noteq> LF) s)))"
  by pat_completeness auto
termination
proof (relation "measure length")
  fix s :: string assume "s \<noteq> []"
  then have "length (dropWhile (\<lambda>c. c \<noteq> LF) s) - 1 < length s"
    using length_dropWhile_le [of "\<lambda>c. c \<noteq> LF" s] by (cases s) auto
  then show "(drop 1 (dropWhile (\<lambda>c. c \<noteq> LF) s), s) \<in> measure length" by simp
qed simp

declare getlines.simps [simp del]

definition strip_value :: "string \<Rightarrow> string" where
  "strip_value val =
     (let val =
        (if val \<noteq> [] \<and> hd val = DQUOTE
         then (case find_char DQUOTE (tl val) of Some i \<Rightarrow> take (i + 2) val | None \<Rightarrow> val)
         else (case find_char (CHR ''#'') val of Some i \<Rightarrow> trim (take i val) | None \<Rightarrow> val))
      in if 2 \<le> length val \<and> hd val = DQUOTE \<and> last val = DQUOTE then butlast (tl val) else val)"

definition load_line :: "string \<Rightarrow> toml \<times> string \<Rightarrow> toml \<times> string" where
  "load_line line st =
     (let (ss, current) = st; sv = trim line
      in if sv = [] \<or> hd sv = CHR ''#'' then st
         else if hd sv = CHR ''['' \<and> last sv = CHR '']''
         then (let current = trim (take (length sv - 2) (tl sv)) in (with_section current (\<lambda>s. s) ss, current))
         else (case find_char (CHR ''='') sv of None \<Rightarrow> st
               | Some eq \<Rightarrow>
                 (let key = trim (take eq sv); val = strip_value (trim (drop (eq + 1) sv))
                  in (with_section current (section_set key val) ss, current))))"

definition toml_load :: "string option \<Rightarrow> bool \<times> toml" where
  "toml_load file = (case file of None \<Rightarrow> (False, [])
     | Some text \<Rightarrow> (True, fst (fold load_line (getlines text) ([], []))))"

section \<open>Writing and access\<close>

definition entry_text :: "string \<times> string \<Rightarrow> string" where
  "entry_text e =
     (if needs_quoting (snd e) then fst e @ '' = '' @ [DQUOTE] @ snd e @ [DQUOTE, LF]
      else fst e @ '' = '' @ snd e @ [LF])"

definition section_text :: "string \<times> toml_section \<Rightarrow> string" where
  "section_text ns =
     (if fst ns \<noteq> [] then ''['' @ fst ns @ '']'' @ [LF] else []) @ concat (map entry_text (snd ns))"

fun save_loop :: "bool \<Rightarrow> toml \<Rightarrow> string" where
  "save_loop first [] = []"
| "save_loop first (ns # ss) = (if \<not> first then [LF] else []) @ section_text ns @ save_loop False ss"

definition toml_save :: "toml \<Rightarrow> string" where
  "toml_save d = save_loop True d"

definition get_string :: "toml \<Rightarrow> string \<Rightarrow> string \<Rightarrow> string \<Rightarrow> string" where
  "get_string d sec key def = (case find_section sec d of Some s \<Rightarrow> section_get key def s | None \<Rightarrow> def)"

definition get_int :: "toml \<Rightarrow> string \<Rightarrow> string \<Rightarrow> int \<Rightarrow> int" where
  "get_int d sec key def =
     (case find_section sec d of None \<Rightarrow> def
      | Some s \<Rightarrow> let val = section_get key [] s
                  in if val = [] then def else (case stoi val of None \<Rightarrow> def | Some v \<Rightarrow> v))"

definition get_bool :: "toml \<Rightarrow> string \<Rightarrow> string \<Rightarrow> bool \<Rightarrow> bool" where
  "get_bool d sec key def =
     (case find_section sec d of None \<Rightarrow> def
      | Some s \<Rightarrow> let val = section_get key [] s
                  in if val = [] then def
                     else if val \<in> {''true'', ''True'', ''TRUE'', ''1''} then True
                     else if val \<in> {''false'', ''False'', ''FALSE'', ''0''} then False
                     else def)"

definition toml_set :: "string \<Rightarrow> string \<Rightarrow> string \<Rightarrow> toml \<Rightarrow> toml" where
  "toml_set sec key val d = with_section sec (section_set key val) d"

definition toml_set_int :: "string \<Rightarrow> string \<Rightarrow> i32 \<Rightarrow> toml \<Rightarrow> toml" where
  "toml_set_int sec key v d = with_section sec (section_set key (dec_sint v)) d"

definition toml_set_bool :: "string \<Rightarrow> string \<Rightarrow> bool \<Rightarrow> toml \<Rightarrow> toml" where
  "toml_set_bool sec key v d = with_section sec (section_set key (if v then ''true'' else ''false'')) d"

definition toml_has :: "toml \<Rightarrow> string \<Rightarrow> string \<Rightarrow> bool" where
  "toml_has d sec key = (case find_section sec d of None \<Rightarrow> False | Some s \<Rightarrow> section_has key s)"

section \<open>Access\<close>

lemma find_with_section:
  "find_section m (with_section name f d) =
     (if m = name then Some (f (case find_section name d of None \<Rightarrow> [] | Some s \<Rightarrow> s)) else find_section m d)"
  by (induction name f d rule: with_section.induct) auto

lemma section_get_set: "section_get k def (section_set key v s) = (if k = key then v else section_get k def s)"
  by (induction s) auto

lemma section_has_set: "section_has k (section_set key v s) = (k = key \<or> section_has k s)"
  by (induction s) (auto split: if_splits)

section \<open>Lines\<close>

definition unlines :: "string list \<Rightarrow> string" where
  "unlines ls = concat (map (\<lambda>l. l @ [LF]) ls)"

lemma unlines_simps [simp]:
  "unlines [] = []" "unlines (l # ls) = l @ LF # unlines ls" "unlines (xs @ ys) = unlines xs @ unlines ys"
  by (simp_all add: unlines_def)

lemma getlines_line: "LF \<notin> set l \<Longrightarrow> getlines (l @ LF # s) = l # getlines s"
proof -
  assume l: "LF \<notin> set l"
  have "takeWhile (\<lambda>c. c \<noteq> LF) (l @ LF # s) = l" "dropWhile (\<lambda>c. c \<noteq> LF) (l @ LF # s) = LF # s"
    using l by (auto simp: takeWhile_append dropWhile_append)
  then show ?thesis by (subst getlines.simps) simp
qed

lemma getlines_nil [simp]: "getlines [] = []"
  by (subst getlines.simps) simp

lemma getlines_unlines: "\<forall>l \<in> set ls. LF \<notin> set l \<Longrightarrow> getlines (unlines ls) = ls"
  by (induction ls) (auto simp: getlines_line)

section \<open>What the writer's text reads back as\<close>

definition entry_line :: "string \<times> string \<Rightarrow> string" where
  "entry_line e = butlast (entry_text e)"

fun doc_lines :: "bool \<Rightarrow> toml \<Rightarrow> string list" where
  "doc_lines first [] = []"
| "doc_lines first (ns # ss) = (if \<not> first then [[]] else []) @
     (if fst ns \<noteq> [] then [''['' @ fst ns @ '']''] else []) @ map entry_line (snd ns) @ doc_lines False ss"

lemma entry_text_line: "entry_text e = entry_line e @ [LF]"
  by (simp add: entry_line_def entry_text_def butlast_append)

lemma save_unlines: "save_loop first d = unlines (doc_lines first d)"
proof (induction first d rule: save_loop.induct)
  case (2 first ns ss)
  have "concat (map entry_text es) = unlines (map entry_line es)" for es
    by (induction es) (simp_all add: entry_text_line)
  with 2 show ?case by (simp add: section_text_def)
qed simp

text \<open>Trimmed: no white space at either end.\<close>

definition trimmed :: "string \<Rightarrow> bool" where
  "trimmed s \<longleftrightarrow> s = [] \<or> \<not> is_space (hd s) \<and> \<not> is_space (last s)"

lemma trim_trimmed: "trimmed s \<Longrightarrow> trim s = s"
  by (auto simp: trim_def trimmed_def strip_front_id strip_back_id)

definition name_ok :: "string \<Rightarrow> bool" where
  "name_ok n \<longleftrightarrow> trimmed n \<and> LF \<notin> set n"

definition key_ok :: "string \<Rightarrow> bool" where
  "key_ok k \<longleftrightarrow> k \<noteq> [] \<and> trimmed k \<and> LF \<notin> set k \<and> CHR ''='' \<notin> set k \<and> hd k \<noteq> CHR ''#''"

definition value_ok :: "string \<Rightarrow> bool" where
  "value_ok v \<longleftrightarrow> LF \<notin> set v \<and> DQUOTE \<notin> set v"

definition section_ok :: "toml_section \<Rightarrow> bool" where
  "section_ok s \<longleftrightarrow> distinct (map fst s) \<and> (\<forall>e \<in> set s. key_ok (fst e) \<and> value_ok (snd e))"

text \<open>Only the first section may be the unnamed one, and then it holds something.\<close>

definition toml_ok :: "toml \<Rightarrow> bool" where
  "toml_ok d \<longleftrightarrow> distinct (map fst d) \<and> (\<forall>ns \<in> set d. name_ok (fst ns) \<and> section_ok (snd ns)) \<and>
     (\<forall>ns \<in> set (tl d). fst ns \<noteq> []) \<and> (\<forall>ns \<in> set d. fst ns = [] \<longrightarrow> snd ns \<noteq> [])"

lemma space_lits [simp]:
  "is_space SPACE" "\<not> is_space DQUOTE" "\<not> is_space (CHR '']'')" "\<not> is_space (CHR ''['')"
  "\<not> is_space (CHR ''='')" "\<not> is_space (CHR ''-'')" "\<not> is_space (CHR ''e'')"
  by (simp_all add: is_space_def byte_def)

text \<open>The value part of a written line is the value again.\<close>

lemma strip_value_quoted:
  assumes "DQUOTE \<notin> set v"
  shows "strip_value (DQUOTE # v @ [DQUOTE]) = v"
proof -
  have "find_char DQUOTE (v @ [DQUOTE]) = Some (length v)"
    using assms find_index_skip [of v "\<lambda>x. x = DQUOTE" "[DQUOTE]"] by fastforce
  then show ?thesis by (simp add: strip_value_def Let_def butlast_append)
qed

definition written_value :: "string \<Rightarrow> string" where
  "written_value v = (if needs_quoting v then DQUOTE # v @ [DQUOTE] else v)"

lemma plain_chars:
  assumes "\<not> needs_quoting v"
  shows "v \<noteq> []" "c \<in> set v \<Longrightarrow> is_digit c \<or> c \<in> set ''-truefalse''"
proof -
  have "v = ''true'' \<or> v = ''false'' \<or> v \<noteq> [] \<and> list_all is_digit v \<or>
    (\<exists>u. v = CHR ''-'' # u \<and> u \<noteq> [] \<and> list_all is_digit u)"
    using assms by (cases v) (auto simp: needs_quoting_def Let_def split: if_splits)
  then show "v \<noteq> []" "c \<in> set v \<Longrightarrow> is_digit c \<or> c \<in> set ''-truefalse''"
    by (auto simp: list_all_iff)
qed

lemma plain_char_facts:
  "is_digit c \<or> c \<in> set ''-truefalse'' \<Longrightarrow>
     c \<noteq> DQUOTE \<and> c \<noteq> CHR ''#'' \<and> c \<noteq> CHR '']'' \<and> c \<noteq> LF \<and> \<not> is_space c"
  by (auto simp: is_digit_def is_space_def byte_def)

lemma plain_value:
  assumes "\<not> needs_quoting v"
  shows "v \<noteq> []" "CHR ''#'' \<notin> set v" "hd v \<noteq> DQUOTE" "trimmed v" "last v \<noteq> CHR '']''"
  using plain_chars(1) [OF assms] plain_char_facts [OF plain_chars(2) [OF assms]]
  by (auto simp: trimmed_def dest: hd_in_set last_in_set)

lemma strip_written: "value_ok v \<Longrightarrow> strip_value (written_value v) = v"
proof (cases "needs_quoting v")
  case True
  assume "value_ok v"
  with True show ?thesis by (simp add: written_value_def value_ok_def strip_value_quoted)
next
  case False
  from plain_value [OF False] have "find_char (CHR ''#'') v = None" "hd v \<noteq> DQUOTE"
    by (auto simp: find_index_None)
  with False show ?thesis by (simp add: written_value_def strip_value_def Let_def)
qed

lemma written_trimmed: "value_ok v \<Longrightarrow> trimmed (written_value v) \<and> written_value v \<noteq> [] \<and>
    last (written_value v) \<noteq> CHR '']''"
  using plain_value [of v] by (auto simp: written_value_def trimmed_def)

lemma entry_line_written: "entry_line (k, v) = k @ '' = '' @ written_value v"
  by (simp add: entry_line_def entry_text_def written_value_def butlast_append)

lemma trim_drop_space: "trimmed w \<Longrightarrow> trim (SPACE # w) = w"
  by (simp add: trim_def strip_front_def) (metis strip_front_def trim_def trim_trimmed)

lemma trim_take_space:
  assumes "trimmed k" "k \<noteq> []"
  shows "trim (k @ [SPACE]) = k"
proof -
  have "strip_front is_space (k @ [SPACE]) = k @ [SPACE]"
    using assms by (intro strip_front_id) (simp add: trimmed_def)
  moreover have "strip_back is_space (k @ [SPACE]) = strip_back is_space k" by (simp add: strip_back_def)
  moreover have "strip_back is_space k = k" using assms by (intro strip_back_id) (simp add: trimmed_def)
  ultimately show ?thesis by (simp add: trim_def)
qed

lemma load_entry_line:
  assumes "key_ok k" and "value_ok v"
  shows "load_line (entry_line (k, v)) (ss, cur) = (with_section cur (section_set k v) ss, cur)"
proof -
  define l where "l = k @ '' = '' @ written_value v"
  have eq: "entry_line (k, v) = l" by (simp add: l_def entry_line_written)
  note w = written_trimmed [OF assms(2)]
  have k: "k \<noteq> []" "\<not> is_space (hd k)" "CHR ''='' \<notin> set k" "hd k \<noteq> CHR ''#''" "trimmed k"
    using assms(1) by (auto simp: key_ok_def trimmed_def)
  have "trimmed l" "l \<noteq> []" "hd l \<noteq> CHR ''#''" "last l \<noteq> CHR '']''"
    using w k by (auto simp: l_def trimmed_def)
  moreover have "find_char (CHR ''='') l = Some (length k + 1)"
    using find_index_skip [of "k @ [SPACE]" "\<lambda>x. x = CHR ''=''" "CHR ''='' # SPACE # written_value v"] k(3)
    by (auto simp: l_def)
  moreover have "trim (take (length k + 1) l) = k" "trim (drop (length k + 2) l) = written_value v"
    using w k trim_take_space [of k] trim_drop_space [of "written_value v"] by (simp_all add: l_def)
  ultimately show ?thesis
    using strip_written [OF assms(2)] eq by (simp add: load_line_def trim_trimmed Let_def)
qed

lemma load_header_line:
  assumes "name_ok n" and "n \<notin> fst ` set ss"
  shows "load_line (''['' @ n @ '']'') (ss, cur) = (ss @ [(n, [])], n)"
proof -
  have "with_section n (\<lambda>s. s) ss = ss @ [(n, [])]"
    using assms(2) by (induction n "\<lambda>s :: toml_section. s" ss rule: with_section.induct) auto
  moreover have "trim (''['' @ n @ '']'') = ''['' @ n @ '']''"
    by (rule trim_trimmed) (simp add: trimmed_def)
  ultimately show ?thesis
    using assms(1) by (simp add: load_line_def name_ok_def trim_trimmed)
qed

lemma section_set_new: "k \<notin> fst ` set es \<Longrightarrow> section_set k v es = es @ [(k, v)]"
  by (induction es) auto

lemma with_section_last:
  "n \<notin> fst ` set ss \<Longrightarrow> with_section n f (ss @ [(n, s)]) = ss @ [(n, f s)]"
  by (induction n f ss rule: with_section.induct) auto

lemma load_entries:
  assumes "section_ok (pre @ es)" and "n \<notin> fst ` set ss"
  shows "fold load_line (map entry_line es) (ss @ [(n, pre)], n) = (ss @ [(n, pre @ es)], n)"
  using assms(1)
proof (induction es arbitrary: pre)
  case (Cons e es)
  obtain k v where e: "e = (k, v)" by (cases e)
  from Cons.prems have "key_ok k" "value_ok v" "k \<notin> fst ` set pre" "section_ok ((pre @ [e]) @ es)"
    by (auto simp: section_ok_def e)
  with Cons.IH [of "pre @ [e]"] show ?case
    using assms(2) by (simp add: e load_entry_line with_section_last section_set_new)
qed simp

text \<open>The first entry of the unnamed section creates it.\<close>

lemma load_unnamed:
  assumes "section_ok es" and "es \<noteq> []"
  shows "fold load_line (map entry_line es) ([], []) = ([([], es)], [])"
proof -
  obtain k v es' where es: "es = (k, v) # es'" using assms(2) by (cases es) auto
  with assms(1) have "load_line (entry_line (k, v)) ([], []) = ([([], [(k, v)])], [])"
    by (simp add: section_ok_def load_entry_line)
  with load_entries [of "[(k, v)]" es' "[]" "[]"] assms(1) show ?thesis by (simp add: es)
qed

lemma load_blank: "load_line [] st = st"
  by (cases st) (simp add: load_line_def trim_def)

lemma load_named:
  assumes "name_ok n" "n \<noteq> []" "n \<notin> fst ` set ss" "section_ok es"
  shows "fold load_line ((''['' @ n @ '']'') # map entry_line es) (ss, cur) = (ss @ [(n, es)], n)"
  using load_header_line [OF assms(1,3)] load_entries [of "[]" es, OF _ assms(3)] assms(4) by simp

lemma load_rest:
  assumes "distinct (map fst (ss @ ds))" "\<forall>ns \<in> set ds. name_ok (fst ns) \<and> section_ok (snd ns) \<and> fst ns \<noteq> []"
  shows "fst (fold load_line (doc_lines False ds) (ss, cur)) = ss @ ds"
  using assms
proof (induction ds arbitrary: ss cur)
  case (Cons d ds)
  obtain n es where d: "d = (n, es)" by (cases d)
  with Cons.prems have "fold load_line ((''['' @ n @ '']'') # map entry_line es) (ss, cur) = (ss @ [d], n)"
    using load_named [of n ss es cur] by auto
  with Cons show ?case by (simp add: d load_blank)
qed simp

lemma load_doc:
  assumes "toml_ok d"
  shows "fst (fold load_line (doc_lines True d) ([], [])) = d"
proof (cases d)
  case (Cons ns ds)
  obtain n es where ns: "ns = (n, es)" by (cases ns)
  have ok: "name_ok n" "section_ok es" "n = [] \<longrightarrow> es \<noteq> []" "distinct (map fst ([ns] @ ds))"
    "\<forall>ns \<in> set ds. name_ok (fst ns) \<and> section_ok (snd ns) \<and> fst ns \<noteq> []"
    using assms by (auto simp: toml_ok_def Cons ns)
  have "\<exists>cur. fold load_line ((if n \<noteq> [] then [''['' @ n @ '']''] else []) @ map entry_line es) ([], []) = ([ns], cur)"
    using load_unnamed [of es] load_named [of n "[]" es "[]"] ok(1-3) by (auto simp: ns)
  then obtain cur where "fold load_line ((if n \<noteq> [] then [''['' @ n @ '']''] else []) @ map entry_line es) ([], []) = ([ns], cur)" ..
  with load_rest [OF ok(4,5), of cur] show ?thesis by (cases "n = []") (simp_all add: Cons ns)
qed simp

lemma doc_lines_one_line:
  assumes "\<forall>ns \<in> set d. name_ok (fst ns) \<and> section_ok (snd ns)"
  shows "\<forall>l \<in> set (doc_lines first d). LF \<notin> set l"
proof -
  have "LF \<notin> set (entry_line (k, v))" if "key_ok k" "value_ok v" for k v
    using that by (auto simp: entry_line_written written_value_def key_ok_def value_ok_def)
  then show ?thesis
    using assms by (induction first d rule: doc_lines.induct) (fastforce simp: section_ok_def name_ok_def)+
qed

section \<open>Properties\<close>



lemma dec_head: "is_digit (hd (dec n))"
  using dec_digits hd_in_set [OF dec_nonempty] .

lemma stoi_dec_sint: "stoi (dec_sint i) = Some (sint i)" for i :: i32
proof -
  have r: "- (2 ^ 31) \<le> sint i" "sint i < 2 ^ 31"
    using sint_greater_eq [of i] sint_less [of i] by simp_all
  have h: "dropWhile is_space (dec n) = dec n" "takeWhile is_digit (dec n) = dec n" for n
    using dec_digits [of _ n] dec_head [of n]
    by (auto simp: takeWhile_eq_all dropWhile_eq_self_iff is_digit_not_space)
  have s: "hd (dec n) \<noteq> CHR ''-''" "hd (dec n) \<noteq> CHR ''+''" for n
    using dec_head [of n] by (auto simp: is_digit_def byte_def)
  show ?thesis using r s by (auto simp: stoi_def dec_int_def Let_def h dropWhile_eq_Nil_conv [symmetric] simp del: dropWhile_eq_Nil_conv)
qed

text \<open>A value set is the value read, its key exists from then on, and every other key keeps its value.\<close>

theorem toml_get_set:
  "get_string (toml_set sec key v d) sec' key' def =
     (if sec' = sec \<and> key' = key then v else get_string d sec' key' def) \<and>
   toml_has (toml_set sec key v d) sec' key' = (sec' = sec \<and> key' = key \<or> toml_has d sec' key')"
  by (auto simp: get_string_def toml_has_def toml_set_def find_with_section section_get_set
      section_has_set split: option.split)

text \<open>An integer or a flag survives being stored as text, whatever the default of the read.\<close>

theorem toml_typed_get_set:
  "get_int (toml_set_int sec key i d) sec key idef = sint i \<and>
   get_bool (toml_set_bool sec key b d) sec key bdef = b"
  by (simp add: get_int_def toml_set_int_def get_bool_def toml_set_bool_def find_with_section
      section_get_set dec_int_def Let_def stoi_dec_sint [unfolded dec_int_def])

end
