(* ===== verification/Ieee_Bounds.thy ===== *)
theory Ieee_Bounds
  imports Ieee
begin

text \<open>
  What rounding guarantees: the binary exponent is right, rounding is monotone and exact on the integers
  below \<open>2 ^ 53\<close>, and no result changes sign. The percentages and rates of the collectors rest on these.
\<close>

section \<open>The exponent\<close>

lemma exp2_of_bounds:
  assumes "0 < x"
  shows "2 powi exp2_of x \<le> x" "x < 2 powi (exp2_of x + 1)"
proof -
  obtain n d where q: "quotient_of x = (n, d)" by (cases "quotient_of x")
  have d: "0 < d" and x: "x = of_int n / of_int d"
    using quotient_of_denom_pos [OF q] quotient_of_div [OF q] by auto
  with assms have n: "0 < n" by (simp add: zero_less_divide_iff)
  define a b where "a = floorlog 2 (nat n)" and "b = floorlog 2 (nat d)"
  have pos: "0 < a" "0 < b" using n d floorlog_eq_zero_iff [of 2] by (auto simp: a_def b_def neq0_conv [symmetric] simp del: neq0_conv)
  have "2 ^ (a - 1) \<le> nat n" "nat n < 2 ^ a" "2 ^ (b - 1) \<le> nat d" "nat d < 2 ^ b"
    using floorlog_bounds [of "nat n" 2] floorlog_bounds [of "nat d" 2] n d by (simp_all add: a_def b_def)
  then have "2 ^ (a - 1) \<le> n" "n < 2 ^ a" "2 ^ (b - 1) \<le> d" "d < 2 ^ b"
    using n d by (simp_all add: le_nat_iff nat_less_iff)
  then have r: "2 ^ (a - 1) \<le> rat_of_int n" "rat_of_int n < 2 ^ a" "2 ^ (b - 1) \<le> rat_of_int d" "rat_of_int d < 2 ^ b"
    by (metis of_int_le_iff of_int_less_iff of_int_numeral of_int_power)+
  have rd: "0 < rat_of_int d" using d by simp
  have "x < 2 ^ a / 2 ^ (b - 1)"
    unfolding x using r rd n by (intro frac_less) auto
  also have "(2::rat) ^ a / 2 ^ (b - 1) = 2 powi (int a - int b + 1)"
    using pos by (simp add: power_int_add power_int_diff power_diff)
  finally have up: "x < 2 powi (int a - int b + 1)" .
  have "(2::rat) ^ (a - 1) / 2 ^ b \<le> x"
    unfolding x using r rd n by (intro frac_le) auto
  moreover have "(2::rat) ^ (a - 1) / 2 ^ b = 2 powi (int a - int b - 1)"
    using pos by (simp add: power_int_add power_int_diff power_diff)
  ultimately have lo: "2 powi (int a - int b - 1) \<le> x" by simp
  show "2 powi exp2_of x \<le> x" "x < 2 powi (exp2_of x + 1)"
    using up lo unfolding exp2_of_def q prod.case Let_def a_def [symmetric] b_def [symmetric]
    by (simp_all split: if_splits)
qed

lemma powi_less_iff: "(2::rat) powi a < 2 powi b \<longleftrightarrow> a < b"
proof
  show "a < b" if "(2::rat) powi a < 2 powi b"
    using that power_int_increasing [of b a "2::rat"] by (cases "b \<le> a") auto
qed (simp add: power_int_strict_increasing)

lemma powi_le_iff: "(2::rat) powi a \<le> 2 powi b \<longleftrightarrow> a \<le> b"
  by (simp add: powi_less_iff flip: not_less)

lemma exp2_of_le: "0 < x \<Longrightarrow> x < 2 powi (k + 1) \<Longrightarrow> exp2_of x \<le> k"
  using exp2_of_bounds(1) [of x] powi_less_iff [of "exp2_of x" "k + 1"] by linarith

lemma exp2_of_ge: "0 < x \<Longrightarrow> 2 powi k \<le> x \<Longrightarrow> k \<le> exp2_of x"
  using exp2_of_bounds(2) [of x] powi_less_iff [of k "exp2_of x + 1"] by linarith

lemma exp2_of_mono: "0 < x \<Longrightarrow> x \<le> y \<Longrightarrow> exp2_of x \<le> exp2_of y"
  using exp2_of_bounds(1) [of x] exp2_of_ge [of y "exp2_of x"] by linarith

section \<open>Rounding to an integer\<close>

lemma round_even_of_int [simp]: "round_even (of_int i) = i"
  by (simp add: round_even_def Let_def)

lemma round_even_mono: "x \<le> y \<Longrightarrow> round_even x \<le> round_even y"
proof -
  assume le: "x \<le> y"
  show ?thesis
  proof (cases "\<lfloor>x\<rfloor> = \<lfloor>y\<rfloor>")
    case True
    then have "x - of_int \<lfloor>x\<rfloor> \<le> y - of_int \<lfloor>y\<rfloor>" using le by simp
    with True show ?thesis unfolding round_even_def Let_def by auto
  next
    case False
    then have "\<lfloor>x\<rfloor> + 1 \<le> \<lfloor>y\<rfloor>" using floor_mono [OF le] by simp
    moreover have "round_even x \<le> \<lfloor>x\<rfloor> + 1" "\<lfloor>y\<rfloor> \<le> round_even y"
      by (auto simp: round_even_def Let_def)
    ultimately show ?thesis by linarith
  qed
qed

lemma round_even_le: "x \<le> of_int i \<Longrightarrow> round_even x \<le> i"
  using round_even_mono [of x "of_int i"] by simp

lemma round_even_ge: "of_int i \<le> x \<Longrightarrow> i \<le> round_even x"
  using round_even_mono [of "of_int i" x] by simp

section \<open>Rounding to a significand\<close>

definition ulp :: "nat \<Rightarrow> int \<Rightarrow> rat \<Rightarrow> rat" where
  "ulp p emin x = 2 powi (max (exp2_of x) emin - int p + 1)"

lemma ulp_pos [simp]: "0 < ulp p emin x"
  by (simp add: ulp_def)

lemma round_pos_ulp: "round_pos p emin x = of_int (round_even (x / ulp p emin x)) * ulp p emin x"
  by (simp add: round_pos_def ulp_def Let_def)

lemma round_pos_exact: "x = of_int i * ulp p emin x \<Longrightarrow> round_pos p emin x = x"
  unfolding round_pos_ulp
  by (metis nonzero_mult_div_cancel_right order_less_irrefl round_even_of_int ulp_pos)

lemma round_pos_nonneg: "0 \<le> x \<Longrightarrow> 0 \<le> round_pos p emin x"
  using round_even_ge [of 0 "x / ulp p emin x"] by (simp add: round_pos_ulp less_imp_le)

lemma powi_split: "(2::rat) powi (e - int p + 1) * 2 ^ p = 2 powi (e + 1)"
  by (simp add: power_int_add power_int_diff)

lemma round_pos_upper:
  assumes "0 < x" "x < 2 powi (e + 1)" "emin \<le> e"
  shows "round_pos p emin x \<le> 2 powi (max (exp2_of x) emin + 1)"
proof -
  let ?e = "max (exp2_of x) emin"
  have "x \<le> 2 powi (?e + 1)"
    using exp2_of_bounds(2) [OF assms(1)] powi_le_iff [of "exp2_of x + 1" "?e + 1"] by (simp; linarith)
  then have "x / ulp p emin x \<le> of_int (2 ^ p)"
    using powi_split [of ?e p] by (simp add: ulp_def pos_divide_le_eq mult.commute)
  from round_even_le [OF this] have "rat_of_int (round_even (x / ulp p emin x)) \<le> 2 ^ p"
    by (metis of_int_le_iff of_int_numeral of_int_power)
  then have "round_pos p emin x \<le> 2 ^ p * ulp p emin x"
    unfolding round_pos_ulp by (intro mult_right_mono) (simp_all add: less_imp_le)
  then show ?thesis using powi_split [of ?e p] by (simp add: ulp_def mult.commute)
qed

lemma round_pos_lower:
  assumes "0 < x" "emin \<le> exp2_of x" "0 < p"
  shows "2 powi exp2_of x \<le> round_pos p emin x"
proof -
  have u: "ulp p emin x = 2 powi (exp2_of x - int p + 1)" using assms(2) by (simp add: ulp_def max_def)
  have s: "2 ^ (p - 1) * ulp p emin x = 2 powi exp2_of x"
    using assms(3) unfolding u by (simp add: power_int_add power_int_diff power_diff)
  then have "of_int (2 ^ (p - 1)) \<le> x / ulp p emin x"
    using exp2_of_bounds(1) [OF assms(1)] by (simp add: pos_le_divide_eq)
  from round_even_ge [OF this] have "2 ^ (p - 1) \<le> rat_of_int (round_even (x / ulp p emin x))"
    by (metis of_int_le_iff of_int_numeral of_int_power)
  then show ?thesis unfolding round_pos_ulp s [symmetric] by (intro mult_right_mono) (simp_all add: less_imp_le)
qed

lemma round_pos_mono:
  assumes "0 < x" "x \<le> y" "0 < p"
  shows "round_pos p emin x \<le> round_pos p emin y"
proof (cases "max (exp2_of x) emin = max (exp2_of y) emin")
  case True
  then have "ulp p emin x = ulp p emin y" by (simp add: ulp_def)
  moreover have "x / ulp p emin y \<le> y / ulp p emin y"
    using assms(2) by (intro divide_right_mono) (simp_all add: less_imp_le)
  ultimately show ?thesis unfolding round_pos_ulp using round_even_mono
    by (auto intro!: mult_right_mono simp: less_imp_le)
next
  case False
  have e: "exp2_of x \<le> exp2_of y" by (rule exp2_of_mono [OF assms(1,2)])
  with False have y: "max (exp2_of x) emin + 1 \<le> exp2_of y" "emin \<le> exp2_of y" by auto
  have "round_pos p emin x \<le> 2 powi (max (exp2_of x) emin + 1)"
    by (rule round_pos_upper [OF assms(1), of "max (exp2_of x) emin"])
      (use exp2_of_bounds(2) [OF assms(1)] powi_le_iff [of "exp2_of x + 1" "max (exp2_of x) emin + 1"] in linarith, simp)
  also have "\<dots> \<le> 2 powi exp2_of y" using y powi_le_iff by blast
  also have "\<dots> \<le> round_pos p emin y" using round_pos_lower y assms by simp
  finally show ?thesis .
qed

section \<open>Doubles\<close>

lemma round_pos_int:
  assumes "0 < n" "n < 2 ^ 53"
  shows "round_pos 53 (- 1022) (of_int n) = of_int n"
proof (rule round_pos_exact)
  have n1: "(1::rat) \<le> of_int n" using assms(1) by simp
  have "(of_int n :: rat) < 2 ^ 53" using assms(2) by (metis of_int_less_iff of_int_numeral of_int_power)
  then have hi: "exp2_of (of_int n) \<le> 52" using assms(1) by (intro exp2_of_le) simp_all
  have lo: "0 \<le> exp2_of (of_int n)" using assms(1) n1 by (intro exp2_of_ge) simp_all
  define e where "e = exp2_of (of_int n)"
  have "ulp 53 (- 1022) (of_int n) = 2 powi (e - 52)" using lo by (simp add: ulp_def e_def max_def)
  moreover have "(2::rat) ^ nat (52 - e) * 2 powi (e - 52) = 1"
    using hi by (simp add: e_def power_int_def flip: power_mult_distrib)
  ultimately show "of_int n = of_int (n * 2 ^ nat (52 - e)) * ulp 53 (- 1022) (of_int n)"
    by (simp add: mult.assoc)
qed

lemma to_dbl_int: "0 \<le> n \<Longrightarrow> n < 2 ^ 53 \<Longrightarrow> to_dbl False (of_int n) = Num (of_int n)"
proof (cases "n = 0")
  case False
  assume n: "0 \<le> n" "n < 2 ^ 53"
  then have "rat_of_int n < 2 ^ 53" by (metis of_int_less_iff of_int_numeral of_int_power)
  then have "rat_of_int n < 2 powi 1024" by (rule order_less_trans) simp
  with False n show ?thesis by (simp add: to_dbl_def fp_round_def round_pos_int Let_def)
qed (simp add: to_dbl_def fp_round_def)

lemma to_dbl_le_int:
  assumes "0 \<le> x" "x \<le> of_int n" "n < 2 ^ 53"
  shows "\<exists>r. to_dbl False x = Num r \<and> 0 \<le> r \<and> r \<le> of_int n"
proof (cases "x = 0")
  case False
  with assms(1) have x: "0 < x" by simp
  with assms(2) have n: "0 < n" using order_less_le_trans by fastforce
  have le: "round_pos 53 (- 1022) x \<le> of_int n"
    using round_pos_mono [OF x assms(2), of 53 "- 1022"] round_pos_int [OF n assms(3)] by simp
  also have "rat_of_int n < 2 ^ 53" using assms(3) by (metis of_int_less_iff of_int_numeral of_int_power)
  also have "(2::rat) ^ 53 < 2 powi 1024" by simp
  finally have "round_pos 53 (- 1022) x < 2 powi 1024" .
  with le x round_pos_nonneg [of x 53 "- 1022"] show ?thesis
    by (auto simp: to_dbl_def fp_round_def Let_def)
next
  case True
  with assms show ?thesis by (auto simp: to_dbl_def fp_round_def)
qed

text \<open>A percentage of counters below \<open>2 ^ 46\<close> stays between 0 and 100.\<close>

lemma percent_bounds:
  assumes "0 \<le> a" "a \<le> b" "0 < b" "b < 2 ^ 46"
  shows "\<exists>r. d_div (d_mul (Num 100) (d_of_int a)) (d_of_int b) = Num r \<and> 0 \<le> r \<and> r \<le> 100"
proof -
  have a: "d_of_int a = Num (of_int a)" and b: "d_of_int b = Num (of_int b)"
    using assms unfolding d_of_int_def by (auto intro!: to_dbl_int)
  have "100 * a < 2 ^ 53" using assms by simp
  then have m: "d_mul (Num 100) (Num (of_int a)) = Num (of_int (100 * a))"
    using assms(1) to_dbl_int [of "100 * a"] by (simp add: fp_mul_def)
  have rb: "0 < rat_of_int b" using assms(3) by simp
  have "rat_of_int (100 * a) / of_int b \<le> of_int 100"
    using assms(2) rb by (simp add: pos_divide_le_eq)
  moreover have "0 \<le> rat_of_int (100 * a) / of_int b" using assms(1) rb by simp
  ultimately obtain r where "to_dbl False (rat_of_int (100 * a) / of_int b) = Num r" "0 \<le> r" "r \<le> of_int 100"
    using to_dbl_le_int [of "rat_of_int (100 * a) / of_int b" 100] by auto
  then show ?thesis unfolding a b m using assms rb by (auto simp: fp_div_def)
qed

section \<open>Signs\<close>

text \<open>Rounding never turns a value negative.\<close>

definition not_negative :: "dbl \<Rightarrow> bool" where
  "not_negative x \<longleftrightarrow> \<not> d_less x (Num 0) \<and> \<not> sign_bit x"

lemma to_dbl_not_negative: "0 \<le> x \<Longrightarrow> not_negative (to_dbl False x)"
  using round_pos_nonneg [of "\<bar>x\<bar>" 53 "1 - 1023"]
  by (auto simp: to_dbl_def fp_round_def not_negative_def Let_def)

lemma not_negative_simps [simp]:
  "not_negative (Num r) = (0 \<le> r)" "not_negative NegZero = False" "not_negative NaN" "not_negative PosInf"
  "not_negative NegInf = False"
  by (auto simp: not_negative_def)

lemma div_not_negative: "not_negative x \<Longrightarrow> not_negative y \<Longrightarrow> not_negative (d_div x y)"
  by (cases x; cases y; simp add: fp_div_def to_dbl_not_negative)

lemma mul_not_negative: "not_negative x \<Longrightarrow> not_negative y \<Longrightarrow> not_negative (d_mul x y)"
  by (cases x; cases y; simp add: fp_mul_def to_dbl_not_negative)

section \<open>Finite values\<close>

lemma d_less_finite: "is_finite a \<Longrightarrow> is_finite b \<Longrightarrow> d_less a b \<longleftrightarrow> dval a < dval b"
  by (cases a; cases b) simp_all

lemma to_dbl_finite:
  assumes "0 \<le> x" "x < 2 ^ 1000"
  shows "\<exists>r. to_dbl False x = Num r \<and> 0 \<le> r \<and> r \<le> 2 ^ 1000"
proof (cases "x = 0")
  case False
  with assms(1) have x: "0 < x" by simp
  have e: "exp2_of x \<le> 999" using assms(2) by (intro exp2_of_le [OF x]) simp
  have "round_pos 53 (- 1022) x \<le> 2 powi (max (exp2_of x) (- 1022) + 1)"
    using assms(2) by (intro round_pos_upper [OF x, of 999]) simp_all
  also have "\<dots> \<le> 2 powi 1000" unfolding powi_le_iff using e by simp
  finally have r: "round_pos 53 (- 1022) x \<le> 2 ^ 1000" by simp
  also have "(2::rat) ^ 1000 < 2 powi 1024" by simp
  finally show ?thesis using r x round_pos_nonneg [of x 53 "- 1022"]
    by (auto simp: to_dbl_def fp_round_def Let_def)
qed (simp add: to_dbl_def fp_round_def)

end
