(* ===== verification/Collectors.thy ===== *)
theory Collectors
  imports Proc_Parse Ieee_Bounds
begin

text \<open>
  The memory, network, disk and filesystem collectors (\<open>src/collectors/MemoryCollector.cpp\<close>,
  \<open>NetCollector.cpp\<close>, \<open>DiskCollector.cpp\<close>, \<open>FsCollector.cpp\<close>): the parse of their \<open>/proc\<close> file, the
  state kept between samples and the rates. A sample takes the contents of its file (\<open>None\<close> when it
  cannot be read), the clock where the code reads it, the collector's state and the old output.
\<close>

section \<open>Shared scans\<close>

abbreviation is_blank2 :: "char \<Rightarrow> bool" where
  "is_blank2 c \<equiv> c = SPACE \<or> c = TAB"

text \<open>The fields between runs of spaces and tabs.\<close>

function blank_tokens :: "string \<Rightarrow> string list" where
  "blank_tokens s =
     (let t = dropWhile is_blank2 s
      in if t = [] then [] else takeWhile (\<lambda>c. \<not> is_blank2 c) t # blank_tokens (dropWhile (\<lambda>c. \<not> is_blank2 c) t))"
  by auto

termination
proof (relation "measure length")
  fix s t :: string
  assume t: "t = dropWhile is_blank2 s" "t \<noteq> []"
  then obtain c u where c: "t = c # u" using list.exhaust by blast
  with t(1) have "\<not> is_blank2 c" using hd_dropWhile [of is_blank2 s] by fastforce
  then have "length (dropWhile (\<lambda>c. \<not> is_blank2 c) t) \<le> length u"
    using c length_dropWhile_le [of "\<lambda>c. \<not> is_blank2 c" u] by simp
  moreover have "length t \<le> length s" using t(1) length_dropWhile_le by metis
  ultimately show "(dropWhile (\<lambda>c. \<not> is_blank2 c) t, s) \<in> measure length" using c by simp
qed simp

declare blank_tokens.simps [simp del]

definition d_of_word :: "'a::len word \<Rightarrow> dbl" where
  "d_of_word w = d_of_int (uint w)"

text \<open>A counter's rate: a backwards counter gives zero.\<close>

definition counter_rate :: "u64 \<Rightarrow> u64 \<Rightarrow> dbl \<Rightarrow> dbl" where
  "counter_rate now prev dt = (if prev \<le> now then d_div (d_of_word (now - prev)) dt else Num 0)"

definition sample_dt :: "dbl \<Rightarrow> dbl \<Rightarrow> dbl" where
  "sample_dt ts prev_ts = (let dt = d_sub ts prev_ts in if d_le dt (Num 0) then Num 1 else dt)"

section \<open>Memory\<close>

definition mem_parse_u64 :: "string \<Rightarrow> u64" where
  "mem_parse_u64 sv =
     word_of_int (from_chars_u 64 (strip_front is_blank2 (strip_back (\<lambda>c. \<not> is_digit c) sv)) 0)"

record MemInfo =
  mi_total :: u64
  mi_free :: u64
  mi_avail :: u64
  mi_buffers :: u64
  mi_cached :: u64
  mi_swap_total :: u64
  mi_swap_free :: u64

definition mem_line :: "string \<Rightarrow> MemInfo \<Rightarrow> MemInfo" where
  "mem_line line m =
     (if starts_with line ''MemTotal:'' then m\<lparr>mi_total := mem_parse_u64 (drop 9 line)\<rparr>
      else if starts_with line ''MemFree:'' then m\<lparr>mi_free := mem_parse_u64 (drop 8 line)\<rparr>
      else if starts_with line ''MemAvailable:'' then m\<lparr>mi_avail := mem_parse_u64 (drop 13 line)\<rparr>
      else if starts_with line ''Buffers:'' then m\<lparr>mi_buffers := mem_parse_u64 (drop 8 line)\<rparr>
      else if starts_with line ''Cached:'' then m\<lparr>mi_cached := mem_parse_u64 (drop 7 line)\<rparr>
      else if starts_with line ''SwapTotal:'' then m\<lparr>mi_swap_total := mem_parse_u64 (drop 10 line)\<rparr>
      else if starts_with line ''SwapFree:'' then m\<lparr>mi_swap_free := mem_parse_u64 (drop 9 line)\<rparr>
      else m)"

definition MemInfo_zero :: MemInfo where
  "MemInfo_zero = \<lparr>mi_total = 0, mi_free = 0, mi_avail = 0, mi_buffers = 0, mi_cached = 0, mi_swap_total = 0,
     mi_swap_free = 0\<rparr>"

definition sat_sub :: "u64 \<Rightarrow> u64 \<Rightarrow> u64" where
  "sat_sub a b = (if b < a then a - b else 0)"

definition mem_sample :: "string option \<Rightarrow> Memory \<Rightarrow> bool \<times> Memory" where
  "mem_sample file out =
     (case file of None \<Rightarrow> (False, out)
      | Some text \<Rightarrow>
        let m = fold mem_line (split_lines text) MemInfo_zero;
            used = (if 0 < mi_avail m then sat_sub (mi_total m) (mi_avail m)
                    else sat_sub (mi_total m) (mi_free m + mi_buffers m + mi_cached m))
        in (True, out\<lparr>mem_total_kb := mi_total m, mem_available_kb := mi_avail m, mem_used_kb := used,
              mem_cached_kb := mi_cached m, mem_buffers_kb := mi_buffers m,
              mem_swap_total_kb := mi_swap_total m, mem_swap_used_kb := sat_sub (mi_swap_total m) (mi_swap_free m),
              mem_used_pct := (if 0 < mi_total m
                then d_div (d_mul (Num 100) (d_of_word used)) (d_of_word (mi_total m)) else Num 0)\<rparr>))"

section \<open>Network\<close>

definition virtual_if :: "string \<Rightarrow> bool" where
  "virtual_if n \<longleftrightarrow> starts_with n ''lo'' \<or> starts_with n ''veth'' \<or> starts_with n ''docker'' \<or>
     starts_with n ''br-'' \<or> starts_with n ''virbr''"

definition net_if :: "dbl \<Rightarrow> (string \<rightharpoonup> NetIf) \<Rightarrow> string \<Rightarrow> u64 \<Rightarrow> u64 \<Rightarrow> NetIf" where
  "net_if ts prev name rx tx =
     (let (rx_bps, tx_bps) =
        (case prev name of None \<Rightarrow> (Num 0, Num 0)
         | Some p \<Rightarrow> let dt = sample_dt ts (if_last_ts p)
             in (counter_rate rx (if_rx_bytes p) dt, counter_rate tx (if_tx_bytes p) dt))
      in \<lparr>if_name = name, if_rx_bytes = rx, if_tx_bytes = tx, if_rx_bps = rx_bps, if_tx_bps = tx_bps,
          if_last_ts = ts\<rparr>)"

definition net_field :: "string list \<Rightarrow> nat \<Rightarrow> u64" where
  "net_field fs i = (if i < length fs then word_of_int (from_chars_u 64 (fs ! i) 0) else 0)"

definition net_line :: "dbl \<Rightarrow> (string \<rightharpoonup> NetIf) \<Rightarrow> string \<Rightarrow> NetIf option" where
  "net_line ts prev line =
     (case find_char (CHR '':'') line of None \<Rightarrow> None
      | Some colon \<Rightarrow>
        let name = strip_front (\<lambda>c. c = SPACE) (take colon line)
        in if virtual_if name then None
           else let fs = take 9 (blank_tokens (drop (colon + 1) line))
                in Some (net_if ts prev name (net_field fs 0) (net_field fs 8)))"

definition net_add :: "NetIf \<Rightarrow> NetSnapshot \<Rightarrow> NetSnapshot" where
  "net_add n out = out\<lparr>net_agg_rx_bps := d_add (net_agg_rx_bps out) (if_rx_bps n),
     net_agg_tx_bps := d_add (net_agg_tx_bps out) (if_tx_bps n), net_interfaces := net_interfaces out @ [n]\<rparr>"

text \<open>\<open>emplace\<close> keeps the first entry of a name.\<close>

definition net_emplace :: "NetIf \<Rightarrow> (string \<rightharpoonup> NetIf) \<Rightarrow> (string \<rightharpoonup> NetIf)" where
  "net_emplace n m = (if m (if_name n) = None then m(if_name n \<mapsto> n) else m)"

definition net_sample :: "string option \<Rightarrow> dbl \<Rightarrow> (string \<rightharpoonup> NetIf) \<Rightarrow> NetSnapshot \<Rightarrow>
    bool \<times> (string \<rightharpoonup> NetIf) \<times> NetSnapshot" where
  "net_sample file ts prev out =
     (case file of None \<Rightarrow> (False, prev, out)
      | Some text \<Rightarrow>
        let ifs = List.map_filter (net_line ts prev) (drop 2 (split_lines text));
            out' = fold net_add ifs (out\<lparr>net_interfaces := [], net_agg_rx_bps := Num 0, net_agg_tx_bps := Num 0\<rparr>)
        in (True, fold net_emplace (net_interfaces out') Map.empty, out'))"

section \<open>Disks\<close>

definition kSectorSize :: u64 where
  "kSectorSize = 512"

record DiskPrev =
  dp_rdsec :: u64
  dp_wrsec :: u64
  dp_tios :: u64
  dp_ts :: dbl

text \<open>The strict parse: the whole token is a number of 64 bits.\<close>

definition full_u64 :: "string \<Rightarrow> u64 option" where
  "full_u64 t = (if t \<noteq> [] \<and> list_all is_digit t \<and> undec t < 2 ^ 64 then Some (word_of_nat (undec t)) else None)"

fun all_some :: "'a option list \<Rightarrow> 'a list option" where
  "all_some [] = Some []"
| "all_some (None # xs) = None"
| "all_some (Some x # xs) = map_option ((#) x) (all_some xs)"

text \<open>A device line: its name and its eleven counters.\<close>

definition disk_fields :: "string \<Rightarrow> (string \<times> u64 list) option" where
  "disk_fields line =
     (let tok = take 14 (blank_tokens line)
      in if length tok < 14 then None
         else if full_u64 (tok ! 0) = None \<or> full_u64 (tok ! 1) = None then None
         else case all_some (map full_u64 (drop 3 tok)) of None \<Rightarrow> None
              | Some nums \<Rightarrow>
                if starts_with (tok ! 2) ''loop'' \<or> starts_with (tok ! 2) ''ram'' then None
                else Some (tok ! 2, nums))"

definition d_min :: "dbl \<Rightarrow> dbl \<Rightarrow> dbl" where
  "d_min a b = (if d_less b a then b else a)"

definition disk_dev :: "dbl \<Rightarrow> DiskPrev option \<Rightarrow> string \<Rightarrow> u64 list \<Rightarrow> DiskDev" where
  "disk_dev ts prev name nums =
     (let rdsec = nums ! 2; wrsec = nums ! 6; tios = nums ! 9
      in case prev of None \<Rightarrow> \<lparr>dd_name = name, dd_read_bps = Num 0, dd_write_bps = Num 0, dd_util_pct = Num 0\<rparr>
         | Some p \<Rightarrow>
           let dt = sample_dt ts (dp_ts p)
           in \<lparr>dd_name = name,
               dd_read_bps = (if dp_rdsec p \<le> rdsec
                 then d_div (d_of_word ((rdsec - dp_rdsec p) * kSectorSize)) dt else Num 0),
               dd_write_bps = (if dp_wrsec p \<le> wrsec
                 then d_div (d_of_word ((wrsec - dp_wrsec p) * kSectorSize)) dt else Num 0),
               dd_util_pct = (if dp_tios p \<le> tios
                 then d_min (Num 100) (d_mul (d_div (d_of_word (tios - dp_tios p)) (d_mul dt (Num 1000))) (Num 100))
                 else Num 0)\<rparr>)"

definition disk_line :: "dbl \<Rightarrow> string \<Rightarrow> (string \<rightharpoonup> DiskPrev) \<times> DiskSnapshot \<Rightarrow> (string \<rightharpoonup> DiskPrev) \<times> DiskSnapshot" where
  "disk_line ts line st =
     (case disk_fields line of None \<Rightarrow> st
      | Some (name, nums) \<Rightarrow>
        let (lst, out) = st; d = disk_dev ts (lst name) name nums;
            out = (if lst name \<noteq> None
                   then out\<lparr>disk_total_read_bps := d_add (disk_total_read_bps out) (dd_read_bps d),
                            disk_total_write_bps := d_add (disk_total_write_bps out) (dd_write_bps d)\<rparr> else out)
        in (lst(name \<mapsto> \<lparr>dp_rdsec = nums ! 2, dp_wrsec = nums ! 6, dp_tios = nums ! 9, dp_ts = ts\<rparr>),
            out\<lparr>disk_devices := disk_devices out @ [d]\<rparr>))"

definition disk_sample :: "string option \<Rightarrow> dbl \<Rightarrow> (string \<rightharpoonup> DiskPrev) \<Rightarrow> DiskSnapshot \<Rightarrow>
    bool \<times> (string \<rightharpoonup> DiskPrev) \<times> DiskSnapshot" where
  "disk_sample file ts lst out =
     (case file of None \<Rightarrow> (False, lst, out)
      | Some text \<Rightarrow> (True, fold (disk_line ts) (split_lines text)
          (lst, out\<lparr>disk_devices := [], disk_total_read_bps := Num 0, disk_total_write_bps := Num 0\<rparr>)))"

section \<open>Files as the kernel writes them\<close>

abbreviation lines_text :: "string list \<Rightarrow> string" where
  "lines_text ls \<equiv> concat (map (\<lambda>l. l @ [LF]) ls)"

lemma split_lines_line:
  "LF \<notin> set l \<Longrightarrow>
     fold (\<lambda>c (cur, ls). if c = LF then ([], ls @ [cur]) else (cur @ [c], ls)) l (cur, ls) = (cur @ l, ls)"
  by (induction l arbitrary: cur) auto

lemma split_lines_fold:
  "\<forall>l \<in> set ls. LF \<notin> set l \<Longrightarrow>
     fold (\<lambda>c (cur, ls). if c = LF then ([], ls @ [cur]) else (cur @ [c], ls)) (lines_text ls) ([], acc) = ([], acc @ ls)"
  by (induction ls arbitrary: acc) (auto simp: split_lines_line)

lemma split_lines_text: "\<forall>l \<in> set ls. LF \<notin> set l \<Longrightarrow> split_lines (lines_text ls) = ls"
  by (simp add: split_lines_def split_lines_fold)

lemma blank_tokens_blanks: "blank_tokens (replicate n SPACE) = []"
  by (subst blank_tokens.simps) simp

lemma blank_tokens_token:
  assumes "t \<noteq> []" "\<forall>c \<in> set t. \<not> is_blank2 c" "s = [] \<or> is_blank2 (hd s)"
  shows "blank_tokens (replicate n SPACE @ t @ s) = t # blank_tokens s"
proof -
  have d: "dropWhile is_blank2 (replicate n SPACE @ t @ s) = t @ s"
    using assms(1,2) by (cases t) (auto simp: dropWhile_append2 dropWhile_append3)
  have "takeWhile (\<lambda>c. \<not> is_blank2 c) (t @ s) = t" "dropWhile (\<lambda>c. \<not> is_blank2 c) (t @ s) = s"
    using assms(2,3) by (cases s; auto simp: takeWhile_append2 dropWhile_append2)+
  with d assms(1) show ?thesis by (subst blank_tokens.simps) (simp add: Let_def)
qed

definition padded :: "(nat \<times> string) list \<Rightarrow> string" where
  "padded fs = concat (map (\<lambda>(n, t). replicate (Suc n) SPACE @ t) fs)"

lemma blank_tokens_padded:
  assumes "\<forall>(n, t) \<in> set fs. t \<noteq> [] \<and> (\<forall>c \<in> set t. \<not> is_blank2 c)"
  shows "blank_tokens (padded fs) = map snd fs"
  using assms
proof (induction fs)
  case Nil
  then show ?case using blank_tokens_blanks [of 0] by (simp add: padded_def)
next
  case (Cons f fs)
  obtain n t where f: "f = (n, t)" by (cases f)
  have "padded fs = [] \<or> is_blank2 (hd (padded fs))" by (cases fs) (auto simp: padded_def)
  with Cons f blank_tokens_token [of t "padded fs" "Suc n"] show ?case
    by (simp add: padded_def)
qed

lemma dec_no_blank: "c \<in> set (dec n) \<Longrightarrow> \<not> is_blank2 c \<and> c \<noteq> LF \<and> c \<noteq> CHR '':''"
  by (auto dest!: dec_digits simp: is_digit_def byte_def)

lemma from_chars_u64: "word_of_int (from_chars_u 64 (dec (unat v)) old) = v" for v :: u64
proof -
  have "unat v < 2 ^ 64" using unsigned_less [where ?'a = nat, of v] by simp
  then show ?thesis by (simp add: from_chars_u_dec)
qed

section \<open>Memory\<close>

definition meminfo_line :: "string \<times> nat \<times> u64 \<Rightarrow> string" where
  "meminfo_line l = (case l of (k, w, v) \<Rightarrow> k @ '':'' @ replicate w SPACE @ dec (unat v) @ '' kB'')"

text \<open>What the file says of a key: its last line's value, zero without one.\<close>

definition meminfo_get :: "string \<Rightarrow> (string \<times> nat \<times> u64) list \<Rightarrow> u64" where
  "meminfo_get k ls = (case map_of (rev ls) k of None \<Rightarrow> 0 | Some (w, v) \<Rightarrow> v)"

lemma key_prefix:
  "CHR '':'' \<notin> set k \<Longrightarrow> CHR '':'' \<notin> set p \<Longrightarrow> prefix (p @ '':'') (k @ CHR '':'' # r) \<longleftrightarrow> p = k"
  by (induction p k rule: list_induct2') auto

lemma mem_parse_field: "mem_parse_u64 (replicate w SPACE @ dec (unat v) @ '' kB'') = v"
proof -
  obtain ds d where d: "dec (unat v) = ds @ [d]" by (cases "dec (unat v)" rule: rev_cases) simp_all
  have "is_digit d" using dec_digits [of d "unat v"] d by simp
  then have "strip_back (\<lambda>c. \<not> is_digit c) (replicate w SPACE @ dec (unat v) @ '' kB'') = replicate w SPACE @ dec (unat v)"
    unfolding d by (simp add: strip_back_def is_digit_def byte_def)
  moreover have "strip_front is_blank2 (replicate w SPACE @ dec (unat v)) = dec (unat v)"
    using dec_no_blank [of "hd (dec (unat v))" "unat v"]
    by (cases "dec (unat v)") (simp_all add: strip_front_def dropWhile_append3 dropWhile_append2)
  ultimately show ?thesis by (simp add: mem_parse_u64_def from_chars_u64)
qed

lemma starts_with_key:
  assumes "CHR '':'' \<notin> set k" "CHR '':'' \<notin> set p"
  shows "starts_with (meminfo_line (k, w, v)) (p @ '':'') \<longleftrightarrow> p = k"
  using key_prefix [OF assms] by (simp add: starts_with_def meminfo_line_def)

lemma mem_line_field:
  assumes "CHR '':'' \<notin> set k"
  shows "mem_line (meminfo_line (k, w, v)) m =
     (if k = ''MemTotal'' then m\<lparr>mi_total := v\<rparr> else if k = ''MemFree'' then m\<lparr>mi_free := v\<rparr>
      else if k = ''MemAvailable'' then m\<lparr>mi_avail := v\<rparr> else if k = ''Buffers'' then m\<lparr>mi_buffers := v\<rparr>
      else if k = ''Cached'' then m\<lparr>mi_cached := v\<rparr> else if k = ''SwapTotal'' then m\<lparr>mi_swap_total := v\<rparr>
      else if k = ''SwapFree'' then m\<lparr>mi_swap_free := v\<rparr> else m)"
proof -
  note sw = starts_with_key [OF assms]
  have sws: "starts_with (meminfo_line (k, w, v)) ''MemTotal:'' \<longleftrightarrow> k = ''MemTotal''"
    "starts_with (meminfo_line (k, w, v)) ''MemFree:'' \<longleftrightarrow> k = ''MemFree''"
    "starts_with (meminfo_line (k, w, v)) ''MemAvailable:'' \<longleftrightarrow> k = ''MemAvailable''"
    "starts_with (meminfo_line (k, w, v)) ''Buffers:'' \<longleftrightarrow> k = ''Buffers''"
    "starts_with (meminfo_line (k, w, v)) ''Cached:'' \<longleftrightarrow> k = ''Cached''"
    "starts_with (meminfo_line (k, w, v)) ''SwapTotal:'' \<longleftrightarrow> k = ''SwapTotal''"
    "starts_with (meminfo_line (k, w, v)) ''SwapFree:'' \<longleftrightarrow> k = ''SwapFree''"
    using sw [of "''MemTotal''"] sw [of "''MemFree''"] sw [of "''MemAvailable''"] sw [of "''Buffers''"]
      sw [of "''Cached''"] sw [of "''SwapTotal''"] sw [of "''SwapFree''"] by auto
  have field: "mem_parse_u64 (drop n (meminfo_line (k, w, v))) = v" if "n = Suc (length k)" for n
    using mem_parse_field [of w v] that by (simp add: meminfo_line_def)
  have "k = ''MemTotal'' \<Longrightarrow> mem_parse_u64 (drop 9 (meminfo_line (k, w, v))) = v"
    "k = ''MemFree'' \<Longrightarrow> mem_parse_u64 (drop 8 (meminfo_line (k, w, v))) = v"
    "k = ''MemAvailable'' \<Longrightarrow> mem_parse_u64 (drop 13 (meminfo_line (k, w, v))) = v"
    "k = ''Buffers'' \<Longrightarrow> mem_parse_u64 (drop 8 (meminfo_line (k, w, v))) = v"
    "k = ''Cached'' \<Longrightarrow> mem_parse_u64 (drop 7 (meminfo_line (k, w, v))) = v"
    "k = ''SwapTotal'' \<Longrightarrow> mem_parse_u64 (drop 10 (meminfo_line (k, w, v))) = v"
    "k = ''SwapFree'' \<Longrightarrow> mem_parse_u64 (drop 9 (meminfo_line (k, w, v))) = v"
    by (rule field, simp)+
  with sws show ?thesis unfolding mem_line_def by (simp cong: if_cong)
qed

lemma mem_fold:
  assumes "\<forall>l \<in> set ls. CHR '':'' \<notin> set (fst l)"
  shows "fold mem_line (map meminfo_line ls) MemInfo_zero =
    \<lparr>mi_total = meminfo_get ''MemTotal'' ls, mi_free = meminfo_get ''MemFree'' ls,
     mi_avail = meminfo_get ''MemAvailable'' ls, mi_buffers = meminfo_get ''Buffers'' ls,
     mi_cached = meminfo_get ''Cached'' ls, mi_swap_total = meminfo_get ''SwapTotal'' ls,
     mi_swap_free = meminfo_get ''SwapFree'' ls\<rparr>"
  using assms
proof (induction ls rule: rev_induct)
  case Nil
  show ?case by (simp add: MemInfo_zero_def meminfo_get_def)
next
  case (snoc l ls)
  obtain k w v where l: "l = (k, w, v)" by (cases l) auto
  have g: "meminfo_get q (ls @ [l]) = (if q = k then v else meminfo_get q ls)" for q
    by (simp add: meminfo_get_def l)
  from snoc show ?case unfolding g by (simp add: l mem_line_field)
qed

section \<open>Network and disks\<close>

definition net_dev_line :: "nat \<times> string \<times> (nat \<times> u64) list \<Rightarrow> string" where
  "net_dev_line d = (case d of (pad, name, cs) \<Rightarrow>
     replicate pad SPACE @ name @ '':'' @ padded (map (\<lambda>(n, v). (n, dec (unat v))) cs))"

text \<open>A device as \<open>/proc/net/dev\<close> prints it: a name without blanks or a colon, at least nine counters.\<close>

definition net_dev_ok :: "nat \<times> string \<times> (nat \<times> u64) list \<Rightarrow> bool" where
  "net_dev_ok d \<longleftrightarrow> (case d of (pad, name, cs) \<Rightarrow>
     name \<noteq> [] \<and> (\<forall>c \<in> set name. c \<noteq> SPACE \<and> c \<noteq> LF \<and> c \<noteq> CHR '':'') \<and> 9 \<le> length cs)"

lemma padded_dec_chars: "c \<in> set (padded (map (\<lambda>(n, v). (n, dec (unat v))) cs)) \<Longrightarrow> c = SPACE \<or> is_digit c"
  for cs :: "(nat \<times> u64) list"
  by (auto simp: padded_def dest: dec_digits)

lemma net_line_dev:
  assumes "net_dev_ok (pad, name, cs)"
  shows "net_line ts prev (net_dev_line (pad, name, cs)) =
    (if virtual_if name then None else Some (net_if ts prev name (snd (cs ! 0)) (snd (cs ! 8))))"
proof -
  let ?fs = "map (\<lambda>(n, v). (n, dec (unat v))) cs"
  have n: "name \<noteq> []" "\<forall>c \<in> set name. c \<noteq> SPACE \<and> c \<noteq> CHR '':''" "9 \<le> length cs"
    using assms by (auto simp: net_dev_ok_def)
  have colon: "find_char (CHR '':'') (net_dev_line (pad, name, cs)) = Some (pad + length name)"
    using n(2) find_char_skip [of "CHR '':''" "replicate pad SPACE @ name" "'':'' @ padded ?fs"]
    by (auto simp: net_dev_line_def)
  have strip: "strip_front (\<lambda>c. c = SPACE) (replicate pad SPACE @ name) = name"
    using n(1,2) by (cases name) (auto simp: strip_front_def dropWhile_append3)
  have toks: "take 9 (blank_tokens (padded ?fs)) = map (\<lambda>(n, v). dec (unat v)) (take 9 cs)"
    by (subst blank_tokens_padded) (auto simp: take_map dest: dec_no_blank)
  have fld: "net_field (map (\<lambda>(n, v). dec (unat v)) (take 9 cs)) i = snd (cs ! i)" if "i < 9" for i
    using n(3) that by (simp add: net_field_def split_beta from_chars_u64)
  show ?thesis
    unfolding net_line_def colon using strip toks fld by (simp add: net_dev_line_def Let_def)
qed

lemma net_adds: "net_interfaces (fold net_add ifs out) = net_interfaces out @ ifs"
  by (induction ifs arbitrary: out) (simp_all add: net_add_def)

section \<open>Rates\<close>

lemma word_not_negative: "not_negative (d_of_word w)"
  unfolding d_of_word_def d_of_int_def by (rule to_dbl_not_negative) (metis of_int_0_le_iff unsigned_greater_eq)

lemma sample_dt_not_negative: "not_negative (sample_dt ts prev)"
proof (cases "d_le (d_sub ts prev) (Num 0)")
  case True
  then show ?thesis by (simp add: sample_dt_def not_negative_def)
next
  case False
  then show ?thesis by (cases "d_sub ts prev") (auto simp: sample_dt_def not_negative_def d_le_def d_eq_def)
qed

lemmas not_negative_intros = div_not_negative mul_not_negative word_not_negative sample_dt_not_negative

lemma counter_rate_not_negative: "not_negative dt \<Longrightarrow> not_negative (counter_rate a b dt)"
  by (simp add: counter_rate_def div_not_negative word_not_negative)

lemma net_if_rates: "not_negative (if_rx_bps (net_if ts prev n rx tx)) \<and> not_negative (if_tx_bps (net_if ts prev n rx tx))"
  by (auto simp: net_if_def Let_def counter_rate_not_negative sample_dt_not_negative split: option.split)

lemma d_min_le: "d_le (d_min (Num c) x) (Num c)"
  by (cases x) (auto simp: d_min_def d_le_def d_eq_def)

lemma d_min_not_negative: "0 \<le> c \<Longrightarrow> not_negative x \<Longrightarrow> not_negative (d_min (Num c) x)"
  by (simp add: d_min_def)

lemma disk_dev_rates:
  "not_negative (dd_read_bps (disk_dev ts p n nums)) \<and> not_negative (dd_write_bps (disk_dev ts p n nums)) \<and>
   not_negative (dd_util_pct (disk_dev ts p n nums)) \<and> d_le (dd_util_pct (disk_dev ts p n nums)) (Num 100)"
proof -
  have "d_le (Num 0) (Num 100)" by (simp add: d_le_def)
  then show ?thesis
    by (auto simp: disk_dev_def Let_def d_min_le intro!: d_min_not_negative not_negative_intros split: option.split)
qed

lemma disk_line_devices:
  "(\<forall>d \<in> set (disk_devices (snd st)). P d) \<Longrightarrow> (\<And>p n nums. P (disk_dev ts p n nums)) \<Longrightarrow>
     \<forall>d \<in> set (disk_devices (snd (disk_line ts line st))). P d"
  by (auto simp: disk_line_def Let_def split: option.split prod.splits)

lemma net_line_rates:
  "net_line ts prev l = Some i \<Longrightarrow> not_negative (if_rx_bps i) \<and> not_negative (if_tx_bps i)"
  using net_if_rates by (auto simp: net_line_def Let_def split: option.splits if_splits)

section \<open>Properties\<close>



text \<open>C26: the network sample of a \<open>/proc/net/dev\<close> as the kernel lays it out lists exactly the interfaces that
  are not virtual, in the file's order, each with its received and sent byte counters and the rates
  against the previous sample; what it keeps for the next one is this list.\<close>

theorem net_sample_kernel:
  assumes "LF \<notin> set h1" and "LF \<notin> set h2" and "\<forall>d \<in> set devs. net_dev_ok d"
    and "net_sample (Some (lines_text (h1 # h2 # map net_dev_line devs))) ts prev out = (ok, prev', out')"
  shows "ok \<and> net_interfaces out' = map (\<lambda>(pad, name, cs). net_if ts prev name (snd (cs ! 0)) (snd (cs ! 8)))
      (filter (\<lambda>(pad, name, cs). \<not> virtual_if name) devs) \<and>
    prev' = fold net_emplace (net_interfaces out') Map.empty"
proof -
  have "LF \<notin> set (net_dev_line d)" if "d \<in> set devs" for d
  proof -
    obtain pad name cs where d: "d = (pad, name, cs)" by (rule prod_cases3)
    then have "\<forall>c \<in> set name. c \<noteq> LF" using bspec [OF assms(3) that] by (simp add: net_dev_ok_def)
    moreover have "LF \<notin> set (padded (map (\<lambda>(n, v). (n, dec (unat v))) cs))"
      using padded_dec_chars [of LF cs] by (auto simp: is_digit_def byte_def)
    ultimately show ?thesis by (auto simp: d net_dev_line_def)
  qed
  then have s: "split_lines (lines_text (h1 # h2 # map net_dev_line devs)) = h1 # h2 # map net_dev_line devs"
    using assms(1,2) by (intro split_lines_text) auto
  have "List.map_filter (net_line ts prev) (map net_dev_line devs) =
      map (\<lambda>(pad, name, cs). net_if ts prev name (snd (cs ! 0)) (snd (cs ! 8)))
        (filter (\<lambda>(pad, name, cs). \<not> virtual_if name) devs)"
    using assms(3)
  proof (induction devs)
    case (Cons d devs)
    obtain pad name cs where "d = (pad, name, cs)" by (rule prod_cases3)
    with Cons net_line_dev [of pad name cs ts prev] show ?case by (simp add: List.map_filter_simps)
  qed (simp add: List.map_filter_simps)
  moreover have "ok" "prev' = fold net_emplace (net_interfaces out') Map.empty"
    "net_interfaces out' = List.map_filter (net_line ts prev) (map net_dev_line devs)"
    using assms(4) unfolding net_sample_def option.case s by (auto simp: net_adds Let_def)
  ultimately show ?thesis by (simp only: simp_thms)
qed

theorem net_sample_kernel_witness:
  "net_interfaces (snd (snd (net_sample (Some (lines_text (''Inter-'' # '' face'' #
      map net_dev_line [(2, ''lo'', replicate 16 (0, 7)), (0, ''eth0'', (1, 5) # replicate 15 (0, 9))])))
      (Num 1) Map.empty empty_NetSnapshot))) = [net_if (Num 1) Map.empty ''eth0'' 5 9]"
proof -
  let ?devs = "[(2, ''lo'', replicate 16 (0, 7)), (0, ''eth0'', (1, 5) # replicate 15 (0, 9))]"
  obtain ok prev' out' where r: "net_sample (Some (lines_text (''Inter-'' # '' face'' # map net_dev_line ?devs))) (Num 1)
      Map.empty empty_NetSnapshot = (ok, prev', out')" by (rule prod_cases3)
  from net_sample_kernel [OF _ _ _ r] show ?thesis
    unfolding r by (simp add: net_dev_ok_def virtual_if_def starts_with_def)
qed

text \<open>Whatever the files contain, whatever the counters and the clock did since the last sample, no rate of
  a network or disk sample is negative and no disk is busier than a hundred percent.\<close>

theorem collector_rates_bounded:
  assumes "net_sample nfile ts nprev nout = (True, nprev', n)" and "disk_sample dfile ts dprev dout = (True, dprev', d)"
  shows "(\<forall>i \<in> set (net_interfaces n). not_negative (if_rx_bps i) \<and> not_negative (if_tx_bps i)) \<and>
    (\<forall>v \<in> set (disk_devices d). not_negative (dd_read_bps v) \<and> not_negative (dd_write_bps v) \<and>
       not_negative (dd_util_pct v) \<and> d_le (dd_util_pct v) (Num 100))"
proof
  have "\<forall>i \<in> set (List.map_filter (net_line ts nprev) ls). not_negative (if_rx_bps i) \<and> not_negative (if_tx_bps i)" for ls
    by (induction ls) (auto simp: List.map_filter_simps split: option.split dest: net_line_rates)
  with assms(1) show "\<forall>i \<in> set (net_interfaces n). not_negative (if_rx_bps i) \<and> not_negative (if_tx_bps i)"
    by (auto simp: net_sample_def Let_def net_adds split: option.splits)
  let ?P = "\<lambda>v. not_negative (dd_read_bps v) \<and> not_negative (dd_write_bps v) \<and> not_negative (dd_util_pct v) \<and>
    d_le (dd_util_pct v) (Num 100)"
  obtain body where t: "dfile = Some body" using assms(2) by (cases dfile) (auto simp: disk_sample_def)
  let ?st = "fold (disk_line ts) (split_lines body)
    (dprev, dout\<lparr>disk_devices := [], disk_total_read_bps := Num 0, disk_total_write_bps := Num 0\<rparr>)"
  have "\<forall>v \<in> set (disk_devices (snd ?st)). ?P v"
    by (rule fold_invariant) (simp, rule disk_line_devices, simp, rule disk_dev_rates)
  moreover have "?st = (dprev', d)" using assms(2) unfolding disk_sample_def t option.case by blast
  ultimately show "\<forall>v \<in> set (disk_devices d). ?P v" by (simp only: snd_conv)
qed

theorem collector_rates_bounded_witness:
  "disk_sample (Some ''8 0 sda 1 2 3 4 5 6 7 8 9 10 11'') (Num 2) Map.empty empty_DiskSnapshot =
    (True, [''sda'' \<mapsto> \<lparr>dp_rdsec = 3, dp_wrsec = 7, dp_tios = 10, dp_ts = Num 2\<rparr>],
     empty_DiskSnapshot\<lparr>disk_devices := [disk_dev (Num 2) None ''sda'' [1, 2, 3, 4, 5, 6, 7, 8, 9, 10, 11]]\<rparr>) \<and>
   not_negative (dd_read_bps (disk_dev (Num 2) None ''sda'' [1, 2, 3, 4, 5, 6, 7, 8, 9, 10, 11]))"
proof -
  have d: "disk_sample (Some ''8 0 sda 1 2 3 4 5 6 7 8 9 10 11'') (Num 2) Map.empty empty_DiskSnapshot =
    (True, [''sda'' \<mapsto> \<lparr>dp_rdsec = 3, dp_wrsec = 7, dp_tios = 10, dp_ts = Num 2\<rparr>],
     empty_DiskSnapshot\<lparr>disk_devices := [disk_dev (Num 2) None ''sda'' [1, 2, 3, 4, 5, 6, 7, 8, 9, 10, 11]]\<rparr>)"
    by (simp add: disk_sample_def split_lines_def disk_line_def disk_fields_def blank_tokens.simps
        full_u64_def is_digit_def byte_def undec_def digit_val_def starts_with_def empty_DiskSnapshot_def Let_def)
  have n: "net_sample (Some []) (Num 2) Map.empty empty_NetSnapshot = (True, Map.empty, empty_NetSnapshot)"
    by (simp add: net_sample_def split_lines_def List.map_filter_simps empty_NetSnapshot_def)
  from collector_rates_bounded [OF n d] d show ?thesis by simp
qed

end
