(* ===== verification/Sublimation_Base.thy ===== *)
theory Sublimation_Base
  imports Prelude "HOL-Library.Multiset"
begin

text \<open>
  Arrays and stable sorting for the models of \<open>sublimation/\<close>: a C array is a list, \<open>blit\<close> is what
  \<open>memcpy\<close> and \<open>memmove\<close> leave in it, and the reference every routine is compared with is the library's
  stable \<^const>\<open>sort_key\<close>.
\<close>

section \<open>Arrays\<close>

definition segment :: "nat \<Rightarrow> nat \<Rightarrow> 'a list \<Rightarrow> 'a list" where
  "segment i n xs = take n (drop i xs)"

definition blit :: "'a list \<Rightarrow> nat \<Rightarrow> 'a list \<Rightarrow> 'a list" where
  "blit xs d ys = take d xs @ ys @ drop (d + length ys) xs"

lemma length_segment [simp]: "length (segment i n xs) = min n (length xs - i)"
  by (simp add: segment_def)

lemma length_blit: "d + length ys \<le> length xs \<Longrightarrow> length (blit xs d ys) = length xs"
  by (simp add: blit_def)

lemma segment_append: "length p = i \<Longrightarrow> length s = n \<Longrightarrow> segment i n (p @ s @ q) = s"
  by (simp add: segment_def)

lemma blit_append: "length p = d \<Longrightarrow> length h = length ys \<Longrightarrow> blit (p @ h @ q) d ys = p @ ys @ q"
  by (simp add: blit_def)

lemma list_update_blit: "d < length xs \<Longrightarrow> xs[d := v] = blit xs d [v]"
  by (simp add: blit_def upd_conv_take_nth_drop)

lemma segment_parts: "i + n \<le> length xs \<Longrightarrow> xs = take i xs @ segment i n xs @ drop (i + n) xs"
  by (metis add.commute append_take_drop_id drop_drop segment_def)

lemma segment_split: "segment i (m + n) xs = segment i m xs @ segment (i + m) n xs"
  by (simp add: segment_def take_add add.commute)

lemma blit_before: "d + length ys \<le> length xs \<Longrightarrow> i + n \<le> d \<Longrightarrow> segment i n (blit xs d ys) = segment i n xs"
  by (simp add: segment_def blit_def take_drop)

lemma blit_after: "d + length ys \<le> length xs \<Longrightarrow> d + length ys \<le> i \<Longrightarrow> segment i n (blit xs d ys) = segment i n xs"
  by (simp add: segment_def blit_def)

lemma segment_blit: "d + length ys \<le> length xs \<Longrightarrow> segment d (length ys) (blit xs d ys) = ys"
  by (simp add: segment_def blit_def)

section \<open>Stable permutations\<close>

text \<open>Each key's elements appear in the same order.\<close>

definition stable :: "('a \<Rightarrow> 'k) \<Rightarrow> 'a list \<Rightarrow> 'a list \<Rightarrow> bool" where
  "stable key xs ys \<longleftrightarrow> (\<forall>k. filter (\<lambda>x. key x = k) ys = filter (\<lambda>x. key x = k) xs)"

lemma stable_refl [simp]: "stable key xs xs"
  by (simp add: stable_def)

lemma stable_trans: "stable key xs ys \<Longrightarrow> stable key ys zs \<Longrightarrow> stable key xs zs"
  by (simp add: stable_def)

lemma stable_sym: "stable key xs ys \<Longrightarrow> stable key ys xs"
  by (simp add: stable_def)

lemma stable_append: "stable key xs ys \<Longrightarrow> stable key us vs \<Longrightarrow> stable key (xs @ us) (ys @ vs)"
  by (simp add: stable_def)

lemma stable_mset: "stable key xs ys \<Longrightarrow> mset ys = mset xs"
proof (rule multiset_eqI)
  fix x assume "stable key xs ys"
  then have "count (mset (filter (\<lambda>y. key y = key x) ys)) x = count (mset (filter (\<lambda>y. key y = key x) xs)) x"
    by (simp add: stable_def)
  then show "count (mset ys) x = count (mset xs) x" by simp
qed

lemma stable_length: "stable key xs ys \<Longrightarrow> length ys = length xs"
  by (metis size_mset stable_mset)

lemma stable_set: "stable key xs ys \<Longrightarrow> set ys = set xs"
  by (metis set_mset_mset stable_mset)

lemma stable_sort_key: "stable key xs (sort_key key xs)"
  by (simp add: stable_def sort_key_stable)

text \<open>A sorted stable permutation is the stable sort.\<close>

lemma sorted_stable_unique:
  assumes "stable key xs ys" "sorted (map key ys)"
  shows "sort_key key xs = ys"
proof (rule properties_for_sort_key)
  show "mset ys = mset xs" by (rule stable_mset [OF assms(1)])
  show "filter (\<lambda>x. key k = key x) ys = filter (\<lambda>x. key k = key x) xs" for k
    using assms(1) unfolding stable_def by (metis (mono_tags, lifting) filter_cong)
  show "sorted (map key ys)" by (rule assms(2))
qed

lemma stable_sort_eq: "stable key xs ys \<Longrightarrow> sort_key key ys = sort_key key xs"
  by (rule sym, rule sorted_stable_unique) (auto intro: stable_trans stable_sort_key)

text \<open>Two blocks with no key in common may change places.\<close>

lemma stable_swap:
  assumes "\<And>x y. x \<in> set us \<Longrightarrow> y \<in> set vs \<Longrightarrow> key x \<noteq> key y"
  shows "stable key (us @ vs) (vs @ us)"
proof -
  have "filter (\<lambda>x. key x = k) us = [] \<or> filter (\<lambda>x. key x = k) vs = []" for k
    using assms by (auto simp: filter_empty_conv)
  then show ?thesis unfolding stable_def by (metis append_Nil append_Nil2 filter_append)
qed

section \<open>Steps of a merge\<close>

text \<open>\<open>sorted_by\<close> is sortedness of the keys; a merge of two sorted runs may emit a block from either end.\<close>

abbreviation sorted_by :: "('a \<Rightarrow> 'k::linorder) \<Rightarrow> 'a list \<Rightarrow> bool" where
  "sorted_by key xs \<equiv> sorted (map key xs)"

lemma sorted_by_append:
  "sorted_by key (xs @ ys) \<longleftrightarrow> sorted_by key xs \<and> sorted_by key ys \<and> (\<forall>x \<in> set xs. \<forall>y \<in> set ys. key x \<le> key y)"
  by (auto simp: sorted_append)

lemma sort_key_sorted_by [simp]: "sorted_by key (sort_key key xs)"
  by simp

lemma merge_take_left:
  assumes "sorted_by key (l1 @ l2)" "\<forall>a \<in> set l1. \<forall>b \<in> set r. key a \<le> key b"
  shows "sort_key key (l1 @ l2 @ r) = l1 @ sort_key key (l2 @ r)"
  by (rule sorted_stable_unique)
    (use assms in \<open>auto simp: sorted_append intro!: stable_append stable_sort_key\<close>)

lemma merge_take_right:
  assumes "sorted_by key (r1 @ r2)" "\<forall>a \<in> set r1. \<forall>b \<in> set l. key a < key b"
  shows "sort_key key (l @ r1 @ r2) = r1 @ sort_key key (l @ r2)"
proof (rule sorted_stable_unique)
  have "stable key ((l @ r1) @ r2) ((r1 @ l) @ r2)"
    using assms(2) by (intro stable_append stable_swap stable_refl) force
  moreover have "stable key (r1 @ (l @ r2)) (r1 @ sort_key key (l @ r2))"
    by (intro stable_append stable_sort_key stable_refl)
  ultimately show "stable key (l @ r1 @ r2) (r1 @ sort_key key (l @ r2))"
    using stable_trans by (metis append.assoc)
  show "sorted_by key (r1 @ sort_key key (l @ r2))"
    using assms by (auto simp: sorted_append less_imp_le)
qed

lemma merge_drop_left:
  assumes "sorted_by key (l1 @ l2)" "\<forall>a \<in> set l2. \<forall>b \<in> set r. key b < key a"
  shows "sort_key key ((l1 @ l2) @ r) = sort_key key (l1 @ r) @ l2"
proof (rule sorted_stable_unique)
  have "stable key (l1 @ (l2 @ r)) (l1 @ (r @ l2))"
    using assms(2) by (intro stable_append stable_swap stable_refl) force
  moreover have "stable key ((l1 @ r) @ l2) (sort_key key (l1 @ r) @ l2)"
    by (intro stable_append stable_sort_key stable_refl)
  ultimately show "stable key ((l1 @ l2) @ r) (sort_key key (l1 @ r) @ l2)"
    using stable_trans by (metis append.assoc)
  show "sorted_by key (sort_key key (l1 @ r) @ l2)"
    using assms by (auto simp: sorted_append less_imp_le)
qed

lemma merge_drop_right:
  assumes "sorted_by key (r1 @ r2)" "\<forall>a \<in> set r2. \<forall>b \<in> set l. key b \<le> key a"
  shows "sort_key key (l @ r1 @ r2) = sort_key key (l @ r1) @ r2"
proof (rule sorted_stable_unique)
  have "stable key ((l @ r1) @ r2) (sort_key key (l @ r1) @ r2)"
    by (intro stable_append stable_sort_key stable_refl)
  then show "stable key (l @ r1 @ r2) (sort_key key (l @ r1) @ r2)" by simp
  show "sorted_by key (sort_key key (l @ r1) @ r2)"
    using assms by (auto simp: sorted_append)
qed

text \<open>Sorting a part of an array is a stable permutation of the whole.\<close>

lemma stable_blit:
  assumes "d + length ys \<le> length xs" "stable key (segment d (length ys) xs) ys"
  shows "stable key xs (blit xs d ys)"
proof -
  have "stable key (take d xs @ segment d (length ys) xs @ drop (d + length ys) xs) (blit xs d ys)"
    unfolding blit_def by (intro stable_append stable_refl assms(2))
  then show ?thesis using segment_parts [OF assms(1)] by simp
qed

end
