(* ===== verification/Sublimation_Radix.thy ===== *)
theory Sublimation_Radix
  imports Sublimation_Base
begin

unbundle bit_operations_syntax

text \<open>
  The least-significant-digit radix sort that carries an index with each key
  (\<open>sub_radix_pairs64\<close> of \<open>sublimation/src/pack.c\<close>): one counting pass per key byte between two halves of
  a scratch buffer, passes over a constant byte skipped. Each pass is the stable sort by its byte, so
  the eight together are the stable sort by the key.
\<close>

section \<open>The passes\<close>

record pack64_slot =
  slot_key :: u64
  slot_idx :: u32

definition key_byte :: "nat \<Rightarrow> u64 \<Rightarrow> nat" where
  "key_byte pass k = unat (drop_bit (pass * 8) k AND 0xFF)"

definition histogram :: "('a \<Rightarrow> nat) \<Rightarrow> 'a list \<Rightarrow> nat list" where
  "histogram dg a = fold (\<lambda>x cnt. cnt[dg x := cnt ! dg x + 1]) a (replicate 256 0)"

text \<open>The running sum: each counter becomes the position of its first element.\<close>

fun offsets :: "nat \<Rightarrow> nat list \<Rightarrow> nat list" where
  "offsets acc [] = []"
| "offsets acc (c # cs) = acc # offsets (acc + c) cs"

fun scatter :: "('a \<Rightarrow> nat) \<Rightarrow> 'a list \<Rightarrow> 'a list \<times> nat list \<Rightarrow> 'a list \<times> nat list" where
  "scatter dg [] (b, cnt) = (b, cnt)"
| "scatter dg (x # xs) (b, cnt) = scatter dg xs (b[cnt ! dg x := x], cnt[dg x := cnt ! dg x + 1])"

text \<open>\<open>flipped\<close> says that the half now called \<open>a\<close> is not the one the caller passed as \<open>a\<close>.\<close>

definition radix_pass :: "('a \<Rightarrow> nat) \<Rightarrow> 'a list \<times> 'a list \<times> bool \<Rightarrow> 'a list \<times> 'a list \<times> bool" where
  "radix_pass dg = (\<lambda>(a, b, flipped).
     let cnt = histogram dg a in
     if cnt ! dg (a ! 0) = length a then (a, b, flipped)
     else (fst (scatter dg a (b, offsets 0 cnt)), a, \<not> flipped))"

definition sub_radix_pairs64 :: "pack64_slot list \<Rightarrow> pack64_slot list \<Rightarrow> pack64_slot list" where
  "sub_radix_pairs64 a b =
     (if length a = 0 then a
      else case fold (\<lambda>pass. radix_pass (\<lambda>s. key_byte pass (slot_key s))) [0..<8] (a, b, False) of
        (a', b', flipped) \<Rightarrow> if flipped then blit b' 0 a' else a')"

section \<open>Counting\<close>

abbreviation occs :: "('a \<Rightarrow> nat) \<Rightarrow> nat \<Rightarrow> 'a list \<Rightarrow> nat" where
  "occs dg d xs \<equiv> length (filter (\<lambda>x. dg x = d) xs)"

lemma histogram_from:
  assumes "\<forall>x \<in> set a. dg x < length c"
  shows "length (fold (\<lambda>x cnt. cnt[dg x := cnt ! dg x + 1]) a c) = length c \<and>
    (\<forall>d < length c. fold (\<lambda>x cnt. cnt[dg x := cnt ! dg x + 1]) a c ! d = c ! d + occs dg d a)"
  using assms by (induction a arbitrary: c) (auto simp: nth_list_update)

lemma histogram_nth:
  assumes "\<forall>x \<in> set a. dg x < 256"
  shows "length (histogram dg a) = 256" "d < 256 \<Longrightarrow> histogram dg a ! d = occs dg d a"
  using histogram_from [of a dg "replicate 256 0"] assms by (simp_all add: histogram_def)

lemma length_offsets [simp]: "length (offsets acc cs) = length cs"
  by (induction cs arbitrary: acc) simp_all

lemma offsets_nth: "d < length cs \<Longrightarrow> offsets acc cs ! d = acc + (\<Sum>e<d. cs ! e)"
proof (induction cs arbitrary: acc d)
  case (Cons c cs)
  then show ?case by (cases d) (simp_all add: sum.lessThan_Suc_shift del: sum.lessThan_Suc)
qed simp

text \<open>The first position of a digit's bucket, and that buckets do not overlap.\<close>

definition bucket :: "('a \<Rightarrow> nat) \<Rightarrow> 'a list \<Rightarrow> nat \<Rightarrow> nat" where
  "bucket dg a d = (\<Sum>e<d. occs dg e a)"

lemma bucket_next: "bucket dg a (Suc d) = bucket dg a d + occs dg d a"
  by (simp add: bucket_def)

lemma bucket_mono: "d \<le> d' \<Longrightarrow> bucket dg a d \<le> bucket dg a d'"
  unfolding bucket_def by (intro sum_mono2) auto

lemma bucket_total: "\<forall>x \<in> set a. dg x < m \<Longrightarrow> bucket dg a m = length a"
proof (induction a)
  case (Cons x a)
  have "bucket dg (x # a) m = (\<Sum>e<m. (if dg x = e then 1 else 0) + occs dg e a)"
    unfolding bucket_def by (intro sum.cong) simp_all
  also have "\<dots> = 1 + bucket dg a m" using Cons.prems by (simp add: sum.distrib bucket_def)
  finally show ?case using Cons by simp
qed (simp add: bucket_def)

lemma histogram_offsets:
  assumes "\<forall>x \<in> set a. dg x < 256" "d < 256"
  shows "offsets 0 (histogram dg a) ! d = bucket dg a d"
  using assms histogram_nth [OF assms(1)] by (simp add: offsets_nth bucket_def)

section \<open>One pass is a stable sort\<close>

lemma scatter_append: "scatter dg (xs @ ys) bc = scatter dg ys (scatter dg xs bc)"
  by (induction dg xs bc rule: scatter.induct) simp_all

text \<open>After a prefix, every bucket holds the prefix's elements of its digit, in order.\<close>

definition scattered :: "('a \<Rightarrow> nat) \<Rightarrow> 'a list \<Rightarrow> nat \<Rightarrow> 'a list \<Rightarrow> 'a list \<times> nat list \<Rightarrow> bool" where
  "scattered dg a m xs bc \<longleftrightarrow> length (fst bc) = length a \<and> length (snd bc) = m \<and>
     (\<forall>d<m. snd bc ! d = bucket dg a d + occs dg d xs \<and>
       (\<forall>j < occs dg d xs. fst bc ! (bucket dg a d + j) = filter (\<lambda>x. dg x = d) xs ! j))"

lemma bucket_apart:
  assumes "d \<noteq> d'" "j \<le> occs dg d a" "j' < occs dg d' a" "j < occs dg d a"
  shows "bucket dg a d + j \<noteq> bucket dg a d' + j'"
proof (cases "d < d'")
  case True
  then have "bucket dg a (Suc d) \<le> bucket dg a d'" by (intro bucket_mono) simp
  then show ?thesis using assms(4) by (simp add: bucket_next)
next
  case False
  with assms(1) have "bucket dg a (Suc d') \<le> bucket dg a d" by (intro bucket_mono) simp
  then show ?thesis using assms(3) by (simp add: bucket_next)
qed

lemma scattered_step:
  assumes "scattered dg a m xs (b, cnt)" "a = xs @ x # ys" "\<forall>x \<in> set a. dg x < m"
  shows "scattered dg a m (xs @ [x]) (b[cnt ! dg x := x], cnt[dg x := cnt ! dg x + 1])"
proof -
  let ?e = "dg x"
  have e: "?e < m" and ocs: "occs dg d xs + (if ?e = d then 1 else 0) \<le> occs dg d a" for d
    using assms(2,3) by auto
  from ocs [of ?e] have lt: "occs dg ?e xs < occs dg ?e a" by simp
  have c: "cnt ! ?e = bucket dg a ?e + occs dg ?e xs" using assms(1) e by (simp add: scattered_def)
  have "bucket dg a (Suc ?e) \<le> bucket dg a m" using e by (intro bucket_mono) simp
  then have "cnt ! ?e < length a" using lt bucket_total [OF assms(3)] by (simp add: c bucket_next)
  moreover have "b[cnt ! ?e := x] ! (bucket dg a d + j) = filter (\<lambda>x. dg x = d) (xs @ [x]) ! j"
    if d: "d < m" and j: "j < occs dg d (xs @ [x])" for d j
  proof (cases "d = ?e")
    case True
    then show ?thesis using assms(1) d j \<open>cnt ! ?e < length a\<close> c
      by (auto simp: scattered_def nth_append less_Suc_eq)
  next
    case False
    then have j': "j < occs dg d xs" using j by simp
    then have "bucket dg a d + j \<noteq> bucket dg a ?e + occs dg ?e xs"
      using ocs [of d] False lt by (intro bucket_apart) simp_all
    with c have "b[cnt ! ?e := x] ! (bucket dg a d + j) = b ! (bucket dg a d + j)" by simp
    with j' d False assms(1) show ?thesis by (simp add: scattered_def)
  qed
  ultimately show ?thesis using assms(1) e c by (auto simp: scattered_def nth_list_update)
qed

lemma scatter_scattered:
  assumes "a = xs @ ys" "\<forall>x \<in> set a. dg x < m" "scattered dg a m [] (b, cnt)"
  shows "scattered dg a m xs (scatter dg xs (b, cnt))"
  using assms(1)
proof (induction xs arbitrary: ys rule: rev_induct)
  case (snoc x xs)
  then have "scattered dg a m xs (scatter dg xs (b, cnt))" by simp
  moreover obtain b' c' where "scatter dg xs (b, cnt) = (b', c')" by (cases "scatter dg xs (b, cnt)")
  moreover from snoc.prems have "a = xs @ x # ys" by simp
  ultimately show ?case using scattered_step [OF _ _ assms(2)] by (simp add: scatter_append)
qed (use assms(3) in simp)

lemma scattered_take:
  assumes "scattered dg a m a bc" "d \<le> m" "\<forall>x \<in> set a. dg x < m"
  shows "take (bucket dg a d) (fst bc) = concat (map (\<lambda>e. filter (\<lambda>x. dg x = e) a) [0..<d])"
  using assms(2)
proof (induction d)
  case (Suc d)
  let ?F = "filter (\<lambda>x. dg x = d) a"
  have b: "bucket dg a (Suc d) \<le> length (fst bc)"
    using assms(1) Suc.prems bucket_mono [of "Suc d" m dg a] bucket_total [OF assms(3)] by (simp add: scattered_def)
  then have "take (length ?F) (drop (bucket dg a d) (fst bc)) = ?F"
    using assms(1) Suc.prems by (intro nth_equalityI) (auto simp: scattered_def bucket_next)
  then show ?case using Suc by (simp add: bucket_next take_add)
qed (simp add: bucket_def)

definition buckets :: "('a \<Rightarrow> nat) \<Rightarrow> 'a list \<Rightarrow> nat \<Rightarrow> 'a list" where
  "buckets dg a m = concat (map (\<lambda>e. filter (\<lambda>x. dg x = e) a) [0..<m])"

lemma buckets_sort:
  assumes "\<forall>x \<in> set a. dg x < m"
  shows "buckets dg a m = sort_key dg a"
proof (rule sym, rule sorted_stable_unique)
  have same: "sorted_by dg (filter (\<lambda>x. dg x = d) a)" for d
    by (induction a) auto
  have "sorted_by dg (buckets dg a d) \<and> (\<forall>x \<in> set (buckets dg a d). dg x < d)" for d
    by (induction d) (auto simp: buckets_def sorted_append less_imp_le same)
  then show "sorted_by dg (buckets dg a m)" by blast
  have "filter (\<lambda>x. dg x = k) (buckets dg a d) = (if k < d then filter (\<lambda>x. dg x = k) a else [])" for d k
    by (induction d) (auto simp: buckets_def filter_empty_conv less_Suc_eq intro: filter_cong)
  moreover have "filter (\<lambda>x. dg x = k) a = []" if "\<not> k < m" for k
    using assms that by (auto simp: filter_empty_conv)
  ultimately show "stable dg a (buckets dg a m)" by (simp add: stable_def)
qed

lemma scatter_sort:
  assumes "\<forall>x \<in> set a. dg x < 256" "length b = length a"
  shows "fst (scatter dg a (b, offsets 0 (histogram dg a))) = sort_key dg a"
proof -
  have "scattered dg a 256 [] (b, offsets 0 (histogram dg a))"
    using assms(2) histogram_nth(1) [OF assms(1)] histogram_offsets [OF assms(1)] by (simp add: scattered_def)
  then have s: "scattered dg a 256 a (scatter dg a (b, offsets 0 (histogram dg a)))"
    by (intro scatter_scattered [of a a "[]"]) (use assms(1) in simp_all)
  from scattered_take [OF s order_refl assms(1)] bucket_total [OF assms(1)] s
  show ?thesis using buckets_sort [OF assms(1)] by (simp add: scattered_def buckets_def)
qed

lemma radix_pass_sort:
  assumes "\<forall>x \<in> set a. dg x < 256" "length b = length a" "a \<noteq> []"
  shows "\<exists>b' f'. radix_pass dg (a, b, f) = (sort_key dg a, b', f') \<and> length b' = length a"
proof (cases "histogram dg a ! dg (a ! 0) = length a")
  case True
  then have "occs dg (dg (a ! 0)) a = length a"
    using assms histogram_nth(2) [OF assms(1), of "dg (a ! 0)"] by simp
  then have "\<forall>x \<in> set a. dg x = dg (a ! 0)"
    by (metis (mono_tags, lifting) length_filter_less nat_less_le)
  then have "sort_key dg a = a"
    by (intro sorted_stable_unique stable_refl) (auto simp: sorted_iff_nth_mono)
  with True assms(2) show ?thesis by (simp add: radix_pass_def)
next
  case False
  then show ?thesis using scatter_sort [OF assms(1,2)] by (simp add: radix_pass_def Let_def)
qed

section \<open>All passes\<close>

lemma sorted_lex:
  assumes "sorted_by f ys" "\<And>k. sorted_by g (filter (\<lambda>x. f x = k) ys)"
    and "\<And>x y. x \<in> set ys \<Longrightarrow> y \<in> set ys \<Longrightarrow> f x < f y \<or> f x = f y \<and> g x \<le> g y \<Longrightarrow> h x \<le> h y"
  shows "sorted_by h ys"
  using assms
proof (induction ys)
  case (Cons y ys)
  have "sorted_by g (filter (\<lambda>x. f x = k) ys)" for k using Cons.prems(2) [of k] by (auto split: if_splits)
  with Cons have "sorted_by h ys" by simp
  moreover have "h y \<le> h z" if z: "z \<in> set ys" for z
  proof -
    have "f y \<le> f z" using Cons.prems(1) z by simp
    moreover have "g y \<le> g z" if "f y = f z"
      using Cons.prems(2) [of "f y"] z that by simp
    ultimately show ?thesis using Cons.prems(3) [of y z] z by (cases "f y = f z") auto
  qed
  ultimately show ?case by simp
qed simp

text \<open>Sorting by the low digits and then, stably, by the next one sorts by both.\<close>

lemma sort_key_lex:
  fixes f :: "'a \<Rightarrow> 'k::linorder" and g :: "'a \<Rightarrow> 'l::linorder" and h :: "'a \<Rightarrow> 'm::linorder"
  assumes "\<And>x y. x \<in> set xs \<Longrightarrow> y \<in> set xs \<Longrightarrow> h x \<le> h y \<longleftrightarrow> f x < f y \<or> f x = f y \<and> g x \<le> g y"
  shows "sort_key f (sort_key g xs) = sort_key h xs"
proof (rule sym, rule sorted_stable_unique)
  let ?zs = "sort_key g xs" let ?ys = "sort_key f ?zs"
  have fy: "filter (\<lambda>x. f x = k) ?ys = filter (\<lambda>x. f x = k) ?zs" and fz: "filter (\<lambda>x. g x = l) ?zs = filter (\<lambda>x. g x = l) xs"
    for k l by (rule sort_key_stable)+
  have "sorted_by g (filter (\<lambda>x. f x = k) ?ys)" for k
    unfolding fy by (rule sorted_filter) simp
  then show "sorted_by h ?ys" using assms by (intro sorted_lex [of f ?ys g h]) simp_all
  show "stable h xs ?ys"
    unfolding stable_def
  proof
    fix m
    show "filter (\<lambda>x. h x = m) ?ys = filter (\<lambda>x. h x = m) xs"
    proof (cases "\<exists>x \<in> set xs. h x = m")
      case True
      then obtain x where x: "x \<in> set xs" "h x = m" by blast
      have eq: "h y = m \<longleftrightarrow> g y = g x \<and> f y = f x" if "y \<in> set xs" for y
        using assms [of y x] assms [of x y] x that by (metis order_antisym order_less_irrefl not_less_iff_gr_or_eq order_refl)
      have "filter (\<lambda>x. h x = m) ys = filter (\<lambda>y. g y = g x) (filter (\<lambda>y. f y = f x) ys)" if "set ys = set xs" for ys
        using eq that by (auto intro!: filter_cong)
      then have "filter (\<lambda>x. h x = m) ?ys = filter (\<lambda>y. g y = g x) (filter (\<lambda>y. f y = f x) ?ys)"
        "filter (\<lambda>x. h x = m) xs = filter (\<lambda>y. g y = g x) (filter (\<lambda>y. f y = f x) xs)" by simp_all
      moreover have "filter (\<lambda>y. g y = g x) (filter (\<lambda>y. f y = f x) ?zs) = filter (\<lambda>y. f y = f x) (filter (\<lambda>y. g y = g x) ?zs)"
        "filter (\<lambda>y. g y = g x) (filter (\<lambda>y. f y = f x) xs) = filter (\<lambda>y. f y = f x) (filter (\<lambda>y. g y = g x) xs)"
        by (auto intro: filter_cong)
      ultimately show ?thesis by (simp only: fy fz)
    next
      case False
      then show ?thesis by (auto simp: filter_empty_conv)
    qed
  qed
qed

lemma key_byte_eq: "key_byte p k = unat k div 256 ^ p mod 256"
proof -
  have "drop_bit (p * 8) k AND 0xFF = take_bit 8 (drop_bit (p * 8) k)"
    by (simp add: take_bit_eq_mask mask_eq_exp_minus_1)
  then have "key_byte p k = take_bit 8 (unat (drop_bit (p * 8) k))"
    by (simp only: key_byte_def unsigned_take_bit_eq)
  also have "\<dots> = unat (drop_bit (p * 8) k) mod 256" by (simp add: take_bit_eq_mod)
  also have "unat (drop_bit (p * 8) k) = unat k div 256 ^ p"
    using unsigned_less [where ?'a = nat, of k]
    by (simp only: unsigned_drop_bit_eq)
      (simp add: drop_bit_eq_div power_mult mult.commute [of p] take_bit_nat_eq_self)
  finally show ?thesis .
qed

lemma key_byte_less: "key_byte p k < 256"
  by (simp add: key_byte_eq)

text \<open>The value of the low \<open>p\<close> bytes, ordered by the top byte first.\<close>

lemma low_bytes_le:
  fixes j k p :: nat
  defines "dig n \<equiv> n div 256 ^ p mod 256" and "low n \<equiv> n mod 256 ^ p"
  shows "j mod 256 ^ Suc p \<le> k mod 256 ^ Suc p \<longleftrightarrow> dig j < dig k \<or> dig j = dig k \<and> low j \<le> low k"
proof -
  have eq: "n mod 256 ^ Suc p = 256 ^ p * dig n + low n" for n :: nat
    unfolding dig_def low_def by (simp add: mod_mult2_eq mult.commute [of 256])
  have low: "low n < 256 ^ p" for n unfolding low_def by simp
  have less: "256 ^ p * a + low j < 256 ^ p * b + low k" if "a < b" for a b j k
  proof -
    have "256 ^ p * a + low j < 256 ^ p * (a + 1)" using low [of j] by simp
    also have "\<dots> \<le> 256 ^ p * b" using that by (intro mult_le_mono2) simp
    finally show ?thesis by simp
  qed
  show ?thesis unfolding eq using less [of "dig j" "dig k" j k] less [of "dig k" "dig j" k j]
    by (cases "dig j" "dig k" rule: linorder_cases) auto
qed

lemma radix_passes:
  assumes "a \<noteq> []" "length b = length a"
  shows "\<exists>b' f. fold (\<lambda>pass. radix_pass (\<lambda>x. key_byte pass (key x))) [0..<p] (a, b, False) =
      (sort_key (\<lambda>x. unat (key x) mod 256 ^ p) a, b', f) \<and> length b' = length a"
proof (induction p)
  case 0
  have "sort_key (\<lambda>x. 0 :: nat) a = a" by (intro sorted_stable_unique stable_refl) (simp add: sorted_iff_nth_mono)
  then show ?case using assms(2) by auto
next
  case (Suc p)
  let ?g = "\<lambda>x. unat (key x) mod 256 ^ p" and ?f = "\<lambda>x. key_byte p (key x)" and ?h = "\<lambda>x. unat (key x) mod 256 ^ Suc p"
  from Suc obtain b' f where s: "fold (\<lambda>pass. radix_pass (\<lambda>x. key_byte pass (key x))) [0..<p] (a, b, False) =
      (sort_key ?g a, b', f)" "length b' = length a" by blast
  have "sort_key ?f (sort_key ?g a) = sort_key ?h a"
    by (rule sort_key_lex) (simp add: key_byte_eq low_bytes_le del: power_Suc)
  moreover have "sort_key ?g a \<noteq> []" using assms(1) by (metis length_0_conv length_sort)
  ultimately show ?case
    using radix_pass_sort [of "sort_key ?g a" ?f b' f] s by (simp add: key_byte_less del: power_Suc)
qed

text \<open>Sorting by an order-equivalent key is the same.\<close>

lemma sort_key_equiv:
  assumes "\<And>x y. x \<in> set xs \<Longrightarrow> y \<in> set xs \<Longrightarrow> f x \<le> f y \<longleftrightarrow> g x \<le> g y"
  shows "sort_key f xs = sort_key g xs"
  using sort_key_lex [of xs g "\<lambda>_. 0 :: nat" f] sort_key_lex [of xs f f f] sort_key_lex [of xs g g f] assms
  by (metis (no_types, lifting) nle_le order_less_le sort_key_lex)

lemma sub_radix_pairs64_sorts:
  assumes "length b = length a"
  shows "sub_radix_pairs64 a b = sort_key slot_key a"
proof (cases "a = []")
  case False
  then obtain b' f where s: "fold (\<lambda>pass. radix_pass (\<lambda>s. key_byte pass (slot_key s))) [0..<8] (a, b, False) =
      (sort_key (\<lambda>s. unat (slot_key s) mod 256 ^ 8) a, b', f)" "length b' = length a"
    using radix_passes [of a b slot_key 8] assms by blast
  have "unat k mod 256 ^ 8 = unat k" for k :: u64
    using unsigned_less [where ?'a = nat, of k] by simp
  then have "sort_key (\<lambda>s. unat (slot_key s) mod 256 ^ 8) a = sort_key slot_key a"
    by (intro sort_key_equiv) (simp add: word_le_nat_alt)
  then show ?thesis using s False by (auto simp: sub_radix_pairs64_def blit_def)
qed (simp add: sub_radix_pairs64_def)

section \<open>Properties\<close>

text \<open>C16: the eight counting passes of the radix sort, least significant byte first, compose to the stable
  sort by the whole 64-bit key, whatever the second buffer held.\<close>

theorem radix_stable_sort: "length b = length a \<Longrightarrow> sub_radix_pairs64 a b = sort_key slot_key a"
  by (rule sub_radix_pairs64_sorts)

theorem radix_stable_sort_witness:
  "sub_radix_pairs64 [\<lparr>slot_key = 258, slot_idx = 0\<rparr>, \<lparr>slot_key = 3, slot_idx = 1\<rparr>, \<lparr>slot_key = 3, slot_idx = 2\<rparr>] (replicate 3 \<lparr>slot_key = 9, slot_idx = 9\<rparr>) =
    [\<lparr>slot_key = 3, slot_idx = 1\<rparr>, \<lparr>slot_key = 3, slot_idx = 2\<rparr>, \<lparr>slot_key = 258, slot_idx = 0\<rparr>]"
  using radix_stable_sort [of "replicate 3 \<lparr>slot_key = 9, slot_idx = 9\<rparr>"
      "[\<lparr>slot_key = 258, slot_idx = 0\<rparr>, \<lparr>slot_key = 3, slot_idx = 1\<rparr>, \<lparr>slot_key = 3, slot_idx = 2\<rparr>]"]
  by (simp add: sort_key_def)

end
