(* ===== verification/Sublimation_Merge.thy ===== *)
theory Sublimation_Merge
  imports Sublimation_Base
begin

unbundle bit_operations_syntax

text \<open>
  The merge primitives of \<open>sublimation/src/merge_impl.h\<close>, a template over an element type and its sort key
  (\<open>SUB_KEY\<close>, here the argument \<open>key\<close>): binary insertion, run detection, galloping search and the two
  in-place merges that copy the shorter run aside. Pointers are indices, and the array and the temporary
  are lists, so a store behind a pointer that is still to be read would be visible. The counters of
  comparisons are statistics and left out.
\<close>

section \<open>Binary search and insertion\<close>

text \<open>Both ends after the loop; \<open>go\<close> says whether the search goes right of the middle.\<close>

function bsearch :: "(nat \<Rightarrow> bool) \<Rightarrow> nat \<Rightarrow> nat \<Rightarrow> nat \<times> nat" where
  "bsearch go lo hi =
     (if lo < hi
      then let mid = lo + (hi - lo) div 2 in if go mid then bsearch go (mid + 1) hi else bsearch go lo mid
      else (lo, hi))"
  by auto
termination by (relation "measure (\<lambda>(_, lo, hi). hi - lo)") auto

declare bsearch.simps [simp del]

definition binary_insert :: "('a \<Rightarrow> 'k::linorder) \<Rightarrow> nat \<Rightarrow> 'a list \<Rightarrow> 'a list" where
  "binary_insert key i arr =
     (let x = arr ! i; lo = fst (bsearch (\<lambda>mid. \<not> key (arr ! mid) > key x) 0 i)
      in if lo < i then (blit arr (lo + 1) (segment lo (i - lo) arr))[lo := x] else arr)"

definition binary_insertion_sort :: "('a \<Rightarrow> 'k::linorder) \<Rightarrow> 'a list \<Rightarrow> 'a list" where
  "binary_insertion_sort key arr = fold (binary_insert key) [1..<length arr] arr"

section \<open>Natural runs\<close>

text \<open>The loop that lengthens a run while \<open>go\<close> holds of its last index, and the in-place reversal.\<close>

function extend_run :: "(nat \<Rightarrow> bool) \<Rightarrow> nat \<Rightarrow> nat \<Rightarrow> nat" where
  "extend_run go m run = (if run < m \<and> go run then extend_run go m (run + 1) else run)"
  by auto
termination by (relation "measure (\<lambda>(_, m, run). m - run)") auto

declare extend_run.simps [simp del]

function reverse_loop :: "nat \<Rightarrow> nat \<Rightarrow> 'a list \<Rightarrow> 'a list" where
  "reverse_loop i j arr = (if i < j then reverse_loop (i + 1) (j - 1) (arr[i := arr ! j, j := arr ! i]) else arr)"
  by auto
termination by (relation "measure (\<lambda>(i, j, _). j - i)") auto

declare reverse_loop.simps [simp del]

definition count_run_asc :: "('a \<Rightarrow> 'k::linorder) \<Rightarrow> 'a list \<Rightarrow> 'a list \<times> nat" where
  "count_run_asc key arr =
     (let n = length arr in
      if n \<le> 1 then (arr, n)
      else if key (arr ! 1) < key (arr ! 0)
      then let run = extend_run (\<lambda>i. \<not> key (arr ! (i + 1)) \<ge> key (arr ! i)) (n - 1) 1 + 1
           in (reverse_loop 0 (run - 1) arr, run)
      else (arr, extend_run (\<lambda>i. \<not> key (arr ! (i + 1)) < key (arr ! i)) (n - 1) 1 + 1))"

section \<open>Galloping\<close>

text \<open>The step doubles while \<open>cont\<close> holds; the doubling is that of a 64-bit \<open>size_t\<close>.\<close>

function gallop_loop :: "(nat \<Rightarrow> bool) \<Rightarrow> nat \<Rightarrow> nat \<Rightarrow> nat \<Rightarrow> nat \<times> nat" where
  "gallop_loop cont max_ofs last_ofs ofs =
     (if ofs < max_ofs \<and> cont ofs
      then let ofs' = (2 * ofs + 1) mod 2 ^ 64
           in gallop_loop cont max_ofs ofs (if ofs' \<le> ofs then max_ofs else ofs')
      else (last_ofs, ofs))"
  by auto
termination
proof (relation "measure (\<lambda>(_, m, _, ofs). m - ofs)")
  fix cont :: "nat \<Rightarrow> bool" and m la ofs ofs' :: nat
  assume "ofs < m \<and> cont ofs"
  then show "((cont, m, ofs, if ofs' \<le> ofs then m else ofs'), cont, m, la, ofs) \<in> measure (\<lambda>(_, m, _, ofs). m - ofs)"
    by (auto intro: diff_less_mono2)
qed simp

declare gallop_loop.simps [simp del]

text \<open>
  The body both directions share: \<open>before i\<close> says that the element at \<open>i\<close> comes before the key, and the
  result is the number of such elements.
\<close>

definition gallop :: "(nat \<Rightarrow> bool) \<Rightarrow> nat \<Rightarrow> nat \<Rightarrow> nat" where
  "gallop before len hint =
     (if before hint
      then case gallop_loop (\<lambda>ofs. before (hint + ofs)) (len - hint) 0 1 of
        (last_ofs, ofs) \<Rightarrow> snd (bsearch before (last_ofs + hint) ((if ofs > len - hint then len - hint else ofs) + hint))
      else case gallop_loop (\<lambda>ofs. \<not> before (hint - ofs)) (hint + 1) 0 1 of
        (last_ofs, ofs0) \<Rightarrow>
          let ofs = (if ofs0 > hint + 1 then hint + 1 else ofs0)
          in snd (bsearch before (if ofs > hint then 0 else hint - ofs) (hint - last_ofs)))"

definition gallop_left :: "('a \<Rightarrow> 'k::linorder) \<Rightarrow> 'a \<Rightarrow> 'a list \<Rightarrow> nat \<Rightarrow> nat \<Rightarrow> nat" where
  "gallop_left key x base len hint = gallop (\<lambda>i. key (base ! i) < key x) len hint"

definition gallop_right :: "('a \<Rightarrow> 'k::linorder) \<Rightarrow> 'a \<Rightarrow> 'a list \<Rightarrow> nat \<Rightarrow> nat \<Rightarrow> nat" where
  "gallop_right key x base len hint = gallop (\<lambda>i. \<not> key x < key (base ! i)) len hint"

section \<open>Correctness of the searches\<close>

text \<open>\<open>t\<close> is the point where \<open>p\<close> turns false, up to \<open>n\<close>.\<close>

definition turns :: "(nat \<Rightarrow> bool) \<Rightarrow> nat \<Rightarrow> nat \<Rightarrow> bool" where
  "turns p n t \<longleftrightarrow> t \<le> n \<and> (\<forall>i<n. p i \<longleftrightarrow> i < t)"

lemma turns_exists:
  assumes "\<And>i j. i \<le> j \<Longrightarrow> j < n \<Longrightarrow> p j \<Longrightarrow> p i"
  shows "\<exists>t. turns p n t"
  using assms
proof (induction n)
  case (Suc n)
  then obtain t where t: "turns p n t" by (metis less_SucI)
  show ?case
  proof (cases "p n")
    case True
    then have "turns p (Suc n) (Suc n)" using Suc.prems [of _ n] by (auto simp: turns_def)
    then show ?thesis ..
  next
    case False
    with t have "turns p (Suc n) t" by (auto simp: turns_def less_Suc_eq)
    then show ?thesis ..
  qed
qed (auto simp: turns_def)

lemma turns_split:
  assumes "turns (\<lambda>i. P (xs ! i)) n t" "n \<le> length xs"
  shows "t \<le> n" "\<forall>y \<in> set (take t xs). P y" "\<forall>y \<in> set (segment t (n - t) xs). \<not> P y"
proof -
  show t: "t \<le> n" using assms(1) by (simp add: turns_def)
  show "\<forall>y \<in> set (take t xs). P y" using assms t by (auto simp: turns_def in_set_conv_nth)
  have "\<not> P (xs ! (t + i))" if "i < n - t" for i using assms that by (auto simp: turns_def)
  then show "\<forall>y \<in> set (segment t (n - t) xs). \<not> P y" using assms(2) t by (auto simp: in_set_conv_nth segment_def)
qed

lemma bsearch_turns:
  assumes "turns go n t" "lo \<le> t" "t \<le> hi" "hi \<le> n"
  shows "bsearch go lo hi = (t, t)"
  using assms(2-4)
proof (induction "hi - lo" arbitrary: lo hi rule: less_induct)
  case less
  show ?case
  proof (cases "lo < hi")
    case True
    define mid where "mid = lo + (hi - lo) div 2"
    with True have m: "lo \<le> mid" "mid < hi" by auto
    then have go: "go mid \<longleftrightarrow> mid < t" using assms(1) less.prems by (simp add: turns_def)
    have "bsearch go (mid + 1) hi = (t, t)" if "mid < t" using less m that by simp
    moreover have "bsearch go lo mid = (t, t)" if "\<not> mid < t" using less m that by simp
    ultimately show ?thesis using True go by (subst bsearch.simps) (simp flip: mid_def)
  next
    case False
    then show ?thesis using less.prems by (subst bsearch.simps) simp
  qed
qed

lemma gallop_loop_result:
  assumes "gallop_loop cont m la ofs = (la', ofs')" "la < ofs" "la = 0 \<or> cont la \<and> la < m"
  shows "la' < ofs' \<and> (la' = 0 \<or> cont la' \<and> la' < m) \<and> (ofs' < m \<longrightarrow> \<not> cont ofs')"
  using assms
proof (induction "m - ofs" arbitrary: la ofs rule: less_induct)
  case less
  show ?case
  proof (cases "ofs < m \<and> cont ofs")
    case True
    define o' where "o' = (let d = (2 * ofs + 1) mod 2 ^ 64 in if d \<le> ofs then m else d)"
    have "ofs < o'" using True by (simp add: o'_def Let_def)
    moreover have "gallop_loop cont m la ofs = gallop_loop cont m ofs o'"
      using True by (subst gallop_loop.simps) (simp add: o'_def Let_def)
    moreover have "m - o' < m - ofs" using True \<open>ofs < o'\<close> by (intro diff_less_mono2) simp_all
    ultimately show ?thesis using less.hyps [of o' ofs] True less.prems by simp
  next
    case False
    then have "gallop_loop cont m la ofs = (la, ofs)" by (subst gallop_loop.simps) auto
    then show ?thesis using less.prems False by auto
  qed
qed

lemma gallop_turns:
  assumes "turns before len t" "hint < len"
  shows "gallop before len hint = t"
proof (cases "before hint")
  case True
  then have t: "hint < t" "t \<le> len" using assms by (auto simp: turns_def)
  obtain la ofs where l: "gallop_loop (\<lambda>ofs. before (hint + ofs)) (len - hint) 0 1 = (la, ofs)" by force
  define o' where "o' = (if ofs > len - hint then len - hint else ofs)"
  note r = gallop_loop_result [OF l]
  have "la + hint \<le> t" using r t assms(1) by (auto simp: turns_def add.commute)
  moreover have "t \<le> o' + hint" using r t assms by (auto simp: turns_def o'_def add.commute not_less)
  ultimately have "bsearch before (la + hint) (o' + hint) = (t, t)"
    using assms t by (intro bsearch_turns [OF assms(1)]) (auto simp: o'_def)
  then show ?thesis using True l by (simp add: gallop_def o'_def)
next
  case False
  then have t: "t \<le> hint" using assms by (auto simp: turns_def)
  obtain la ofs where l: "gallop_loop (\<lambda>ofs. \<not> before (hint - ofs)) (hint + 1) 0 1 = (la, ofs)" by force
  define o' where "o' = (if ofs > hint + 1 then hint + 1 else ofs)"
  note r = gallop_loop_result [OF l]
  have "t \<le> hint - la" using r t assms by (auto simp: turns_def)
  moreover have "(if o' > hint then 0 else hint - o') \<le> t" using r assms by (auto simp: turns_def o'_def not_less)
  ultimately have "bsearch before (if o' > hint then 0 else hint - o') (hint - la) = (t, t)"
    using assms t by (intro bsearch_turns [OF assms(1)]) auto
  then show ?thesis using False l unfolding o'_def
    by (simp add: gallop_def Let_def split: if_splits)
qed

text \<open>On a sorted run the searches split off the elements below, or not above, the key.\<close>

lemma gallop_left_split:
  fixes x :: 'a and key :: "'a \<Rightarrow> 'k::linorder"
  assumes "sorted_by key (take len base)" "hint < len" "len \<le> length base"
  defines "t \<equiv> gallop_left key x base len hint"
  shows "t \<le> len" "\<forall>y \<in> set (take t base). key y < key x" "\<forall>y \<in> set (segment t (len - t) base). key x \<le> key y"
proof -
  have mono: "key (base ! i) \<le> key (base ! j)" if "i \<le> j" "j < len" for i j
    using sorted_nth_mono [OF assms(1) that(1)] that assms(3) by simp
  obtain u where u: "turns (\<lambda>i. key (base ! i) < key x) len u"
    using turns_exists [of len "\<lambda>i. key (base ! i) < key x"] mono by (meson le_less_trans)
  then have t: "t = u" unfolding t_def gallop_left_def by (rule gallop_turns [OF _ assms(2)])
  from u show "t \<le> len" "\<forall>y \<in> set (take t base). key y < key x" "\<forall>y \<in> set (segment t (len - t) base). key x \<le> key y"
    using turns_split [of "\<lambda>y. key y < key x" base, OF u assms(3)] by (simp_all add: t not_less not_le)
qed

lemma gallop_right_split:
  fixes x :: 'a and key :: "'a \<Rightarrow> 'k::linorder"
  assumes "sorted_by key (take len base)" "hint < len" "len \<le> length base"
  defines "t \<equiv> gallop_right key x base len hint"
  shows "t \<le> len" "\<forall>y \<in> set (take t base). key y \<le> key x" "\<forall>y \<in> set (segment t (len - t) base). key x < key y"
proof -
  have mono: "key (base ! i) \<le> key (base ! j)" if "i \<le> j" "j < len" for i j
    using sorted_nth_mono [OF assms(1) that(1)] that assms(3) by simp
  obtain u where u: "turns (\<lambda>i. \<not> key x < key (base ! i)) len u"
    using turns_exists [of len "\<lambda>i. \<not> key x < key (base ! i)"] mono by (meson less_le_trans)
  then have t: "t = u" unfolding t_def gallop_right_def by (rule gallop_turns [OF _ assms(2)])
  from u show "t \<le> len" "\<forall>y \<in> set (take t base). key y \<le> key x" "\<forall>y \<in> set (segment t (len - t) base). key x < key y"
    using turns_split [of "\<lambda>y. \<not> key x < key y" base, OF u assms(3)] by (simp_all add: t not_less not_le)
qed

section \<open>Correctness of insertion and runs\<close>

lemma binary_insert_sorts:
  assumes "sorted_by key (take i arr)" "i < length arr"
  shows "binary_insert key i arr = sort_key key (take (Suc i) arr) @ drop (Suc i) arr"
proof -
  let ?x = "arr ! i" and ?go = "\<lambda>mid. \<not> key (arr ! mid) > key (arr ! i)"
  have mono: "key (arr ! j) \<le> key (arr ! k)" if "j \<le> k" "k < i" for j k
    using sorted_nth_mono [OF assms(1) that(1)] that assms(2) by simp
  obtain t where t: "turns ?go i t"
    using turns_exists [of i ?go] mono by (meson less_le_trans)
  then have b: "fst (bsearch ?go 0 i) = t" using bsearch_turns [OF t, of 0 i] by (simp add: turns_def)
  have ti: "t \<le> i" using t by (simp add: turns_def)
  have parts: "take (Suc i) arr = (take t arr @ segment t (i - t) arr) @ [?x]"
    using assms(2) ti by (simp add: take_Suc_conv_app_nth segment_def flip: take_add)
  have "sort_key key ((take t arr @ segment t (i - t) arr) @ [?x]) = sort_key key (take t arr @ [?x]) @ segment t (i - t) arr"
  proof (rule merge_drop_left)
    show "sorted_by key (take t arr @ segment t (i - t) arr)" using assms(1) ti by (simp add: segment_def flip: take_add)
    show "\<forall>a \<in> set (segment t (i - t) arr). \<forall>b \<in> set [?x]. key b < key a"
      using turns_split(3) [of "\<lambda>y. \<not> key y > key ?x", OF t] assms(2) by auto
  qed
  also have "sort_key key (take t arr @ [?x]) = take t arr @ [?x]"
  proof (rule sorted_stable_unique [OF stable_refl])
    have "sorted_by key (take t arr)" using assms(1) ti sorted_wrt_take [of _ "map key (take i arr)" t]
      by (simp add: take_map min_def)
    moreover have "\<forall>y \<in> set (take t arr). key y \<le> key ?x"
      using turns_split(2) [of "\<lambda>y. \<not> key y > key ?x", OF t] assms(2) by auto
    ultimately show "sorted_by key (take t arr @ [?x])" by (simp add: sorted_append)
  qed
  finally have s: "sort_key key (take (Suc i) arr) = take t arr @ ?x # segment t (i - t) arr" by (simp add: parts)
  show ?thesis
  proof (cases "t < i")
    case True
    then have "(blit arr (t + 1) (segment t (i - t) arr))[t := ?x] = take t arr @ ?x # segment t (i - t) arr @ drop (Suc i) arr"
      using assms(2) by (simp add: blit_def upd_conv_take_nth_drop min_def take_Suc_conv_app_nth nth_append)
    then show ?thesis using True by (simp add: binary_insert_def b Let_def s)
  next
    case False
    with ti have "t = i" by simp
    then show ?thesis using assms(2) by (simp add: binary_insert_def b Let_def s segment_def id_take_nth_drop [symmetric])
  qed
qed

lemma binary_insertion_sort_sorts: "binary_insertion_sort key arr = sort_key key arr"
proof -
  have "fold (binary_insert key) [1..<n] arr = sort_key key (take n arr) @ drop n arr" if "1 \<le> n" "n \<le> length arr" for n
    using that
  proof (induction n rule: nat_induct_at_least)
    case base
    then show ?case by (cases arr) simp_all
  next
    case (Suc n)
    let ?a = "sort_key key (take n arr) @ drop n arr"
    have l: "length (sort_key key (take n arr)) = n" using Suc.prems by simp
    have "binary_insert key n ?a = sort_key key (take (Suc n) ?a) @ drop (Suc n) ?a"
      using Suc.prems l by (intro binary_insert_sorts) simp_all
    also have "take (Suc n) ?a = sort_key key (take n arr) @ [arr ! n]"
      using Suc.prems l by (simp add: take_Suc_conv_app_nth nth_append)
    also have "sort_key key (sort_key key (take n arr) @ [arr ! n]) = sort_key key (take (Suc n) arr)"
      using Suc.prems stable_append [OF stable_sort_key [of key "take n arr"] stable_refl [of key "[arr ! n]"]]
      by (simp add: stable_sort_eq take_Suc_conv_app_nth)
    also have "drop (Suc n) ?a = drop (Suc n) arr" using l by simp
    finally show ?case using Suc by simp
  qed
  from this [of "length arr"] show ?thesis
    by (cases "arr = []") (simp_all add: binary_insertion_sort_def Suc_leI)
qed

lemma reverse_loop_rev:
  assumes "length p = i" "length s = Suc j - i" "i \<le> Suc j"
  shows "reverse_loop i j (p @ s @ q) = p @ rev s @ q"
  using assms
proof (induction "j - i" arbitrary: i j p s q rule: less_induct)
  case less
  show ?case
  proof (cases "i < j")
    case True
    with less.prems have "length s \<ge> 2" by simp
    then obtain x u where xu: "s = x # u" "u \<noteq> []" by (cases s; cases "tl s") auto
    then obtain m y where s: "s = x # m @ [y]" by (metis append_butlast_last_id)
    have "(p @ s @ q)[i := (p @ s @ q) ! j, j := (p @ s @ q) ! i] = (p @ [y]) @ m @ ([x] @ q)"
    proof -
      have j: "j = length p + Suc (length m)" using less.prems s True by simp
      show ?thesis unfolding s less.prems(1) [symmetric] j
        by (simp add: nth_append list_update_append)
    qed
    moreover have "reverse_loop (i + 1) (j - 1) ((p @ [y]) @ m @ ([x] @ q)) = (p @ [y]) @ rev m @ ([x] @ q)"
      using less.prems s True by (intro less.hyps) auto
    ultimately show ?thesis using True s by (subst reverse_loop.simps) simp
  next
    case False
    with less.prems have "length s \<le> 1" by simp
    then have "rev s = s" by (cases s; cases "tl s") auto
    with False show ?thesis by (subst reverse_loop.simps) simp
  qed
qed

lemma extend_run_bounds:
  assumes "run \<le> m"
  shows "run \<le> extend_run go m run \<and> extend_run go m run \<le> m \<and> (\<forall>i. run \<le> i \<longrightarrow> i < extend_run go m run \<longrightarrow> go i)"
  using assms
proof (induction "m - run" arbitrary: run rule: less_induct)
  case less
  show ?case
  proof (cases "run < m \<and> go run")
    case True
    then have "extend_run go m run = extend_run go m (Suc run)" by (subst extend_run.simps) simp
    moreover have "Suc run \<le> extend_run go m (Suc run) \<and> extend_run go m (Suc run) \<le> m \<and>
        (\<forall>i. Suc run \<le> i \<longrightarrow> i < extend_run go m (Suc run) \<longrightarrow> go i)"
      using True by (intro less.hyps) (simp_all add: diff_less_mono2)
    ultimately show ?thesis using True by (metis Suc_leD Suc_leI le_neq_implies_less)
  next
    case False
    then have "extend_run go m run = run" by (subst extend_run.simps) auto
    with less.prems show ?thesis by simp
  qed
qed

lemma stable_rev:
  assumes "sorted_wrt (\<lambda>x y. key y < key x) xs"
  shows "stable (key :: 'a \<Rightarrow> 'k::linorder) xs (rev xs)" "sorted_by key (rev xs)"
proof -
  show "stable key xs (rev xs)"
    using assms
  proof (induction xs)
    case (Cons x xs)
    then have "stable key ([x] @ xs) (xs @ [x])" by (intro stable_swap) auto
    moreover have "stable key (xs @ [x]) (rev xs @ [x])" using Cons by (intro stable_append) simp_all
    ultimately show ?case by (auto intro: stable_trans)
  qed simp
  have "sorted_wrt (\<lambda>x y. key x < key y) (rev xs)" using assms by (simp add: sorted_wrt_rev)
  then show "sorted_by key (rev xs)" unfolding sorted_map by (rule sorted_wrt_mono_rel [rotated]) simp
qed

lemma chain_sorted_wrt:
  assumes "transp R" "\<And>i. Suc i < n \<Longrightarrow> R (xs ! i) (xs ! Suc i)" "n \<le> length xs"
  shows "sorted_wrt R (take n xs)"
proof -
  have "R (xs ! i) (xs ! (i + Suc d))" if "i + Suc d < n" for i d
    using that
  proof (induction d)
    case (Suc d)
    then have "R (xs ! i) (xs ! (i + Suc d))" "R (xs ! (i + Suc d)) (xs ! Suc (i + Suc d))"
      using assms(2) [of "i + Suc d"] by auto
    then show ?case using assms(1) by (auto elim: transpE)
  qed (use assms(2) in simp)
  then show ?thesis using assms(3) by (auto simp: sorted_wrt_iff_nth_less dest!: less_imp_Suc_add)
qed

lemma count_run_asc_run:
  assumes "count_run_asc key arr = (arr', run)"
  shows "stable key arr arr'" "run \<le> length arr" "arr \<noteq> [] \<Longrightarrow> 0 < run" "sorted_by key (take run arr')"
    "drop run arr' = drop run arr"
proof -
  have "stable key arr arr' \<and> run \<le> length arr \<and> (arr \<noteq> [] \<longrightarrow> 0 < run) \<and> sorted_by key (take run arr') \<and>
      drop run arr' = drop run arr"
  proof (cases "length arr \<le> 1")
    case True
    then have "arr = [] \<or> (\<exists>x. arr = [x])" by (cases arr; cases "tl arr") auto
    then show ?thesis using assms True by (auto simp: count_run_asc_def)
  next
    case False
    then have n: "1 \<le> length arr - 1" "arr \<noteq> []" by auto
    show ?thesis
    proof (cases "key (arr ! 1) < key (arr ! 0)")
      case True
      let ?go = "\<lambda>i. \<not> key (arr ! (i + 1)) \<ge> key (arr ! i)"
      define m where "m = extend_run ?go (length arr - 1) 1"
      note b = extend_run_bounds [OF n(1), of ?go, folded m_def]
      have r: "run = Suc m" "arr' = reverse_loop 0 m arr"
        using assms True False by (auto simp: count_run_asc_def Let_def m_def)
      have le: "run \<le> length arr" using b n(2) r False by auto
      have "key (arr ! Suc i) < key (arr ! i)" if "Suc i < run" for i
        using b True that r by (cases i) (auto simp: not_le)
      then have d: "sorted_wrt (\<lambda>x y. key y < key x) (take run arr)"
        using le by (intro chain_sorted_wrt) (auto intro: transpI)
      have "arr' = rev (take run arr) @ drop run arr"
        using reverse_loop_rev [of "[]" 0 "take run arr" m "drop run arr"] le r by simp
      moreover have "stable key (take run arr @ drop run arr) (rev (take run arr) @ drop run arr)"
        by (intro stable_append stable_rev(1) [OF d] stable_refl)
      ultimately show ?thesis using stable_rev(2) [OF d] le r by simp
    next
      case asc: False
      let ?go = "\<lambda>i. \<not> key (arr ! (i + 1)) < key (arr ! i)"
      define m where "m = extend_run ?go (length arr - 1) 1"
      note b = extend_run_bounds [OF n(1), of ?go, folded m_def]
      have r: "run = Suc m" "arr' = arr"
        using assms asc False by (auto simp: count_run_asc_def Let_def m_def)
      have le: "run \<le> length arr" using b n(2) r False by auto
      have "key (arr ! i) \<le> key (arr ! Suc i)" if "Suc i < run" for i
        using b asc that r by (cases i) (auto simp: not_less)
      then have "sorted_wrt (\<lambda>x y. key x \<le> key y) (take run arr)"
        using le by (intro chain_sorted_wrt) (auto intro: transpI)
      then show ?thesis using le r by (simp add: sorted_map)
    qed
  qed
  then show "stable key arr arr'" "run \<le> length arr" "arr \<noteq> [] \<Longrightarrow> 0 < run" "sorted_by key (take run arr')"
    "drop run arr' = drop run arr" by auto
qed

end
