(* ===== verification/Sublimation_Inplace.thy ===== *)
theory Sublimation_Inplace
  imports Sublimation_Merge
begin

unbundle bit_operations_syntax

text \<open>
  The two in-place merges of \<open>sublimation/src/merge_impl.h\<close> and the pair merge that chooses between them.
  The copied run lives in \<open>tmp\<close>, the other stays in the array, and the output is written into the gap that
  opens between them; the proofs are about that gap.
\<close>

section \<open>State\<close>

text \<open>
  Pointers are indices, \<open>c1\<close> and \<open>c2\<close> into the left and right run, \<open>dest\<close> into the array; \<open>lr\<close> and \<open>rr\<close>
  count what is left of each run. \<open>merge_hi\<close> runs downwards, and its three pointers are kept one past the
  element they point at.
\<close>

record 'a merging =
  mg_arr :: "'a list"
  mg_c1 :: nat
  mg_c2 :: nat
  mg_dest :: nat
  mg_lr :: nat
  mg_rr :: nat

definition SUB_MIN_GALLOP :: nat where
  "SUB_MIN_GALLOP = 7"

text \<open>How galloping adapts the threshold after a round.\<close>

definition next_gallop :: "nat \<Rightarrow> nat \<Rightarrow> nat \<Rightarrow> nat" where
  "next_gallop cnt1 cnt2 g =
     (if cnt1 \<ge> SUB_MIN_GALLOP \<or> cnt2 \<ge> SUB_MIN_GALLOP then (if g > 1 then g - 1 else g) else g + 1)"

section \<open>Merging upwards\<close>

text \<open>Copying \<open>k\<close> elements from the front of the left run (in \<open>tmp\<close>) or of the right run.\<close>

definition lo_left :: "'a list \<Rightarrow> nat \<Rightarrow> 'a merging \<Rightarrow> 'a merging" where
  "lo_left tmp k s = s\<lparr>mg_arr := blit (mg_arr s) (mg_dest s) (segment (mg_c1 s) k tmp),
     mg_dest := mg_dest s + k, mg_c1 := mg_c1 s + k, mg_lr := mg_lr s - k\<rparr>"

definition lo_right :: "nat \<Rightarrow> 'a merging \<Rightarrow> 'a merging" where
  "lo_right k s = s\<lparr>mg_arr := blit (mg_arr s) (mg_dest s) (segment (mg_c2 s) k (mg_arr s)),
     mg_dest := mg_dest s + k, mg_c2 := mg_c2 s + k, mg_rr := mg_rr s - k\<rparr>"

text \<open>The condition of the outer loop; every \<open>goto done_lo\<close> is taken when it has just become false.\<close>

definition lo_more :: "'a merging \<Rightarrow> bool" where
  "lo_more s \<longleftrightarrow> mg_lr s > 1 \<and> mg_rr s > 0"

function lo_pairs :: "('a \<Rightarrow> 'k::linorder) \<Rightarrow> 'a list \<Rightarrow> nat \<Rightarrow> nat \<Rightarrow> nat \<Rightarrow> 'a merging \<Rightarrow> 'a merging" where
  "lo_pairs key tmp g cnt1 cnt2 s =
     (if lo_more s then
        if key (mg_arr s ! mg_c2 s) < key (tmp ! mg_c1 s)
        then let s' = lo_right 1 s in
          if mg_rr s' = 0 then s' else if (0 OR (cnt2 + 1)) < g then lo_pairs key tmp g 0 (cnt2 + 1) s' else s'
        else let s' = lo_left tmp 1 s in
          if mg_lr s' = 1 then s' else if ((cnt1 + 1) OR 0) < g then lo_pairs key tmp g (cnt1 + 1) 0 s' else s'
      else s)"
  by auto
termination
  by (relation "measure (\<lambda>(_, _, _, _, _, s). mg_lr s + mg_rr s)") (auto simp: lo_more_def lo_left_def lo_right_def)

declare lo_pairs.simps [simp del]

text \<open>One round of galloping: the two counts, or nothing when a \<open>goto\<close> left the loop.\<close>

definition lo_gallop :: "('a \<Rightarrow> 'k::linorder) \<Rightarrow> 'a list \<Rightarrow> 'a merging \<Rightarrow> (nat \<times> nat) option \<times> 'a merging" where
  "lo_gallop key tmp s =
     (let cnt1 = gallop_right key (mg_arr s ! mg_c2 s) (drop (mg_c1 s) tmp) (mg_lr s) 0;
          s1 = lo_left tmp cnt1 s
      in if cnt1 > 0 \<and> mg_lr s1 \<le> 1 then (None, s1)
      else let s2 = lo_right 1 s1
      in if mg_rr s2 = 0 then (None, s2)
      else let cnt2 = gallop_left key (tmp ! mg_c1 s2) (drop (mg_c2 s2) (mg_arr s2)) (mg_rr s2) 0;
               s3 = lo_right cnt2 s2
      in if cnt2 > 0 \<and> mg_rr s3 = 0 then (None, s3)
      else let s4 = lo_left tmp 1 s3
      in if mg_lr s4 = 1 then (None, s4) else (Some (cnt1, cnt2), s4))"

lemma lo_copy_counts [simp]:
  "mg_lr (lo_left tmp k s) = mg_lr s - k" "mg_rr (lo_left tmp k s) = mg_rr s"
  "mg_lr (lo_right k s) = mg_lr s" "mg_rr (lo_right k s) = mg_rr s - k"
  by (simp_all add: lo_left_def lo_right_def)

lemma lo_gallop_cases:
  assumes "lo_gallop key tmp s = (c, s')"
  obtains cnt1 s1 s2 cnt2 s3 where
    "cnt1 = gallop_right key (mg_arr s ! mg_c2 s) (drop (mg_c1 s) tmp) (mg_lr s) 0"
    "s1 = lo_left tmp cnt1 s" "s2 = lo_right 1 s1"
    "cnt2 = gallop_left key (tmp ! mg_c1 s2) (drop (mg_c2 s2) (mg_arr s2)) (mg_rr s2) 0"
    "s3 = lo_right cnt2 s2"
    "c = None \<and> cnt1 > 0 \<and> mg_lr s1 \<le> 1 \<and> s' = s1 \<or>
     (cnt1 = 0 \<or> mg_lr s1 > 1) \<and> (c = None \<and> mg_rr s2 = 0 \<and> s' = s2 \<or>
       mg_rr s2 \<noteq> 0 \<and> (c = None \<and> cnt2 > 0 \<and> mg_rr s3 = 0 \<and> s' = s3 \<or>
         (cnt2 = 0 \<or> mg_rr s3 \<noteq> 0) \<and> s' = lo_left tmp 1 s3))"
proof -
  define cnt1 where "cnt1 = gallop_right key (mg_arr s ! mg_c2 s) (drop (mg_c1 s) tmp) (mg_lr s) 0"
  define s1 s2 where "s1 = lo_left tmp cnt1 s" and "s2 = lo_right 1 s1"
  define cnt2 where "cnt2 = gallop_left key (tmp ! mg_c1 s2) (drop (mg_c2 s2) (mg_arr s2)) (mg_rr s2) 0"
  define s3 where "s3 = lo_right cnt2 s2"
  note defs = cnt1_def s1_def s2_def cnt2_def s3_def
  show thesis
    using assms unfolding lo_gallop_def Let_def unfolding defs [symmetric]
    by (intro that [OF defs]) (auto split: if_split_asm simp del: lo_copy_counts)
qed

lemma lo_gallop_shrinks:
  assumes "mg_rr s > 0" "lo_gallop key tmp s = (c, s')" "c \<noteq> None"
  shows "mg_lr s' + mg_rr s' < mg_lr s + mg_rr s"
  using assms(2) by (rule lo_gallop_cases) (use assms(1,3) in auto)

lemma lo_gallop_le:
  assumes "lo_gallop key tmp s = (c, s')"
  shows "mg_lr s' + mg_rr s' \<le> mg_lr s + mg_rr s"
  using assms by (rule lo_gallop_cases) auto

function lo_gallops :: "('a \<Rightarrow> 'k::linorder) \<Rightarrow> 'a list \<Rightarrow> nat \<Rightarrow> 'a merging \<Rightarrow> nat \<times> 'a merging" where
  "lo_gallops key tmp g s =
     (if lo_more s then
        (case lo_gallop key tmp s of
           (None, s') \<Rightarrow> (g, s')
         | (Some (cnt1, cnt2), s') \<Rightarrow>
             if cnt1 \<ge> SUB_MIN_GALLOP \<or> cnt2 \<ge> SUB_MIN_GALLOP
             then lo_gallops key tmp (next_gallop cnt1 cnt2 g) s'
             else (next_gallop cnt1 cnt2 g, s'))
      else (g, s))"
  by auto
termination
  by (relation "measure (\<lambda>(_, _, _, s). mg_lr s + mg_rr s)")
    (auto simp: lo_more_def intro!: lo_gallop_shrinks [OF _ sym])

declare lo_gallops.simps [simp del]

lemma lo_pairs_inv:
  assumes "P s" and "\<And>s. P s \<Longrightarrow> lo_more s \<Longrightarrow> key (mg_arr s ! mg_c2 s) < key (tmp ! mg_c1 s) \<Longrightarrow> P (lo_right 1 s)"
    and "\<And>s. P s \<Longrightarrow> lo_more s \<Longrightarrow> \<not> key (mg_arr s ! mg_c2 s) < key (tmp ! mg_c1 s) \<Longrightarrow> P (lo_left tmp 1 s)"
  shows "P (lo_pairs key tmp g c1 c2 s)"
  using assms(1)
proof (induction "mg_lr s + mg_rr s" arbitrary: s c1 c2 rule: less_induct)
  case less
  show ?case
  proof (cases "lo_more s")
    case True
    then have "mg_lr (lo_right 1 s) + mg_rr (lo_right 1 s) < mg_lr s + mg_rr s"
      "mg_lr (lo_left tmp 1 s) + mg_rr (lo_left tmp 1 s) < mg_lr s + mg_rr s"
      by (auto simp: lo_more_def lo_left_def lo_right_def)
    with less True assms(2,3) show ?thesis by (subst lo_pairs.simps) (simp add: Let_def)
  qed (use less in \<open>subst lo_pairs.simps, simp\<close>)
qed

lemma lo_pairs_shrinks:
  "mg_lr (lo_pairs key tmp g c1 c2 s) + mg_rr (lo_pairs key tmp g c1 c2 s) \<le> mg_lr s + mg_rr s \<and>
   (lo_more s \<longrightarrow> mg_lr (lo_pairs key tmp g c1 c2 s) + mg_rr (lo_pairs key tmp g c1 c2 s) < mg_lr s + mg_rr s)"
proof (induction key tmp g c1 c2 s rule: lo_pairs.induct)
  case (1 key tmp g c1 c2 s)
  show ?case
  proof (cases "lo_more s")
    case True
    then have "mg_lr (lo_right 1 s) + mg_rr (lo_right 1 s) < mg_lr s + mg_rr s"
      "mg_lr (lo_left tmp 1 s) + mg_rr (lo_left tmp 1 s) < mg_lr s + mg_rr s"
      by (auto simp: lo_more_def lo_left_def lo_right_def)
    with 1 True show ?thesis by (subst (1 2 3 4) lo_pairs.simps) (fastforce simp: Let_def)
  next
    case False
    then show ?thesis by (subst (1 2 3 4) lo_pairs.simps) simp
  qed
qed

lemma lo_gallops_inv:
  assumes "P s" and "\<And>s c s'. P s \<Longrightarrow> lo_more s \<Longrightarrow> lo_gallop key tmp s = (c, s') \<Longrightarrow> P s'"
  shows "P (snd (lo_gallops key tmp g s))"
  using assms(1)
proof (induction "mg_lr s + mg_rr s" arbitrary: s g rule: less_induct)
  case less
  obtain c s' where c: "lo_gallop key tmp s = (c, s')" by force
  show ?case
  proof (cases "lo_more s")
    case True
    then have "P s'" using assms(2) less.prems c by blast
    moreover have "mg_lr s' + mg_rr s' < mg_lr s + mg_rr s" if "c \<noteq> None"
      using lo_gallop_shrinks [OF _ c that] True by (simp add: lo_more_def)
    ultimately show ?thesis using True c less.hyps [of s']
      by (subst lo_gallops.simps) (auto split: option.splits)
  qed (use less in \<open>subst lo_gallops.simps, simp\<close>)
qed

lemma lo_gallops_le: "lo_gallops key tmp g s = (g', s') \<Longrightarrow> mg_lr s' + mg_rr s' \<le> mg_lr s + mg_rr s"
  using lo_gallops_inv [of "\<lambda>s'. mg_lr s' + mg_rr s' \<le> mg_lr s + mg_rr s" s key tmp g] lo_gallop_le
  by (metis (no_types, lifting) order_refl order_trans snd_conv)

function lo_loop :: "('a \<Rightarrow> 'k::linorder) \<Rightarrow> 'a list \<Rightarrow> nat \<Rightarrow> 'a merging \<Rightarrow> nat \<times> 'a merging" where
  "lo_loop key tmp g s =
     (if lo_more s then
        let s1 = lo_pairs key tmp g 0 0 s in
        if \<not> lo_more s1 then (g, s1)
        else let (g2, s2) = lo_gallops key tmp g s1 in
        if \<not> lo_more s2 then (g2, s2) else lo_loop key tmp (g2 + 1) s2
      else (g, s))"
  by auto
termination
proof (relation "measure (\<lambda>(_, _, _, s). mg_lr s + mg_rr s)")
  fix key :: "'a \<Rightarrow> 'k::linorder" and tmp g s s1 x g2 s2
  assume "lo_more s" "s1 = lo_pairs key tmp g 0 0 s" "x = lo_gallops key tmp g s1" "(g2, s2) = x"
  then show "((key, tmp, g2 + 1, s2), key, tmp, g, s) \<in> measure (\<lambda>(_, _, _, s). mg_lr s + mg_rr s)"
    using lo_pairs_shrinks [of key tmp g 0 0 s] lo_gallops_le [of key tmp g s1 g2 s2] by simp
qed simp

declare lo_loop.simps [simp del]

definition merge_lo :: "('a \<Rightarrow> 'k::linorder) \<Rightarrow> 'a list \<Rightarrow> nat \<Rightarrow> nat \<Rightarrow> nat \<Rightarrow> nat \<Rightarrow> 'a list \<times> nat" where
  "merge_lo key arr base left_len right_len g =
     (let tmp = segment base left_len arr;
          (g', s) = lo_loop key tmp g \<lparr>mg_arr = arr, mg_c1 = 0, mg_c2 = base + left_len, mg_dest = base,
                                      mg_lr = left_len, mg_rr = right_len\<rparr>
      in if mg_lr s = 1
         then ((blit (mg_arr s) (mg_dest s) (segment (mg_c2 s) (mg_rr s) (mg_arr s)))
                 [mg_dest s + mg_rr s := tmp ! mg_c1 s], g')
         else if mg_lr s > 0
         then (blit (mg_arr s) (mg_dest s) (segment (mg_c1 s) (mg_lr s) tmp), g')
         else (mg_arr s, g'))"

section \<open>Merging downwards\<close>

definition hi_left :: "nat \<Rightarrow> 'a merging \<Rightarrow> 'a merging" where
  "hi_left k s = s\<lparr>mg_arr := blit (mg_arr s) (mg_dest s - k) (segment (mg_c1 s - k) k (mg_arr s)),
     mg_dest := mg_dest s - k, mg_c1 := mg_c1 s - k, mg_lr := mg_lr s - k\<rparr>"

definition hi_right :: "'a list \<Rightarrow> nat \<Rightarrow> 'a merging \<Rightarrow> 'a merging" where
  "hi_right tmp k s = s\<lparr>mg_arr := blit (mg_arr s) (mg_dest s - k) (segment (mg_c2 s - k) k tmp),
     mg_dest := mg_dest s - k, mg_c2 := mg_c2 s - k, mg_rr := mg_rr s - k\<rparr>"

definition hi_more :: "'a merging \<Rightarrow> bool" where
  "hi_more s \<longleftrightarrow> mg_lr s > 0 \<and> mg_rr s > 1"

function hi_pairs :: "('a \<Rightarrow> 'k::linorder) \<Rightarrow> 'a list \<Rightarrow> nat \<Rightarrow> nat \<Rightarrow> nat \<Rightarrow> 'a merging \<Rightarrow> 'a merging" where
  "hi_pairs key tmp g cnt1 cnt2 s =
     (if hi_more s then
        if key (tmp ! (mg_c2 s - 1)) < key (mg_arr s ! (mg_c1 s - 1))
        then let s' = hi_left 1 s in
          if mg_lr s' = 0 then s' else if ((cnt1 + 1) OR 0) < g then hi_pairs key tmp g (cnt1 + 1) 0 s' else s'
        else let s' = hi_right tmp 1 s in
          if mg_rr s' = 1 then s' else if (0 OR (cnt2 + 1)) < g then hi_pairs key tmp g 0 (cnt2 + 1) s' else s'
      else s)"
  by auto
termination
  by (relation "measure (\<lambda>(_, _, _, _, _, s). mg_lr s + mg_rr s)") (auto simp: hi_more_def hi_left_def hi_right_def)

declare hi_pairs.simps [simp del]

definition hi_gallop :: "('a \<Rightarrow> 'k::linorder) \<Rightarrow> 'a list \<Rightarrow> nat \<Rightarrow> 'a merging \<Rightarrow> (nat \<times> nat) option \<times> 'a merging" where
  "hi_gallop key tmp base s =
     (let cnt1 = mg_lr s - gallop_right key (tmp ! (mg_c2 s - 1)) (drop base (mg_arr s)) (mg_lr s) (mg_lr s - 1);
          s1 = hi_left cnt1 s
      in if cnt1 > 0 \<and> mg_lr s1 = 0 then (None, s1)
      else let s2 = hi_right tmp 1 s1
      in if mg_rr s2 = 1 then (None, s2)
      else let cnt2 = mg_rr s2 - gallop_left key (mg_arr s2 ! (mg_c1 s2 - 1)) tmp (mg_rr s2) (mg_rr s2 - 1);
               s3 = hi_right tmp cnt2 s2
      in if cnt2 > 0 \<and> mg_rr s3 \<le> 1 then (None, s3)
      else let s4 = hi_left 1 s3
      in if mg_lr s4 = 0 then (None, s4) else (Some (cnt1, cnt2), s4))"

lemma hi_copy_counts [simp]:
  "mg_lr (hi_left k s) = mg_lr s - k" "mg_rr (hi_left k s) = mg_rr s"
  "mg_lr (hi_right tmp k s) = mg_lr s" "mg_rr (hi_right tmp k s) = mg_rr s - k"
  by (simp_all add: hi_left_def hi_right_def)

lemma hi_gallop_cases:
  assumes "hi_gallop key tmp base s = (c, s')"
  obtains cnt1 s1 s2 cnt2 s3 where
    "cnt1 = mg_lr s - gallop_right key (tmp ! (mg_c2 s - 1)) (drop base (mg_arr s)) (mg_lr s) (mg_lr s - 1)"
    "s1 = hi_left cnt1 s" "s2 = hi_right tmp 1 s1"
    "cnt2 = mg_rr s2 - gallop_left key (mg_arr s2 ! (mg_c1 s2 - 1)) tmp (mg_rr s2) (mg_rr s2 - 1)"
    "s3 = hi_right tmp cnt2 s2"
    "c = None \<and> cnt1 > 0 \<and> mg_lr s1 = 0 \<and> s' = s1 \<or>
     (cnt1 = 0 \<or> mg_lr s1 \<noteq> 0) \<and> (c = None \<and> mg_rr s2 = 1 \<and> s' = s2 \<or>
       mg_rr s2 \<noteq> 1 \<and> (c = None \<and> cnt2 > 0 \<and> mg_rr s3 \<le> 1 \<and> s' = s3 \<or>
         (cnt2 = 0 \<or> mg_rr s3 > 1) \<and> s' = hi_left 1 s3))"
proof -
  define cnt1 where "cnt1 = mg_lr s - gallop_right key (tmp ! (mg_c2 s - 1)) (drop base (mg_arr s)) (mg_lr s) (mg_lr s - 1)"
  define s1 s2 where "s1 = hi_left cnt1 s" and "s2 = hi_right tmp 1 s1"
  define cnt2 where "cnt2 = mg_rr s2 - gallop_left key (mg_arr s2 ! (mg_c1 s2 - 1)) tmp (mg_rr s2) (mg_rr s2 - 1)"
  define s3 where "s3 = hi_right tmp cnt2 s2"
  note defs = cnt1_def s1_def s2_def cnt2_def s3_def
  show thesis
    using assms unfolding hi_gallop_def Let_def unfolding defs [symmetric]
    by (intro that [OF defs]) (auto split: if_split_asm simp del: hi_copy_counts)
qed

lemma hi_gallop_counts:
  assumes "hi_gallop key tmp base s = (c, s')"
  shows "mg_lr s' \<le> mg_lr s \<and> mg_rr s' \<le> mg_rr s \<and> (c \<noteq> None \<longrightarrow> mg_rr s' \<le> mg_rr s - 1)"
proof (rule hi_gallop_cases [OF assms])
  fix cnt1 cnt2 :: nat and s1 s2 s3 :: "'a merging"
  assume s: "s1 = hi_left cnt1 s" "s2 = hi_right tmp 1 s1" "s3 = hi_right tmp cnt2 s2"
    and d: "c = None \<and> cnt1 > 0 \<and> mg_lr s1 = 0 \<and> s' = s1 \<or>
     (cnt1 = 0 \<or> mg_lr s1 \<noteq> 0) \<and> (c = None \<and> mg_rr s2 = 1 \<and> s' = s2 \<or>
       mg_rr s2 \<noteq> 1 \<and> (c = None \<and> cnt2 > 0 \<and> mg_rr s3 \<le> 1 \<and> s' = s3 \<or>
         (cnt2 = 0 \<or> mg_rr s3 > 1) \<and> s' = hi_left 1 s3))"
  have "mg_lr s1 \<le> mg_lr s" "mg_rr s1 = mg_rr s" "mg_lr s2 = mg_lr s1" "mg_rr s2 = mg_rr s - 1" "mg_lr s3 = mg_lr s1"
    "mg_rr s3 \<le> mg_rr s2" "mg_lr (hi_left 1 s3) \<le> mg_lr s3" "mg_rr (hi_left 1 s3) = mg_rr s3" by (simp_all add: s)
  with d show ?thesis by (auto simp del: hi_copy_counts)
qed

lemma hi_gallop_shrinks:
  "mg_rr s > 1 \<Longrightarrow> hi_gallop key tmp base s = (c, s') \<Longrightarrow> c \<noteq> None \<Longrightarrow> mg_lr s' + mg_rr s' < mg_lr s + mg_rr s"
  using hi_gallop_counts [of key tmp base s c s'] by auto

lemma hi_gallop_le: "hi_gallop key tmp base s = (c, s') \<Longrightarrow> mg_lr s' + mg_rr s' \<le> mg_lr s + mg_rr s"
  using hi_gallop_counts [of key tmp base s c s'] by auto

function hi_gallops :: "('a \<Rightarrow> 'k::linorder) \<Rightarrow> 'a list \<Rightarrow> nat \<Rightarrow> nat \<Rightarrow> 'a merging \<Rightarrow> nat \<times> 'a merging" where
  "hi_gallops key tmp base g s =
     (if hi_more s then
        (case hi_gallop key tmp base s of
           (None, s') \<Rightarrow> (g, s')
         | (Some (cnt1, cnt2), s') \<Rightarrow>
             if cnt1 \<ge> SUB_MIN_GALLOP \<or> cnt2 \<ge> SUB_MIN_GALLOP
             then hi_gallops key tmp base (next_gallop cnt1 cnt2 g) s'
             else (next_gallop cnt1 cnt2 g, s'))
      else (g, s))"
  by auto
termination
  by (relation "measure (\<lambda>(_, _, _, _, s). mg_lr s + mg_rr s)")
    (auto simp: hi_more_def intro!: hi_gallop_shrinks [OF _ sym])

declare hi_gallops.simps [simp del]

lemma hi_pairs_inv:
  assumes "P s" and "\<And>s. P s \<Longrightarrow> hi_more s \<Longrightarrow> key (tmp ! (mg_c2 s - 1)) < key (mg_arr s ! (mg_c1 s - 1)) \<Longrightarrow> P (hi_left 1 s)"
    and "\<And>s. P s \<Longrightarrow> hi_more s \<Longrightarrow> \<not> key (tmp ! (mg_c2 s - 1)) < key (mg_arr s ! (mg_c1 s - 1)) \<Longrightarrow> P (hi_right tmp 1 s)"
  shows "P (hi_pairs key tmp g c1 c2 s)"
  using assms(1)
proof (induction "mg_lr s + mg_rr s" arbitrary: s c1 c2 rule: less_induct)
  case less
  show ?case
  proof (cases "hi_more s")
    case True
    then have "mg_lr (hi_left 1 s) + mg_rr (hi_left 1 s) < mg_lr s + mg_rr s"
      "mg_lr (hi_right tmp 1 s) + mg_rr (hi_right tmp 1 s) < mg_lr s + mg_rr s"
      by (auto simp: hi_more_def hi_left_def hi_right_def)
    with less True assms(2,3) show ?thesis by (subst hi_pairs.simps) (simp add: Let_def)
  qed (use less in \<open>subst hi_pairs.simps, simp\<close>)
qed

lemma hi_pairs_shrinks:
  "mg_lr (hi_pairs key tmp g c1 c2 s) + mg_rr (hi_pairs key tmp g c1 c2 s) \<le> mg_lr s + mg_rr s \<and>
   (hi_more s \<longrightarrow> mg_lr (hi_pairs key tmp g c1 c2 s) + mg_rr (hi_pairs key tmp g c1 c2 s) < mg_lr s + mg_rr s)"
proof (induction key tmp g c1 c2 s rule: hi_pairs.induct)
  case (1 key tmp g c1 c2 s)
  show ?case
  proof (cases "hi_more s")
    case True
    then have "mg_lr (hi_left 1 s) + mg_rr (hi_left 1 s) < mg_lr s + mg_rr s"
      "mg_lr (hi_right tmp 1 s) + mg_rr (hi_right tmp 1 s) < mg_lr s + mg_rr s"
      by (auto simp: hi_more_def hi_left_def hi_right_def)
    with 1 True show ?thesis by (subst (1 2 3 4) hi_pairs.simps) (fastforce simp: Let_def)
  next
    case False
    then show ?thesis by (subst (1 2 3 4) hi_pairs.simps) simp
  qed
qed

lemma hi_gallops_inv:
  assumes "P s" and "\<And>s c s'. P s \<Longrightarrow> hi_more s \<Longrightarrow> hi_gallop key tmp base s = (c, s') \<Longrightarrow> P s'"
  shows "P (snd (hi_gallops key tmp base g s))"
  using assms(1)
proof (induction "mg_lr s + mg_rr s" arbitrary: s g rule: less_induct)
  case less
  obtain c s' where c: "hi_gallop key tmp base s = (c, s')" by force
  show ?case
  proof (cases "hi_more s")
    case True
    then have "P s'" using assms(2) less.prems c by blast
    moreover have "mg_lr s' + mg_rr s' < mg_lr s + mg_rr s" if "c \<noteq> None"
      using hi_gallop_shrinks [OF _ c that] True by (simp add: hi_more_def)
    ultimately show ?thesis using True c less.hyps [of s']
      by (subst hi_gallops.simps) (auto split: option.splits)
  qed (use less in \<open>subst hi_gallops.simps, simp\<close>)
qed

lemma hi_gallops_le: "hi_gallops key tmp base g s = (g', s') \<Longrightarrow> mg_lr s' + mg_rr s' \<le> mg_lr s + mg_rr s"
  using hi_gallops_inv [of "\<lambda>s'. mg_lr s' + mg_rr s' \<le> mg_lr s + mg_rr s" s key tmp base g] hi_gallop_le
  by (metis (no_types, lifting) order_refl order_trans snd_conv)

function hi_loop :: "('a \<Rightarrow> 'k::linorder) \<Rightarrow> 'a list \<Rightarrow> nat \<Rightarrow> nat \<Rightarrow> 'a merging \<Rightarrow> nat \<times> 'a merging" where
  "hi_loop key tmp base g s =
     (if hi_more s then
        let s1 = hi_pairs key tmp g 0 0 s in
        if \<not> hi_more s1 then (g, s1)
        else let (g2, s2) = hi_gallops key tmp base g s1 in
        if \<not> hi_more s2 then (g2, s2) else hi_loop key tmp base (g2 + 1) s2
      else (g, s))"
  by auto
termination
proof (relation "measure (\<lambda>(_, _, _, _, s). mg_lr s + mg_rr s)")
  fix key :: "'a \<Rightarrow> 'k::linorder" and tmp base g s s1 x g2 s2
  assume "hi_more s" "s1 = hi_pairs key tmp g 0 0 s" "x = hi_gallops key tmp base g s1" "(g2, s2) = x"
  then show "((key, tmp, base, g2 + 1, s2), key, tmp, base, g, s) \<in> measure (\<lambda>(_, _, _, _, s). mg_lr s + mg_rr s)"
    using hi_pairs_shrinks [of key tmp g 0 0 s] hi_gallops_le [of key tmp base g s1 g2 s2] by simp
qed simp

declare hi_loop.simps [simp del]

definition merge_hi :: "('a \<Rightarrow> 'k::linorder) \<Rightarrow> 'a list \<Rightarrow> nat \<Rightarrow> nat \<Rightarrow> nat \<Rightarrow> nat \<Rightarrow> 'a list \<times> nat" where
  "merge_hi key arr base left_len right_len g =
     (let tmp = segment (base + left_len) right_len arr;
          (g', s) = hi_loop key tmp base g \<lparr>mg_arr = arr, mg_c1 = base + left_len, mg_c2 = right_len,
                      mg_dest = base + left_len + right_len, mg_lr = left_len, mg_rr = right_len\<rparr>
      in if mg_rr s = 1
         then ((blit (mg_arr s) (mg_dest s - mg_lr s) (segment (mg_c1 s - mg_lr s) (mg_lr s) (mg_arr s)))
                 [mg_dest s - mg_lr s - 1 := tmp ! (mg_c2 s - 1)], g')
         else if mg_rr s > 0
         then (blit (mg_arr s) base (segment 0 (mg_rr s) tmp), g')
         else (mg_arr s, g'))"

definition merge_pair :: "('a \<Rightarrow> 'k::linorder) \<Rightarrow> 'a list \<Rightarrow> nat \<Rightarrow> nat \<Rightarrow> nat \<Rightarrow> nat \<Rightarrow> 'a list \<times> nat" where
  "merge_pair key arr base_idx len1 len2 g =
     (if len1 = 0 \<or> len2 = 0 then (arr, g)
      else let b2 = base_idx + len1;
               k = gallop_right key (arr ! b2) (drop base_idx arr) len1 0;
               b1 = base_idx + k; len1' = len1 - k
      in if len1' = 0 then (arr, g)
      else let len2' = gallop_left key (arr ! (b1 + len1' - 1)) (drop b2 arr) len2 (if len2 > 0 then len2 - 1 else 0)
      in if len2' = 0 then (arr, g)
      else if len1' \<le> len2' then merge_lo key arr b1 len1' len2' g else merge_hi key arr b1 len1' len2' g)"

end
