(* ===== verification/Sublimation_Pair.thy ===== *)
theory Sublimation_Pair
  imports Sublimation_Inplace
begin

text \<open>
  Correctness of the in-place merges: the gap between output and input is always as long as what remains
  of the copied run, so no unread element is overwritten, and what has been written followed by the stable
  sort of what remains is the stable sort of the two runs.
\<close>

section \<open>Merging upwards\<close>

text \<open>\<open>Z\<close> is the wanted result, between \<open>pre\<close> and \<open>post\<close>.\<close>

definition lo_inv :: "('a \<Rightarrow> 'k::linorder) \<Rightarrow> 'a list \<Rightarrow> 'a list \<Rightarrow> 'a list \<Rightarrow> 'a list \<Rightarrow> 'a merging \<Rightarrow> bool" where
  "lo_inv key tmp pre post Z s \<longleftrightarrow> (\<exists>out l r hole.
     mg_arr s = pre @ out @ hole @ r @ post \<and> length hole = length l \<and>
     mg_dest s = length pre + length out \<and> mg_c2 s = mg_dest s + length l \<and>
     mg_lr s = length l \<and> mg_rr s = length r \<and> mg_c1 s \<le> length tmp \<and> drop (mg_c1 s) tmp = l \<and>
     sorted_by key l \<and> sorted_by key r \<and> l \<noteq> [] \<and> (\<forall>y \<in> set r. key y < key (last l)) \<and>
     out @ sort_key key (l @ r) = Z)"

lemma lo_invI:
  assumes "mg_arr s = pre @ out @ hole @ r @ post" "length hole = length l"
    "mg_dest s = length pre + length out" "mg_c2 s = mg_dest s + length l"
    "mg_lr s = length l" "mg_rr s = length r" "mg_c1 s \<le> length tmp" "drop (mg_c1 s) tmp = l"
    "sorted_by key l" "sorted_by key r" "l \<noteq> []" "\<forall>y \<in> set r. key y < key (last l)"
    "out @ sort_key key (l @ r) = Z"
  shows "lo_inv key tmp pre post Z s"
  unfolding lo_inv_def using assms by blast

lemma lo_invE:
  assumes "lo_inv key tmp pre post Z s"
  obtains out l r hole where "mg_arr s = pre @ out @ hole @ r @ post" "length hole = length l"
    "mg_dest s = length pre + length out" "mg_c2 s = mg_dest s + length l" "mg_lr s = length l" "mg_rr s = length r"
    "mg_c1 s \<le> length tmp" "drop (mg_c1 s) tmp = l" "sorted_by key l" "sorted_by key r" "l \<noteq> []"
    "\<forall>y \<in> set r. key y < key (last l)" "out @ sort_key key (l @ r) = Z"
  using assms unfolding lo_inv_def by blast

lemma lo_inv_runs:
  assumes "lo_inv key tmp pre post Z s"
  defines "l \<equiv> drop (mg_c1 s) tmp" and "r \<equiv> take (mg_rr s) (drop (mg_c2 s) (mg_arr s))"
  shows "mg_lr s = length l" "mg_rr s = length r" "sorted_by key l" "sorted_by key r" "l \<noteq> []"
    "\<forall>y \<in> set r. key y < key (last l)" "mg_c2 s + mg_rr s \<le> length (mg_arr s)"
  using assms(1) unfolding lo_inv_def l_def r_def by (auto simp: assms)

lemma lo_inv_left:
  assumes "lo_inv key tmp pre post Z s" "k < mg_lr s"
    and "\<forall>a \<in> set (take k (drop (mg_c1 s) tmp)). \<forall>b \<in> set (take (mg_rr s) (drop (mg_c2 s) (mg_arr s))). key a \<le> key b"
  shows "lo_inv key tmp pre post Z (lo_left tmp k s)"
proof (rule lo_invE [OF assms(1)])
  fix out l r hole
  assume i: "mg_arr s = pre @ out @ hole @ r @ post" "length hole = length l"
    "mg_dest s = length pre + length out" "mg_c2 s = mg_dest s + length l" "mg_lr s = length l" "mg_rr s = length r"
    "mg_c1 s \<le> length tmp" "drop (mg_c1 s) tmp = l" "sorted_by key l" "sorted_by key r" "l \<noteq> []"
    "\<forall>y \<in> set r. key y < key (last l)" "out @ sort_key key (l @ r) = Z"
  let ?l1 = "take k l" and ?l2 = "drop k l"
  have k: "k < length l" using assms(2) i(5) by simp
  have r: "take (mg_rr s) (drop (mg_c2 s) (mg_arr s)) = r" using i(1-4,6) by simp
  have "sort_key key (?l1 @ ?l2 @ r) = ?l1 @ sort_key key (?l2 @ r)"
    by (rule merge_take_left) (use i(8,9) assms(3) r in simp_all)
  then have Z: "(out @ ?l1) @ sort_key key (?l2 @ r) = Z" using i(13) by (simp flip: append_assoc)
  show ?thesis
  proof (rule lo_invI [OF _ _ _ _ _ _ _ _ _ i(10) _ _ Z])
    show "mg_arr (lo_left tmp k s) = pre @ (out @ ?l1) @ drop k hole @ r @ post"
      using i(1-3,8) k by (simp add: lo_left_def blit_def segment_def)
    show "drop (mg_c1 (lo_left tmp k s)) tmp = ?l2" using i(8) by (simp add: lo_left_def add.commute flip: drop_drop)
    show "mg_c1 (lo_left tmp k s) \<le> length tmp" using i(7,8) k by (auto simp: lo_left_def)
    show "sorted_by key ?l2" using i(9) by (simp add: sorted_wrt_drop flip: drop_map)
    show "\<forall>y \<in> set r. key y < key (last ?l2)" using i(12) k by simp
  qed (use i(2-6) k in \<open>simp_all add: lo_left_def\<close>)
qed

lemma lo_inv_right:
  assumes "lo_inv key tmp pre post Z s" "k \<le> mg_rr s"
    and "\<forall>a \<in> set (take k (drop (mg_c2 s) (mg_arr s))). \<forall>b \<in> set (drop (mg_c1 s) tmp). key a < key b"
  shows "lo_inv key tmp pre post Z (lo_right k s)"
proof (rule lo_invE [OF assms(1)])
  fix out l r hole
  assume i: "mg_arr s = pre @ out @ hole @ r @ post" "length hole = length l"
    "mg_dest s = length pre + length out" "mg_c2 s = mg_dest s + length l" "mg_lr s = length l" "mg_rr s = length r"
    "mg_c1 s \<le> length tmp" "drop (mg_c1 s) tmp = l" "sorted_by key l" "sorted_by key r" "l \<noteq> []"
    "\<forall>y \<in> set r. key y < key (last l)" "out @ sort_key key (l @ r) = Z"
  let ?r1 = "take k r" and ?r2 = "drop k r" and ?h = "drop k (hole @ take k r)"
  have k: "k \<le> length r" using assms(2) i(6) by simp
  have seg: "take k (drop (mg_c2 s) (mg_arr s)) = ?r1" using i(1-4) k by simp
  have e: "mg_arr s = (pre @ out) @ take k (hole @ ?r1) @ (?h @ ?r2 @ post)"
    unfolding i(1) by (metis append_assoc append_take_drop_id)
  have "sort_key key (l @ ?r1 @ ?r2) = ?r1 @ sort_key key (l @ ?r2)"
    by (rule merge_take_right) (use i(8,10) assms(3) seg in simp_all)
  then have Z: "(out @ ?r1) @ sort_key key (l @ ?r2) = Z" using i(13) by simp
  show ?thesis
  proof (rule lo_invI [OF _ _ _ _ _ _ _ _ i(9) _ i(11) _ Z])
    have "mg_arr (lo_right k s) = blit (mg_arr s) (length (pre @ out)) ?r1"
      using i(3) seg by (simp add: lo_right_def segment_def)
    also have "\<dots> = (pre @ out) @ ?r1 @ (?h @ ?r2 @ post)"
      unfolding e by (rule blit_append) (use k in simp_all)
    finally show "mg_arr (lo_right k s) = pre @ (out @ ?r1) @ ?h @ ?r2 @ post" by simp
    show "sorted_by key ?r2" using i(10) by (simp add: sorted_wrt_drop flip: drop_map)
    show "\<forall>y \<in> set ?r2. key y < key (last l)" using i(12) by (auto dest: in_set_dropD)
    show "drop (mg_c1 (lo_right k s)) tmp = l" using i(8) by (simp add: lo_right_def)
    show "mg_c1 (lo_right k s) \<le> length tmp" using i(7) by (simp add: lo_right_def)
  qed (use i(2-6) k in \<open>simp_all add: lo_right_def\<close>)
qed

lemma lo_pairs_lo_inv:
  assumes "lo_inv key tmp pre post Z s"
  shows "lo_inv key tmp pre post Z (lo_pairs key tmp g c1 c2 s)"
  using assms
proof (rule lo_pairs_inv [of "lo_inv key tmp pre post Z"])
  fix s assume s: "lo_inv key tmp pre post Z s" "lo_more s"
  note runs = lo_inv_runs [OF s(1)]
  let ?l = "drop (mg_c1 s) tmp" and ?r = "take (mg_rr s) (drop (mg_c2 s) (mg_arr s))"
  obtain x l where l: "?l = x # l" using runs(5) by (cases ?l) auto
  obtain y r where r: "?r = y # r" using runs(2) s(2) by (cases ?r) (auto simp: lo_more_def)
  have x: "tmp ! mg_c1 s = x" using l by (metis drop_eq_Nil list.distinct(1) nth_Cons_0 nth_drop not_less add.right_neutral nle_le)
  have y: "take 1 (drop (mg_c2 s) (mg_arr s)) = [y]" "mg_arr s ! mg_c2 s = y"
    using r runs(2,7) by (cases "drop (mg_c2 s) (mg_arr s)"; cases "mg_rr s"; auto simp: nth_via_drop)+
  show "lo_inv key tmp pre post Z (lo_right 1 s)" if "key (mg_arr s ! mg_c2 s) < key (tmp ! mg_c1 s)"
    using lo_inv_right [OF s(1), of 1] s(2) that runs(3) x y l by (fastforce simp: lo_more_def intro: less_le_trans)
  show "lo_inv key tmp pre post Z (lo_left tmp 1 s)" if "\<not> key (mg_arr s ! mg_c2 s) < key (tmp ! mg_c1 s)"
  proof -
    have "key x \<le> key y" using that x y by (simp add: not_less)
    then show ?thesis
      using lo_inv_left [OF s(1), of 1] s(2) runs(4) l r by (fastforce simp: lo_more_def intro: order_trans)
  qed
qed

lemma drop_blit: "d + length ys \<le> n \<Longrightarrow> d + length ys \<le> length xs \<Longrightarrow> drop n (blit xs d ys) = drop n xs"
  by (simp add: blit_def)

text \<open>Copying leaves the unread part of the right run alone.\<close>

lemma lo_copy_right_run:
  assumes "lo_inv key tmp pre post Z s"
  shows "k \<le> mg_lr s \<Longrightarrow> drop (mg_c2 s) (mg_arr (lo_left tmp k s)) = drop (mg_c2 s) (mg_arr s)"
    "k \<le> mg_rr s \<Longrightarrow> drop (mg_c2 s + k) (mg_arr (lo_right k s)) = drop (mg_c2 s + k) (mg_arr s)"
  using assms by (auto elim!: lo_invE simp: lo_left_def lo_right_def intro!: drop_blit)

lemma lo_gallop_lo_inv:
  assumes inv: "lo_inv key tmp pre post Z s" and more: "lo_more s" and g: "lo_gallop key tmp s = (c, s')"
  shows "lo_inv key tmp pre post Z s'"
proof (rule lo_gallop_cases [OF g])
  fix cnt1 cnt2 :: nat and s1 s2 s3 :: "'a merging"
  assume c1: "cnt1 = gallop_right key (mg_arr s ! mg_c2 s) (drop (mg_c1 s) tmp) (mg_lr s) 0"
    and s: "s1 = lo_left tmp cnt1 s" "s2 = lo_right 1 s1" "s3 = lo_right cnt2 s2"
    and c2: "cnt2 = gallop_left key (tmp ! mg_c1 s2) (drop (mg_c2 s2) (mg_arr s2)) (mg_rr s2) 0"
    and d: "c = None \<and> cnt1 > 0 \<and> mg_lr s1 \<le> 1 \<and> s' = s1 \<or>
     (cnt1 = 0 \<or> mg_lr s1 > 1) \<and> (c = None \<and> mg_rr s2 = 0 \<and> s' = s2 \<or>
       mg_rr s2 \<noteq> 0 \<and> (c = None \<and> cnt2 > 0 \<and> mg_rr s3 = 0 \<and> s' = s3 \<or>
         (cnt2 = 0 \<or> mg_rr s3 \<noteq> 0) \<and> s' = lo_left tmp 1 s3))"
  note runs = lo_inv_runs [OF inv]
  let ?l = "drop (mg_c1 s) tmp" and ?R = "drop (mg_c2 s) (mg_arr s)"
  obtain y r where r: "take (mg_rr s) ?R = y # r" using runs(2) more by (cases "take (mg_rr s) ?R") (auto simp: lo_more_def)
  have y: "take 1 ?R = [y]" "mg_arr s ! mg_c2 s = y"
    using r runs(7) by (cases ?R; cases "mg_rr s"; auto simp: nth_via_drop)+
  have lr: "mg_lr s = length ?l" "0 < mg_lr s" using runs(1) more unfolding lo_more_def by linarith+
  have split: "cnt1 \<le> length ?l" "\<forall>a \<in> set (take cnt1 ?l). key a \<le> key y" "\<forall>a \<in> set (drop cnt1 ?l). key y < key a"
    using gallop_right_split [of key "length ?l" ?l 0 y] runs(3) lr by (simp_all add: c1 y segment_def)
  have "last ?l \<notin> set (take cnt1 ?l)" using split(2) runs(6) r by auto
  then have k1: "cnt1 < mg_lr s" using split(1) runs(5) lr(1) by (metis last_in_set nat_less_le order_refl take_all)
  have i1: "lo_inv key tmp pre post Z s1"
    unfolding s using split(2) runs(4) r by (intro lo_inv_left [OF inv k1]) fastforce
  have R1: "drop (mg_c2 s1) (mg_arr s1) = ?R" "mg_c1 s1 = mg_c1 s + cnt1" "mg_rr s1 = mg_rr s"
    using lo_copy_right_run(1) [OF inv, of cnt1] k1 by (simp_all add: s lo_left_def)
  have i2: "lo_inv key tmp pre post Z s2"
    unfolding s(2) using more split(3) R1 y by (intro lo_inv_right [OF i1]) (auto simp: lo_more_def add.commute)
  show ?thesis
  proof (cases "mg_rr s2 = 0")
    case True
    with d i1 i2 show ?thesis by auto
  next
    case False
    note runs2 = lo_inv_runs [OF i2]
    let ?R2 = "drop (mg_c2 s2) (mg_arr s2)"
    obtain x l where l: "drop (mg_c1 s2) tmp = x # l" using runs2(5) by (cases "drop (mg_c1 s2) tmp") auto
    then have x: "tmp ! mg_c1 s2 = x" by (rule nth_via_drop)
    have split2: "cnt2 \<le> mg_rr s2" "\<forall>a \<in> set (take cnt2 ?R2). key a < key x"
      "\<forall>a \<in> set (take (mg_rr s2 - cnt2) (drop cnt2 ?R2)). key x \<le> key a"
      using gallop_left_split [of key "mg_rr s2" ?R2 0 x] runs2(2,4,7) False by (simp_all add: c2 x segment_def)
    have i3: "lo_inv key tmp pre post Z s3"
      unfolding s(3) using split2(2) runs2(3) l by (intro lo_inv_right [OF i2 split2(1)]) (fastforce intro: less_le_trans)
    have R3: "drop (mg_c2 s3) (mg_arr s3) = drop cnt2 ?R2" "mg_c1 s3 = mg_c1 s2" "mg_rr s3 = mg_rr s2 - cnt2"
      using lo_copy_right_run(2) [OF i2 split2(1)] by (simp_all add: s(3) lo_right_def add.commute)
    have "1 < mg_lr s3" if "cnt1 = 0 \<or> mg_lr s1 > 1" using that more by (auto simp: s lo_more_def)
    then have "lo_inv key tmp pre post Z (lo_left tmp 1 s3)" if "cnt1 = 0 \<or> mg_lr s1 > 1"
      using that split2(3) l R3 by (intro lo_inv_left [OF i3]) simp_all
    with d i1 i2 i3 show ?thesis by auto
  qed
qed

lemma lo_loop_lo_inv:
  assumes "lo_inv key tmp pre post Z s" "lo_loop key tmp g s = (g', s')"
  shows "lo_inv key tmp pre post Z s' \<and> \<not> lo_more s'"
  using assms
proof (induction "mg_lr s + mg_rr s" arbitrary: s g rule: less_induct)
  case less
  show ?case
  proof (cases "lo_more s")
    case True
    define s1 where "s1 = lo_pairs key tmp g 0 0 s"
    obtain g2 s2 where s2: "lo_gallops key tmp g s1 = (g2, s2)" by force
    have i1: "lo_inv key tmp pre post Z s1" unfolding s1_def by (rule lo_pairs_lo_inv [OF less.prems(1)])
    then have "lo_inv key tmp pre post Z (snd (lo_gallops key tmp g s1))"
      by (rule lo_gallops_inv) (rule lo_gallop_lo_inv)
    then have i2: "lo_inv key tmp pre post Z s2" by (simp add: s2)
    have "mg_lr s2 + mg_rr s2 < mg_lr s + mg_rr s"
      using lo_pairs_shrinks [of key tmp g 0 0 s] lo_gallops_le [OF s2] True by (simp add: s1_def)
    moreover have "lo_loop key tmp g s =
        (if \<not> lo_more s1 then (g, s1) else if \<not> lo_more s2 then (g2, s2) else lo_loop key tmp (g2 + 1) s2)"
      using True s2 by (subst lo_loop.simps) (simp add: Let_def s1_def)
    ultimately show ?thesis using less.hyps [of s2 "g2 + 1"] less.prems(2) i1 i2 by (simp split: if_splits)
  next
    case False
    then have "lo_loop key tmp g s = (g, s)" by (subst lo_loop.simps) simp
    with False less.prems show ?thesis by simp
  qed
qed

lemma sort_key_sorted: "sorted_by key xs \<Longrightarrow> sort_key key xs = xs"
  by (rule sorted_stable_unique [OF stable_refl])

lemma merge_lo_sorts:
  assumes "arr = pre @ L @ R @ post" "length pre = base" "sorted_by key L" "sorted_by key R" "L \<noteq> []"
    and "\<forall>y \<in> set R. key y < key (last L)"
  shows "fst (merge_lo key arr base (length L) (length R) g) = pre @ sort_key key (L @ R) @ post"
proof -
  let ?s0 = "\<lparr>mg_arr = arr, mg_c1 = 0, mg_c2 = base + length L, mg_dest = base, mg_lr = length L, mg_rr = length R\<rparr>"
  have tmp: "segment base (length L) arr = L" using assms(1,2) by (simp add: segment_def)
  obtain g' s where s: "lo_loop key L g ?s0 = (g', s)" by force
  have "lo_inv key L pre post (sort_key key (L @ R)) ?s0"
    by (rule lo_invI [of _ pre "[]" L R post L]) (use assms in simp_all)
  from lo_loop_lo_inv [OF this s] have inv: "lo_inv key L pre post (sort_key key (L @ R)) s" and fin: "\<not> lo_more s" by auto
  obtain out l r hole where
    i: "mg_arr s = pre @ out @ hole @ r @ post" "length hole = length l" "mg_dest s = length pre + length out"
    "mg_c2 s = mg_dest s + length l" "mg_lr s = length l" "mg_rr s = length r" "drop (mg_c1 s) L = l"
    "sorted_by key l" "l \<noteq> []" "\<forall>y \<in> set r. key y < key (last l)" "sorted_by key r"
    "out @ sort_key key (l @ r) = sort_key key (L @ R)"
    by (rule lo_invE [OF inv])
  show ?thesis
  proof (cases "length l = 1")
    case True
    then obtain x where l: "l = [x]" by (metis One_nat_def length_0_conv length_Suc_conv)
    obtain h where h: "hole = [h]" using i(2) l by (metis One_nat_def length_0_conv length_Suc_conv True)
    have "(blit (mg_arr s) (mg_dest s) (segment (mg_c2 s) (mg_rr s) (mg_arr s)))[mg_dest s + mg_rr s := x] =
        pre @ out @ r @ [x] @ post"
    proof -
      have seg: "segment (mg_c2 s) (mg_rr s) (mg_arr s) = r" using i h l by (simp add: segment_def)
      obtain z where z: "drop (length r) (h # r) = [z]" by (cases r rule: rev_cases) auto
      have "h # r = take (length r) (h # r) @ [z]" by (metis append_take_drop_id z)
      then have "mg_arr s = (pre @ out) @ take (length r) (h # r) @ ([z] @ post)" using i(1) h
        by (metis append.assoc append_Cons append_Nil)
      then have "blit (mg_arr s) (mg_dest s) r = (pre @ out) @ r @ ([z] @ post)"
        using i(3) by (simp only:) (rule blit_append; simp)
      then show ?thesis using i(3,6) seg by (simp add: list_update_append)
    qed
    moreover have "sort_key key ([x] @ r @ []) = r @ sort_key key ([x] @ [])"
      using i(10,11) l by (intro merge_take_right) simp_all
    moreover have "L ! mg_c1 s = x" using i(7) l by (simp add: nth_via_drop)
    ultimately show ?thesis using i(5,12) l s tmp by (simp add: merge_lo_def)
  next
    case False
    moreover have "length l > 0" using i(9) by simp
    ultimately have "length l > 1" by linarith
    then have r: "r = []" "length l > 1" using fin i(5,6) by (simp_all add: lo_more_def)
    then have "blit (mg_arr s) (mg_dest s) l = (pre @ out) @ l @ post" using i(1-3) blit_append [of "pre @ out" _ hole l post] by simp
    moreover have "segment (mg_c1 s) (mg_lr s) L = l" using i(5,7) by (simp add: segment_def)
    moreover have "sort_key key l = l" by (rule sort_key_sorted [OF i(8)])
    ultimately show ?thesis using r i(5,12) s tmp False by (auto simp: merge_lo_def)
  qed
qed

section \<open>Merging downwards\<close>

definition hi_inv :: "('a \<Rightarrow> 'k::linorder) \<Rightarrow> 'a list \<Rightarrow> 'a list \<Rightarrow> 'a list \<Rightarrow> 'a list \<Rightarrow> 'a merging \<Rightarrow> bool" where
  "hi_inv key tmp pre post Z s \<longleftrightarrow> (\<exists>out l r hole.
     mg_arr s = pre @ l @ hole @ out @ post \<and> length hole = length r \<and>
     mg_c1 s = length pre + length l \<and> mg_dest s = mg_c1 s + length r \<and> mg_c2 s = length r \<and>
     mg_lr s = length l \<and> mg_rr s = length r \<and> mg_c2 s \<le> length tmp \<and> take (mg_c2 s) tmp = r \<and>
     sorted_by key l \<and> sorted_by key r \<and> r \<noteq> [] \<and> (\<forall>x \<in> set l. key (hd r) < key x) \<and>
     sort_key key (l @ r) @ out = Z)"

lemma hi_invI:
  assumes "mg_arr s = pre @ l @ hole @ out @ post" "length hole = length r"
     "mg_c1 s = length pre + length l" "mg_dest s = mg_c1 s + length r" "mg_c2 s = length r"
     "mg_lr s = length l" "mg_rr s = length r" "mg_c2 s \<le> length tmp" "take (mg_c2 s) tmp = r"
     "sorted_by key l" "sorted_by key r" "r \<noteq> []" "\<forall>x \<in> set l. key (hd r) < key x" "sort_key key (l @ r) @ out = Z"
  shows "hi_inv key tmp pre post Z s"
  unfolding hi_inv_def using assms by blast

lemma hi_invE:
  assumes "hi_inv key tmp pre post Z s"
  obtains out l r hole where "mg_arr s = pre @ l @ hole @ out @ post" "length hole = length r"
     "mg_c1 s = length pre + length l" "mg_dest s = mg_c1 s + length r" "mg_c2 s = length r"
     "mg_lr s = length l" "mg_rr s = length r" "mg_c2 s \<le> length tmp" "take (mg_c2 s) tmp = r"
     "sorted_by key l" "sorted_by key r" "r \<noteq> []" "\<forall>x \<in> set l. key (hd r) < key x" "sort_key key (l @ r) @ out = Z"
  using assms unfolding hi_inv_def by blast

lemma hi_inv_runs:
  assumes "hi_inv key tmp pre post Z s"
  defines "l \<equiv> segment (length pre) (mg_lr s) (mg_arr s)" and "r \<equiv> take (mg_rr s) tmp"
  shows "mg_lr s = length l" "mg_rr s = length r" "sorted_by key l" "sorted_by key r" "r \<noteq> []"
    "\<forall>x \<in> set l. key (hd r) < key x" "mg_c1 s = length pre + mg_lr s" "mg_c2 s = mg_rr s"
    "length pre + mg_lr s \<le> length (mg_arr s)" "mg_rr s \<le> length tmp"
  by (rule hi_invE [OF assms(1)], simp add: l_def r_def segment_def)+

lemma hi_inv_left:
  assumes "hi_inv key tmp pre post Z s" "k \<le> mg_lr s"
    and "\<forall>a \<in> set (segment (mg_c1 s - k) k (mg_arr s)). \<forall>b \<in> set (take (mg_rr s) tmp). key b < key a"
  shows "hi_inv key tmp pre post Z (hi_left k s)"
proof (rule hi_invE [OF assms(1)])
  fix out l r hole
  assume i: "mg_arr s = pre @ l @ hole @ out @ post" "length hole = length r"
     "mg_c1 s = length pre + length l" "mg_dest s = mg_c1 s + length r" "mg_c2 s = length r"
     "mg_lr s = length l" "mg_rr s = length r" "mg_c2 s \<le> length tmp" "take (mg_c2 s) tmp = r"
     "sorted_by key l" "sorted_by key r" "r \<noteq> []" "\<forall>x \<in> set l. key (hd r) < key x" "sort_key key (l @ r) @ out = Z"
  define m where "m = length l - k"
  have k: "length l = m + k" using assms(2) i(6) by (simp add: m_def)
  let ?l1 = "take m l" and ?l2 = "drop m l" and ?h = "take (length r) (drop m l @ hole)"
  have seg: "segment (mg_c1 s - k) k (mg_arr s) = ?l2" using i(1,3) k by (simp add: segment_def)
  have e: "mg_arr s = (pre @ ?l1 @ ?h) @ drop (length r) (?l2 @ hole) @ (out @ post)"
    unfolding i(1) using append_take_drop_id [of m l] append_take_drop_id [of "length r" "?l2 @ hole"] by (metis append_assoc)
  have "take (mg_rr s) tmp = r" using i(5,7,9) by simp
  then have "sort_key key ((?l1 @ ?l2) @ r) = sort_key key (?l1 @ r) @ ?l2"
    by (intro merge_drop_left) (use i(10) assms(3) seg in simp_all)
  then have Z: "sort_key key (?l1 @ r) @ (?l2 @ out) = Z" using i(14) by simp
  show ?thesis
  proof (rule hi_invI [OF _ _ _ _ _ _ _ _ _ _ i(11,12) _ Z])
    have "length (pre @ ?l1 @ ?h) = mg_dest s - k" using i(2-4) k by auto
    then have "mg_arr (hi_left k s) = blit (mg_arr s) (length (pre @ ?l1 @ ?h)) ?l2"
      using seg by (simp only: hi_left_def) simp
    also have "\<dots> = (pre @ ?l1 @ ?h) @ ?l2 @ (out @ post)"
      unfolding e by (rule blit_append) (use k i(2) in simp_all)
    finally show "mg_arr (hi_left k s) = pre @ ?l1 @ ?h @ (?l2 @ out) @ post" by simp
    show "length ?h = length r" using i(2) by simp
    show "sorted_by key ?l1" using i(10) by (simp add: sorted_wrt_take flip: take_map)
    show "\<forall>x \<in> set ?l1. key (hd r) < key x" using i(13) by (auto dest: in_set_takeD)
    show "take (mg_c2 (hi_left k s)) tmp = r" using i(9) by (simp add: hi_left_def)
    show "mg_c2 (hi_left k s) \<le> length tmp" using i(8) by (simp add: hi_left_def)
  qed (use i(3-7) k in \<open>simp_all add: hi_left_def\<close>)
qed

lemma hi_inv_right:
  assumes "hi_inv key tmp pre post Z s" "k < mg_rr s"
    and "\<forall>a \<in> set (segment (mg_rr s - k) k tmp). \<forall>b \<in> set (segment (length pre) (mg_lr s) (mg_arr s)). key b \<le> key a"
  shows "hi_inv key tmp pre post Z (hi_right tmp k s)"
proof (rule hi_invE [OF assms(1)])
  fix out l r hole
  assume i: "mg_arr s = pre @ l @ hole @ out @ post" "length hole = length r"
     "mg_c1 s = length pre + length l" "mg_dest s = mg_c1 s + length r" "mg_c2 s = length r"
     "mg_lr s = length l" "mg_rr s = length r" "mg_c2 s \<le> length tmp" "take (mg_c2 s) tmp = r"
     "sorted_by key l" "sorted_by key r" "r \<noteq> []" "\<forall>x \<in> set l. key (hd r) < key x" "sort_key key (l @ r) @ out = Z"
  define m where "m = length r - k"
  have k: "0 < m" "length r = m + k" using assms(2) i(7) by (simp_all add: m_def)
  let ?r1 = "take m r" and ?r2 = "drop m r"
  have m: "mg_c2 (hi_right tmp k s) = m" using i(5) by (simp add: hi_right_def m_def)
  have seg: "segment (mg_rr s - k) k tmp = ?r2"
    using i(5,7,9) k(2) by (metis add_diff_cancel_left' add_diff_cancel_right' drop_take segment_def)
  have "segment (length pre) (mg_lr s) (mg_arr s) = l" using i(1,6) by (simp add: segment_def)
  then have "sort_key key (l @ ?r1 @ ?r2) = sort_key key (l @ ?r1) @ ?r2"
    by (intro merge_drop_right) (use i(11) assms(3) seg in simp_all)
  then have Z: "sort_key key (l @ ?r1) @ (?r2 @ out) = Z" using i(14) by simp
  show ?thesis
  proof (rule hi_invI [OF _ _ _ _ _ _ _ _ _ i(10) _ _ _ Z])
    have e: "mg_arr s = (pre @ l @ take m hole) @ drop m hole @ (out @ post)" unfolding i(1) by simp
    have "mg_arr (hi_right tmp k s) = blit (mg_arr s) (length (pre @ l @ take m hole)) ?r2"
      using i(2-5,7) k seg by (simp add: hi_right_def)
    also have "\<dots> = (pre @ l @ take m hole) @ ?r2 @ (out @ post)"
      unfolding e by (rule blit_append) (use i(2) in simp_all)
    finally show "mg_arr (hi_right tmp k s) = pre @ l @ take m hole @ (?r2 @ out) @ post" by simp
    show "take (mg_c2 (hi_right tmp k s)) tmp = ?r1" unfolding m using i(5,9) k(2) by (metis take_take min.absorb1 le_add1)
    show "mg_c2 (hi_right tmp k s) \<le> length tmp" unfolding m using i(5,8) k(2) by simp
    show "sorted_by key ?r1" using i(11) by (simp add: sorted_wrt_take flip: take_map)
    show "?r1 \<noteq> []" "\<forall>x \<in> set l. key (hd ?r1) < key x" using k i(12,13) by simp_all
  qed (use i(2-7) k in \<open>simp_all add: hi_right_def\<close>)
qed

lemma take_blit: "n \<le> d \<Longrightarrow> d \<le> length xs \<Longrightarrow> take n (blit xs d ys) = take n xs"
  by (simp add: blit_def)

lemma segment_drop: "segment i n xs = drop i (take (i + n) xs)"
  by (simp add: segment_def take_drop add.commute)

text \<open>Copying leaves the unread part of the left run alone.\<close>

lemma hi_copy_left_run:
  assumes "hi_inv key tmp pre post Z s"
  shows "k \<le> mg_lr s \<Longrightarrow>
      segment (length pre) (mg_lr s - k) (mg_arr (hi_left k s)) = take (mg_lr s - k) (segment (length pre) (mg_lr s) (mg_arr s))"
    "k \<le> mg_rr s \<Longrightarrow> segment (length pre) (mg_lr s) (mg_arr (hi_right tmp k s)) = segment (length pre) (mg_lr s) (mg_arr s)"
proof (rule hi_invE [OF assms], goal_cases)
  case 1
  then have "take (length pre + (mg_lr s - k)) (mg_arr (hi_left k s)) = take (length pre + (mg_lr s - k)) (mg_arr s)"
    unfolding hi_left_def by (simp del: take_append) (rule take_blit; simp)
  then have "segment (length pre) (mg_lr s - k) (mg_arr (hi_left k s)) = segment (length pre) (mg_lr s - k) (mg_arr s)"
    by (simp add: segment_drop)
  then show ?case using 1(1) by (simp add: segment_def)
next
  assume "k \<le> mg_rr s"
  then show "segment (length pre) (mg_lr s) (mg_arr (hi_right tmp k s)) = segment (length pre) (mg_lr s) (mg_arr s)"
    by (rule_tac hi_invE [OF assms]) (simp add: segment_drop hi_right_def take_blit del: take_append)
qed

lemma hi_inv_ends:
  assumes "hi_inv key tmp pre post Z s"
  defines "l \<equiv> segment (length pre) (mg_lr s) (mg_arr s)" and "r \<equiv> take (mg_rr s) tmp"
  shows "0 < mg_lr s \<Longrightarrow> mg_arr s ! (mg_c1 s - 1) = last l" "0 < mg_lr s \<Longrightarrow> segment (mg_c1 s - 1) 1 (mg_arr s) = [last l]"
    "tmp ! (mg_c2 s - 1) = last r" "segment (mg_rr s - 1) 1 tmp = [last r]"
proof -
  note runs = hi_inv_runs [OF assms(1), folded l_def r_def]
  have at: "segment i 1 xs = [xs ! i]" if "i < length xs" for i and xs :: "'a list"
    using that by (simp add: segment_def take_Suc_conv_app_nth)
  have rr: "0 < mg_rr s" using runs(2,5) by simp
  show "tmp ! (mg_c2 s - 1) = last r" using runs(5,8,10) rr by (simp add: r_def last_conv_nth)
  then show "segment (mg_rr s - 1) 1 tmp = [last r]" using at [of "mg_rr s - 1" tmp] runs(8,10) rr by simp
  assume lr: "0 < mg_lr s"
  show "mg_arr s ! (mg_c1 s - 1) = last l" using runs(1,7,9) lr
    by (subst last_conv_nth) (auto simp: l_def segment_def)
  then show "segment (mg_c1 s - 1) 1 (mg_arr s) = [last l]" using at [of "mg_c1 s - 1" "mg_arr s"] runs(7,9) lr by simp
qed

lemma sorted_by_last: "sorted_by key xs \<Longrightarrow> x \<in> set xs \<Longrightarrow> key x \<le> key (last xs)"
  by (induction xs) auto

lemma sorted_by_hd: "sorted_by key xs \<Longrightarrow> x \<in> set xs \<Longrightarrow> key (hd xs) \<le> key x"
  by (cases xs) auto

lemma hi_pairs_hi_inv:
  assumes "hi_inv key tmp pre post Z s"
  shows "hi_inv key tmp pre post Z (hi_pairs key tmp g c1 c2 s)"
  using assms
proof (rule hi_pairs_inv [of "hi_inv key tmp pre post Z"])
  fix s assume s: "hi_inv key tmp pre post Z s" "hi_more s"
  note runs = hi_inv_runs [OF s(1)] and ends = hi_inv_ends [OF s(1)]
  have lr: "0 < mg_lr s" "1 < mg_rr s" using s(2) by (simp_all add: hi_more_def)
  show "hi_inv key tmp pre post Z (hi_left 1 s)" if "key (tmp ! (mg_c2 s - 1)) < key (mg_arr s ! (mg_c1 s - 1))"
    using that lr ends sorted_by_last [OF runs(4)] by (intro hi_inv_left [OF s(1)]) (auto intro: le_less_trans)
  show "hi_inv key tmp pre post Z (hi_right tmp 1 s)" if "\<not> key (tmp ! (mg_c2 s - 1)) < key (mg_arr s ! (mg_c1 s - 1))"
    using that lr ends sorted_by_last [OF runs(3)] by (intro hi_inv_right [OF s(1)]) (auto simp: not_less intro: order_trans)
qed

lemma hi_gallop_hi_inv:
  assumes inv: "hi_inv key tmp pre post Z s" and more: "hi_more s" and g: "hi_gallop key tmp (length pre) s = (c, s')"
  shows "hi_inv key tmp pre post Z s'"
proof (rule hi_gallop_cases [OF g])
  fix cnt1 cnt2 :: nat and s1 s2 s3 :: "'a merging"
  assume c1: "cnt1 = mg_lr s - gallop_right key (tmp ! (mg_c2 s - 1)) (drop (length pre) (mg_arr s)) (mg_lr s) (mg_lr s - 1)"
    and s: "s1 = hi_left cnt1 s" "s2 = hi_right tmp 1 s1" "s3 = hi_right tmp cnt2 s2"
    and c2: "cnt2 = mg_rr s2 - gallop_left key (mg_arr s2 ! (mg_c1 s2 - 1)) tmp (mg_rr s2) (mg_rr s2 - 1)"
    and d: "c = None \<and> cnt1 > 0 \<and> mg_lr s1 = 0 \<and> s' = s1 \<or>
     (cnt1 = 0 \<or> mg_lr s1 \<noteq> 0) \<and> (c = None \<and> mg_rr s2 = 1 \<and> s' = s2 \<or>
       mg_rr s2 \<noteq> 1 \<and> (c = None \<and> cnt2 > 0 \<and> mg_rr s3 \<le> 1 \<and> s' = s3 \<or>
         (cnt2 = 0 \<or> mg_rr s3 > 1) \<and> s' = hi_left 1 s3))"
  let ?l = "segment (length pre) (mg_lr s) (mg_arr s)" and ?r = "take (mg_rr s) tmp" and ?D = "drop (length pre) (mg_arr s)"
  note runs = hi_inv_runs [OF inv] and ends = hi_inv_ends [OF inv]
  have lr: "0 < mg_lr s" "1 < mg_rr s" using more by (simp_all add: hi_more_def)
  define t where "t = gallop_right key (last ?r) ?D (mg_lr s) (mg_lr s - 1)"
  have t: "t \<le> mg_lr s" "\<forall>a \<in> set (take t ?D). key a \<le> key (last ?r)"
    "\<forall>a \<in> set (segment t (mg_lr s - t) ?D). key (last ?r) < key a"
    unfolding t_def by (rule gallop_right_split; use runs(3,9) lr in \<open>simp add: segment_def\<close>)+
  have cnt1: "cnt1 = mg_lr s - t" "mg_c1 s - cnt1 = length pre + t" "mg_lr s - cnt1 = t"
    using c1 ends(3) t(1) runs(7) by (simp_all add: t_def)
  have i1: "hi_inv key tmp pre post Z s1"
    unfolding s(1) using t(3) cnt1 sorted_by_last [OF runs(4)]
    by (intro hi_inv_left [OF inv]) (auto simp: segment_def add.commute intro: le_less_trans)
  have l1: "segment (length pre) (mg_lr s1) (mg_arr s1) = take t ?D" "mg_rr s1 = mg_rr s"
    using hi_copy_left_run(1) [OF inv, of cnt1] cnt1 t(1) by (simp_all add: s(1) segment_def)
  have i2: "hi_inv key tmp pre post Z s2"
    unfolding s(2) using lr l1 t(2) ends(4) by (intro hi_inv_right [OF i1]) auto
  note runs2 = hi_inv_runs [OF i2] and ends2 = hi_inv_ends [OF i2]
  let ?l2 = "segment (length pre) (mg_lr s2) (mg_arr s2)" and ?r2 = "take (mg_rr s2) tmp"
  have lr2: "0 < mg_lr s2" if "cnt1 = 0 \<or> mg_lr s1 \<noteq> 0" using that lr by (auto simp: s(1,2))
  show ?thesis
  proof (cases "(cnt1 = 0 \<or> mg_lr s1 \<noteq> 0) \<and> mg_rr s2 \<noteq> 1")
    case False
    with d i1 i2 show ?thesis by auto
  next
    case True
    then have x: "mg_arr s2 ! (mg_c1 s2 - 1) = last ?l2" "last ?l2 \<in> set ?l2"
      using ends2(1) lr2 runs2(1) by (auto intro!: last_in_set simp del: length_segment)
    have rr2: "0 < mg_rr s2" using runs2(2,5) by simp
    define t2 where "t2 = gallop_left key (last ?l2) tmp (mg_rr s2) (mg_rr s2 - 1)"
    have t2: "t2 \<le> mg_rr s2" "\<forall>a \<in> set (take t2 tmp). key a < key (last ?l2)"
      "\<forall>a \<in> set (segment t2 (mg_rr s2 - t2) tmp). key (last ?l2) \<le> key a"
      unfolding t2_def by (rule gallop_left_split; use runs2(4,10) rr2 in simp)+
    have "hd ?r2 \<in> set (segment t2 (mg_rr s2 - t2) tmp)" if "t2 = 0"
      using hd_in_set [OF runs2(5)] that by (simp add: segment_def)
    then have "0 < t2" using t2(3) runs2(6) x(2) by fastforce
    then have cnt2: "cnt2 < mg_rr s2" "mg_rr s2 - cnt2 = t2" "cnt2 = mg_rr s2 - t2" using c2 x t2(1) by (simp_all add: t2_def)
    have i3: "hi_inv key tmp pre post Z s3"
      unfolding s(3) using t2(3) cnt2 sorted_by_last [OF runs2(3)] by (intro hi_inv_right [OF i2]) (fastforce intro: order_trans)+
    have "segment (length pre) (mg_lr s3) (mg_arr s3) = ?l2" "mg_lr s3 = mg_lr s2" "mg_rr s3 = t2"
      using hi_copy_left_run(2) [OF i2, of cnt2] cnt2 by (simp_all add: s(3))
    then have "hi_inv key tmp pre post Z (hi_left 1 s3)"
      using hi_inv_ends(2) [OF i3] lr2 True t2(2) by (intro hi_inv_left [OF i3]) auto
    with d i1 i2 i3 show ?thesis by auto
  qed
qed

lemma hi_loop_hi_inv:
  assumes "hi_inv key tmp pre post Z s" "hi_loop key tmp (length pre) g s = (g', s')"
  shows "hi_inv key tmp pre post Z s' \<and> \<not> hi_more s'"
  using assms
proof (induction "mg_lr s + mg_rr s" arbitrary: s g rule: less_induct)
  case less
  let ?b = "length pre"
  show ?case
  proof (cases "hi_more s")
    case True
    define s1 where "s1 = hi_pairs key tmp g 0 0 s"
    obtain g2 s2 where s2: "hi_gallops key tmp ?b g s1 = (g2, s2)" by force
    have i1: "hi_inv key tmp pre post Z s1" unfolding s1_def by (rule hi_pairs_hi_inv [OF less.prems(1)])
    then have "hi_inv key tmp pre post Z (snd (hi_gallops key tmp ?b g s1))"
      by (rule hi_gallops_inv) (rule hi_gallop_hi_inv)
    then have i2: "hi_inv key tmp pre post Z s2" by (simp add: s2)
    have "mg_lr s2 + mg_rr s2 < mg_lr s + mg_rr s"
      using hi_pairs_shrinks [of key tmp g 0 0 s] hi_gallops_le [OF s2] True by (simp add: s1_def)
    moreover have "hi_loop key tmp ?b g s =
        (if \<not> hi_more s1 then (g, s1) else if \<not> hi_more s2 then (g2, s2) else hi_loop key tmp ?b (g2 + 1) s2)"
      using True s2 by (subst hi_loop.simps) (simp add: Let_def s1_def)
    ultimately show ?thesis using less.hyps [of s2 "g2 + 1"] less.prems(2) i1 i2 by (simp split: if_splits)
  next
    case False
    then have "hi_loop key tmp ?b g s = (g, s)" by (subst hi_loop.simps) simp
    with False less.prems show ?thesis by simp
  qed
qed

lemma merge_hi_sorts:
  assumes "arr = pre @ L @ R @ post" "length pre = base" "sorted_by key L" "sorted_by key R" "R \<noteq> []"
    and "\<forall>x \<in> set L. key (hd R) < key x"
  shows "fst (merge_hi key arr base (length L) (length R) g) = pre @ sort_key key (L @ R) @ post"
proof -
  let ?s0 = "\<lparr>mg_arr = arr, mg_c1 = base + length L, mg_c2 = length R, mg_dest = base + length L + length R,
    mg_lr = length L, mg_rr = length R\<rparr>"
  have tmp: "segment (base + length L) (length R) arr = R" using assms(1,2) by (simp add: segment_def)
  obtain g' s where s: "hi_loop key R base g ?s0 = (g', s)" by force
  have "hi_inv key R pre post (sort_key key (L @ R)) ?s0"
    by (rule hi_invI [of _ pre L R "[]" post R]) (use assms in simp_all)
  from hi_loop_hi_inv [OF this] s assms(2) have inv: "hi_inv key R pre post (sort_key key (L @ R)) s" and fin: "\<not> hi_more s"
    by auto
  obtain out l r hole where
    i: "mg_arr s = pre @ l @ hole @ out @ post" "length hole = length r" "mg_c1 s = length pre + length l"
     "mg_dest s = mg_c1 s + length r" "mg_c2 s = length r" "mg_lr s = length l" "mg_rr s = length r"
     "take (mg_c2 s) R = r" "sorted_by key l" "sorted_by key r" "r \<noteq> []" "\<forall>x \<in> set l. key (hd r) < key x"
     "sort_key key (l @ r) @ out = sort_key key (L @ R)" "mg_c2 s \<le> length R"
    by (rule hi_invE [OF inv])
  show ?thesis
  proof (cases "length r = 1")
    case True
    then obtain y where r: "r = [y]" by (metis One_nat_def length_0_conv length_Suc_conv)
    obtain h where h: "hole = [h]" using i(2) r by (metis One_nat_def length_0_conv length_Suc_conv True)
    have "(blit (mg_arr s) (mg_dest s - mg_lr s) (segment (mg_c1 s - mg_lr s) (mg_lr s) (mg_arr s)))
        [mg_dest s - mg_lr s - 1 := y] = pre @ [y] @ l @ out @ post"
    proof -
      have seg: "segment (mg_c1 s - mg_lr s) (mg_lr s) (mg_arr s) = l" using i(1,3,6) by (simp add: segment_def)
      obtain z zs where z: "l @ [h] = z # zs" by (cases l) auto
      have "length zs = length l" using z by (metis Suc_inject length_Cons length_append_singleton)
      then have "blit ((pre @ [z]) @ zs @ (out @ post)) (length pre + 1) l = (pre @ [z]) @ l @ (out @ post)"
        by (intro blit_append) simp_all
      moreover have "mg_arr s = (pre @ [z]) @ zs @ (out @ post)" using i(1) h z
        by (metis append.assoc append_Cons append_Nil)
      ultimately show ?thesis using i(3,4,6) r seg by (simp add: list_update_append)
    qed
    moreover have "sort_key key ([] @ l @ r) = sort_key key (l @ r)" by simp
    moreover have "sort_key key (([] @ l) @ r) = sort_key key ([] @ r) @ l"
      using i(9,12) r by (intro merge_drop_left) simp_all
    moreover have "R ! (mg_c2 s - 1) = y" using i(5,8,14) r by (metis One_nat_def diff_self_eq_0 length_Cons lessI list.size(3) nth_Cons_0 nth_take)
    ultimately show ?thesis using i(7,13) r s tmp assms(2) by (simp add: merge_hi_def)
  next
    case False
    moreover have "length r > 0" using i(11) by simp
    ultimately have "length r > 1" by linarith
    then have l: "l = []" "length r > 1" using fin i(6,7) by (simp_all add: hi_more_def)
    then have "blit (mg_arr s) base r = pre @ r @ out @ post"
      using i(1,2) assms(2) blit_append [of pre _ hole r "out @ post"] by simp
    moreover have "segment 0 (mg_rr s) R = r" using i(5,7,8) by (simp add: segment_def)
    moreover have "sort_key key r = r" by (rule sort_key_sorted [OF i(10)])
    ultimately show ?thesis using l i(7,13) s tmp False by (auto simp: merge_hi_def)
  qed
qed

section \<open>The pair merge\<close>

lemma merge_pair_parts:
  assumes "arr = pre @ L @ R @ post" "length pre = base" "sorted_by key L" "sorted_by key R"
  shows "fst (merge_pair key arr base (length L) (length R) g) = pre @ sort_key key (L @ R) @ post"
proof (cases "L = [] \<or> R = []")
  case True
  then show ?thesis using assms sort_key_sorted [OF assms(3)] sort_key_sorted [OF assms(4)] by (auto simp: merge_pair_def)
next
  case False
  then have ne: "L \<noteq> []" "R \<noteq> []" by auto
  have D: "drop base arr = L @ R @ post" "drop (base + length L) arr = R @ post" "arr ! (base + length L) = hd R"
    using assms(1,2) ne by (auto simp: hd_conv_nth nth_append)
  define k where "k = gallop_right key (hd R) (drop base arr) (length L) 0"
  have k: "k \<le> length L" "\<forall>a \<in> set (take k L). key a \<le> key (hd R)" "\<forall>a \<in> set (drop k L). key (hd R) < key a"
    using gallop_right_split [of key "length L" "drop base arr" 0 "hd R", folded k_def] ne assms(3) D by (auto simp: segment_def)
  have eq: "merge_pair key arr base (length L) (length R) g =
      (if length L - k = 0 then (arr, g)
       else let m = gallop_left key (arr ! (base + k + (length L - k) - 1)) (drop (base + length L) arr) (length R) (length R - 1)
            in if m = 0 then (arr, g)
               else if length L - k \<le> m then merge_lo key arr (base + k) (length L - k) m g
               else merge_hi key arr (base + k) (length L - k) m g)"
    using ne by (simp add: merge_pair_def Let_def D(3) k_def)
  let ?L1 = "take k L" and ?L2 = "drop k L"
  have A: "sort_key key (L @ R) = ?L1 @ sort_key key (?L2 @ R)"
    using merge_take_left [of key ?L1 ?L2 R] k(2) sorted_by_hd [OF assms(4)] assms(3)
    by (simp flip: append_assoc) (meson order_trans)
  show ?thesis
  proof (cases "k = length L")
    case True
    then have "sort_key key (L @ R) = L @ R" using A sort_key_sorted [OF assms(4)] by simp
    then show ?thesis using eq True assms(1) by simp
  next
    case kl: False
    then have L2: "?L2 \<noteq> []" "last ?L2 = last L" using k(1) by auto
    have x: "arr ! (base + k + (length L - k) - 1) = last L"
    proof -
      have "base + k + (length L - k) - 1 = length pre + (length L - 1)" using assms(2) ne k(1) by (cases L) auto
      then show ?thesis using assms(1) ne by (simp add: nth_append last_conv_nth)
    qed
    define m where "m = gallop_left key (last L) (drop (base + length L) arr) (length R) (length R - 1)"
    have m: "m \<le> length R" "\<forall>a \<in> set (take m R). key a < key (last L)" "\<forall>a \<in> set (drop m R). key (last L) \<le> key a"
      using gallop_left_split [of key "length R" "drop (base + length L) arr" "length R - 1" "last L", folded m_def] ne assms(4) D
      by (auto simp: segment_def)
    let ?R1 = "take m R" and ?R2 = "drop m R"
    have sL2: "sorted_by key ?L2" and sR1: "sorted_by key ?R1"
      using assms(3,4) by (simp_all add: sorted_wrt_drop sorted_wrt_take flip: drop_map take_map)
    have "sort_key key (?L2 @ ?R1 @ ?R2) = sort_key key (?L2 @ ?R1) @ ?R2"
      using m(3) sorted_by_last [OF assms(3)] assms(4)
      by (intro merge_drop_right) (auto dest: in_set_dropD intro: order_trans)
    then have B: "sort_key key (L @ R) = ?L1 @ sort_key key (?L2 @ ?R1) @ ?R2" using A by simp
    show ?thesis
    proof (cases "m = 0")
      case True
      then have "sort_key key (L @ R) = L @ R" using B sort_key_sorted [OF sL2] by simp
      then show ?thesis unfolding eq x m_def [symmetric] Let_def using True assms(1) by simp
    next
      case False
      have arr: "arr = (pre @ ?L1) @ ?L2 @ ?R1 @ (?R2 @ post)" using assms(1) by simp
      have "hd ?R1 = hd R" "?R1 \<noteq> []" using False ne by simp_all
      then have lo: "fst (merge_lo key arr (base + k) (length ?L2) (length ?R1) g) = (pre @ ?L1) @ sort_key key (?L2 @ ?R1) @ (?R2 @ post)"
        and hi: "fst (merge_hi key arr (base + k) (length ?L2) (length ?R1) g) = (pre @ ?L1) @ sort_key key (?L2 @ ?R1) @ (?R2 @ post)"
        using merge_lo_sorts [OF arr _ sL2 sR1 L2(1)] merge_hi_sorts [OF arr _ sL2 sR1] L2 k m(2) assms(2) by simp_all
      then show ?thesis unfolding B eq x m_def [symmetric] Let_def using False kl k(1) m(1) lo hi by simp
    qed
  qed
qed

text \<open>Merging two adjacent sorted segments is the stable sort of both together.\<close>

lemma merge_pair_sorts:
  assumes "base + len1 + len2 \<le> length arr" "sorted_by key (segment base len1 arr)" "sorted_by key (segment (base + len1) len2 arr)"
  shows "fst (merge_pair key arr base len1 len2 g) = blit arr base (sort_key key (segment base (len1 + len2) arr))"
proof -
  let ?L = "segment base len1 arr" and ?R = "segment (base + len1) len2 arr"
  have l: "length ?L = len1" "length ?R = len2" using assms(1) by simp_all
  have "arr = take base arr @ (?L @ ?R) @ drop (base + (len1 + len2)) arr"
    using segment_parts [of base "len1 + len2" arr] assms(1) by (simp add: segment_split)
  then have "fst (merge_pair key arr base (length ?L) (length ?R) g) =
      take base arr @ sort_key key (?L @ ?R) @ drop (base + (len1 + len2)) arr"
    using assms(1) by (intro merge_pair_parts [OF _ _ assms(2,3)]) simp_all
  then show ?thesis using l by (simp add: blit_def segment_split)
qed

section \<open>Properties\<close>

text \<open>The galloping merge of two adjacent sorted runs, with a temporary copy of the shorter one and a
  merge from whichever end that is, replaces them in place by their stable merge and touches nothing else.\<close>

theorem merge_pair_in_place:
  assumes "base + len1 + len2 \<le> length arr" and "sorted_by key (segment base len1 arr)"
    and "sorted_by key (segment (base + len1) len2 arr)"
  shows "fst (merge_pair key arr base len1 len2 g) = blit arr base (sort_key key (segment base (len1 + len2) arr))"
  using assms by (rule merge_pair_sorts)

theorem merge_pair_in_place_witness:
  "fst (merge_pair (\<lambda>x::nat. x) [9, 2, 4, 1, 3, 0] 1 2 2 SUB_MIN_GALLOP) = [9, 1, 2, 3, 4, 0]"
  using merge_pair_in_place [of 1 2 2 "[9, 2, 4, 1, 3, 0]" "\<lambda>x::nat. x" SUB_MIN_GALLOP]
  by (simp add: segment_def blit_def sort_key_def)

end
