(* ===== verification/Sublimation_Spectral.thy ===== *)
theory Sublimation_Spectral
  imports Sublimation_Pair Ieee
begin

text \<open>
  The spectral merge of \<open>sublimation/src/merge_impl.h\<close>: natural runs are detected, ordered neighbours are
  joined, and adjacent groups of runs are merged in the order of the resistance of their boundary, with a
  union-find structure saying which group a run belongs to. The order of the merges depends on rounding;
  the result does not: it is the stable sort.
\<close>

section \<open>Merging runs by resistance\<close>

record sub_run =
  run_base :: nat
  run_length :: nat

record sub_boundary =
  bd_idx :: nat
  bd_resistance :: dbl

fun d_fabs :: "dbl \<Rightarrow> dbl" where
  "d_fabs (Num r) = Num \<bar>r\<bar>"
| "d_fabs NegZero = Num 0"
| "d_fabs NegInf = PosInf"
| "d_fabs x = x"

text \<open>\<open>to_d\<close> is the cast of a key to \<open>double\<close>.\<close>

definition reff_bounds :: "('k \<Rightarrow> dbl) \<Rightarrow> ('a \<Rightarrow> 'k) \<Rightarrow> 'a list \<Rightarrow> sub_run list \<Rightarrow> sub_boundary list" where
  "reff_bounds to_d key arr runs =
     map (\<lambda>i. let end_i = run_base (runs ! i) + run_length (runs ! i) - 1;
                  gap = d_fabs (d_sub (to_d (key (arr ! run_base (runs ! (i + 1))))) (to_d (key (arr ! end_i))))
              in \<lparr>bd_idx = i, bd_resistance = d_add (Num 1) gap\<rparr>) [0..<length runs - 1]"

text \<open>Insertion sort in place: larger elements move up until the hole is where the new one goes.\<close>

fun shift_insert :: "('a \<Rightarrow> 'a \<Rightarrow> bool) \<Rightarrow> 'a list \<Rightarrow> nat \<Rightarrow> 'a \<Rightarrow> 'a list" where
  "shift_insert gt a 0 x = a[0 := x]"
| "shift_insert gt a (Suc j) x = (if gt (a ! j) x then shift_insert gt (a[Suc j := a ! j]) j x else a[Suc j := x])"

definition insertion_loop :: "('a \<Rightarrow> 'a \<Rightarrow> bool) \<Rightarrow> 'a list \<Rightarrow> 'a list" where
  "insertion_loop gt a = fold (\<lambda>i a. shift_insert gt a i (a ! i)) [1..<length a] a"

partial_function (option) uf_find :: "nat list \<Rightarrow> nat \<Rightarrow> (nat \<times> nat list) option" where
  "uf_find parent x =
     (if parent ! x \<noteq> x
      then let parent' = parent[x := parent ! (parent ! x)] in uf_find parent' (parent' ! x)
      else Some (x, parent))"

type_synonym 'a reff_state = "'a list \<times> nat list \<times> nat list \<times> nat"

definition reff_step :: "('a \<Rightarrow> 'k::linorder) \<Rightarrow> nat list \<Rightarrow> sub_boundary \<Rightarrow> 'a reff_state \<Rightarrow> 'a reff_state option" where
  "reff_step key sbase b = (\<lambda>(arr, parent, slen, g).
     case uf_find parent (bd_idx b) of None \<Rightarrow> None
     | Some (left_root, parent1) \<Rightarrow>
       (case uf_find parent1 (bd_idx b + 1) of None \<Rightarrow> None
        | Some (right_root, parent2) \<Rightarrow>
          if left_root = right_root then Some (arr, parent2, slen, g)
          else let (lo, hi) = (if sbase ! left_root < sbase ! right_root then (left_root, right_root)
                               else (right_root, left_root));
                   (arr', g') = merge_pair key arr (sbase ! lo) (slen ! lo) (slen ! hi) g
               in Some (arr', parent2[hi := lo], slen[lo := slen ! lo + slen ! hi], g')))"

fun reff_loop :: "('a \<Rightarrow> 'k::linorder) \<Rightarrow> nat list \<Rightarrow> sub_boundary list \<Rightarrow> 'a reff_state \<Rightarrow> 'a reff_state option" where
  "reff_loop key sbase [] st = Some st"
| "reff_loop key sbase (b # bs) st = (case reff_step key sbase b st of None \<Rightarrow> None | Some st' \<Rightarrow> reff_loop key sbase bs st')"

definition merge_reff :: "('k::linorder \<Rightarrow> dbl) \<Rightarrow> ('a \<Rightarrow> 'k) \<Rightarrow> 'a list \<Rightarrow> sub_run list \<Rightarrow> nat \<Rightarrow> 'a list option" where
  "merge_reff to_d key arr runs g =
     (if length runs \<le> 1 then Some arr
      else if length runs = 2
      then Some (fst (merge_pair key arr (run_base (runs ! 0)) (run_length (runs ! 0)) (run_length (runs ! 1)) g))
      else map_option fst (reff_loop key (map run_base runs)
             (insertion_loop (\<lambda>p q. d_less (bd_resistance q) (bd_resistance p)) (reff_bounds to_d key arr runs))
             (arr, [0..<length runs], map run_length runs, g)))"

section \<open>The boundaries\<close>

lemma shift_insert_mset: "j < length a \<Longrightarrow> mset (shift_insert gt a j x) = mset (a[j := x])"
proof (induction gt a j x rule: shift_insert.induct)
  case (2 gt a j x)
  then have "mset (a[Suc j := a ! j, j := x]) = mset (a[Suc j := x])" by (simp add: mset_update)
  with 2 show ?case by simp
qed simp

lemma insertion_loop_mset: "mset (insertion_loop gt a) = mset a"
proof -
  have "mset (fold (\<lambda>i a. shift_insert gt a i (a ! i)) [1..<n] a) = mset a" if "n \<le> length a" for n
    using that
  proof (induction n)
    case (Suc n)
    let ?a = "fold (\<lambda>i a. shift_insert gt a i (a ! i)) [1..<n] a"
    have "mset ?a = mset a" using Suc by simp
    moreover from this have "length ?a = length a" by (metis size_mset)
    ultimately show ?case using Suc.prems by (cases "n = 0") (simp_all add: shift_insert_mset)
  qed simp
  from this [of "length a"] show ?thesis by (simp add: insertion_loop_def)
qed

lemma reff_bounds_idx: "map bd_idx (reff_bounds to_d key arr runs) = [0..<length runs - 1]"
  by (auto simp: reff_bounds_def Let_def comp_def)

section \<open>Groups of runs\<close>

text \<open>\<open>A\<close> holds the boundaries merged so far; a group is a maximal stretch of runs joined by \<open>A\<close>.\<close>

fun leader :: "nat set \<Rightarrow> nat \<Rightarrow> nat" where
  "leader A 0 = 0"
| "leader A (Suc x) = (if x \<in> A then leader A x else Suc x)"

definition group :: "nat set \<Rightarrow> nat \<Rightarrow> nat \<Rightarrow> nat \<Rightarrow> bool" where
  "group A nr i j \<longleftrightarrow> i < j \<and> j \<le> nr \<and> (i = 0 \<or> i - 1 \<notin> A) \<and> (j = nr \<or> j - 1 \<notin> A) \<and> (\<forall>k. i \<le> k \<longrightarrow> Suc k < j \<longrightarrow> k \<in> A)"

lemma leader_le: "leader A x \<le> x"
  by (induction x) auto

lemma leader_first: "leader A x = 0 \<or> leader A x - 1 \<notin> A"
  by (induction x) auto

lemma leader_joined: "leader A x \<le> k \<Longrightarrow> k < x \<Longrightarrow> k \<in> A"
  by (induction x) (auto split: if_splits simp: less_Suc_eq)

lemma leader_insert:
  assumes "b \<notin> A"
  shows "leader (insert b A) x = (if leader A x = Suc b then leader A b else leader A x)"
proof (induction x)
  case (Suc x)
  have "leader (insert b A) b = leader A b" if "x = b" using Suc that leader_le [of A b] by auto
  then show ?case using Suc assms by auto
qed simp

lemma group_leader: "b \<notin> A \<Longrightarrow> Suc b \<le> nr \<Longrightarrow> group A nr (leader A b) (Suc b)"
  using leader_le [of A b] leader_first [of A b] leader_joined [of A b] by (auto simp: group_def)

lemma group_from:
  assumes "i < nr" "i = 0 \<or> i - 1 \<notin> A"
  shows "\<exists>j. group A nr i j"
proof -
  define j where "j = (LEAST j. i < j \<and> (j = nr \<or> j - 1 \<notin> A))"
  have "i < nr \<and> (nr = nr \<or> nr - 1 \<notin> A)" using assms(1) by simp
  then have "i < j \<and> (j = nr \<or> j - 1 \<notin> A)" "j \<le> nr" unfolding j_def by (rule LeastI) (rule Least_le, use assms(1) in simp)
  moreover have "k \<in> A" if "i \<le> k" "Suc k < j" for k
    using not_less_Least [of "Suc k" "\<lambda>j. i < j \<and> (j = nr \<or> j - 1 \<notin> A)"] that by (auto simp: j_def)
  ultimately show ?thesis using assms by (auto simp: group_def)
qed

lemma group_unique:
  "group A nr i j \<Longrightarrow> group A nr i' j \<Longrightarrow> i = i'" "group A nr i j \<Longrightarrow> group A nr i j' \<Longrightarrow> j = j'"
proof -
  have *: False if "group A nr i j" "group A nr i' j" "i < i'" for i i'
  proof -
    have "i \<le> i' - 1" "Suc (i' - 1) < j" "i' - 1 \<notin> A" using that by (auto simp: group_def)
    with that(1) show False unfolding group_def by blast
  qed
  show "group A nr i j \<Longrightarrow> group A nr i' j \<Longrightarrow> i = i'" using * by (metis linorder_neqE_nat)
  have **: False if "group A nr i j" "group A nr i j'" "j < j'" for j j'
  proof -
    have "i \<le> j - 1" "Suc (j - 1) < j'" "j - 1 \<notin> A" using that by (auto simp: group_def)
    with that(2) show False unfolding group_def by blast
  qed
  show "group A nr i j \<Longrightarrow> group A nr i j' \<Longrightarrow> j = j'" using ** by (metis linorder_neqE_nat)
qed

text \<open>Joining at \<open>b\<close> merges the group that ends there with the one that begins behind it.\<close>

lemma group_insert:
  assumes b: "b \<notin> A" "Suc b < nr" and g: "group A nr i (Suc b)" "group A nr (Suc b) j" and n: "group (insert b A) nr i' j'"
  shows "i' = i \<and> j' = j \<or> group A nr i' j' \<and> (j' \<le> i \<or> j \<le> i')"
proof (cases "i' \<le> b \<and> Suc b < j'")
  case True
  have in_A: "k \<in> A" if "i' \<le> k" "Suc k < j'" "k \<noteq> b" for k using n that unfolding group_def by blast
  from True n b have "group A nr i' (Suc b)" "group A nr (Suc b) j'" by (auto simp: group_def intro!: in_A)
  with g group_unique show ?thesis by blast
next
  case False
  then consider "j' \<le> b" | "Suc b < i'" using n b by (auto simp: group_def not_le less_Suc_eq le_Suc_eq)
  then show ?thesis
  proof cases
    case 1
    with n b have gi: "group A nr i' j'" by (auto simp: group_def)
    have "j' - 1 \<notin> A" using gi 1 b by (auto simp: group_def)
    moreover have "j' - 1 \<in> A" if "i \<le> j' - 1" using g(1) 1 that gi unfolding group_def
      by (metis Suc_diff_1 le_less_trans less_Suc_eq_le not_less_zero gr0I)
    ultimately have "j' - 1 < i" by fastforce
    with gi show ?thesis by auto
  next
    case 2
    with n have gi: "group A nr i' j'" by (auto simp: group_def)
    have "i' - 1 \<notin> A" using gi 2 by (auto simp: group_def)
    moreover have "Suc b \<le> i' - 1" "Suc (i' - 1) = i'" using 2 by simp_all
    ultimately have "\<not> i' < j" using g(2) unfolding group_def by metis
    with gi 2 show ?thesis by auto
  qed
qed

section \<open>Union-find\<close>

definition par_ok :: "nat set \<Rightarrow> nat \<Rightarrow> nat list \<Rightarrow> bool" where
  "par_ok A nr p \<longleftrightarrow> length p = nr \<and>
     (\<forall>x<nr. p ! x \<le> x \<and> leader A (p ! x) = leader A x \<and> (p ! x = x \<longrightarrow> leader A x = x))"

lemma par_ok_init: "par_ok {} nr [0..<nr]"
proof -
  have "leader {} x = x" for x by (cases x) simp_all
  then show ?thesis by (simp add: par_ok_def)
qed

lemma uf_find_leader:
  assumes "par_ok A nr p" "x < nr"
  shows "\<exists>p'. uf_find p x = Some (leader A x, p') \<and> par_ok A nr p'"
  using assms
proof (induction x arbitrary: p rule: less_induct)
  case (less x)
  show ?case
  proof (cases "p ! x = x")
    case True
    then show ?thesis using less.prems by (subst uf_find.simps) (simp add: par_ok_def)
  next
    case False
    let ?p = "p[x := p ! (p ! x)]"
    have px: "p ! x < x" using less.prems False by (auto simp: par_ok_def le_neq_implies_less)
    then have py: "p ! (p ! x) \<le> p ! x" "leader A (p ! (p ! x)) = leader A x"
      using less.prems by (auto simp: par_ok_def)
    moreover from py px have "p ! (p ! x) < x" by simp
    ultimately have "par_ok A nr ?p" using less.prems by (simp add: par_ok_def nth_list_update)
    then have "\<exists>p'. uf_find ?p (p ! (p ! x)) = Some (leader A (p ! (p ! x)), p') \<and> par_ok A nr p'"
      using px py(1) less.prems by (intro less.IH) auto
    moreover have "uf_find p x = uf_find ?p (p ! (p ! x))"
      using False less.prems by (subst uf_find.simps) (simp add: par_ok_def Let_def)
    ultimately show ?thesis using py(2) by simp
  qed
qed

lemma par_ok_union:
  assumes "par_ok A nr p" "b \<notin> A" "Suc b < nr"
  shows "par_ok (insert b A) nr (p[Suc b := leader A b])"
proof -
  have "leader A (leader A b) = leader A b" by (induction b) auto
  then show ?thesis using assms leader_le [of A b]
    by (auto simp: par_ok_def leader_insert nth_list_update)
qed

section \<open>The merge loop\<close>

text \<open>\<open>off\<close> gives where each run begins, and \<open>off nr\<close> the end of the array.\<close>

definition reff_inv :: "('a \<Rightarrow> 'k::linorder) \<Rightarrow> (nat \<Rightarrow> nat) \<Rightarrow> nat \<Rightarrow> 'a list \<Rightarrow> nat set \<Rightarrow> 'a reff_state \<Rightarrow> bool" where
  "reff_inv key off nr arr0 A = (\<lambda>(arr, p, slen, g). stable key arr0 arr \<and> par_ok A nr p \<and> length slen = nr \<and>
     (\<forall>i j. group A nr i j \<longrightarrow> slen ! i = off j - off i \<and> sorted_by key (segment (off i) (off j - off i) arr)))"

definition offsets_ok :: "(nat \<Rightarrow> nat) \<Rightarrow> nat \<Rightarrow> nat \<Rightarrow> bool" where
  "offsets_ok off nr n \<longleftrightarrow> off 0 = 0 \<and> off nr = n \<and> (\<forall>i<nr. off i < off (Suc i))"

lemma offsets_mono:
  assumes "offsets_ok off nr n"
  shows "i \<le> j \<Longrightarrow> j \<le> nr \<Longrightarrow> off i \<le> off j" "i < j \<Longrightarrow> j \<le> nr \<Longrightarrow> off i < off j"
proof -
  have lt: "off i < off (i + Suc d)" if "i + Suc d \<le> nr" for i d
    using that
  proof (induction d)
    case (Suc d)
    then have "off i < off (i + Suc d)" by simp
    also have "\<dots> < off (Suc (i + Suc d))" using assms Suc.prems by (simp add: offsets_ok_def)
    finally show ?case by simp
  qed (use assms in \<open>simp add: offsets_ok_def\<close>)
  show less: "i < j \<Longrightarrow> j \<le> nr \<Longrightarrow> off i < off j" for i j using lt [of i "j - Suc i"] by simp
  show "i \<le> j \<Longrightarrow> j \<le> nr \<Longrightarrow> off i \<le> off j" using less [of i j] by (cases "i = j") auto
qed

lemma reff_step_inv:
  assumes inv: "reff_inv key off nr arr0 A (arr, p, slen, g)" and off: "offsets_ok off nr (length arr0)"
    and b: "bd_idx bd = b" "b \<notin> A" "Suc b < nr" and sbase: "\<forall>i<nr. sbase ! i = off i"
  shows "\<exists>st. reff_step key sbase bd (arr, p, slen, g) = Some st \<and> reff_inv key off nr arr0 (insert b A) st"
proof -
  have i: "stable key arr0 arr" "par_ok A nr p" "length slen = nr"
    and grp: "\<And>i j. group A nr i j \<Longrightarrow> slen ! i = off j - off i \<and> sorted_by key (segment (off i) (off j - off i) arr)"
    using inv by (auto simp: reff_inv_def)
  have len: "length arr = length arr0" by (rule stable_length [OF i(1)])
  obtain p1 where p1: "uf_find p b = Some (leader A b, p1)" "par_ok A nr p1" using uf_find_leader [OF i(2), of b] b(3) by auto
  obtain p2 where p2: "uf_find p1 (Suc b) = Some (Suc b, p2)" "par_ok A nr p2" using uf_find_leader [OF p1(2) b(3)] b(2) by auto
  define l where "l = leader A b"
  have gl: "group A nr l (Suc b)" unfolding l_def using b by (intro group_leader) simp_all
  obtain j where gr: "group A nr (Suc b) j" using group_from [of "Suc b" nr A] b by auto
  have lt: "l < Suc b" "Suc b < j" "j \<le> nr" using gl gr by (auto simp: group_def)
  have o: "off l < off (Suc b)" "off (Suc b) < off j" "off j \<le> length arr"
    using offsets_mono(2) [OF off] offsets_mono(1) [OF off lt(3) order_refl] lt off len by (simp_all add: offsets_ok_def)
  note sl = grp [OF gl] and sr = grp [OF gr]
  have sum: "off (Suc b) - off l + (off j - off (Suc b)) = off j - off l" using o by simp
  define Z where "Z = sort_key key (segment (off l) (off j - off l) arr)"
  have Zl: "length Z = off j - off l" using o by (simp add: Z_def)
  have mp: "fst (merge_pair key arr (off l) (slen ! l) (slen ! Suc b) g) = blit arr (off l) Z"
    unfolding Z_def sum [symmetric] sl [THEN conjunct1] sr [THEN conjunct1]
    using o sl sr by (intro merge_pair_sorts) simp_all
  obtain arr' g' where m: "merge_pair key arr (off l) (slen ! l) (slen ! Suc b) g = (arr', g')" by force
  with mp have arr': "arr' = blit arr (off l) Z" by simp
  let ?sl = "slen[l := slen ! l + slen ! Suc b]"
  have step: "reff_step key sbase bd (arr, p, slen, g) = Some (arr', p2[Suc b := l], ?sl, g')"
    using p1(1) p2(1) b(1) lt o m sbase b(3) by (simp add: reff_step_def l_def [symmetric])
  have "stable key (segment (off l) (length Z) arr) Z" unfolding Zl unfolding Z_def by (rule stable_sort_key)
  then have "stable key arr0 arr'" unfolding arr' using o Zl by (intro stable_trans [OF i(1)] stable_blit) simp_all
  moreover have "?sl ! i' = off j' - off i' \<and> sorted_by key (segment (off i') (off j' - off i') arr')"
    if n: "group (insert b A) nr i' j'" for i' j'
    using group_insert [OF b(2,3) gl gr n]
  proof
    assume e: "i' = l \<and> j' = j"
    have "segment (off l) (length Z) arr' = Z" unfolding arr' using o Zl by (intro segment_blit) simp
    then show ?thesis using e sl sr sum lt i(3) by (simp add: Zl) (simp add: Z_def)
  next
    assume e: "group A nr i' j' \<and> (j' \<le> l \<or> j \<le> i')"
    then have ij: "i' < j'" "j' \<le> nr" by (auto simp: group_def)
    then have oo: "off i' < off j'" "off j' \<le> off l \<or> off j \<le> off i'"
      using offsets_mono [OF off] e lt by auto
    then have "segment (off i') (off j' - off i') arr' = segment (off i') (off j' - off i') arr"
      unfolding arr' using o Zl by (elim disjE) (simp_all add: blit_before blit_after)
    moreover have "i' \<noteq> l" using e ij lt by auto
    ultimately show ?thesis using grp e by simp
  qed
  ultimately show ?thesis using step par_ok_union [OF p2(2) b(2,3)] i(3) by (simp add: reff_inv_def l_def)
qed

lemma reff_loop_inv:
  assumes "reff_inv key off nr arr0 A st" "offsets_ok off nr (length arr0)" "\<forall>i<nr. sbase ! i = off i"
    and "distinct (map bd_idx bs)" "set (map bd_idx bs) \<inter> A = {}" "\<forall>i \<in> set (map bd_idx bs). Suc i < nr"
  shows "\<exists>st'. reff_loop key sbase bs st = Some st' \<and> reff_inv key off nr arr0 (A \<union> set (map bd_idx bs)) st'"
  using assms(1,4-6)
proof (induction bs arbitrary: A st)
  case (Cons b bs)
  obtain arr p slen g where st: "st = (arr, p, slen, g)" by (rule prod_cases4)
  obtain st1 where s1: "reff_step key sbase b st = Some st1" "reff_inv key off nr arr0 (insert (bd_idx b) A) st1"
    using reff_step_inv [of key off nr arr0 A arr p slen g b "bd_idx b" sbase] Cons.prems assms(2,3) unfolding st by auto
  moreover have "\<exists>st'. reff_loop key sbase bs st1 = Some st' \<and> reff_inv key off nr arr0 (insert (bd_idx b) A \<union> set (map bd_idx bs)) st'"
    using Cons.prems by (intro Cons.IH [OF s1(2)]) auto
  ultimately show ?case by (auto simp: Un_commute)
qed simp

text \<open>Consecutive sorted runs that cover the array.\<close>

fun runs_ok :: "('a \<Rightarrow> 'k::linorder) \<Rightarrow> 'a list \<Rightarrow> nat \<Rightarrow> sub_run list \<Rightarrow> bool" where
  "runs_ok key arr pos [] \<longleftrightarrow> pos = length arr"
| "runs_ok key arr pos (r # rs) \<longleftrightarrow> run_base r = pos \<and> 0 < run_length r \<and>
     sorted_by key (segment pos (run_length r) arr) \<and> runs_ok key arr (pos + run_length r) rs"

definition run_off :: "'a list \<Rightarrow> sub_run list \<Rightarrow> nat \<Rightarrow> nat" where
  "run_off arr runs i = (if i < length runs then run_base (runs ! i) else length arr)"

lemma runs_ok_le: "runs_ok key arr pos rs \<Longrightarrow> pos \<le> length arr"
  by (induction rs arbitrary: pos) fastforce+

lemma runs_ok_off:
  assumes "runs_ok key arr pos runs" "i < length runs"
  shows "run_off arr runs (Suc i) = run_off arr runs i + run_length (runs ! i) \<and> 0 < run_length (runs ! i) \<and>
    sorted_by key (segment (run_off arr runs i) (run_length (runs ! i)) arr)"
  using assms
proof (induction runs arbitrary: pos i)
  case (Cons r rs)
  show ?case
  proof (cases i)
    case 0
    with Cons.prems show ?thesis by (cases rs) (auto simp: run_off_def)
  next
    case (Suc k)
    with Cons.prems Cons.IH [of "pos + run_length r" k] show ?thesis by (auto simp: run_off_def split: if_splits)
  qed
qed simp

lemma runs_ok_offsets: "runs_ok key arr 0 runs \<Longrightarrow> runs \<noteq> [] \<Longrightarrow> offsets_ok (run_off arr runs) (length runs) (length arr)"
  using runs_ok_off [of key arr 0 runs] by (cases runs) (auto simp: offsets_ok_def run_off_def)

lemma merge_reff_sorts:
  assumes "runs_ok key arr 0 runs"
  shows "merge_reff to_d key arr runs g = Some (sort_key key arr)"
proof -
  consider "runs = []" | r where "runs = [r]" | r1 r2 where "runs = [r1, r2]" | "2 < length runs"
    by (cases runs; cases "tl runs"; cases "tl (tl runs)") auto
  then show ?thesis
  proof cases
    case 1
    then show ?thesis using assms by (simp add: merge_reff_def)
  next
    case 2
    then have "run_length r = length arr" "sorted_by key (segment 0 (run_length r) arr)" using assms by auto
    then have "sort_key key arr = arr" by (intro sort_key_sorted) (simp add: segment_def)
    then show ?thesis using 2 by (simp add: merge_reff_def)
  next
    case 3
    then have l: "run_length r1 + run_length r2 = length arr" and b: "run_base r1 = 0"
      and s: "sorted_by key (segment 0 (run_length r1) arr)" "sorted_by key (segment (0 + run_length r1) (run_length r2) arr)"
      using assms by auto
    from merge_pair_sorts [of 0 _ _ arr key, OF _ s] l
    have "fst (merge_pair key arr 0 (run_length r1) (run_length r2) g) = sort_key key arr" by (simp add: segment_def blit_def)
    then show ?thesis using 3 b by (simp add: merge_reff_def)
  next
    case 4
    let ?off = "run_off arr runs" and ?n = "length runs"
    let ?bs = "insertion_loop (\<lambda>p q. d_less (bd_resistance q) (bd_resistance p)) (reff_bounds to_d key arr runs)"
    have "runs \<noteq> []" using 4 by auto
    note off = runs_ok_offsets [OF assms this]
    have "map run_length runs ! i = ?off j - ?off i \<and> sorted_by key (segment (?off i) (?off j - ?off i) arr)"
      if g: "group {} ?n i j" for i j
    proof -
      have "j = Suc i" "i < ?n" using g unfolding group_def by (metis empty_iff order_refl Suc_lessI, simp)
      then show ?thesis using runs_ok_off [OF assms, of i] by simp
    qed
    then have inv0: "reff_inv key ?off ?n arr {} (arr, [0..<?n], map run_length runs, g)"
      using par_ok_init by (simp add: reff_inv_def)
    have "mset (map bd_idx ?bs) = mset [0..<?n - 1]"
      using insertion_loop_mset reff_bounds_idx by (metis mset_map)
    then have idx: "distinct (map bd_idx ?bs)" "set (map bd_idx ?bs) = {..<?n - 1}"
      by (metis distinct_upt mset_eq_imp_distinct_iff) (metis atLeast_upt mset_eq_setD \<open>mset (map bd_idx ?bs) = _\<close>)
    obtain arr' p' slen' g' where r: "reff_loop key (map run_base runs) ?bs (arr, [0..<?n], map run_length runs, g) = Some (arr', p', slen', g')"
      and inv: "reff_inv key ?off ?n arr ({} \<union> set (map bd_idx ?bs)) (arr', p', slen', g')"
      using reff_loop_inv [OF inv0 off, of "map run_base runs" ?bs] idx 4 by (fastforce simp: run_off_def)
    have "group {..<?n - 1} ?n 0 ?n" using 4 by (auto simp: group_def)
    then have "sorted_by key (segment (?off 0) (?off ?n - ?off 0) arr')" "stable key arr arr'"
      using inv unfolding idx(2) reff_inv_def by auto
    moreover have "?off 0 = 0" "?off ?n = length arr" using off 4 by (auto simp: offsets_ok_def)
    ultimately have "sort_key key arr = arr'" by (intro sorted_stable_unique) (auto simp: segment_def dest: stable_length)
    then show ?thesis using 4 r by (simp add: merge_reff_def)
  qed
qed

section \<open>The spectral merge\<close>

definition SUB_MIN_MERGE :: nat where
  "SUB_MIN_MERGE = 32"

text \<open>Run detection: at most 511 runs, reversing descending ones in place.\<close>

lemma count_run_asc_pos: "cur < length arr \<Longrightarrow> count_run_asc key (drop cur arr) = (xs, run) \<Longrightarrow> 0 < run \<and> cur + run \<le> length arr"
  using count_run_asc_run(2,3) [of key "drop cur arr" xs run] by auto

lemma count_run_asc_length: "count_run_asc key arr = (xs, run) \<Longrightarrow> length xs = length arr"
  using count_run_asc_run(1) stable_length by blast

function detect :: "('a \<Rightarrow> 'k::linorder) \<Rightarrow> 'a list \<Rightarrow> nat \<Rightarrow> sub_run list \<Rightarrow> 'a list \<times> nat \<times> sub_run list" where
  "detect key arr cur runs =
     (if cur < length arr \<and> length runs < 511
      then case count_run_asc key (drop cur arr) of
        (xs, run) \<Rightarrow> detect key (take cur arr @ xs) (cur + run) (runs @ [\<lparr>run_base = cur, run_length = run\<rparr>])
      else (arr, cur, runs))"
  by auto
termination
proof (relation "measure (\<lambda>(_, arr, cur, _). length arr - cur)")
  fix key :: "'a \<Rightarrow> 'k::linorder" and arr cur xs run and runs :: "sub_run list"
  assume "cur < length arr \<and> length runs < 511" "(xs, run) = count_run_asc key (drop cur arr)"
  then show "((key, take cur arr @ xs, cur + run, runs @ [\<lparr>run_base = cur, run_length = run\<rparr>]), key, arr, cur, runs)
      \<in> measure (\<lambda>(_, arr, cur, _). length arr - cur)"
    using count_run_asc_pos [of cur arr key xs run] count_run_asc_length [of key "drop cur arr" xs run]
    by (auto intro!: diff_less_mono2)
qed simp

declare detect.simps [simp del]

text \<open>Neighbouring runs already in order are joined.\<close>

fun coalesce :: "('a \<Rightarrow> 'k::linorder) \<Rightarrow> 'a list \<Rightarrow> sub_run \<Rightarrow> sub_run list \<Rightarrow> sub_run list" where
  "coalesce key arr out [] = [out]"
| "coalesce key arr out (r # rs) =
     (if key (arr ! (run_base out + run_length out - 1)) \<le> key (arr ! run_base r)
      then coalesce key arr (out\<lparr>run_length := run_length out + run_length r\<rparr>) rs
      else out # coalesce key arr r rs)"

lemma runs_ok_append:
  assumes "runs_ok key P pos runs" "sorted_by key R" "R \<noteq> []"
  shows "runs_ok key (P @ R) pos (runs @ [\<lparr>run_base = length P, run_length = length R\<rparr>])"
  using assms(1)
proof (induction runs arbitrary: pos)
  case Nil
  then show ?case using assms(2,3) by (simp add: segment_def)
next
  case (Cons r rs)
  then have "pos + run_length r \<le> length P" using runs_ok_le by auto
  then have "segment pos (run_length r) (P @ R) = segment pos (run_length r) P" by (simp add: segment_def)
  with Cons show ?case by simp
qed

lemma detect_runs:
  assumes "runs_ok key (take cur arr) 0 runs" "cur \<le> length arr" "detect key arr cur runs = (arr', cur', runs')"
  shows "stable key arr arr' \<and> cur \<le> cur' \<and> cur' \<le> length arr \<and> runs_ok key (take cur' arr') 0 runs' \<and>
    (cur < length arr \<longrightarrow> length runs < 511 \<longrightarrow> cur < cur')"
  using assms
proof (induction "length arr - cur" arbitrary: arr cur runs rule: less_induct)
  case less
  show ?case
  proof (cases "cur < length arr \<and> length runs < 511")
    case True
    obtain xs run where c: "count_run_asc key (drop cur arr) = (xs, run)" by force
    note run = count_run_asc_run [OF c] and pos = count_run_asc_pos [of cur arr key xs run, OF _ c]
    let ?a = "take cur arr @ xs" and ?r = "runs @ [\<lparr>run_base = cur, run_length = run\<rparr>]"
    have lx: "length xs = length arr - cur" using count_run_asc_length [OF c] by simp
    have "runs_ok key (take cur arr @ take run xs) 0 (runs @ [\<lparr>run_base = length (take cur arr), run_length = length (take run xs)\<rparr>])"
      using pos True lx by (intro runs_ok_append [OF less.prems(1) run(4)]) auto
    moreover have "take (cur + run) ?a = take cur arr @ take run xs" using True by simp
    moreover have "min (length xs) run = run" using pos True lx by auto
    ultimately have ok: "runs_ok key (take (cur + run) ?a) 0 ?r" using True by (simp add: min.commute)
    have st: "stable key arr ?a" using stable_append [OF stable_refl run(1), of "take cur arr"] by simp
    have d: "detect key arr cur runs = detect key ?a (cur + run) ?r" using True c by (subst detect.simps) simp
    have "stable key ?a arr' \<and> cur + run \<le> cur' \<and> cur' \<le> length ?a \<and> runs_ok key (take cur' arr') 0 runs' \<and>
        (cur + run < length ?a \<longrightarrow> length ?r < 511 \<longrightarrow> cur + run < cur')"
      using pos True lx less.prems(3) d by (intro less.hyps [OF _ ok]) auto
    then show ?thesis using stable_trans [OF st] pos True lx by auto
  next
    case False
    then have "detect key arr cur runs = (arr, cur, runs)" by (subst detect.simps) auto
    with less.prems False show ?thesis by auto
  qed
qed

lemma coalesce_runs: "runs_ok key arr pos (out # rs) \<Longrightarrow> runs_ok key arr pos (coalesce key arr out rs)"
proof (induction key arr out rs arbitrary: pos rule: coalesce.induct)
  case (2 key arr out r rs)
  show ?case
  proof (cases "key (arr ! (run_base out + run_length out - 1)) \<le> key (arr ! run_base r)")
    case True
    let ?L = "segment pos (run_length out) arr" and ?R = "segment (pos + run_length out) (run_length r) arr"
    have len: "pos + run_length out + run_length r \<le> length arr" using 2(3) runs_ok_le by fastforce
    have ne: "?L \<noteq> []" "?R \<noteq> []" using 2(3) len by (auto simp: segment_def)
    have "last ?L = arr ! (pos + run_length out - 1)" "hd ?R = arr ! (pos + run_length out)"
      using 2(3) len ne by (auto simp: last_conv_nth hd_conv_nth segment_def)
    then have "key (last ?L) \<le> key (hd ?R)" using True 2(3) by simp
    then have "\<forall>x \<in> set ?L. \<forall>y \<in> set ?R. key x \<le> key y"
      using 2(3) sorted_by_last [of key ?L] sorted_by_hd [of key ?R] by (meson order_trans runs_ok.simps(2))
    then have "sorted_by key (segment pos (run_length out + run_length r) arr)"
      using 2(3) by (simp add: segment_split sorted_append)
    then show ?thesis using True 2(1) [of pos] 2(3) by (simp add: add.assoc)
  next
    case False
    then show ?thesis using 2(2) 2(3) by simp
  qed
qed simp

text \<open>
  \<open>alloc\<close> says whether \<open>malloc\<close> grants a temporary of that many elements; the recursion is on the part of
  the array past the 511th run.
\<close>

function sub_spectral_merge :: "(nat \<Rightarrow> bool) \<Rightarrow> ('k::linorder \<Rightarrow> dbl) \<Rightarrow> ('a \<Rightarrow> 'k) \<Rightarrow> 'a list \<Rightarrow> 'a list option" where
  "sub_spectral_merge alloc to_d key arr =
     (if length arr < 2 then Some arr
      else if length arr < SUB_MIN_MERGE then Some (binary_insertion_sort key arr)
      else case detect key arr 0 [] of (arr1, cur, runs) \<Rightarrow>
        (case (if cur < length arr
               then if length arr - cur \<le> 64 then Some (binary_insertion_sort key (drop cur arr1))
                    else sub_spectral_merge alloc to_d key (drop cur arr1)
               else Some []) of
           None \<Rightarrow> None
         | Some rest \<Rightarrow>
             let arr2 = take cur arr1 @ rest;
                 runs2 = (if cur < length arr then runs @ [\<lparr>run_base = cur, run_length = length arr - cur\<rparr>] else runs)
             in if length runs2 \<le> 1 then Some arr2
                else let runs3 = coalesce key arr2 (hd runs2) (tl runs2)
                in if length runs3 \<le> 1 then Some arr2
                else if alloc (length arr div 2 + 1) then merge_reff to_d key arr2 runs3 SUB_MIN_GALLOP
                else Some (binary_insertion_sort key arr2)))"
  by auto
termination
proof (relation "measure (\<lambda>(_, _, _, arr). length arr)", goal_cases)
  case (2 alloc to_d key arr arr1 y cur runs)
  then have "detect key arr 0 [] = (arr1, cur, runs)" by simp
  then have "stable key arr arr1" "0 < cur" using detect_runs [of key 0 arr "[]" arr1 cur runs] 2 by auto
  then show ?case using stable_length [of key arr arr1] 2(5) by simp
qed simp

declare sub_spectral_merge.simps [simp del]

lemma sub_spectral_merge_sorts: "sub_spectral_merge alloc to_d key arr = Some (sort_key key arr)"
proof (induction "length arr" arbitrary: arr rule: less_induct)
  case less
  show ?case
  proof (cases "length arr < SUB_MIN_MERGE")
    case True
    have "sort_key key arr = arr" if "length arr < 2" using that by (cases arr; cases "tl arr") auto
    then show ?thesis using True by (subst sub_spectral_merge.simps) (simp add: binary_insertion_sort_sorts)
  next
    case False
    obtain arr1 cur runs where d: "detect key arr 0 [] = (arr1, cur, runs)" by (rule prod_cases3)
    have n: "\<not> length arr < 2" using False by (simp add: SUB_MIN_MERGE_def)
    have dr: "stable key arr arr1" "0 < cur" "cur \<le> length arr" "runs_ok key (take cur arr1) 0 runs"
      using detect_runs [of key 0 arr "[]" arr1 cur runs] d n by auto
    have l1: "length arr1 = length arr" by (rule stable_length [OF dr(1)])
    define rest where "rest = sort_key key (drop cur arr1)"
    have r: "(if cur < length arr
           then if length arr - cur \<le> 64 then Some (binary_insertion_sort key (drop cur arr1))
                else sub_spectral_merge alloc to_d key (drop cur arr1)
           else Some []) = Some rest"
      using less.hyps [of "drop cur arr1"] dr(2) l1 by (auto simp: rest_def binary_insertion_sort_sorts)
    define arr2 where "arr2 = take cur arr1 @ rest"
    define runs2 where "runs2 = (if cur < length arr then runs @ [\<lparr>run_base = cur, run_length = length arr - cur\<rparr>] else runs)"
    have "stable key (take cur arr1 @ drop cur arr1) arr2"
      unfolding arr2_def rest_def by (intro stable_append stable_refl stable_sort_key)
    then have st: "stable key arr arr2" using stable_trans [OF dr(1)] by simp
    have ok: "runs_ok key arr2 0 runs2"
    proof (cases "cur < length arr")
      case True
      have "runs_ok key arr2 0 (runs @ [\<lparr>run_base = length (take cur arr1), run_length = length rest\<rparr>])"
        unfolding arr2_def using True l1 by (intro runs_ok_append [OF dr(4)]) (simp_all add: rest_def flip: length_0_conv)
      then show ?thesis using True l1 dr(3) by (simp add: runs2_def rest_def)
    next
      case False
      then show ?thesis using dr(4) l1 by (simp add: runs2_def arr2_def rest_def)
    qed
    have sorted: "sort_key key arr = sort_key key arr2" by (rule stable_sort_eq [OF st, symmetric])
    define runs3 where "runs3 = coalesce key arr2 (hd runs2) (tl runs2)"
    have res: "sub_spectral_merge alloc to_d key arr =
       (if length runs2 \<le> 1 then Some arr2 else if length runs3 \<le> 1 then Some arr2
        else if alloc (length arr div 2 + 1) then merge_reff to_d key arr2 runs3 SUB_MIN_GALLOP
        else Some (binary_insertion_sort key arr2))"
      using False n by (subst sub_spectral_merge.simps) (simp add: d r Let_def arr2_def runs2_def runs3_def)
    have one: "sort_key key arr2 = arr2" if "runs_ok key arr2 0 rs" "length rs \<le> 1" for rs
      using merge_reff_sorts [OF that(1), of undefined undefined] that(2) by (simp add: merge_reff_def)
    have "runs_ok key arr2 0 runs3" if "\<not> length runs2 \<le> 1"
      using coalesce_runs [of key arr2 0 "hd runs2" "tl runs2"] ok that by (cases runs2) (auto simp: runs3_def)
    then show ?thesis unfolding res sorted
      using one [OF ok] one [of runs3] merge_reff_sorts [of key arr2 runs3 to_d] by (simp add: binary_insertion_sort_sorts)
  qed
qed

section \<open>Properties\<close>

text \<open>C15: the spectral merge ends on every input and gives the stable sort, in whatever order the effective
  resistances make it merge the runs and whichever of its allocations fail.\<close>

theorem spectral_merge_stable_sort: "sub_spectral_merge alloc to_d key arr = Some (sort_key key arr)"
  by (rule sub_spectral_merge_sorts)

end
