(* ===== verification/Sublimation_Pack.thy ===== *)
theory Sublimation_Pack
  imports Sublimation_Radix Sublimation_Spectral Ieee_Bounds
begin

unbundle bit_operations_syntax

text \<open>
  Index sorting (\<open>sublimation/src/pack.c\<close>, \<open>sublimation_pack.h\<close>): keys are mapped to unsigned integers of the
  same order, carried with their index through a stable sort, and the indices are read back. Both arms of
  the dispatch, the radix sort and the spectral merge, give the same permutation, so the classifier's
  verdict, an argument here, does not show in any result.
\<close>

section \<open>Keys\<close>

definition sub_key_from_u32 :: "u32 \<Rightarrow> u32" where
  "sub_key_from_u32 k = k"

definition sub_key_from_i32 :: "i32 \<Rightarrow> u32" where
  "sub_key_from_i32 k = k XOR 0x80000000"

definition sub_key_from_u64 :: "u64 \<Rightarrow> u64" where
  "sub_key_from_u64 k = k"

definition sub_key_from_i64 :: "i64 \<Rightarrow> u64" where
  "sub_key_from_i64 k = k XOR 0x8000000000000000"

text \<open>
  The bits of a double, which the code reads with \<open>memcpy\<close>: a positive value's exponent field counts from
  the least exponent, so a subnormal is the significand alone. A NaN has one representative here, the
  quiet one; no result below is about NaN.
\<close>

definition pos_bits :: "rat \<Rightarrow> int" where
  "pos_bits x = (let e = max (exp2_of x) (- 1022) in (e + 1022) * 2 ^ 52 + \<lfloor>x / 2 powi (e - 52)\<rfloor>)"

fun f64_bits :: "dbl \<Rightarrow> u64" where
  "f64_bits (Num r) = (if r = 0 then 0 else if r < 0 then word_of_int (2 ^ 63 + pos_bits (- r)) else word_of_int (pos_bits r))"
| "f64_bits NegZero = word_of_int (2 ^ 63)"
| "f64_bits PosInf = 0x7FF0000000000000"
| "f64_bits NegInf = 0xFFF0000000000000"
| "f64_bits NaN = 0x7FF8000000000000"

definition sub_key_from_f64 :: "dbl \<Rightarrow> u64" where
  "sub_key_from_f64 k = (let u = f64_bits k; sign_bit = drop_bit 63 u; mask = (- sign_bit) OR 0x8000000000000000
     in u XOR mask)"

section \<open>The dispatch\<close>

datatype sub_disorder = SUB_SORTED | SUB_REVERSED | SUB_NEARLY_SORTED | SUB_FEW_UNIQUE | SUB_RANDOM | SUB_PHASED

text \<open>
  What the sort takes from its surroundings: whether \<open>malloc\<close> grants that many bytes, the verdict of the
  classifier, and what an uninitialised scratch buffer holds.
\<close>

record sort_env =
  se_malloc :: "nat \<Rightarrow> bool"
  se_classify :: "u64 list \<Rightarrow> sub_disorder"
  se_scratch :: "nat \<Rightarrow> pack64_slot"

definition SUB_PACK_ADAPT_MIN :: nat where
  "SUB_PACK_ADAPT_MIN = 512"

definition sub_pack_dispatch64 :: "sort_env \<Rightarrow> pack64_slot list \<Rightarrow> pack64_slot list \<Rightarrow> pack64_slot list option" where
  "sub_pack_dispatch64 env a b =
     (let n = length a in
      if n < 2 then Some a
      else if n \<ge> SUB_PACK_ADAPT_MIN \<and> se_malloc env (n * 8) \<and>
              se_classify env (map slot_key a) \<in> {SUB_SORTED, SUB_REVERSED, SUB_NEARLY_SORTED, SUB_PHASED}
      then sub_spectral_merge (\<lambda>k. se_malloc env (k * 16)) (\<lambda>k. d_of_int (uint k)) slot_key a
      else Some (sub_radix_pairs64 a b))"

text \<open>The three typed entries differ in the mapping of the key alone.\<close>

definition pack_sort64 :: "('k \<Rightarrow> u64) \<Rightarrow> sort_env \<Rightarrow> 'k list \<Rightarrow> u32 list \<Rightarrow> bool \<Rightarrow> u32 list option" where
  "pack_sort64 to_key env keys indices desc =
     (let n = length indices;
          a = map (\<lambda>i. \<lparr>slot_key = (if desc then NOT (to_key (keys ! i)) else to_key (keys ! i)), slot_idx = indices ! i\<rparr>) [0..<n];
          b = map (\<lambda>i. se_scratch env (n + i)) [0..<n]
      in map_option (map slot_idx) (sub_pack_dispatch64 env a b))"

definition sublimation_pack_sort_u64_with_scratch :: "sort_env \<Rightarrow> u64 list \<Rightarrow> u32 list \<Rightarrow> bool \<Rightarrow> u32 list option" where
  "sublimation_pack_sort_u64_with_scratch = pack_sort64 sub_key_from_u64"

definition sublimation_pack_sort_i64_with_scratch :: "sort_env \<Rightarrow> i64 list \<Rightarrow> u32 list \<Rightarrow> bool \<Rightarrow> u32 list option" where
  "sublimation_pack_sort_i64_with_scratch = pack_sort64 sub_key_from_i64"

definition sublimation_pack_sort_f64_with_scratch :: "sort_env \<Rightarrow> dbl list \<Rightarrow> u32 list \<Rightarrow> bool \<Rightarrow> u32 list option" where
  "sublimation_pack_sort_f64_with_scratch = pack_sort64 sub_key_from_f64"

text \<open>The entries that allocate leave the indices as they are when they cannot.\<close>

definition sublimation_pack_sort_u64 :: "sort_env \<Rightarrow> u64 list \<Rightarrow> u32 list \<Rightarrow> bool \<Rightarrow> u32 list option" where
  "sublimation_pack_sort_u64 env keys indices desc =
     (if length indices < 2 \<or> \<not> se_malloc env (2 * length indices * 16) then Some indices
      else sublimation_pack_sort_u64_with_scratch env keys indices desc)"

definition sublimation_pack_sort_i64 :: "sort_env \<Rightarrow> i64 list \<Rightarrow> u32 list \<Rightarrow> bool \<Rightarrow> u32 list option" where
  "sublimation_pack_sort_i64 env keys indices desc =
     (if length indices < 2 \<or> \<not> se_malloc env (2 * length indices * 16) then Some indices
      else sublimation_pack_sort_i64_with_scratch env keys indices desc)"

definition sublimation_pack_sort_f64 :: "sort_env \<Rightarrow> dbl list \<Rightarrow> u32 list \<Rightarrow> bool \<Rightarrow> u32 list option" where
  "sublimation_pack_sort_f64 env keys indices desc =
     (if length indices < 2 \<or> \<not> se_malloc env (2 * length indices * 16) then Some indices
      else sublimation_pack_sort_f64_with_scratch env keys indices desc)"

text \<open>One more, less significant, column of an existing order; \<open>False\<close> when a buffer cannot be allocated.\<close>

definition sublimation_refine_order_f64 :: "sort_env \<Rightarrow> u32 list \<Rightarrow> dbl list \<Rightarrow> bool \<Rightarrow> (bool \<times> u32 list) option" where
  "sublimation_refine_order_f64 env order key_by_row desc =
     (let n = length order in
      if n < 2 then Some (True, order)
      else if \<not> (se_malloc env (n * 8) \<and> se_malloc env (n * 4)) then Some (False, order)
      else let gathered = map (\<lambda>r. key_by_row ! unat r) order; idx = map word_of_nat [0..<n]
           in map_option (\<lambda>idx'. (True, map (\<lambda>i. order ! unat i) idx')) (sublimation_pack_sort_f64 env gathered idx desc))"

section \<open>The two arms agree\<close>

lemma sub_pack_dispatch64_sorts: "length b = length a \<Longrightarrow> sub_pack_dispatch64 env a b = Some (sort_key slot_key a)"
proof -
  assume b: "length b = length a"
  have "sort_key slot_key a = a" if "length a < 2" using that by (cases a; cases "tl a") auto
  then show ?thesis
    using b by (simp add: sub_pack_dispatch64_def Let_def sub_spectral_merge_sorts sub_radix_pairs64_sorts)
qed

lemma sort_key_map: "sort_key f (map g xs) = map g (sort_key (\<lambda>x. f (g x)) xs)"
proof (rule sorted_stable_unique)
  show "sorted_by f (map g (sort_key (\<lambda>x. f (g x)) xs))" using sorted_sort_key [of "\<lambda>x. f (g x)" xs] by (simp add: comp_def)
  show "stable f (map g xs) (map g (sort_key (\<lambda>x. f (g x)) xs))"
    using stable_sort_key [of "\<lambda>x. f (g x)" xs] by (simp add: stable_def filter_map comp_def)
qed

text \<open>An index sort is the stable sort of the positions by the mapped key, complemented when descending.\<close>

definition dir_key :: "bool \<Rightarrow> ('k \<Rightarrow> u64) \<Rightarrow> 'k \<Rightarrow> u64" where
  "dir_key desc to_key k = (if desc then NOT (to_key k) else to_key k)"

lemma pack_sort64_sorts:
  "pack_sort64 to_key env keys indices desc =
     Some (map ((!) indices) (sort_key (\<lambda>i. dir_key desc to_key (keys ! i)) [0..<length indices]))"
  by (simp add: pack_sort64_def Let_def sub_pack_dispatch64_sorts sort_key_map dir_key_def comp_def)

lemma dir_key_less: "dir_key desc to_key a < dir_key desc to_key b \<longleftrightarrow> (if desc then to_key b < to_key a else to_key a < to_key b)"
proof -
  have "NOT x < NOT y \<longleftrightarrow> y < x" for x y :: u64
  proof -
    have n: "NOT z = - 1 - z" for z :: u64 by (simp add: not_eq_complement)
    have "uint (- 1 - z) = 2 ^ 64 - 1 - uint z" for z :: u64
    proof -
      have "uint z \<le> 2 ^ 64 - 1" using unsigned_less [where ?'a = int, of z] by simp
      then have "uint (- 1 :: u64) - uint z = 2 ^ 64 - 1 - uint z" "z \<le> - 1"
        by (simp_all add: unsigned_minus_1_eq_mask mask_eq_exp_minus_1)
      then show ?thesis using uint_minus_simple_alt [of z "- 1"] by (simp add: unsigned_minus_1_eq_mask mask_eq_exp_minus_1)
    qed
    then show ?thesis unfolding n word_less_def by simp
  qed
  then show ?thesis by (simp add: dir_key_def)
qed

lemma refine_order_sorts:
  assumes "\<forall>n. se_malloc env n" "length order \<le> 2 ^ 32"
  shows "sublimation_refine_order_f64 env order key_by_row desc =
    Some (True, sort_key (\<lambda>r. dir_key desc sub_key_from_f64 (key_by_row ! unat r)) order)"
proof (cases "length order < 2")
  case True
  then show ?thesis by (cases order; cases "tl order") (simp_all add: sublimation_refine_order_f64_def)
next
  case False
  define n where "n = length order"
  define g where "g = (\<lambda>r :: u32. dir_key desc sub_key_from_f64 (key_by_row ! unat r))"
  define ys where "ys = sort_key (\<lambda>i. g (order ! i)) [0..<n]"
  have small: "unat (word_of_nat i :: u32) = i" if "i < n" for i
    using that assms(2) by (simp add: n_def unsigned_of_nat take_bit_nat_eq_self)
  have ys: "sort_key (\<lambda>i. dir_key desc sub_key_from_f64 (map (\<lambda>r. key_by_row ! unat r) order ! i)) [0..<n] = ys"
    unfolding ys_def g_def by (rule sort_key_equiv) (simp add: n_def)
  have "order = map ((!) order) [0..<n]" unfolding n_def by (rule map_nth [symmetric])
  then have "sort_key g order = sort_key g (map ((!) order) [0..<n])" by (rule arg_cong)
  also have "\<dots> = map ((!) order) ys" unfolding ys_def by (rule sort_key_map)
  finally have s: "sort_key g order = map ((!) order) ys" .
  have "set ys = {0..<n}" by (simp add: ys_def)
  then have "map (\<lambda>i. order ! unat i) (map ((!) (map word_of_nat [0..<n] :: u32 list)) ys) = map ((!) order) ys"
    by (auto simp: small)
  moreover have "sublimation_pack_sort_f64 env (map (\<lambda>r. key_by_row ! unat r) order) (map word_of_nat [0..<n]) desc =
      Some (map ((!) (map word_of_nat [0..<n])) ys)"
    using False assms(1)
    by (simp add: sublimation_pack_sort_f64_def sublimation_pack_sort_f64_with_scratch_def pack_sort64_sorts ys flip: n_def)
  ultimately show ?thesis
    using False assms(1) s by (simp add: sublimation_refine_order_f64_def Let_def g_def flip: n_def)
qed

section \<open>The order of the mapped keys\<close>

text \<open>A finite value the format has.\<close>

fun is_f64 :: "dbl \<Rightarrow> bool" where
  "is_f64 (Num r) \<longleftrightarrow> r = 0 \<or> (let e = max (exp2_of \<bar>r\<bar>) (- 1022) in \<bar>r\<bar> / 2 powi (e - 52) \<in> \<int>) \<and> \<bar>r\<bar> < 2 powi 1024"
| "is_f64 x \<longleftrightarrow> True"

text \<open>The order the sort realises: that of the values, with the negative zero below the positive one.\<close>

definition f64_before :: "dbl \<Rightarrow> dbl \<Rightarrow> bool" where
  "f64_before a b \<longleftrightarrow> d_less a b \<or> a = NegZero \<and> b = Num 0"

lemma pos_bits_mono:
  assumes "0 < x" "x < y" "x / 2 powi (max (exp2_of x) (- 1022) - 52) \<in> \<int>" "y / 2 powi (max (exp2_of y) (- 1022) - 52) \<in> \<int>"
  shows "pos_bits x < pos_bits y"
proof -
  define e f where "e = max (exp2_of x) (- 1022)" and "f = max (exp2_of y) (- 1022)"
  have ef: "e \<le> f" unfolding e_def f_def using exp2_of_mono [of x y] assms(1,2) by auto
  obtain m n where m: "x / 2 powi (e - 52) = of_int m" and n: "y / 2 powi (f - 52) = of_int n"
    using assms(3,4) unfolding e_def f_def by (auto elim!: Ints_cases)
  have pb: "pos_bits x = (e + 1022) * 2 ^ 52 + m" "pos_bits y = (f + 1022) * 2 ^ 52 + n"
    by (simp_all add: pos_bits_def Let_def m n flip: e_def f_def)
  have split: "(2::rat) powi (g + 1) = 2 ^ 53 * 2 powi (g - 52)" for g by (simp add: power_int_add power_int_diff)
  show ?thesis
  proof (cases "e = f")
    case True
    have "rat_of_int m < of_int n" unfolding m [symmetric] n [symmetric] True
      using assms(2) by (intro divide_strict_right_mono) simp_all
    then show ?thesis using True by (simp add: pb)
  next
    case False
    with ef have lt: "e < f" by simp
    have "x < 2 powi (e + 1)" using exp2_of_bounds(2) [OF assms(1)] powi_le_iff [of "exp2_of x + 1" "e + 1"]
      by (auto simp: e_def intro: less_le_trans)
    then have "rat_of_int m < 2 ^ 53" unfolding m [symmetric] by (simp add: pos_divide_less_eq split)
    then have m53: "m < 2 ^ 53" by (metis of_int_less_iff of_int_numeral of_int_power)
    have "exp2_of y = f" using lt unfolding f_def e_def by auto
    then have "2 powi f \<le> y" using exp2_of_bounds(1) [of y] assms(1,2) by auto
    moreover have "(2::rat) powi f = 2 ^ 52 * 2 powi (f - 52)" by (simp add: power_int_diff)
    ultimately have "2 ^ 52 \<le> rat_of_int n" unfolding n [symmetric] by (simp add: pos_le_divide_eq)
    then have "2 ^ 52 \<le> n" by (metis of_int_le_iff of_int_numeral of_int_power)
    moreover have "(e + 1) * 2 ^ 52 \<le> f * 2 ^ 52" using lt by simp
    ultimately show ?thesis using m53 by (simp add: pb algebra_simps)
  qed
qed

lemma pos_bits_range:
  assumes "0 < x" "x < 2 powi 1024" "x / 2 powi (max (exp2_of x) (- 1022) - 52) \<in> \<int>"
  shows "0 < pos_bits x" "pos_bits x < 0x7FF0000000000000"
proof -
  define e where "e = max (exp2_of x) (- 1022)"
  obtain m where m: "x / 2 powi (e - 52) = of_int m" using assms(3) unfolding e_def by (auto elim!: Ints_cases)
  have pb: "pos_bits x = (e + 1022) * 2 ^ 52 + m" by (simp add: pos_bits_def Let_def m flip: e_def)
  have "0 < rat_of_int m" unfolding m [symmetric] using assms(1) by simp
  then have m0: "0 < m" by simp
  have e: "- 1022 \<le> e" "e \<le> 1023" using exp2_of_le [OF assms(1), of 1023] assms(2) by (auto simp: e_def)
  have "x < 2 powi (e + 1)" using exp2_of_bounds(2) [OF assms(1)] powi_le_iff [of "exp2_of x + 1" "e + 1"]
    by (auto simp: e_def intro: less_le_trans)
  moreover have "(2::rat) powi (e + 1) = 2 ^ 53 * 2 powi (e - 52)" by (simp add: power_int_add power_int_diff)
  ultimately have "rat_of_int m < 2 ^ 53" unfolding m [symmetric] by (simp add: pos_divide_less_eq)
  then have "m < 2 ^ 53" by (metis of_int_less_iff of_int_numeral of_int_power)
  moreover have "0 \<le> (e + 1022) * 2 ^ 52" "(e + 1022) * 2 ^ 52 \<le> 2045 * 2 ^ 52" using e by simp_all
  ultimately show "0 < pos_bits x" "pos_bits x < 0x7FF0000000000000" using m0 unfolding pb by simp_all
qed

text \<open>The mapped key of a value: positive ones from \<open>2 ^ 63\<close> up, negative ones below, mirrored.\<close>

lemma f64_key_positive:
  assumes "0 \<le> u" "u < 2 ^ 63"
  defines "v \<equiv> word_of_int u :: u64"
  shows "uint (v XOR ((- drop_bit 63 v) OR 0x8000000000000000)) = 2 ^ 63 + u"
proof -
  have v: "uint v = u" using assms by (simp add: v_def uint_word_of_int)
  have "uint (drop_bit 63 v) = 0" using assms(1,2)
    by (simp only: unsigned_drop_bit_eq v) (simp add: drop_bit_eq_div take_bit_eq_mod)
  then have d: "drop_bit 63 v = 0" by (simp only: uint_0_iff)
  have u63: "\<not> bit u 63" using assms(1,2) by (simp add: bit_iff_odd)
  have "u AND 2 ^ 63 = 0"
    by (rule bit_eqI) (use u63 in \<open>simp only: bit_and_iff bit_exp_iff bit_0_eq, auto\<close>)
  then have "u XOR 2 ^ 63 = u + 2 ^ 63" by (simp only: disjunctive_add_eq_xor)
  moreover have "uint (v XOR 0x8000000000000000) = u XOR 2 ^ 63" by (simp add: unsigned_xor_eq v)
  ultimately show ?thesis by (simp add: d)
qed

lemma f64_key_negative:
  assumes "0 \<le> u" "u < 2 ^ 63"
  defines "v \<equiv> word_of_int (2 ^ 63 + u) :: u64"
  shows "uint (v XOR ((- drop_bit 63 v) OR 0x8000000000000000)) = 2 ^ 63 - 1 - u"
proof -
  have v: "uint v = 2 ^ 63 + u" using assms(1,2) unfolding v_def by (simp only: uint_word_of_int) simp
  have "uint (drop_bit 63 v) = 1" using assms(1,2)
    by (simp only: unsigned_drop_bit_eq v) (simp add: drop_bit_eq_div take_bit_eq_mod)
  then have d: "drop_bit 63 v = 1" by (metis word_uint_eqI uint_1)
  have "v XOR ((- 1) OR 0x8000000000000000) = NOT v" by simp
  moreover have "uint (NOT v) = 2 ^ 64 - 1 - uint v"
    by (simp add: unsigned_not_eq v take_bit_not_eq_mask_diff mask_eq_exp_minus_1) (use assms in \<open>simp add: take_bit_eq_mod\<close>)
  ultimately show ?thesis by (simp add: d v)
qed

lemma sub_key_from_f64_values:
  "is_f64 (Num r) \<Longrightarrow> 0 < r \<Longrightarrow> uint (sub_key_from_f64 (Num r)) = 2 ^ 63 + pos_bits r"
  "is_f64 (Num r) \<Longrightarrow> r < 0 \<Longrightarrow> uint (sub_key_from_f64 (Num r)) = 2 ^ 63 - 1 - pos_bits (- r)"
  "uint (sub_key_from_f64 (Num 0)) = 2 ^ 63" "uint (sub_key_from_f64 NegZero) = 2 ^ 63 - 1"
  "uint (sub_key_from_f64 PosInf) = 2 ^ 63 + 0x7FF0000000000000" "uint (sub_key_from_f64 NegInf) = 2 ^ 63 - 1 - 0x7FF0000000000000"
proof -
  show "uint (sub_key_from_f64 (Num r)) = 2 ^ 63 + pos_bits r" if "is_f64 (Num r)" "0 < r"
    using that pos_bits_range [of r] f64_key_positive [of "pos_bits r"] by (simp add: sub_key_from_f64_def Let_def)
  show "uint (sub_key_from_f64 (Num r)) = 2 ^ 63 - 1 - pos_bits (- r)" if "is_f64 (Num r)" "r < 0"
    using that pos_bits_range [of "- r"] f64_key_negative [of "pos_bits (- r)"] by (simp add: sub_key_from_f64_def Let_def)
  show "uint (sub_key_from_f64 (Num 0)) = 2 ^ 63" "uint (sub_key_from_f64 NegZero) = 2 ^ 63 - 1"
    "uint (sub_key_from_f64 PosInf) = 2 ^ 63 + 0x7FF0000000000000" "uint (sub_key_from_f64 NegInf) = 2 ^ 63 - 1 - 0x7FF0000000000000"
    using f64_key_positive [of 0] f64_key_negative [of 0] f64_key_positive [of "0x7FF0000000000000"]
      f64_key_negative [of "0x7FF0000000000000"]
    by (simp_all add: sub_key_from_f64_def Let_def)
qed

text \<open>On every value but NaN the mapped keys are in the order of the values.\<close>

lemma sub_key_from_f64_order:
  assumes "is_f64 a" "is_f64 b" "a \<noteq> NaN" "b \<noteq> NaN"
  shows "sub_key_from_f64 a < sub_key_from_f64 b \<longleftrightarrow> f64_before a b"
proof -
  have num: "uint (sub_key_from_f64 (Num r)) < uint (sub_key_from_f64 (Num s)) \<longleftrightarrow> r < s"
    if "is_f64 (Num r)" "is_f64 (Num s)" for r s
  proof -
    have up: "uint (sub_key_from_f64 (Num r)) < uint (sub_key_from_f64 (Num s))"
      if rs: "is_f64 (Num r)" "is_f64 (Num s)" "r < s" for r s
    proof -
      consider "0 < r" | "r = 0" | "r < 0" "s < 0" | "r < 0" "0 \<le> s" by linarith
      then show ?thesis
      proof cases
        case 1
        with rs show ?thesis using pos_bits_mono [of r s] by (simp add: sub_key_from_f64_values Let_def)
      next
        case 2
        with rs show ?thesis using pos_bits_range(1) [of s] by (simp add: sub_key_from_f64_values Let_def)
      next
        case 3
        with rs show ?thesis using pos_bits_mono [of "- s" "- r"] by (simp add: sub_key_from_f64_values Let_def)
      next
        case 4
        with rs show ?thesis using pos_bits_range(1) [of "- r"] pos_bits_range(1) [of s]
          by (cases "s = 0") (simp_all add: sub_key_from_f64_values Let_def)
      qed
    qed
    show ?thesis using up [OF that] up [OF that(2,1)] by (cases r s rule: linorder_cases) auto
  qed
  have bound: "2 ^ 63 - 1 - 0x7FF0000000000000 < uint (sub_key_from_f64 (Num r))" "uint (sub_key_from_f64 (Num r)) < 2 ^ 63 + 0x7FF0000000000000"
    "uint (sub_key_from_f64 (Num r)) < 2 ^ 63 \<longleftrightarrow> r < 0" "uint (sub_key_from_f64 (Num r)) \<noteq> 2 ^ 63 - 1" if "is_f64 (Num r)" for r
  proof -
    consider "0 < r" | "r = 0" | "r < 0" by linarith
    then have "2 ^ 63 - 1 - 0x7FF0000000000000 < uint (sub_key_from_f64 (Num r)) \<and> uint (sub_key_from_f64 (Num r)) < 2 ^ 63 + 0x7FF0000000000000 \<and>
      (uint (sub_key_from_f64 (Num r)) < 2 ^ 63 \<longleftrightarrow> r < 0) \<and> uint (sub_key_from_f64 (Num r)) \<noteq> 2 ^ 63 - 1"
      using that pos_bits_range [of r] pos_bits_range [of "- r"]
      by cases (simp_all add: sub_key_from_f64_values Let_def)
    then show "2 ^ 63 - 1 - 0x7FF0000000000000 < uint (sub_key_from_f64 (Num r))" "uint (sub_key_from_f64 (Num r)) < 2 ^ 63 + 0x7FF0000000000000"
      "uint (sub_key_from_f64 (Num r)) < 2 ^ 63 \<longleftrightarrow> r < 0" "uint (sub_key_from_f64 (Num r)) \<noteq> 2 ^ 63 - 1" by auto
  qed
  have zero: "uint (sub_key_from_f64 (Num r)) < 2 ^ 63 - 1 \<longleftrightarrow> r < 0" "2 ^ 63 - 1 < uint (sub_key_from_f64 (Num r)) \<longleftrightarrow> 0 < r \<or> r = 0"
    "\<not> 2 ^ 63 + 0x7FF0000000000000 < uint (sub_key_from_f64 (Num r))"
    "\<not> uint (sub_key_from_f64 (Num r)) < 2 ^ 63 - 1 - 0x7FF0000000000000"
    if "is_f64 (Num r)" for r
    using bound [OF that] by linarith+
  note special = sub_key_from_f64_values(4-6)
  show ?thesis
  proof (cases a)
    case (Num r)
    note a = Num
    have r: "is_f64 (Num r)" using assms(1) a by simp
    show ?thesis
      using num [OF r] bound [OF r] zero [OF r] assms(2,4) unfolding word_less_def a
      by (cases b) (simp_all add: f64_before_def special)
  next
    case NegZero
    show ?thesis
    proof (cases b)
      case (Num r)
      then have "is_f64 (Num r)" using assms(2) by simp
      from bound [OF this] zero [OF this] show ?thesis
        unfolding word_less_def NegZero Num by (auto simp: f64_before_def special)
    qed (use NegZero assms(4) in \<open>simp_all add: word_less_def f64_before_def special\<close>)
  next
    case PosInf
    show ?thesis
    proof (cases b)
      case (Num r)
      then have "is_f64 (Num r)" using assms(2) by simp
      from bound [OF this] zero [OF this] show ?thesis
        unfolding word_less_def PosInf Num by (auto simp: f64_before_def special)
    qed (use PosInf assms(4) in \<open>simp_all add: word_less_def f64_before_def special\<close>)
  next
    case NegInf
    show ?thesis
    proof (cases b)
      case (Num r)
      then have "is_f64 (Num r)" using assms(2) by simp
      from bound [OF this] zero [OF this] show ?thesis
        unfolding word_less_def NegInf Num by (auto simp: f64_before_def special)
    qed (use NegInf assms(4) in \<open>simp_all add: word_less_def f64_before_def special\<close>)
  qed (use assms in simp)
qed

section \<open>Rounded values are values of the format\<close>

lemma powi_unit_int: "(a::int) \<le> b \<Longrightarrow> (2::rat) powi (b - a) \<in> \<int>"
  by (simp add: power_int_def)

lemma round_pos_in_format:
  assumes x: "0 < x" and r: "r = round_pos 53 (- 1022) x" "0 < r"
  shows "r / 2 powi (max (exp2_of r) (- 1022) - 52) \<in> \<int>"
proof -
  define e f where "e = max (exp2_of x) (- 1022)" and "f = max (exp2_of r) (- 1022)"
  obtain m where m: "r = of_int m * 2 powi (e - 52)" by (auto simp: r(1) round_pos_def Let_def e_def)
  have "x < 2 powi (e + 1)" using exp2_of_bounds(2) [OF x] powi_le_iff [of "exp2_of x + 1" "e + 1"]
    by (auto simp: e_def intro: less_le_trans)
  then have up: "r \<le> 2 powi (e + 1)"
    unfolding r(1) e_def by (intro round_pos_upper [OF x, of e]) (simp_all add: e_def)
  have shift: "(2::rat) powi (e - 52) / 2 powi (f - 52) = 2 powi (e - f)" by (simp flip: power_int_diff)
  show ?thesis
  proof (cases "f \<le> e")
    case True
    have "r / 2 powi (f - 52) = of_int m * 2 powi (e - f)" unfolding m shift [symmetric] by simp
    also have "\<dots> \<in> \<int>" using powi_unit_int [OF True] by (intro Ints_mult) simp_all
    finally show ?thesis by (simp add: f_def)
  next
    case False
    then have e: "exp2_of r = f" "e < f" by (auto simp: f_def e_def)
    have "2 powi f \<le> r" using exp2_of_bounds(1) [OF r(2)] e by simp
    then have "(2::rat) powi f \<le> 2 powi (e + 1)" using up by linarith
    then have f: "f = e + 1" using e by (simp add: powi_le_iff)
    with up \<open>2 powi f \<le> r\<close> have "r = 2 powi f" by simp
    then have "r / 2 powi (f - 52) = 2 powi (f - (f - 52))" by (simp flip: power_int_diff)
    also have "\<dots> \<in> \<int>" by (rule powi_unit_int) simp
    finally show ?thesis by (simp add: f_def)
  qed
qed

lemma to_dbl_is_f64: "is_f64 (to_dbl s x)"
proof -
  define r where "r = round_pos 53 (- 1022) \<bar>x\<bar>"
  have "0 \<le> r" unfolding r_def by (rule round_pos_nonneg) simp
  then have "r \<noteq> 0 \<Longrightarrow> x \<noteq> 0 \<Longrightarrow> r / 2 powi (max (exp2_of r) (- 1022) - 52) \<in> \<int>"
    using round_pos_in_format [of "\<bar>x\<bar>" r] by (simp add: r_def)
  with \<open>0 \<le> r\<close> show ?thesis by (auto simp: to_dbl_def fp_round_def Let_def not_le simp flip: r_def)
qed

lemma arith_is_f64: "is_f64 x \<Longrightarrow> is_f64 y \<Longrightarrow> is_f64 (d_mul x y)" "is_f64 (d_div x y)"
  by (auto simp: fp_mul_def fp_div_def Let_def to_dbl_is_f64)

section \<open>Properties\<close>

text \<open>C17: on the values of the format other than NaN the unsigned keys of doubles are ordered as the values
  are, infinities and subnormals included, except that the negative zero comes strictly before the
  positive one.\<close>

theorem f64_key_order:
  assumes "is_f64 a" and "is_f64 b" and "a \<noteq> NaN" and "b \<noteq> NaN"
  shows "sub_key_from_f64 a < sub_key_from_f64 b \<longleftrightarrow> d_less a b \<or> a = NegZero \<and> b = Num 0"
  using sub_key_from_f64_order [OF assms] by (simp add: f64_before_def)

theorem f64_key_order_witness:
  "sub_key_from_f64 NegZero < sub_key_from_f64 (Num 0) \<and> \<not> d_less NegZero (Num 0) \<and> sub_key_from_f64 NegInf < sub_key_from_f64 NegZero"
  using f64_key_order [of NegZero "Num 0"] f64_key_order [of NegInf NegZero] by simp

text \<open>The index sort by doubles returns the indices in the stable order of their keys, ascending or
  descending, through the radix sort or the spectral merge alike, and as they were when it cannot
  allocate its buffers.\<close>

theorem pack_sort_f64_indices:
  "sublimation_pack_sort_f64 env keys indices desc =
     Some (if 2 \<le> length indices \<and> se_malloc env (2 * length indices * 16)
           then map ((!) indices) (sort_key (\<lambda>i. dir_key desc sub_key_from_f64 (keys ! i)) [0..<length indices])
           else indices)"
  by (simp add: sublimation_pack_sort_f64_def sublimation_pack_sort_f64_with_scratch_def pack_sort64_sorts)

text \<open>C30: refining an order of up to \<open>2 ^ 32\<close> rows by a further column reports success and gives the stable sort of
  that order by the column's key, so the columns refined before stay the tie-break.\<close>

theorem refine_order_stable:
  assumes "\<forall>n. se_malloc env n" and "length order \<le> 2 ^ 32"
  shows "sublimation_refine_order_f64 env order key_by_row desc =
    Some (True, sort_key (\<lambda>r. dir_key desc sub_key_from_f64 (key_by_row ! unat r)) order)"
  by (rule refine_order_sorts [OF assms])

theorem refine_order_stable_witness:
  "sublimation_refine_order_f64 \<lparr>se_malloc = \<lambda>_. True, se_classify = \<lambda>_. SUB_SORTED, se_scratch = \<lambda>_. \<lparr>slot_key = 0, slot_idx = 0\<rparr>\<rparr>
     [2, 0, 1] [PosInf, NegZero, PosInf] False = Some (True, [1, 2, 0])"
proof -
  let ?env = "\<lparr>se_malloc = \<lambda>_. True, se_classify = \<lambda>_. SUB_SORTED, se_scratch = \<lambda>_. \<lparr>slot_key = 0, slot_idx = 0\<rparr>\<rparr>"
  have "\<forall>n. se_malloc ?env n" "length [2, 0, 1 :: u32] \<le> 2 ^ 32" by simp_all
  from refine_order_stable [OF this, of "[PosInf, NegZero, PosInf]" False] show ?thesis
    using sub_key_from_f64_values(4,5) by (simp add: sort_key_def dir_key_def word_le_def)
qed

end
