(* ===== verification/Ordering.thy ===== *)
theory Ordering
  imports Sublimation_Pack
begin

text \<open>
  Ordering a vector of records by one key (\<open>sublimation/src/include/sublimation_order.hpp\<close>, and the cut of
  \<open>src/include/collectors/ProcessParsing.hpp\<close>): keys are extracted, an index sort orders them, and the
  records are gathered. Every ordering here is the stable sort of the vector by the mapped key, or the
  vector itself where the index sort could not allocate.
\<close>

section \<open>The gathers\<close>

definition sublimation_order_u64 :: "sort_env \<Rightarrow> bool \<Rightarrow> ('a \<Rightarrow> u64) \<Rightarrow> 'a list \<Rightarrow> 'a list option" where
  "sublimation_order_u64 env descending key v =
     (let n = length v in
      if n < 2 then Some v
      else map_option (\<lambda>idx. map (\<lambda>i. v ! unat (idx ! i)) [0..<n])
             (sublimation_pack_sort_u64 env (map key v) (map word_of_nat [0..<n]) descending))"

definition sublimation_order_f64 :: "sort_env \<Rightarrow> bool \<Rightarrow> ('a \<Rightarrow> dbl) \<Rightarrow> 'a list \<Rightarrow> 'a list option" where
  "sublimation_order_f64 env descending key v =
     (let n = length v in
      if n < 2 then Some v
      else map_option (\<lambda>idx. map (\<lambda>i. v ! unat (idx ! i)) [0..<n])
             (sublimation_pack_sort_f64 env (map key v) (map word_of_nat [0..<n]) descending))"

definition top_k_by_cpu_pct :: "sort_env \<Rightarrow> ('a \<Rightarrow> dbl) \<Rightarrow> nat \<Rightarrow> 'a list \<Rightarrow> 'a list option" where
  "top_k_by_cpu_pct env cpu_pct k v =
     (let n = length v in
      if n < 2 then Some (if k < n then take k v else v)
      else let keep = (if n < k then n else k)
           in map_option (\<lambda>idx. map (\<lambda>i. v ! unat (idx ! i)) [0..<keep])
                (sublimation_pack_sort_f64_with_scratch env (map cpu_pct v) (map word_of_nat [0..<n]) True))"

section \<open>What a gather through an index sort gives\<close>

lemma unat_index: "i < n \<Longrightarrow> n \<le> 2 ^ 32 \<Longrightarrow> unat (word_of_nat i :: u32) = i"
  by (simp add: unsigned_of_nat take_bit_nat_eq_self)

lemma gather_pack:
  assumes n: "length v = n" "n \<le> 2 ^ 32" and k: "k \<le> n"
  shows "map_option (\<lambda>idx. map (\<lambda>i. v ! unat (idx ! i)) [0..<k])
      (pack_sort64 to_key env (map key v) (map word_of_nat [0..<n]) desc) =
    Some (take k (sort_key (\<lambda>x. dir_key desc to_key (key x)) v))"
proof -
  define ys where "ys = sort_key (\<lambda>i. dir_key desc to_key (map key v ! i)) [0..<n]"
  have ys: "length ys = n" "set ys = {0..<n}" by (simp_all add: ys_def)
  have "v = map ((!) v) [0..<n]" using n(1) map_nth [of v] by simp
  then have "sort_key (\<lambda>x. dir_key desc to_key (key x)) v = sort_key (\<lambda>x. dir_key desc to_key (key x)) (map ((!) v) [0..<n])"
    by (rule arg_cong)
  also have "\<dots> = map ((!) v) (sort_key (\<lambda>i. dir_key desc to_key (key (v ! i))) [0..<n])" by (rule sort_key_map)
  also have "sort_key (\<lambda>i. dir_key desc to_key (key (v ! i))) [0..<n] = ys"
    unfolding ys_def by (rule sort_key_equiv) (simp add: n(1))
  finally have s: "sort_key (\<lambda>x. dir_key desc to_key (key x)) v = map ((!) v) ys" .
  have small: "unat (word_of_nat i :: u32) = i" if "i < n" for i
    using that n(2) by (rule unat_index)
  have "v ! unat (map ((!) (map word_of_nat [0..<n] :: u32 list)) ys ! i) = v ! (ys ! i)" if "i < k" for i
  proof -
    have "ys ! i \<in> {0..<n}" using ys that k by (metis less_le_trans nth_mem)
    then have "ys ! i < n" by simp
    with that k ys(1) show ?thesis by (simp add: small)
  qed
  then have "map (\<lambda>i. v ! unat (map ((!) (map word_of_nat [0..<n] :: u32 list)) ys ! i)) [0..<k] = take k (map ((!) v) ys)"
    using k ys(1) by (intro nth_equalityI) simp_all
  then show ?thesis by (simp add: pack_sort64_sorts s flip: ys_def)
qed

definition pack_grants :: "sort_env \<Rightarrow> nat \<Rightarrow> bool" where
  "pack_grants env n \<longleftrightarrow> se_malloc env (2 * n * 16)"

lemma sort_key_short: "length v < 2 \<Longrightarrow> sort_key f v = v"
  by (cases v; cases "tl v") auto

lemma sublimation_order_u64_sorts:
  assumes "length v \<le> 2 ^ 32" "pack_grants env (length v)"
  shows "sublimation_order_u64 env desc key v = Some (sort_key (\<lambda>x. dir_key desc sub_key_from_u64 (key x)) v)"
proof (cases "length v < 2")
  case False
  then show ?thesis
    using gather_pack [OF refl assms(1) order_refl, of sub_key_from_u64 env key desc] assms(2)
    by (simp add: sublimation_order_u64_def sublimation_pack_sort_u64_def sublimation_pack_sort_u64_with_scratch_def pack_grants_def Let_def)
qed (simp add: sublimation_order_u64_def sort_key_short)

lemma sublimation_order_f64_sorts:
  assumes "length v \<le> 2 ^ 32" "pack_grants env (length v)"
  shows "sublimation_order_f64 env desc key v = Some (sort_key (\<lambda>x. dir_key desc sub_key_from_f64 (key x)) v)"
proof (cases "length v < 2")
  case False
  then show ?thesis
    using gather_pack [OF refl assms(1) order_refl, of sub_key_from_f64 env key desc] assms(2)
    by (simp add: sublimation_order_f64_def sublimation_pack_sort_f64_def sublimation_pack_sort_f64_with_scratch_def pack_grants_def Let_def)
qed (simp add: sublimation_order_f64_def sort_key_short)

lemma gather_identity:
  assumes "length v \<le> 2 ^ 32"
  shows "map (\<lambda>i. v ! unat ((map word_of_nat [0..<length v] :: u32 list) ! i)) [0..<length v] = v"
  using assms by (intro nth_equalityI) (simp_all add: unat_index [of _ "length v"])

text \<open>Without memory the vector stays as it is.\<close>

lemma sublimation_order_no_memory:
  assumes "length v \<le> 2 ^ 32" "\<not> pack_grants env (length v)"
  shows "sublimation_order_u64 env desc key v = Some v" "sublimation_order_f64 env desc fkey v = Some v"
  using assms gather_identity [OF assms(1)]
  by (simp_all add: sublimation_order_u64_def sublimation_order_f64_def sublimation_pack_sort_u64_def
      sublimation_pack_sort_f64_def pack_grants_def Let_def)

lemma top_k_sorts:
  assumes "length v \<le> 2 ^ 32"
  shows "top_k_by_cpu_pct env key k v = Some (take k (sort_key (\<lambda>x. dir_key True sub_key_from_f64 (key x)) v))"
proof (cases "length v < 2")
  case False
  show ?thesis
  proof (cases "length v < k")
    case True
    then show ?thesis
      using False gather_pack [OF refl assms order_refl, of sub_key_from_f64 env key True]
      by (simp add: top_k_by_cpu_pct_def sublimation_pack_sort_f64_with_scratch_def Let_def)
  next
    case k: False
    then show ?thesis
      using False gather_pack [OF refl assms, of k sub_key_from_f64 env key True]
      by (simp add: top_k_by_cpu_pct_def sublimation_pack_sort_f64_with_scratch_def Let_def)
  qed
qed (simp add: top_k_by_cpu_pct_def sort_key_short Let_def)

section \<open>Descending order of doubles\<close>

text \<open>A key that is a value of the format, and not one of the two the key mapping and \<open><\<close> disagree on.\<close>

definition plain_key :: "dbl \<Rightarrow> bool" where
  "plain_key x \<longleftrightarrow> is_f64 x \<and> x \<noteq> NaN \<and> x \<noteq> NegZero"

lemma plain_key_desc:
  assumes "plain_key a" "plain_key b"
  shows "dir_key True sub_key_from_f64 a \<le> dir_key True sub_key_from_f64 b \<longleftrightarrow> \<not> d_less a b"
  using assms sub_key_from_f64_order [of a b]
  by (simp add: plain_key_def f64_before_def dir_key_less flip: not_less)

lemma plain_key_less:
  "plain_key a \<Longrightarrow> plain_key b \<Longrightarrow> d_less a b \<longleftrightarrow> dir_key True sub_key_from_f64 b < dir_key True sub_key_from_f64 a"
  using plain_key_desc [of a b] by (auto simp flip: not_le)

lemma sorted_wrt_sort_key: "sorted_wrt (\<lambda>x y. f x \<le> f y) (sort_key f xs)"
  using sorted_sort_key [of f xs] by (simp add: sorted_map)

lemma insort_key_lex:
  assumes "sorted_wrt (\<lambda>x y. f x < f y \<or> f x = f y \<and> R x y) ys" "\<forall>y \<in> set ys. R x y"
  shows "sorted_wrt (\<lambda>x y. f x < f y \<or> f x = f y \<and> R x y) (insort_key f x ys)"
  using assms by (induction ys) (auto simp: set_insort_key)

lemma sorted_wrt_sort_key_lex: "sorted_wrt R xs \<Longrightarrow> sorted_wrt (\<lambda>x y. f x < f y \<or> f x = f y \<and> R x y) (sort_key f xs)"
  by (induction xs) (simp_all add: sort_key_def insort_key_lex flip: sort_key_def)

lemma f64_desc_sorted:
  assumes "\<forall>x \<in> set v. plain_key (key x)"
  shows "sorted_wrt (\<lambda>x y. \<not> d_less (key x) (key y)) (sort_key (\<lambda>x. dir_key True sub_key_from_f64 (key x)) v)"
  using sorted_wrt_sort_key [of "\<lambda>x. dir_key True sub_key_from_f64 (key x)" v] assms
  by (elim sorted_wrt_mono_rel [rotated]) (simp add: plain_key_desc)

lemma f64_desc_stable:
  assumes "\<forall>x \<in> set v. plain_key (key x)" "plain_key c"
  shows "filter (\<lambda>x. key x = c) (sort_key (\<lambda>x. dir_key True sub_key_from_f64 (key x)) v) = filter (\<lambda>x. key x = c) v"
proof -
  let ?f = "\<lambda>x. dir_key True sub_key_from_f64 (key x)"
  have same: "?f x = dir_key True sub_key_from_f64 c \<longleftrightarrow> key x = c" if "x \<in> set v" for x
  proof
    assume "?f x = dir_key True sub_key_from_f64 c"
    then have "\<not> d_less (key x) c" "\<not> d_less c (key x)"
      using plain_key_desc [of "key x" c] plain_key_desc [of c "key x"] assms that by auto
    then show "key x = c" using assms that by (cases "key x"; cases c) (auto simp: plain_key_def)
  qed simp
  have "filter (\<lambda>x. key x = c) (sort_key ?f v) = filter (\<lambda>x. ?f x = dir_key True sub_key_from_f64 c) (sort_key ?f v)"
    using same by (intro filter_cong) simp_all
  also have "\<dots> = filter (\<lambda>x. ?f x = dir_key True sub_key_from_f64 c) v" by (rule sort_key_stable)
  also have "\<dots> = filter (\<lambda>x. key x = c) v" using same by (intro filter_cong) simp_all
  finally show ?thesis .
qed

text \<open>A major key over an order the vector already has: two passes, minor key first, order by both.\<close>

lemma sorted_wrt_lex:
  assumes "\<forall>x \<in> set v. plain_key (key x)" "sorted_wrt R v"
  shows "sorted_wrt (\<lambda>x y. d_less (key y) (key x) \<or> \<not> d_less (key x) (key y) \<and> R x y)
    (sort_key (\<lambda>x. dir_key True sub_key_from_f64 (key x)) v)"
proof -
  let ?f = "\<lambda>x. dir_key True sub_key_from_f64 (key x)"
  have "sorted_wrt (\<lambda>x y. ?f x < ?f y \<or> ?f x = ?f y \<and> R x y) (sort_key ?f v)"
    using assms(2) by (rule sorted_wrt_sort_key_lex)
  then show ?thesis
    using assms(1) by (elim sorted_wrt_mono_rel [rotated]) (auto simp: plain_key_less)
qed

section \<open>Properties\<close>

text \<open>The cut by CPU share returns the first k rows of the descending stable order of the table: the
  order is a permutation of the rows in which no row is less busy than a later one and equally busy rows
  keep their places, whatever the classifier says and the scratch buffer holds.\<close>

theorem top_k_keeps_busiest:
  assumes "length v \<le> 2 ^ 32" and "\<forall>x \<in> set v. plain_key (cpu_pct x)"
  shows "\<exists>ys. top_k_by_cpu_pct env cpu_pct k v = Some (take k ys) \<and> mset ys = mset v \<and>
    sorted_wrt (\<lambda>x y. \<not> d_less (cpu_pct x) (cpu_pct y)) ys \<and>
    (\<forall>c. plain_key c \<longrightarrow> filter (\<lambda>x. cpu_pct x = c) ys = filter (\<lambda>x. cpu_pct x = c) v)"
  using top_k_sorts [OF assms(1)] f64_desc_sorted [OF assms(2)] f64_desc_stable [OF assms(2)]
  by (intro exI [of _ "sort_key (\<lambda>x. dir_key True sub_key_from_f64 (cpu_pct x)) v"]) simp

theorem top_k_keeps_busiest_witness:
  "\<exists>ys. top_k_by_cpu_pct \<lparr>se_malloc = \<lambda>_. False, se_classify = \<lambda>_. SUB_RANDOM, se_scratch = \<lambda>_. \<lparr>slot_key = 7, slot_idx = 7\<rparr>\<rparr>
     id 1 [Num 0, PosInf] = Some (take 1 ys) \<and> mset ys = {#Num 0, PosInf#} \<and> ys = [PosInf, Num 0]"
proof -
  let ?env = "\<lparr>se_malloc = \<lambda>_. False, se_classify = \<lambda>_. SUB_RANDOM, se_scratch = \<lambda>_. \<lparr>slot_key = 7, slot_idx = 7\<rparr>\<rparr>"
  have "length [Num 0, PosInf] \<le> 2 ^ 32" "\<forall>x \<in> set [Num 0, PosInf]. plain_key (id x)"
    by (simp_all add: plain_key_def)
  from top_k_keeps_busiest [OF this, where env = ?env and k = 1]
  obtain ys where ys: "top_k_by_cpu_pct ?env id 1 [Num 0, PosInf] = Some (take 1 ys)" "mset ys = mset [Num 0, PosInf]"
    "sorted_wrt (\<lambda>x y. \<not> d_less (id x) (id y)) ys" by blast
  have "length ys = 2" using mset_eq_length [OF ys(2)] by simp
  then obtain a b where ab: "ys = [a, b]" by (auto simp: numeral_2_eq_2 length_Suc_conv)
  with ys(2) have "a = Num 0 \<and> b = PosInf \<or> a = PosInf \<and> b = Num 0" by (auto simp: add_eq_conv_ex)
  with ys(3) ab have "ys = [PosInf, Num 0]" by auto
  with ys show ?thesis by auto
qed

end
