(* ===== verification/Fs_Collector.thy ===== *)
theory Fs_Collector
  imports Collectors Ordering
begin

text \<open>
  The filesystem collector (\<open>src/collectors/FsCollector.cpp\<close>): the mount table is read line by line, pseudo
  and image filesystems are left out, the sizes come from \<open>statvfs\<close>, a parameter, and two stable passes
  order the mounts by use.
\<close>

section \<open>The mount table\<close>

definition is_pseudo_fs :: "string \<Rightarrow> bool" where
  "is_pseudo_fs fstype \<longleftrightarrow> fstype \<in> set [''proc'', ''sysfs'', ''devtmpfs'', ''devpts'', ''tmpfs'', ''cgroup'', ''cgroup2'',
     ''pstore'', ''securityfs'', ''bpf'', ''autofs'', ''mqueue'', ''hugetlbfs'', ''configfs'', ''debugfs'', ''tracefs'',
     ''nsfs'', ''ramfs'', ''fusectl'', ''fuse.portal'', ''overlay'']"

text \<open>Stream extraction: a word, or an \<open>int\<close>; \<open>None\<close> where the stream fails.\<close>

definition get_word :: "string \<Rightarrow> (string \<times> string) option" where
  "get_word s = (let t = dropWhile is_space s
     in if t = [] then None else Some (takeWhile (\<lambda>c. \<not> is_space c) t, dropWhile (\<lambda>c. \<not> is_space c) t))"

definition get_stream_int :: "string \<Rightarrow> string option" where
  "get_stream_int s =
     (let t = dropWhile is_space s; neg = (t \<noteq> [] \<and> hd t = CHR ''-'');
          u = (if t \<noteq> [] \<and> (hd t = CHR ''-'' \<or> hd t = CHR ''+'') then tl t else t);
          ds = takeWhile is_digit u; v = (if neg then - int (undec ds) else int (undec ds))
      in if ds = [] \<or> v < - (2 ^ 31) \<or> 2 ^ 31 \<le> v then None else Some (dropWhile is_digit u))"

definition mount_fields :: "string \<Rightarrow> (string \<times> string \<times> string) option" where
  "mount_fields line =
     Option.bind (get_word line) (\<lambda>(device, s). Option.bind (get_word s) (\<lambda>(mountpoint, s).
     Option.bind (get_word s) (\<lambda>(fstype, s). Option.bind (get_word s) (\<lambda>(opts, s).
     Option.bind (get_stream_int s) (\<lambda>s. Option.bind (get_stream_int s) (\<lambda>s.
     Some (device, mountpoint, fstype)))))))"

record StatVfs =
  f_blocks :: u64
  f_bavail :: u64
  f_frsize :: u64

definition fs_mount :: "string \<Rightarrow> string \<Rightarrow> string \<Rightarrow> StatVfs \<Rightarrow> FsMount" where
  "fs_mount device mountpoint fstype vfs =
     (let total = f_blocks vfs * f_frsize vfs; avail = f_bavail vfs * f_frsize vfs; used = sat_sub total avail
      in \<lparr>fm_device = device, fm_mountpoint = mountpoint, fm_fstype = fstype, fm_total_bytes = total,
          fm_used_bytes = used, fm_avail_bytes = avail,
          fm_used_pct = (if 0 < total then d_div (d_mul (Num 100) (d_of_word used)) (d_of_word total) else Num 0)\<rparr>)"

definition fs_line :: "(string \<Rightarrow> StatVfs option) \<Rightarrow> string \<Rightarrow> FsMount option" where
  "fs_line statvfs line =
     (case mount_fields line of None \<Rightarrow> None
      | Some (device, mountpoint, fstype) \<Rightarrow>
        if is_pseudo_fs fstype \<or> fstype = ''squashfs'' then None
        else map_option (fs_mount device mountpoint fstype) (statvfs (c_str mountpoint)))"

definition fs_sample :: "(string \<Rightarrow> StatVfs option) \<Rightarrow> sort_env \<Rightarrow> string option \<Rightarrow> FsSnapshot \<Rightarrow>
    (bool \<times> FsSnapshot) option" where
  "fs_sample statvfs env file out =
     (case file of None \<Rightarrow> Some (False, out\<lparr>fs_mounts := []\<rparr>)
      | Some text \<Rightarrow>
        Option.bind (sublimation_order_u64 env True fm_used_bytes (List.map_filter (fs_line statvfs) (split_lines text))) (\<lambda>mounts.
        map_option (\<lambda>mounts. (True, out\<lparr>fs_mounts := mounts\<rparr>)) (sublimation_order_f64 env True fm_used_pct mounts)))"

section \<open>Percentages are plain sort keys\<close>

lemma d_of_word_finite: "\<exists>r. d_of_word w = Num r \<and> 0 \<le> r \<and> r \<le> 2 ^ 64 \<and> (w \<noteq> 0 \<longrightarrow> 1 \<le> r)" for w :: u64
proof (cases "w = 0")
  case True
  then show ?thesis by (auto simp: d_of_word_def d_of_int_def to_dbl_def fp_round_def)
next
  case False
  let ?x = "rat_of_int (uint w)" and ?r = "round_pos 53 (- 1022) (rat_of_int (uint w))"
  have "uint w < 2 ^ 64" using unsigned_less [where ?'a = int, of w] by simp
  then have x: "1 \<le> ?x" "?x < 2 ^ 64"
    using False by (metis of_int_1_le_iff uint_0_iff unsigned_greater_eq int_one_le_iff_zero_less order_less_le,
        metis of_int_less_iff of_int_numeral of_int_power)
  have "?r \<le> 2 powi (max (exp2_of ?x) (- 1022) + 1)"
    using x by (intro round_pos_upper [of _ 63]) simp_all
  also have "\<dots> \<le> 2 powi 64" unfolding powi_le_iff using exp2_of_le [of ?x 63] x by simp
  finally have hi: "?r \<le> 2 ^ 64" by simp
  have lo: "1 \<le> ?r" using round_pos_mono [OF _ x(1), of 53 "- 1022"] round_pos_int [of 1] by simp
  have "?r < 2 powi 1024" by (rule order_le_less_trans [OF hi]) simp
  with hi lo x show ?thesis
    by (auto simp: d_of_word_def d_of_int_def to_dbl_def fp_round_def Let_def)
qed

lemma word_pct_plain: "v \<noteq> 0 \<Longrightarrow> plain_key (d_div (d_mul (Num 100) (d_of_word u)) (d_of_word v))" for u v :: u64
proof -
  assume v: "v \<noteq> 0"
  obtain a b where a: "d_of_word u = Num a" "0 \<le> a" "a \<le> 2 ^ 64" and b: "d_of_word v = Num b" "1 \<le> b"
    using d_of_word_finite [of u] d_of_word_finite [of v] v by blast
  have "100 * a < 2 ^ 1000" using a(3) by (rule order_le_less_trans [OF mult_left_mono]) simp_all
  then obtain p where p: "to_dbl False (100 * a) = Num p" "0 \<le> p" using a(2) to_dbl_finite [of "100 * a"] by auto
  have m: "d_mul (Num 100) (Num a) = Num p" using a(2) p(1) by (simp add: fp_mul_def)
  have "d_div (Num p) (Num b) = to_dbl False (p / b)" using p(2) b(2) by (simp add: fp_div_def)
  moreover have "not_negative (to_dbl False (p / b))" using p(2) b(2) by (intro to_dbl_not_negative) simp
  moreover have "to_dbl False (p / b) \<noteq> NaN" by (auto simp: to_dbl_def fp_round_def Let_def)
  ultimately show ?thesis
    unfolding a(1) b(1) m by (auto simp: plain_key_def to_dbl_is_f64)
qed

lemma used_pct_plain: "plain_key (fm_used_pct (fs_mount d m t vfs))"
  using word_pct_plain by (simp add: fs_mount_def Let_def plain_key_def)

section \<open>Lines as the kernel writes them\<close>

definition mount_line :: "string \<times> string \<times> string \<times> string \<Rightarrow> string" where
  "mount_line m = (case m of (device, mountpoint, fstype, opts) \<Rightarrow>
     device @ '' '' @ mountpoint @ '' '' @ fstype @ '' '' @ opts @ '' 0 0'')"

definition word_ok :: "string \<Rightarrow> bool" where
  "word_ok w \<longleftrightarrow> w \<noteq> [] \<and> (\<forall>c \<in> set w. \<not> is_space c)"

definition mount_ok :: "string \<times> string \<times> string \<times> string \<Rightarrow> bool" where
  "mount_ok m \<longleftrightarrow> (case m of (device, mountpoint, fstype, opts) \<Rightarrow>
     word_ok device \<and> word_ok mountpoint \<and> word_ok fstype \<and> word_ok opts)"

text \<open>What one entry contributes.\<close>

definition mount_of :: "(string \<Rightarrow> StatVfs option) \<Rightarrow> string \<times> string \<times> string \<times> string \<Rightarrow> FsMount option" where
  "mount_of statvfs m = (case m of (device, mountpoint, fstype, opts) \<Rightarrow>
     if is_pseudo_fs fstype \<or> fstype = ''squashfs'' then None
     else map_option (fs_mount device mountpoint fstype) (statvfs (c_str mountpoint)))"

lemma get_word_word:
  assumes "word_ok w"
  shows "get_word (w @ SPACE # s) = Some (w, SPACE # s)" "get_word (SPACE # w @ SPACE # s) = Some (w, SPACE # s)"
proof -
  have sp: "is_space SPACE" by (simp add: is_space_def)
  have w: "w \<noteq> []" "\<forall>c \<in> set w. \<not> is_space c" using assms by (auto simp: word_ok_def)
  then have "takeWhile (\<lambda>c. \<not> is_space c) (w @ SPACE # s) = w" "dropWhile (\<lambda>c. \<not> is_space c) (w @ SPACE # s) = SPACE # s"
    using sp by (auto simp: takeWhile_append2 dropWhile_append2)
  moreover have "dropWhile is_space (w @ SPACE # s) = w @ SPACE # s" using w by (cases w) auto
  ultimately show "get_word (w @ SPACE # s) = Some (w, SPACE # s)" "get_word (SPACE # w @ SPACE # s) = Some (w, SPACE # s)"
    using w sp by (auto simp: get_word_def Let_def)
qed

lemma fs_line_mount:
  assumes "mount_ok m"
  shows "fs_line statvfs (mount_line m) = mount_of statvfs m"
proof -
  obtain device mountpoint fstype opts where m: "m = (device, mountpoint, fstype, opts)" by (rule prod_cases4)
  have w: "word_ok device" "word_ok mountpoint" "word_ok fstype" "word_ok opts"
    using assms by (auto simp: mount_ok_def m)
  have "get_stream_int '' 0 0'' = Some '' 0''" "get_stream_int '' 0'' = Some []"
    by (simp_all add: get_stream_int_def is_space_def is_digit_def byte_def undec_def digit_val_def)
  with w have "mount_fields (mount_line m) = Some (device, mountpoint, fstype)"
    by (simp add: mount_fields_def mount_line_def m get_word_word)
  then show ?thesis by (simp add: fs_line_def mount_of_def m)
qed

lemma mount_line_one_line: "mount_ok m \<Longrightarrow> LF \<notin> set (mount_line m)"
proof -
  have "is_space LF" by (simp add: is_space_def byte_def)
  then have "LF \<notin> set w" if "word_ok w" for w using that unfolding word_ok_def by blast
  then show "mount_ok m \<Longrightarrow> LF \<notin> set (mount_line m)"
    by (cases m) (simp add: mount_ok_def mount_line_def)
qed

lemma mount_of_plain: "m \<in> set (List.map_filter (mount_of statvfs) ms) \<Longrightarrow> plain_key (fm_used_pct m)"
proof (induction ms)
  case (Cons x ms)
  have "mount_of statvfs x = Some m \<Longrightarrow> plain_key (fm_used_pct m)"
    by (cases x) (auto simp: mount_of_def used_pct_plain split: if_splits)
  with Cons show ?case by (auto simp: List.map_filter_simps split: option.splits)
qed (simp add: List.map_filter_simps)

section \<open>Properties\<close>

text \<open>C21: the filesystem sample of a mount table as the kernel lays it out holds exactly the mounts that are
  neither pseudo filesystems nor images and whose size can be read, each once, ordered by used percentage
  and within equal percentages by used bytes, the fullest first.\<close>

theorem fs_sample_ordered:
  assumes "\<forall>m \<in> set ms. mount_ok m" and "length ms \<le> 2 ^ 32" and "\<forall>n. se_malloc env n"
  shows "\<exists>mounts. fs_sample statvfs env (Some (lines_text (map mount_line ms))) out = Some (True, out\<lparr>fs_mounts := mounts\<rparr>) \<and>
    mset mounts = mset (List.map_filter (mount_of statvfs) ms) \<and>
    sorted_wrt (\<lambda>x y. d_less (fm_used_pct y) (fm_used_pct x) \<or>
      \<not> d_less (fm_used_pct x) (fm_used_pct y) \<and> fm_used_bytes y \<le> fm_used_bytes x) mounts"
proof -
  have s: "split_lines (lines_text (map mount_line ms)) = map mount_line ms"
    using assms(1) mount_line_one_line by (intro split_lines_text) auto
  define ms0 where "ms0 = List.map_filter (mount_of statvfs) ms"
  have mf: "List.map_filter (fs_line statvfs) (map mount_line ms) = ms0"
    unfolding ms0_def using assms(1) by (induction ms) (auto simp: List.map_filter_simps fs_line_mount split: option.split)
  have "length ms0 \<le> length ms" unfolding ms0_def by (simp add: List.map_filter_def)
  then have len: "length ms0 \<le> 2 ^ 32" using assms(2) by linarith
  define ms1 where "ms1 = sort_key (\<lambda>m. dir_key True sub_key_from_u64 (fm_used_bytes m)) ms0"
  define ms2 where "ms2 = sort_key (\<lambda>m. dir_key True sub_key_from_f64 (fm_used_pct m)) ms1"
  have grants: "pack_grants env n" for n using assms(3) by (simp add: pack_grants_def)
  have o1: "sublimation_order_u64 env True fm_used_bytes ms0 = Some ms1"
    unfolding ms1_def using len grants by (rule sublimation_order_u64_sorts)
  have o2: "sublimation_order_f64 env True fm_used_pct ms1 = Some ms2"
    unfolding ms2_def using len grants by (intro sublimation_order_f64_sorts) (simp_all add: ms1_def)
  have plain: "\<forall>m \<in> set ms1. plain_key (fm_used_pct m)"
    using mount_of_plain unfolding ms1_def ms0_def by auto
  have "sorted_wrt (\<lambda>x y. fm_used_bytes y \<le> fm_used_bytes x) ms1"
    unfolding ms1_def using sorted_wrt_sort_key
    by (rule sorted_wrt_mono_rel [rotated]) (simp add: dir_key_less sub_key_from_u64_def flip: not_less)
  from sorted_wrt_lex [OF plain this]
  have "sorted_wrt (\<lambda>x y. d_less (fm_used_pct y) (fm_used_pct x) \<or>
      \<not> d_less (fm_used_pct x) (fm_used_pct y) \<and> fm_used_bytes y \<le> fm_used_bytes x) ms2"
    unfolding ms2_def .
  moreover have "mset ms2 = mset ms0" by (simp add: ms2_def ms1_def)
  ultimately show ?thesis
    unfolding fs_sample_def option.case s mf o1 bind.bind_lunit o2 by (auto simp: ms0_def)
qed

theorem fs_sample_ordered_witness:
  "\<exists>mounts. fs_sample (\<lambda>_. Some \<lparr>f_blocks = 10, f_bavail = 5, f_frsize = 1\<rparr>)
      \<lparr>se_malloc = \<lambda>_. True, se_classify = \<lambda>_. SUB_SORTED, se_scratch = \<lambda>_. \<lparr>slot_key = 0, slot_idx = 0\<rparr>\<rparr>
      (Some (lines_text (map mount_line [(''/dev/sda'', ''/'', ''ext4'', ''rw''), (''proc'', ''/proc'', ''proc'', ''rw'')])))
      empty_FsSnapshot = Some (True, empty_FsSnapshot\<lparr>fs_mounts := mounts\<rparr>) \<and>
    mset mounts = {#fs_mount ''/dev/sda'' ''/'' ''ext4'' \<lparr>f_blocks = 10, f_bavail = 5, f_frsize = 1\<rparr>#}"
proof -
  let ?ms = "[(''/dev/sda'', ''/'', ''ext4'', ''rw''), (''proc'', ''/proc'', ''proc'', ''rw'')]"
  let ?env = "\<lparr>se_malloc = \<lambda>_. True, se_classify = \<lambda>_. SUB_SORTED, se_scratch = \<lambda>_. \<lparr>slot_key = 0, slot_idx = 0\<rparr>\<rparr>"
  have "\<forall>m \<in> set ?ms. mount_ok m" "length ?ms \<le> 2 ^ 32" "\<forall>n. se_malloc ?env n"
    by (simp_all add: mount_ok_def word_ok_def is_space_def byte_def)
  from fs_sample_ordered [OF this, where statvfs = "\<lambda>_. Some \<lparr>f_blocks = 10, f_bavail = 5, f_frsize = 1\<rparr>" and out = empty_FsSnapshot]
  show ?thesis by (auto simp: List.map_filter_simps mount_of_def is_pseudo_fs_def)
qed

end
