(* ===== verification/Cpu_Collector.thy ===== *)
theory Cpu_Collector
  imports Collectors
begin

text \<open>
  The CPU collector (\<open>src/collectors/CpuCollector.cpp\<close>): the processor's name and core count are read once
  from \<open>/proc/cpuinfo\<close>, the counters from \<open>/proc/stat\<close> on every sample, and the percentages and rates are
  taken against the previous sample. \<open>file\<close> gives the contents of a path, \<open>now\<close> the steady clock in
  nanoseconds.
\<close>

section \<open>Lines of /proc/stat\<close>

definition val_at :: "u64 list \<Rightarrow> nat \<Rightarrow> u64" where
  "val_at vals i = (if i < length vals then vals ! i else 0)"

definition parse_cpu_line :: "string \<Rightarrow> CpuTimes \<Rightarrow> CpuTimes" where
  "parse_cpu_line line out =
     (case find_char SPACE line of None \<Rightarrow> out
      | Some pos \<Rightarrow>
        let rest = drop (pos + 1) line; v = val_at (cpu_vals (length rest) rest [])
        in \<lparr>ct_user = v 0, ct_nice = v 1, ct_system = v 2, ct_idle = v 3, ct_iowait = v 4, ct_irq = v 5,
            ct_softirq = v 6, ct_steal = v 7\<rparr>)"

record StatScan =
  sc_agg :: CpuTimes
  sc_per :: "CpuTimes list"
  sc_ctxt :: u64
  sc_intr :: u64
  sc_after_cpu :: bool

definition stat_from_chars :: "string \<Rightarrow> u64 \<Rightarrow> u64" where
  "stat_from_chars t old = word_of_int (from_chars_u 64 t (uint old))"

definition cpu_stat_line :: "string \<Rightarrow> StatScan \<Rightarrow> StatScan" where
  "cpu_stat_line line sc =
     (if starts_with line ''cpu '' then sc\<lparr>sc_agg := parse_cpu_line line (sc_agg sc), sc_after_cpu := True\<rparr>
      else if sc_after_cpu sc \<and> starts_with line ''cpu''
      then sc\<lparr>sc_per := sc_per sc @ [parse_cpu_line line empty_CpuTimes]\<rparr>
      else if starts_with line ''ctxt ''
      then (case find_char SPACE line of None \<Rightarrow> sc
            | Some pos \<Rightarrow> sc\<lparr>sc_ctxt := stat_from_chars (drop (pos + 1) line) (sc_ctxt sc)\<rparr>)
      else if starts_with line ''intr ''
      then (case find_char SPACE line of None \<Rightarrow> sc
            | Some pos \<Rightarrow>
              let rest = drop (pos + 1) line;
                  t = (case find_char SPACE rest of Some sp \<Rightarrow> take sp rest | None \<Rightarrow> rest)
              in sc\<lparr>sc_intr := stat_from_chars t (sc_intr sc)\<rparr>)
      else sc)"

definition stat_scan :: "string \<Rightarrow> StatScan" where
  "stat_scan text = fold cpu_stat_line (split_lines text)
     \<lparr>sc_agg = empty_CpuTimes, sc_per = [], sc_ctxt = 0, sc_intr = 0, sc_after_cpu = False\<rparr>"

section \<open>/proc/cpuinfo\<close>

record CpuInfo =
  ci_model :: string
  ci_phys :: string
  ci_cores :: int
  ci_sockets :: "(string \<times> int) list"

definition after_colon :: "string \<Rightarrow> string option" where
  "after_colon line = map_option (\<lambda>pos. drop (pos + 1) line) (find_char (CHR '':'') line)"

text \<open>The map of sockets as its entries in order of insertion; \<open>emplace\<close> keeps an existing one.\<close>

definition socket_emplace :: "string \<Rightarrow> int \<Rightarrow> (string \<times> int) list \<Rightarrow> (string \<times> int) list" where
  "socket_emplace k v m = (if map_of m k = None then m @ [(k, v)] else m)"

definition cpuinfo_line :: "string \<Rightarrow> CpuInfo \<Rightarrow> CpuInfo" where
  "cpuinfo_line line ci =
     (let ci = (if starts_with line ''model name''
                then (case after_colon line of Some m \<Rightarrow> ci\<lparr>ci_model := m\<rparr> | None \<Rightarrow> ci) else ci);
          ci = (if starts_with line ''Hardware'' \<or> starts_with line ''Processor''
                then (case after_colon line of Some m \<Rightarrow> ci\<lparr>ci_model := m\<rparr> | None \<Rightarrow> ci) else ci);
          ci = (if starts_with line ''physical id''
                then (case after_colon line of Some p \<Rightarrow> ci\<lparr>ci_phys := p\<rparr> | None \<Rightarrow> ci) else ci);
          ci = (if starts_with line ''cpu cores''
                then (case after_colon line of
                        Some t \<Rightarrow> ci\<lparr>ci_cores := (case stoi t of Some n \<Rightarrow> n | None \<Rightarrow> - 1)\<rparr> | None \<Rightarrow> ci) else ci)
      in if line = []
         then (let ci = (if ci_phys ci \<noteq> [] \<and> 0 < ci_cores ci
                         then ci\<lparr>ci_sockets := socket_emplace (ci_phys ci) (ci_cores ci) (ci_sockets ci)\<rparr> else ci)
               in ci\<lparr>ci_phys := [], ci_cores := - 1\<rparr>)
         else ci)"

definition cpuinfo_scan :: "string \<Rightarrow> CpuInfo" where
  "cpuinfo_scan text = fold cpuinfo_line (split_lines text)
     \<lparr>ci_model = [], ci_phys = [], ci_cores = - 1, ci_sockets = []\<rparr>"

definition trim_model :: "string \<Rightarrow> string" where
  "trim_model s = strip_back (\<lambda>c. is_blank2 c \<or> c = CR) (strip_front is_blank2 s)"

section \<open>A sample\<close>

record CpuCollector =
  cc_last_total :: CpuTimes
  cc_last_per :: "CpuTimes list"
  cc_freq_paths :: "string list"
  cc_has_last :: bool
  cc_model :: string
  cc_physical :: i32
  cc_last_ctxt :: u64
  cc_last_intr :: u64
  cc_last_time :: int

definition CpuCollector_init :: CpuCollector where
  "CpuCollector_init = \<lparr>cc_last_total = empty_CpuTimes, cc_last_per = [], cc_freq_paths = [], cc_has_last = False,
     cc_model = [], cc_physical = 0, cc_last_ctxt = 0, cc_last_intr = 0, cc_last_time = 0\<rparr>"

definition cpu_load_model :: "(string \<Rightarrow> string option) \<Rightarrow> CpuCollector \<Rightarrow> CpuCollector" where
  "cpu_load_model file c =
     (if cc_model c \<noteq> [] then c
      else case file ''/proc/cpuinfo'' of None \<Rightarrow> c
           | Some text \<Rightarrow> let ci = cpuinfo_scan text
               in c\<lparr>cc_model := trim_model (ci_model ci), cc_physical := word_of_int (sum_list (map snd (ci_sockets ci)))\<rparr>)"

definition usage_pct :: "CpuTimes \<Rightarrow> CpuTimes \<Rightarrow> dbl" where
  "usage_pct t prev =
     (let td = CpuTimes_total t - CpuTimes_total prev; wd = CpuTimes_work t - CpuTimes_work prev
      in if 0 < td then d_div (d_mul (Num 100) (d_of_word wd)) (d_of_word td) else Num 0)"

definition per_core_pcts :: "bool \<Rightarrow> CpuTimes list \<Rightarrow> CpuTimes list \<Rightarrow> dbl list" where
  "per_core_pcts has_last per prev =
     map (\<lambda>i. if has_last \<and> i < length prev then usage_pct (per ! i) (prev ! i) else Num 0) [0..<length per]"

text \<open>The breakdown of the aggregate: user with nice, system, iowait, irq with softirq, steal.\<close>

definition pct_parts :: "CpuTimes \<Rightarrow> CpuTimes \<Rightarrow> dbl \<times> dbl \<times> dbl \<times> dbl \<times> dbl" where
  "pct_parts t prev =
     (let td = CpuTimes_total t - CpuTimes_total prev; inv = d_div (Num 100) (d_of_word td);
          part = (\<lambda>f. d_of_word (f t - f prev))
      in if 0 < td
         then (d_mul inv (d_add (part ct_user) (part ct_nice)), d_mul inv (part ct_system), d_mul inv (part ct_iowait),
               d_mul inv (d_add (part ct_irq) (part ct_softirq)), d_mul inv (part ct_steal))
         else (Num 0, Num 0, Num 0, Num 0, Num 0))"

definition cpu_rate :: "CpuCollector \<Rightarrow> int \<Rightarrow> u64 \<Rightarrow> u64 \<Rightarrow> dbl" where
  "cpu_rate c now v prev =
     (let dt = d_div (d_of_int (now - cc_last_time c)) (Num (10 ^ 9))
      in if cc_has_last c \<and> cc_last_time c \<noteq> 0 \<and> d_less (Num 0) dt \<and> prev \<le> v
         then d_div (d_of_word (v - prev)) dt else Num 0)"

definition freq_path :: "nat \<Rightarrow> string" where
  "freq_path c = ''/sys/devices/system/cpu/cpu'' @ dec c @ ''/cpufreq/scaling_cur_freq''"

text \<open>\<open>std::stoul\<close>: \<open>None\<close> where it throws; a minus sign wraps.\<close>

definition stoul :: "string \<Rightarrow> u64 option" where
  "stoul s =
     (let t = dropWhile is_space s; neg = (t \<noteq> [] \<and> hd t = CHR ''-'');
          u = (if t \<noteq> [] \<and> (hd t = CHR ''-'' \<or> hd t = CHR ''+'') then tl t else t);
          ds = takeWhile is_digit u
      in if ds = [] \<or> 2 ^ 64 \<le> undec ds then None
         else Some (if neg then - word_of_nat (undec ds) else word_of_nat (undec ds)))"

definition freq_add :: "(string \<Rightarrow> string option) \<Rightarrow> string \<Rightarrow> dbl \<times> nat \<Rightarrow> dbl \<times> nat" where
  "freq_add file path acc =
     (case Option.bind (file path) stoul of None \<Rightarrow> acc
      | Some v \<Rightarrow> (d_add (fst acc) (d_div (d_of_word v) (Num 1000)), snd acc + 1))"

definition cpu_sample :: "(string \<Rightarrow> string option) \<Rightarrow> int \<Rightarrow> CpuCollector \<Rightarrow> CpuSnapshot \<Rightarrow>
    bool \<times> CpuCollector \<times> CpuSnapshot" where
  "cpu_sample file now c out =
     (let c = cpu_load_model file c
      in case file ''/proc/stat'' of None \<Rightarrow> (False, c, out)
         | Some text \<Rightarrow>
           let sc = stat_scan text; agg = sc_agg sc; per = sc_per sc;
               ctxt_rate = cpu_rate c now (sc_ctxt sc) (cc_last_ctxt c);
               intr_rate = cpu_rate c now (sc_intr sc) (cc_last_intr c);
               usage = (if cc_has_last c then usage_pct agg (cc_last_total c) else Num 0);
               (user, sys, iow, irq, steal) =
                 (if cc_has_last c then pct_parts agg (cc_last_total c) else (Num 0, Num 0, Num 0, Num 0, Num 0));
               pcts = per_core_pcts (cc_has_last c) per (cc_last_per c);
               threads = (if pcts = [] then 1 else word_of_nat (length pcts));
               paths = (if length (cc_freq_paths c) \<noteq> length pcts then map freq_path [0..<length pcts]
                        else cc_freq_paths c);
               (mhz, nfreq) = fold (freq_add file) paths (Num 0, 0);
               out = out\<lparr>cpu_total_times := agg, cpu_per_core := per, cpu_usage_pct := usage, cpu_per_core_pct := pcts,
                 cpu_pct_user := user, cpu_pct_system := sys, cpu_pct_iowait := iow, cpu_pct_irq := irq,
                 cpu_pct_steal := steal, cpu_ctxt_per_sec := ctxt_rate, cpu_intr_per_sec := intr_rate,
                 cpu_model := (if cc_model c \<noteq> [] then cc_model c else cpu_model out),
                 cpu_logical_threads := threads, cpu_physical_cores := cc_physical c\<rparr>;
               out = (if 0 < nfreq then out\<lparr>cpu_has_freq := True, cpu_freq_avg_mhz := d_div mhz (d_of_nat nfreq)\<rparr>
                      else out)
           in (True, c\<lparr>cc_last_total := agg, cc_last_per := per, cc_has_last := True, cc_freq_paths := paths,
                 cc_last_ctxt := sc_ctxt sc, cc_last_intr := sc_intr sc, cc_last_time := now\<rparr>, out))"

section \<open>Files as the kernel writes them\<close>

abbreviation num_fields :: "(nat \<times> u64) list \<Rightarrow> string" where
  "num_fields fs \<equiv> padded (map (\<lambda>(n, v). (n, dec (unat v))) fs)"

definition cpu_text :: "string \<Rightarrow> (nat \<times> u64) list \<Rightarrow> string" where
  "cpu_text name fs = name @ num_fields fs"

definition times_of :: "u64 list \<Rightarrow> CpuTimes" where
  "times_of vs = \<lparr>ct_user = val_at vs 0, ct_nice = val_at vs 1, ct_system = val_at vs 2, ct_idle = val_at vs 3,
     ct_iowait = val_at vs 4, ct_irq = val_at vs 5, ct_softirq = val_at vs 6, ct_steal = val_at vs 7\<rparr>"

lemma padded_Cons: "padded ((n, t) # fs) = SPACE # replicate n SPACE @ t @ padded fs"
  by (simp add: padded_def)

lemma cpu_vals_step:
  assumes "length vals < 8"
  shows "cpu_vals (Suc fuel) (replicate n SPACE @ dec (unat v) @ num_fields fs) vals =
    cpu_vals fuel (drop 1 (num_fields fs)) (vals @ [v])"
proof -
  let ?s = "dec (unat v) @ num_fields fs"
  have nb: "\<not> is_blank2 (hd (dec (unat v)))" using dec_no_blank [OF hd_in_set [OF dec_nonempty]] by blast
  have d: "dropWhile is_blank2 (replicate n SPACE @ ?s) = ?s"
    using nb by (cases "dec (unat v)") (simp_all add: dropWhile_append3 dropWhile_append2)
  have h: "num_fields fs = [] \<or> \<not> is_digit (hd (num_fields fs))"
    by (cases fs) (auto simp: padded_def is_digit_def byte_def)
  have t: "takeWhile is_digit ?s = dec (unat v)"
    using h dec_digits by (cases "num_fields fs") (auto simp: takeWhile_append2)
  have "int (unat v) < 2 ^ 64" using unsigned_less [where ?'a = int, of v] by simp
  moreover have "drop (length (dec (unat v)) + 1) ?s = drop 1 (num_fields fs)" by simp
  ultimately show ?thesis using assms unfolding cpu_vals.simps Let_def d t by simp
qed

lemma cpu_vals_fields:
  "length fs \<le> fuel \<Longrightarrow> length vals \<le> 8 \<Longrightarrow>
     cpu_vals fuel (drop 1 (num_fields fs)) vals = vals @ take (8 - length vals) (map snd fs)"
proof (induction fs arbitrary: fuel vals)
  case Nil
  then show ?case by (cases fuel) (simp_all add: padded_def)
next
  case (Cons f fs)
  obtain n v where f: "f = (n, v)" by (cases f)
  from Cons.prems obtain m where m: "fuel = Suc m" by (cases fuel) auto
  show ?case
  proof (cases "length vals < 8")
    case True
    have "cpu_vals fuel (drop 1 (num_fields (f # fs))) vals = cpu_vals m (drop 1 (num_fields fs)) (vals @ [v])"
      using cpu_vals_step [OF True, of m n v fs] by (simp add: f m padded_Cons)
    also have "\<dots> = vals @ [v] @ take (8 - length (vals @ [v])) (map snd fs)"
      using Cons.IH [of m "vals @ [v]"] Cons.prems m True by simp
    finally show ?thesis using True by (simp add: f take_Cons' Suc_diff_Suc)
  next
    case False
    with Cons.prems m show ?thesis by simp
  qed
qed

lemma num_fields_length: "fs \<noteq> [] \<Longrightarrow> length fs \<le> length (drop 1 (num_fields fs))"
proof -
  have "2 * length fs \<le> length (num_fields fs)" for fs :: "(nat \<times> u64) list"
  proof (induction fs)
    case (Cons f fs)
    obtain n v where f: "f = (n, v)" by (cases f)
    have "1 \<le> length (dec (unat v))" by (simp add: Suc_le_eq)
    with Cons show ?case by (simp add: f padded_Cons)
  qed simp
  from this [of fs] show "fs \<noteq> [] \<Longrightarrow> length fs \<le> length (drop 1 (num_fields fs))" by (cases fs) auto
qed

lemma val_at_take: "i < 8 \<Longrightarrow> val_at (take 8 vs) i = val_at vs i"
  by (simp add: val_at_def)

lemma parse_cpu_text:
  assumes "fs \<noteq> []" "SPACE \<notin> set name"
  shows "parse_cpu_line (cpu_text name fs) t = times_of (map snd fs)"
proof -
  obtain f fs' where fs: "fs = f # fs'" using assms(1) by (cases fs) auto
  obtain n v where f: "f = (n, v)" by (cases f)
  have nf: "num_fields fs = SPACE # drop 1 (num_fields fs)" by (simp add: fs f padded_Cons)
  have pos: "find_char SPACE (cpu_text name fs) = Some (length name)"
    unfolding cpu_text_def by (subst nf) (simp add: find_char_skip assms(2))
  have rest: "drop (length name + 1) (cpu_text name fs) = drop 1 (num_fields fs)" by (simp add: cpu_text_def)
  have vals: "cpu_vals (length (drop 1 (num_fields fs))) (drop 1 (num_fields fs)) [] = take 8 (map snd fs)"
    using cpu_vals_fields [of fs _ "[]"] num_fields_length [OF assms(1)] by simp
  show ?thesis unfolding parse_cpu_line_def pos option.case rest Let_def vals times_of_def
    by (simp add: val_at_take)
qed

lemma cpu_text_agg: "fs \<noteq> [] \<Longrightarrow> starts_with (cpu_text ''cpu'' fs) ''cpu ''"
  by (cases fs) (auto simp: cpu_text_def starts_with_def padded_Cons)

lemma cpu_text_core: "starts_with (cpu_text (''cpu'' @ dec i) fs) ''cpu''"
    "\<not> starts_with (cpu_text (''cpu'' @ dec i) fs) ''cpu ''"
proof -
  obtain c cs where c: "dec i = c # cs" by (cases "dec i") simp_all
  have "c \<noteq> SPACE" using dec_no_blank [of c i] c by simp
  then show "starts_with (cpu_text (''cpu'' @ dec i) fs) ''cpu''" "\<not> starts_with (cpu_text (''cpu'' @ dec i) fs) ''cpu ''"
    by (simp_all add: cpu_text_def starts_with_def c)
qed

lemma core_name_no_space: "SPACE \<notin> set (''cpu'' @ dec i)"
  using dec_no_blank [of SPACE i] by auto

lemma core_lines_fold:
  assumes "sc_after_cpu sc" "\<forall>c \<in> set cores. snd c \<noteq> []"
  shows "fold cpu_stat_line (map (\<lambda>(i, fs). cpu_text (''cpu'' @ dec i) fs) cores) sc =
    sc\<lparr>sc_per := sc_per sc @ map (\<lambda>(i, fs). times_of (map snd fs)) cores\<rparr>"
  using assms
proof (induction cores arbitrary: sc)
  case (Cons c cores)
  obtain i fs where c: "c = (i, fs)" by (cases c)
  have "cpu_stat_line (cpu_text (''cpu'' @ dec i) fs) sc = sc\<lparr>sc_per := sc_per sc @ [times_of (map snd fs)]\<rparr>"
  proof -
    have "parse_cpu_line (cpu_text (''cpu'' @ dec i) fs) empty_CpuTimes = times_of (map snd fs)"
      using Cons.prems c by (intro parse_cpu_text core_name_no_space) simp
    then show ?thesis unfolding cpu_stat_line_def by (simp only: cpu_text_core Cons.prems if_False if_True simp_thms)
  qed
  with Cons.IH [of "sc\<lparr>sc_per := sc_per sc @ [times_of (map snd fs)]\<rparr>"] Cons.prems c show ?case by simp
qed simp

lemma other_lines_keep:
  assumes "\<forall>l \<in> set ls. \<not> starts_with l ''cpu''"
  shows "sc_agg (fold cpu_stat_line ls sc) = sc_agg sc \<and> sc_per (fold cpu_stat_line ls sc) = sc_per sc"
proof -
  have "\<not> starts_with l ''cpu ''" if "\<not> starts_with l ''cpu''" for l
    using that by (auto simp: starts_with_def prefix_def)
  with assms show ?thesis
    by (induction ls arbitrary: sc) (auto simp: cpu_stat_line_def Let_def split: option.split)
qed

lemma stat_scan_kernel:
  assumes "a \<noteq> []" and "\<forall>c \<in> set cores. snd c \<noteq> []" and "\<forall>l \<in> set others. \<not> starts_with l ''cpu'' \<and> LF \<notin> set l"
  shows "sc_agg (stat_scan (lines_text (cpu_text ''cpu'' a # map (\<lambda>(i, fs). cpu_text (''cpu'' @ dec i) fs) cores @ others))) =
      times_of (map snd a)"
    "sc_per (stat_scan (lines_text (cpu_text ''cpu'' a # map (\<lambda>(i, fs). cpu_text (''cpu'' @ dec i) fs) cores @ others))) =
      map (\<lambda>(i, fs). times_of (map snd fs)) cores"
proof -
  let ?cs = "map (\<lambda>(i, fs). cpu_text (''cpu'' @ dec i) fs) cores"
  have nf: "LF \<notin> set (num_fields fs)" for fs :: "(nat \<times> u64) list"
    using padded_dec_chars [of LF fs] by (auto simp: is_digit_def byte_def)
  have dl: "LF \<notin> set (dec i)" for i using dec_no_blank by blast
  have "\<forall>l \<in> set (cpu_text ''cpu'' a # ?cs @ others). LF \<notin> set l"
    using assms(3) nf dl by (auto simp: cpu_text_def)
  from split_lines_text [OF this]
  have s: "split_lines (lines_text (cpu_text ''cpu'' a # ?cs @ others)) = cpu_text ''cpu'' a # ?cs @ others" .
  let ?z = "\<lparr>sc_agg = empty_CpuTimes, sc_per = [], sc_ctxt = 0, sc_intr = 0, sc_after_cpu = False\<rparr>"
  have one: "cpu_stat_line (cpu_text ''cpu'' a) ?z = ?z\<lparr>sc_agg := times_of (map snd a), sc_after_cpu := True\<rparr>"
    using cpu_text_agg [OF assms(1)] parse_cpu_text [OF assms(1), of "''cpu''"] by (simp add: cpu_stat_line_def)
  show "sc_agg (stat_scan (lines_text (cpu_text ''cpu'' a # ?cs @ others))) = times_of (map snd a)"
    "sc_per (stat_scan (lines_text (cpu_text ''cpu'' a # ?cs @ others))) = map (\<lambda>(i, fs). times_of (map snd fs)) cores"
    unfolding stat_scan_def s fold_simps(2) fold_append o_apply one
    using core_lines_fold [OF _ assms(2)] other_lines_keep assms(3) by simp_all
qed

lemma cpu_sample_fields:
  assumes "file ''/proc/stat'' = Some body" and "cpu_sample file now c out = (ok, c', out')"
  shows "ok" "cpu_total_times out' = sc_agg (stat_scan body)" "cpu_per_core out' = sc_per (stat_scan body)"
    "cpu_usage_pct out' = (if cc_has_last c then usage_pct (cpu_total_times out') (cc_last_total c) else Num 0)"
    "cpu_per_core_pct out' = per_core_pcts (cc_has_last c) (cpu_per_core out') (cc_last_per c)"
    "cpu_pct_iowait out' =
      (if cc_has_last c then fst (snd (snd (pct_parts (cpu_total_times out') (cc_last_total c)))) else Num 0)"
    "cc_last_total c' = cpu_total_times out'" "cc_last_per c' = cpu_per_core out'" "cc_has_last c'"
proof -
  have k: "cc_has_last (cpu_load_model file c) = cc_has_last c" "cc_last_total (cpu_load_model file c) = cc_last_total c"
    "cc_last_per (cpu_load_model file c) = cc_last_per c"
    by (simp_all add: cpu_load_model_def Let_def split: option.split)
  show "ok" "cpu_total_times out' = sc_agg (stat_scan body)" "cpu_per_core out' = sc_per (stat_scan body)"
    "cpu_usage_pct out' = (if cc_has_last c then usage_pct (cpu_total_times out') (cc_last_total c) else Num 0)"
    "cpu_per_core_pct out' = per_core_pcts (cc_has_last c) (cpu_per_core out') (cc_last_per c)"
    "cpu_pct_iowait out' =
      (if cc_has_last c then fst (snd (snd (pct_parts (cpu_total_times out') (cc_last_total c)))) else Num 0)"
    "cc_last_total c' = cpu_total_times out'" "cc_last_per c' = cpu_per_core out'" "cc_has_last c'"
    using assms unfolding cpu_sample_def Let_def
    by (auto simp: k split: prod.splits)
qed

section \<open>Percentages\<close>

text \<open>The ticks each counter advanced between two samples, modulo \<open>2 ^ 64\<close>.\<close>

definition ticks :: "CpuTimes \<Rightarrow> CpuTimes \<Rightarrow> nat list" where
  "ticks t p = map unat [ct_user t - ct_user p, ct_nice t - ct_nice p, ct_system t - ct_system p, ct_irq t - ct_irq p,
     ct_softirq t - ct_softirq p, ct_steal t - ct_steal p, ct_idle t - ct_idle p, ct_iowait t - ct_iowait p]"

lemma uint_of_nat_small: "n < 2 ^ 46 \<Longrightarrow> uint (word_of_nat n :: u64) = int n"
proof -
  assume n: "n < 2 ^ 46"
  have "unat (word_of_nat n :: u64) = n mod 2 ^ 64" by (simp add: unat_of_nat)
  also have "\<dots> = n" using n by simp
  finally show "uint (word_of_nat n :: u64) = int n" by (metis uint_nat)
qed

lemma usage_pct_bounds:
  assumes "sum_list (ticks t p) < 2 ^ 46"
  shows "\<exists>r. usage_pct t p = Num r \<and> 0 \<le> r \<and> r \<le> 100"
proof -
  define n m where "n = sum_list (ticks t p)" and "m = sum_list (take 6 (ticks t p))"
  have td: "CpuTimes_total t - CpuTimes_total p = word_of_nat n" and wd: "CpuTimes_work t - CpuTimes_work p = word_of_nat m"
    unfolding n_def m_def ticks_def by (simp_all add: CpuTimes_total_def CpuTimes_work_def)
  have le: "m \<le> n" unfolding n_def m_def ticks_def by simp
  have n: "n < 2 ^ 46" using assms by (simp add: n_def)
  then have u: "uint (word_of_nat n :: u64) = int n" "uint (word_of_nat m :: u64) = int m"
    using uint_of_nat_small le by (simp_all del: unsigned_of_nat)
  show ?thesis
  proof (cases "0 < n")
    case True
    then have "0 < (word_of_nat n :: u64)" using u(1) by (simp add: word_less_def del: unsigned_of_nat)
    with True le n percent_bounds [of "int m" "int n"] show ?thesis
      unfolding usage_pct_def Let_def td wd d_of_word_def u by simp
  next
    case False
    then show ?thesis unfolding usage_pct_def Let_def td wd by simp
  qed
qed

section \<open>Properties\<close>

text \<open>C18: the CPU sample of a \<open>/proc/stat\<close> as the kernel lays it out holds the file's counters: the first eight
  numbers of the aggregate line and of each core's line, in order, whatever the other lines say; and they
  are what the next sample is measured against.\<close>

theorem cpu_sample_kernel:
  assumes "a \<noteq> []" and "\<forall>c \<in> set cores. snd c \<noteq> []" and "\<forall>l \<in> set others. \<not> starts_with l ''cpu'' \<and> LF \<notin> set l"
    and "file ''/proc/stat'' =
      Some (lines_text (cpu_text ''cpu'' a # map (\<lambda>(i, fs). cpu_text (''cpu'' @ dec i) fs) cores @ others))"
    and "cpu_sample file now c out = (ok, c', out')"
  shows "ok \<and> cpu_total_times out' = times_of (map snd a) \<and>
    cpu_per_core out' = map (\<lambda>(i, fs). times_of (map snd fs)) cores \<and>
    cc_last_total c' = cpu_total_times out' \<and> cc_last_per c' = cpu_per_core out' \<and> cc_has_last c' \<and>
    length (cpu_per_core_pct out') = length cores"
  using cpu_sample_fields [OF assms(4,5)] stat_scan_kernel [OF assms(1-3)] by (simp add: per_core_pcts_def)

theorem cpu_sample_kernel_witness:
  "cpu_per_core (snd (snd (cpu_sample (\<lambda>p. if p = ''/proc/stat''
      then Some (lines_text (cpu_text ''cpu'' (map (Pair 1) [9, 8, 7]) #
        map (\<lambda>(i, fs). cpu_text (''cpu'' @ dec i) fs) [(0, map (Pair 0) [4, 3, 2])] @ [''btime 5''])) else None)
      1 CpuCollector_init empty_CpuSnapshot))) = [times_of [4, 3, 2]]"
proof -
  let ?file = "\<lambda>p. if p = ''/proc/stat''
      then Some (lines_text (cpu_text ''cpu'' (map (Pair 1) [9, 8, 7]) #
        map (\<lambda>(i, fs). cpu_text (''cpu'' @ dec i) fs) [(0, map (Pair 0) [4, 3, 2])] @ [''btime 5''])) else None"
  obtain ok c' out' where r: "cpu_sample ?file 1 CpuCollector_init empty_CpuSnapshot = (ok, c', out')" by (rule prod_cases3)
  from cpu_sample_kernel [OF _ _ _ _ r, of "map (Pair 1) [9, 8, 7]" "[(0, map (Pair 0) [4, 3, 2])]" "[''btime 5'']"]
  show ?thesis unfolding r by (simp add: starts_with_def)
qed

text \<open>C19: as long as the counters of a core advance, by fewer than \<open>2 ^ 46\<close> ticks between samples, its usage is a
  percentage: a number from 0 to 100. This covers the aggregate and every core the last sample had.\<close>

theorem cpu_usage_bounded:
  assumes "file ''/proc/stat'' = Some body" and "cpu_sample file now c out = (ok, c', out')"
    and "sum_list (ticks (cpu_total_times out') (cc_last_total c)) < 2 ^ 46"
    and "\<forall>i < min (length (cpu_per_core out')) (length (cc_last_per c)).
      sum_list (ticks (cpu_per_core out' ! i) (cc_last_per c ! i)) < 2 ^ 46"
  shows "(\<exists>r. cpu_usage_pct out' = Num r \<and> 0 \<le> r \<and> r \<le> 100) \<and>
    (\<forall>x \<in> set (cpu_per_core_pct out'). \<exists>r. x = Num r \<and> 0 \<le> r \<and> r \<le> 100)"
proof
  note f = cpu_sample_fields [OF assms(1,2)]
  show "\<exists>r. cpu_usage_pct out' = Num r \<and> 0 \<le> r \<and> r \<le> 100"
    unfolding f(4) using usage_pct_bounds [OF assms(3)] by simp
  show "\<forall>x \<in> set (cpu_per_core_pct out'). \<exists>r. x = Num r \<and> 0 \<le> r \<and> r \<le> 100"
    unfolding f(5) per_core_pcts_def using usage_pct_bounds assms(4) by auto
qed

theorem cpu_usage_bounded_witness:
  "\<exists>r. cpu_usage_pct (snd (snd (cpu_sample (\<lambda>p. if p = ''/proc/stat'' then Some ''cpu  5 0 0 5'' else None) 1
      (CpuCollector_init\<lparr>cc_has_last := True\<rparr>) empty_CpuSnapshot))) = Num r \<and> 0 \<le> r \<and> r \<le> 100"
proof -
  let ?file = "\<lambda>p. if p = ''/proc/stat'' then Some ''cpu  5 0 0 5'' else None"
  let ?c = "CpuCollector_init\<lparr>cc_has_last := True\<rparr>"
  have s: "sc_agg (stat_scan ''cpu  5 0 0 5'') = times_of [5, 0, 0, 5]" "sc_per (stat_scan ''cpu  5 0 0 5'') = []"
    by (simp_all add: stat_scan_def split_lines_def cpu_stat_line_def starts_with_def parse_cpu_line_def
        is_digit_def byte_def undec_def digit_val_def times_of_def val_at_def)
  obtain ok c' out' where r: "cpu_sample ?file 1 ?c empty_CpuSnapshot = (ok, c', out')" by (rule prod_cases3)
  have f: "?file ''/proc/stat'' = Some ''cpu  5 0 0 5''" by simp
  from cpu_usage_bounded [OF f r] cpu_sample_fields(2,3) [OF f r] show ?thesis
    unfolding r by (simp add: s ticks_def times_of_def val_at_def CpuCollector_init_def empty_CpuTimes_def)
qed

lemma to_dbl_near_2_64:
  assumes "2 ^ 64 - 1 \<le> x" "x \<le> 2 ^ 64"
  shows "to_dbl False x = Num (2 ^ 64)"
proof (cases "x = 2 ^ 64")
  case True
  then have "exp2_of x = 64" by (intro antisym exp2_of_le exp2_of_ge) simp_all
  with True have "round_pos 53 (- 1022) x = 2 ^ 64"
    using round_pos_exact [of x "2 ^ 52" 53 "- 1022"] by (simp add: ulp_def)
  then show ?thesis using True by (simp add: to_dbl_def fp_round_def)
next
  case False
  with assms have x: "x < 2 ^ 64" "0 < x" by simp_all
  have "exp2_of x = 63" using x assms by (intro antisym exp2_of_le exp2_of_ge) simp_all
  then have u: "ulp 53 (- 1022) x = 2 ^ 11" by (simp add: ulp_def)
  have "\<lfloor>x / 2 ^ 11\<rfloor> = 2 ^ 53 - 1" using x assms by (simp add: floor_eq_iff)
  then have "round_even (x / 2 ^ 11) = 2 ^ 53" using assms by (simp add: round_even_def Let_def)
  then have "round_pos 53 (- 1022) x = 2 ^ 64" by (simp add: round_pos_ulp u)
  then show ?thesis using x by (simp add: to_dbl_def fp_round_def)
qed

text \<open>C22: unlike the network and disk collectors this one has no guard against a counter that moves backwards,
  which the kernel documents for iowait: one tick lost while a hundred pass overall is published as
  an iowait share of \<open>2 ^ 64\<close> percent.\<close>

theorem cpu_iowait_backwards:
  assumes "file ''/proc/stat'' = Some body" and "cpu_sample file now c out = (ok, c', out')" and "cc_has_last c"
    and "ct_iowait (sc_agg (stat_scan body)) = ct_iowait (cc_last_total c) - 1"
    and "CpuTimes_total (sc_agg (stat_scan body)) = CpuTimes_total (cc_last_total c) + 100"
  shows "cpu_pct_iowait out' = Num (2 ^ 64)"
proof -
  have one: "d_div (Num 100) (d_of_word (100 :: u64)) = Num 1"
    using to_dbl_int [of 100] to_dbl_int [of 1] by (simp add: d_of_word_def d_of_int_def fp_div_def)
  have "to_dbl False 18446744073709551615 = Num (2 ^ 64)" and "to_dbl False (2 ^ 64) = Num (2 ^ 64)"
    by (rule to_dbl_near_2_64; simp)+
  moreover have "uint (- 1 :: u64) = 18446744073709551615" by (simp add: unsigned_minus_1_eq_mask mask_eq_exp_minus_1)
  ultimately have "d_of_word (- 1 :: u64) = Num (2 ^ 64)" and "d_mul (Num 1) (Num (2 ^ 64)) = Num (2 ^ 64)"
    by (simp_all add: d_of_word_def d_of_int_def fp_mul_def unsigned_minus_1_eq_mask mask_eq_exp_minus_1)
  then show ?thesis
    unfolding cpu_sample_fields(6) [OF assms(1,2)] cpu_sample_fields(2) [OF assms(1,2)]
    using assms(3-5) one by (simp add: pct_parts_def Let_def)
qed

theorem cpu_iowait_backwards_witness:
  "cpu_pct_iowait (snd (snd (cpu_sample (\<lambda>p. if p = ''/proc/stat'' then Some ''cpu  0 0 0 101 9'' else None) 1
      (CpuCollector_init\<lparr>cc_has_last := True, cc_last_total := empty_CpuTimes\<lparr>ct_iowait := 10\<rparr>\<rparr>) empty_CpuSnapshot))) = Num (2 ^ 64)"
proof -
  let ?file = "\<lambda>p. if p = ''/proc/stat'' then Some ''cpu  0 0 0 101 9'' else None"
  let ?c = "CpuCollector_init\<lparr>cc_has_last := True, cc_last_total := empty_CpuTimes\<lparr>ct_iowait := 10\<rparr>\<rparr>"
  have s: "sc_agg (stat_scan ''cpu  0 0 0 101 9'') = times_of [0, 0, 0, 101, 9]"
    by (simp_all add: stat_scan_def split_lines_def cpu_stat_line_def starts_with_def parse_cpu_line_def
        is_digit_def byte_def undec_def digit_val_def times_of_def val_at_def)
  obtain ok c' out' where r: "cpu_sample ?file 1 ?c empty_CpuSnapshot = (ok, c', out')" by (rule prod_cases3)
  have f: "?file ''/proc/stat'' = Some ''cpu  0 0 0 101 9''" by simp
  from cpu_iowait_backwards [OF f r] show ?thesis
    unfolding r by (simp add: s times_of_def val_at_def CpuCollector_init_def empty_CpuTimes_def CpuTimes_total_def)
qed

end
