(* ===== verification/Graphics.thy ===== *)
theory Graphics
  imports Prelude
begin

text \<open>
  The terminal graphics protocols (\<open>src/ui/widget/GraphicsProtocol.cpp\<close>): base64, the sixel band payload, and
  the escape sequences of both protocols. The terminal's answers and the shared-memory file are arguments.
\<close>

section \<open>Base64\<close>

definition kB64 :: string where
  "kB64 = ''ABCDEFGHIJKLMNOPQRSTUVWXYZabcdefghijklmnopqrstuvwxyz0123456789+/''"

definition b64_digit :: "u32 \<Rightarrow> nat \<Rightarrow> char" where
  "b64_digit v s = kB64 ! unat (drop_bit s v AND 0x3F)"

fun base64_encode :: "u8 list \<Rightarrow> string" where
  "base64_encode (a # b # c # rest) =
     (let v = push_bit 16 (ucast a) OR push_bit 8 (ucast b) OR ucast c
      in [b64_digit v 18, b64_digit v 12, b64_digit v 6, b64_digit v 0] @ base64_encode rest)"
| "base64_encode [a, b] =
     (let v = push_bit 16 (ucast a) OR push_bit 8 (ucast b)
      in [b64_digit v 18, b64_digit v 12, b64_digit v 6, CHR ''=''])"
| "base64_encode [a] =
     (let v = push_bit 16 (ucast a) in [b64_digit v 18, b64_digit v 12, CHR ''='', CHR ''=''])"
| "base64_encode [] = []"

section \<open>Sixel bands\<close>

text \<open>The entry of the 6x6x6 colour cube nearest to a pixel.\<close>

definition sixel_quantize :: "u8 list \<Rightarrow> nat \<Rightarrow> nat" where
  "sixel_quantize rgba k =
     ((unat (rgba ! k) + 25) div 51) * 36 + ((unat (rgba ! (k + 1)) + 25) div 51) * 6 + ((unat (rgba ! (k + 2)) + 25) div 51)"

record sixel_rows =
  sx_rows :: "u8 list"
  sx_used :: "bool list"
  sx_touched :: "nat list"

definition sixel_pixel :: "u8 list \<Rightarrow> nat \<Rightarrow> nat \<Rightarrow> nat \<Rightarrow> nat \<Rightarrow> sixel_rows \<Rightarrow> sixel_rows" where
  "sixel_pixel rgba w_px band_y dy x s =
     (let line = (band_y + dy) * w_px * 4; bit = push_bit dy 1; qidx = sixel_quantize rgba (line + x * 4);
          s = (if sx_used s ! qidx then s
               else s\<lparr>sx_used := (sx_used s)[qidx := True], sx_touched := sx_touched s @ [qidx]\<rparr>)
      in s\<lparr>sx_rows := (sx_rows s)[qidx * w_px + x := sx_rows s ! (qidx * w_px + x) OR bit]\<rparr>)"

definition sixel_collect :: "u8 list \<Rightarrow> nat \<Rightarrow> nat \<Rightarrow> nat \<Rightarrow> sixel_rows \<Rightarrow> sixel_rows" where
  "sixel_collect rgba w_px band_y band_h s =
     fold (\<lambda>dy. fold (sixel_pixel rgba w_px band_y dy) [0..<w_px]) [0..<band_h] s"

definition sixel_emit :: "nat \<Rightarrow> sixel_rows \<Rightarrow> string" where
  "sixel_emit w_px s = concat (map (\<lambda>p.
     if \<not> sx_used s ! p then []
     else ''#'' @ dec p @ map (\<lambda>x. char_of (63 + unat (sx_rows s ! (p * w_px + x)))) [0..<w_px] @ ''$'') [0..<216])"

definition sixel_clear :: "nat \<Rightarrow> sixel_rows \<Rightarrow> sixel_rows" where
  "sixel_clear w_px s =
     (fold (\<lambda>p s. s\<lparr>sx_rows := fold (\<lambda>x rows. rows[p * w_px + x := 0]) [0..<w_px] (sx_rows s),
        sx_used := (sx_used s)[p := False]\<rparr>) (sx_touched s) s)\<lparr>sx_touched := []\<rparr>"

definition sixel_band :: "u8 list \<Rightarrow> nat \<Rightarrow> nat \<Rightarrow> nat \<Rightarrow> string \<times> sixel_rows \<Rightarrow> string \<times> sixel_rows" where
  "sixel_band rgba w_px h_px i = (\<lambda>(out, s).
     let band_y = 6 * i; band_h = min 6 (h_px - band_y); s = sixel_collect rgba w_px band_y band_h s
     in (out @ sixel_emit w_px s @ ''-'', sixel_clear w_px s))"

definition sixel_bands :: "u8 list \<Rightarrow> nat \<Rightarrow> nat \<Rightarrow> string" where
  "sixel_bands rgba w_px h_px =
     fst (fold (sixel_band rgba w_px h_px) [0..<(h_px + 5) div 6]
       ([], \<lparr>sx_rows = replicate (216 * w_px) 0, sx_used = replicate 216 False, sx_touched = []\<rparr>))"

section \<open>Escape sequences\<close>

datatype Protocol = NoProtocol | Kitty | Sixel

abbreviation ST :: string where "ST \<equiv> [ESC, BSLASH]"

text \<open>The 216 palette entries after the introducer.\<close>

definition sixel_palette :: string where
  "sixel_palette = concat (map (\<lambda>r. concat (map (\<lambda>g. concat (map (\<lambda>b.
     ''#'' @ dec (r * 36 + g * 6 + b) @ '';2;'' @ dec (r * 100 div 5) @ '';'' @ dec (g * 100 div 5) @ '';'' @ dec (b * 100 div 5))
     [0..<6])) [0..<6])) [0..<6])"

text \<open>\<open>shm\<close> is the path of the file the pixels were written to, \<open>None\<close> when it could not be made.\<close>

definition emit_full :: "Protocol \<Rightarrow> string option \<Rightarrow> u32 \<Rightarrow> int \<Rightarrow> int \<Rightarrow> int \<Rightarrow> int \<Rightarrow> u8 list option \<Rightarrow> int \<Rightarrow> int \<Rightarrow> string" where
  "emit_full protocol shm chart_id cell_x cell_y cell_w cell_h rgba w_px h_px =
     (case rgba of None \<Rightarrow> []
      | Some px \<Rightarrow>
        if protocol = NoProtocol \<or> w_px \<le> 0 \<or> h_px \<le> 0 then []
        else let cursor = ESC # ''['' @ dec_int (cell_y + 1) @ '';'' @ dec_int (cell_x + 1) @ ''H''
        in if protocol = Kitty
           then (case shm of None \<Rightarrow> []
             | Some path \<Rightarrow>
               let b64_path = base64_encode (map (\<lambda>c. word_of_nat (byte c)) path)
               in if b64_path = [] then []
                  else cursor @ ESC # ''_Ga=T,t=t,i='' @ dec_word chart_id @ '',f=32,s='' @ dec_int w_px @ '',v='' @ dec_int h_px @
                    '',c='' @ dec_int cell_w @ '',r='' @ dec_int cell_h @ '',C=1,q=2;'' @ b64_path @ ST)
           else cursor @ ESC # ''P0;0;0q'' @ DQUOTE # ''1;1;'' @ dec_int w_px @ '';'' @ dec_int h_px @ sixel_palette @
             sixel_bands px (nat w_px) (nat h_px) @ ST)"

definition emit_delete :: "Protocol \<Rightarrow> u32 \<Rightarrow> string" where
  "emit_delete protocol chart_id =
     (if protocol \<noteq> Kitty then [] else ESC # ''_Ga=d,d=i,i='' @ dec_word chart_id @ '',q=2'' @ ST)"

text \<open>Detection from the answer to the probe; no answer when standard input is not a terminal.\<close>

definition detect_protocol :: "string option \<Rightarrow> Protocol" where
  "detect_protocol resp =
     (case resp of None \<Rightarrow> NoProtocol
      | Some r \<Rightarrow> if contains r ''Gi=9999;OK'' \<or> contains r ''_Gi=9999;OK'' then Kitty
                  else if contains r '';4;'' \<or> contains r '';4c'' then Sixel else NoProtocol)"

text \<open>One \<open>%d\<close> of \<open>sscanf\<close>.\<close>

definition scan_int :: "string \<Rightarrow> (int \<times> string) option" where
  "scan_int s =
     (let t = dropWhile is_space s; neg = (t \<noteq> [] \<and> hd t = CHR ''-'');
          u = (if t \<noteq> [] \<and> (hd t = CHR ''-'' \<or> hd t = CHR ''+'') then tl t else t); ds = takeWhile is_digit u
      in if ds = [] then None else Some (if neg then - int (undec ds) else int (undec ds), dropWhile is_digit u))"

definition scan_cell_report :: "string \<Rightarrow> (int \<times> int) option" where
  "scan_cell_report r =
     (case scan_int (drop 4 r) of
        Some (h, CHR '';'' # s) \<Rightarrow> (case scan_int s of Some (w, _) \<Rightarrow> Some (h, w) | None \<Rightarrow> None)
      | _ \<Rightarrow> None)"

record winsize =
  ws_row :: int
  ws_col :: int
  ws_xpixel :: int
  ws_ypixel :: int

text \<open>The pair is width and height.\<close>

definition detect_cell_size :: "string option \<Rightarrow> winsize option \<Rightarrow> int \<times> int" where
  "detect_cell_size resp ws =
     (let report = (case resp of None \<Rightarrow> None
            | Some r \<Rightarrow> (case find_str (ESC # ''[6;'') r of None \<Rightarrow> None | Some p \<Rightarrow> scan_cell_report (drop p r)));
          fallback = (case ws of None \<Rightarrow> (8, 16)
            | Some z \<Rightarrow> if 0 < ws_xpixel z \<and> 0 < ws_ypixel z \<and> 0 < ws_col z \<and> 0 < ws_row z \<and>
                  0 < ws_xpixel z div ws_col z \<and> 0 < ws_ypixel z div ws_row z
                then (ws_xpixel z div ws_col z, ws_ypixel z div ws_row z) else (8, 16))
      in case report of Some (h, w) \<Rightarrow> if 0 < h \<and> 0 < w then (w, h) else fallback | None \<Rightarrow> fallback)"

section \<open>Decoding base64\<close>

text \<open>RFC 4648: four characters carry three bytes, the padded last group one or two.\<close>

definition b64_value :: "char \<Rightarrow> nat option" where
  "b64_value c = find_char c kB64"

definition b64_group :: "nat list \<Rightarrow> nat" where
  "b64_group ds = foldl (\<lambda>v d. v * 64 + d) 0 ds"

fun base64_decode :: "string \<Rightarrow> nat list option" where
  "base64_decode [] = Some []"
| "base64_decode (p # q # r # s # rest) =
     (if rest = [] \<and> s = CHR ''='' \<and> r = CHR ''=''
      then (case (b64_value p, b64_value q) of (Some a, Some b) \<Rightarrow> Some [b64_group [a, b] div 16] | _ \<Rightarrow> None)
      else if rest = [] \<and> s = CHR ''=''
      then (case (b64_value p, b64_value q, b64_value r) of
          (Some a, Some b, Some c) \<Rightarrow> (let v = b64_group [a, b, c] div 4 in Some [v div 256, v mod 256]) | _ \<Rightarrow> None)
      else (case (b64_value p, b64_value q, b64_value r, b64_value s, base64_decode rest) of
          (Some a, Some b, Some c, Some d, Some bs) \<Rightarrow>
            (let v = b64_group [a, b, c, d] in Some (v div 65536 # v div 256 mod 256 # v mod 256 # bs)) | _ \<Rightarrow> None))"
| "base64_decode _ = None"

lemma kB64_length [simp]: "length kB64 = 64"
  by (simp add: kB64_def)

lemma kB64_values: "\<forall>d \<in> set [0..<64]. b64_value (kB64 ! d) = Some d \<and> kB64 ! d \<noteq> CHR ''=''"
  by (simp add: upt_rec numeral_eq_Suc b64_value_def kB64_def)

lemma b64_value_nth: "d < 64 \<Longrightarrow> b64_value (kB64 ! d) = Some d" "d < 64 \<Longrightarrow> kB64 ! d \<noteq> CHR ''=''"
  using kB64_values by auto

lemma b64_digit_eq: "b64_digit v s = kB64 ! (unat v div 2 ^ s mod 64)"
proof -
  have "(0x3F :: u32) = mask 6" by (simp add: mask_eq_exp_minus_1)
  then have "unat (drop_bit s v AND 0x3F) = take_bit 6 (drop_bit s (unat v))"
    by (simp only: take_bit_eq_mask [symmetric] unsigned_take_bit_eq unsigned_drop_bit_eq)
      (use unsigned_less [where ?'a = nat, of v] in \<open>simp add: take_bit_eq_mod\<close>)
  then show ?thesis by (simp only: b64_digit_def take_bit_eq_mod drop_bit_eq_div) simp
qed

lemma byte_lt: "unat (a :: u8) < 256"
  using unsigned_less [where ?'a = nat, of a] by simp

lemma unat_group:
  fixes a b c :: u8
  shows "unat (push_bit 16 (ucast a) OR push_bit 8 (ucast b) OR ucast c :: u32) = unat a * 65536 + unat b * 256 + unat c"
proof -
  have bits: "bit (x :: u8) n \<Longrightarrow> n < 8" for x n using bit_imp_le_length [of x n] by simp
  have "push_bit 16 (ucast a) OR push_bit 8 (ucast b) OR ucast c = (push_bit 16 (ucast a) + push_bit 8 (ucast b) + ucast c :: u32)"
  proof -
    have "push_bit 8 (ucast b) AND ucast c = (0 :: u32)" and "push_bit 16 (ucast a) AND (push_bit 8 (ucast b) OR ucast c) = (0 :: u32)"
      by (rule bit_word_eqI; auto simp: bit_simps dest: bits)+
    then show ?thesis by (simp add: disjunctive_add_eq_or flip: disjunctive_add_eq_or)
  qed
  also have "\<dots> = word_of_nat (unat a * 65536 + unat b * 256 + unat c)"
    by (simp add: push_bit_eq_mult of_nat_unat)
  finally have "unat (push_bit 16 (ucast a) OR push_bit 8 (ucast b) OR ucast c :: u32) = unat (word_of_nat (unat a * 65536 + unat b * 256 + unat c) :: u32)"
    by simp
  also have "\<dots> = unat a * 65536 + unat b * 256 + unat c"
    unfolding unsigned_of_nat of_nat_id using byte_lt [of a] byte_lt [of b] byte_lt [of c] by (intro take_bit_nat_eq_self) simp
  finally show ?thesis .
qed

lemma sextet_step: "n div (k * 64) * 64 + n div k mod 64 = (n div k :: nat)"
  by (metis div_mult2_eq div_mult_mod_eq)

lemma byte_step: "(c::nat) < 256 \<Longrightarrow> (x * 256 + c) div 256 = x" "c < 256 \<Longrightarrow> (x * 256 + c) mod 256 = c"
  by simp_all

lemma b64_group_digits:
  assumes "v < 2 ^ 24"
  shows "b64_group [v div 2 ^ 18 mod 64, v div 2 ^ 12 mod 64, v div 2 ^ 6 mod 64, v div 2 ^ 0 mod 64] = v"
    "b64_group [v div 2 ^ 18 mod 64, v div 2 ^ 12 mod 64, v div 2 ^ 6 mod 64] = v div 64"
    "b64_group [v div 2 ^ 18 mod 64, v div 2 ^ 12 mod 64] = v div 4096"
proof -
  have top: "v div 2 ^ 18 mod 64 = v div 2 ^ 18" using assms by simp
  show "b64_group [v div 2 ^ 18 mod 64, v div 2 ^ 12 mod 64] = v div 4096"
    and "b64_group [v div 2 ^ 18 mod 64, v div 2 ^ 12 mod 64, v div 2 ^ 6 mod 64] = v div 64"
    and "b64_group [v div 2 ^ 18 mod 64, v div 2 ^ 12 mod 64, v div 2 ^ 6 mod 64, v div 2 ^ 0 mod 64] = v"
    unfolding top using sextet_step [of v 4096] sextet_step [of v 64] sextet_step [of v 1] by (simp_all add: b64_group_def)
qed

lemma base64_decode_digits:
  assumes "d1 < 64" "d2 < 64" "d3 < 64" "d4 < 64"
  shows "base64_decode rest = Some bs \<Longrightarrow> base64_decode (kB64 ! d1 # kB64 ! d2 # kB64 ! d3 # kB64 ! d4 # rest) =
      (let v = b64_group [d1, d2, d3, d4] in Some (v div 65536 # v div 256 mod 256 # v mod 256 # bs))"
    and "base64_decode [kB64 ! d1, kB64 ! d2, kB64 ! d3, CHR ''=''] =
      (let v = b64_group [d1, d2, d3] div 4 in Some [v div 256, v mod 256])"
    and "base64_decode [kB64 ! d1, kB64 ! d2, CHR ''='', CHR ''=''] = Some [b64_group [d1, d2] div 16]"
  using assms by (simp_all add: b64_value_nth)

lemma base64_decode_encode: "base64_decode (base64_encode bs) = Some (map unat bs)"
proof (induction bs rule: base64_encode.induct)
  case (1 a b c rest)
  define v where "v = unat a * 65536 + unat b * 256 + unat c"
  have m: "z mod 64 < 64" for z :: nat by simp
  have v24: "v < 2 ^ 24" using byte_lt [of a] byte_lt [of b] byte_lt [of c] by (simp add: v_def)
  have v: "v = (unat a * 256 + unat b) * 256 + unat c" by (simp add: v_def)
  have "v div 256 = unat a * 256 + unat b" unfolding v by (rule byte_step(1) [OF byte_lt])
  then have parts: "v div 65536 = unat a" "v div 256 mod 256 = unat b"
    using byte_step [OF byte_lt [of b]] div_mult2_eq [of v 256 256] by simp_all
  have low: "v mod 256 = unat c" unfolding v by (rule byte_step(2) [OF byte_lt])
  have e: "base64_encode (a # b # c # rest) = kB64 ! (v div 2 ^ 18 mod 64) # kB64 ! (v div 2 ^ 12 mod 64) #
      kB64 ! (v div 2 ^ 6 mod 64) # kB64 ! (v div 2 ^ 0 mod 64) # base64_encode rest"
    by (simp only: base64_encode.simps Let_def b64_digit_eq unat_group v_def append.simps)
  show ?case
    unfolding e base64_decode_digits(1) [OF m m m m "1.IH" [OF refl]] b64_group_digits [OF v24] Let_def
    using parts low by simp
next
  case (2 a b)
  define v where "v = unat a * 65536 + unat b * 256"
  have m: "z mod 64 < 64" for z :: nat by simp
  have u: "unat (push_bit 16 (ucast a) OR push_bit 8 (ucast b) :: u32) = v"
    using unat_group [of a b 0] by (simp add: v_def)
  have v24: "v < 2 ^ 24" using byte_lt [of a] byte_lt [of b] by (simp add: v_def)
  have v: "v = (unat a * 256 + unat b) * 256" by (simp add: v_def)
  then have "v div 64 div 4 = unat a * 256 + unat b" by (simp flip: div_mult2_eq)
  then have parts: "v div 64 div 4 div 256 = unat a" "v div 64 div 4 mod 256 = unat b"
    using byte_step [OF byte_lt [of b]] by simp_all
  have e: "base64_encode [a, b] = [kB64 ! (v div 2 ^ 18 mod 64), kB64 ! (v div 2 ^ 12 mod 64), kB64 ! (v div 2 ^ 6 mod 64), CHR ''='']"
    by (simp only: base64_encode.simps Let_def b64_digit_eq u)
  show ?case
    unfolding e base64_decode_digits(2) [OF m m m m [of 0]] b64_group_digits [OF v24] Let_def using parts by simp
next
  case (3 a)
  define v where "v = unat a * 65536"
  have m: "z mod 64 < 64" for z :: nat by simp
  have u: "unat (push_bit 16 (ucast a) :: u32) = v"
    using unat_group [of a 0 0] by (simp add: v_def)
  have v24: "v < 2 ^ 24" using byte_lt [of a] by (simp add: v_def)
  have parts: "v div 4096 div 16 = unat a" by (simp add: v_def flip: div_mult2_eq)
  have e: "base64_encode [a] = [kB64 ! (v div 2 ^ 18 mod 64), kB64 ! (v div 2 ^ 12 mod 64), CHR ''='', CHR ''='']"
    by (simp only: base64_encode.simps Let_def b64_digit_eq u)
  show ?case
    unfolding e base64_decode_digits(3) [OF m m m [of 0] m [of 0]] b64_group_digits [OF v24] using parts by simp
qed simp

lemma base64_length: "length (base64_encode bs) = (length bs + 2) div 3 * 4"
proof (induction bs rule: base64_encode.induct)
  case (1 a b c rest)
  have "(length (a # b # c # rest) + 2) div 3 = (length rest + 2) div 3 + 1" using div_add_self2 [of 3 "length rest + 2"] by simp
  with 1 show ?case by (simp add: Let_def)
qed (simp_all add: Let_def)

section \<open>One pass against 216\<close>

text \<open>
  The nest the single pass replaces: for every colour, which pixels of the band have it. A colour is emitted
  when some pixel does.
\<close>

definition sixel_mask :: "u8 list \<Rightarrow> nat \<Rightarrow> nat \<Rightarrow> nat \<Rightarrow> nat \<Rightarrow> nat \<Rightarrow> u8" where
  "sixel_mask rgba w_px band_y band_h p x =
     fold (\<lambda>dy m. if sixel_quantize rgba ((band_y + dy) * w_px * 4 + x * 4) = p then m OR push_bit dy 1 else m) [0..<band_h] 0"

definition sixel_nest_band :: "u8 list \<Rightarrow> nat \<Rightarrow> nat \<Rightarrow> nat \<Rightarrow> string" where
  "sixel_nest_band rgba w_px band_y band_h = concat (map (\<lambda>p.
     let row = map (sixel_mask rgba w_px band_y band_h p) [0..<w_px]
     in if \<forall>b \<in> set row. b = 0 then [] else ''#'' @ dec p @ map (\<lambda>b. char_of (63 + unat b)) row @ ''$'') [0..<216])"

definition sixel_nest :: "u8 list \<Rightarrow> nat \<Rightarrow> nat \<Rightarrow> string" where
  "sixel_nest rgba w_px h_px =
     concat (map (\<lambda>i. sixel_nest_band rgba w_px (6 * i) (min 6 (h_px - 6 * i)) @ ''-'') [0..<(h_px + 5) div 6])"

lemma sixel_quantize_bound: "sixel_quantize rgba k < 216"
proof -
  have "(unat (u :: u8) + 25) div 51 \<le> 5" for u using byte_lt [of u] by simp
  from this [of "rgba ! k"] this [of "rgba ! (k + 1)"] this [of "rgba ! (k + 2)"]
  show ?thesis unfolding sixel_quantize_def by linarith
qed

definition sixel_inv :: "u8 list \<Rightarrow> nat \<Rightarrow> nat \<Rightarrow> (nat \<times> nat) set \<Rightarrow> sixel_rows \<Rightarrow> bool" where
  "sixel_inv rgba w band_y V s \<longleftrightarrow>
     length (sx_rows s) = 216 * w \<and> length (sx_used s) = 216 \<and> set (sx_touched s) = {p. p < 216 \<and> sx_used s ! p} \<and>
     (\<forall>p < 216. sx_used s ! p \<longleftrightarrow> (\<exists>(dy, x) \<in> V. sixel_quantize rgba ((band_y + dy) * w * 4 + x * 4) = p)) \<and>
     (\<forall>p < 216. \<forall>x < w. \<forall>n < 8. bit (sx_rows s ! (p * w + x)) n \<longleftrightarrow>
        (n, x) \<in> V \<and> sixel_quantize rgba ((band_y + n) * w * 4 + x * 4) = p)"

lemma cell_less: "p < m \<Longrightarrow> x < w \<Longrightarrow> p * w + x < m * (w::nat)"
proof -
  assume "p < m" "x < w"
  then have "p * w + x < (p + 1) * w" by simp
  also have "\<dots> \<le> m * w" using \<open>p < m\<close> by (intro mult_le_mono1) simp
  finally show ?thesis .
qed

lemma cell_inject: "x < w \<Longrightarrow> y < w \<Longrightarrow> p * w + x = q * w + y \<longleftrightarrow> p = q \<and> x = (y::nat)"
  by (metis div_mult_self3 div_less add_cancel_right_right add_left_cancel less_nat_zero_code mult.commute)

lemma sixel_pixel_inv:
  assumes "sixel_inv rgba w band_y V s" and x: "x < w" and dy: "dy < 8"
  shows "sixel_inv rgba w band_y (insert (dy, x) V) (sixel_pixel rgba w band_y dy x s)"
proof -
  define q where "q = sixel_quantize rgba ((band_y + dy) * w * 4 + x * 4)"
  define s' where "s' = sixel_pixel rgba w band_y dy x s"
  have q: "q < 216" unfolding q_def by (rule sixel_quantize_bound)
  have len: "length (sx_rows s) = 216 * w" "length (sx_used s) = 216" and touched: "set (sx_touched s) = {p. p < 216 \<and> sx_used s ! p}"
    and used: "\<And>p. p < 216 \<Longrightarrow> sx_used s ! p \<longleftrightarrow> (\<exists>(dy, x) \<in> V. sixel_quantize rgba ((band_y + dy) * w * 4 + x * 4) = p)"
    and rows: "\<And>p x n. p < 216 \<Longrightarrow> x < w \<Longrightarrow> n < 8 \<Longrightarrow> bit (sx_rows s ! (p * w + x)) n \<longleftrightarrow>
        (n, x) \<in> V \<and> sixel_quantize rgba ((band_y + n) * w * 4 + x * 4) = p"
    using assms(1) by (auto simp: sixel_inv_def)
  have s': "sx_rows s' = (sx_rows s)[q * w + x := sx_rows s ! (q * w + x) OR push_bit dy 1]"
    "sx_used s' = (sx_used s)[q := True]" "set (sx_touched s') = insert q (set (sx_touched s))"
  proof -
    have e: "s' = (let s = if sx_used s ! q then s else s\<lparr>sx_used := (sx_used s)[q := True], sx_touched := sx_touched s @ [q]\<rparr>
        in s\<lparr>sx_rows := (sx_rows s)[q * w + x := sx_rows s ! (q * w + x) OR push_bit dy 1]\<rparr>)"
      unfolding s'_def sixel_pixel_def Let_def q_def [symmetric] by (rule refl)
    have "sx_used s ! q \<Longrightarrow> (sx_used s)[q := True] = sx_used s" by (metis list_update_id)
    moreover have "sx_used s ! q \<Longrightarrow> q \<in> set (sx_touched s)" using q touched by simp
    ultimately show "sx_rows s' = (sx_rows s)[q * w + x := sx_rows s ! (q * w + x) OR push_bit dy 1]"
      "sx_used s' = (sx_used s)[q := True]" "set (sx_touched s') = insert q (set (sx_touched s))"
      unfolding e by (auto simp: Let_def)
  qed
  have "bit (sx_rows s' ! (p * w + y)) n \<longleftrightarrow>
      (n, y) \<in> insert (dy, x) V \<and> sixel_quantize rgba ((band_y + n) * w * 4 + y * 4) = p" if "p < 216" "y < w" "n < 8" for p y n
  proof (cases "p = q \<and> y = x")
    case True
    then have "bit (sx_rows s' ! (p * w + y)) n \<longleftrightarrow> bit (sx_rows s ! (q * w + x)) n \<or> n = dy"
      using cell_less [OF q x] len(1) that(3) dy by (auto simp: s' bit_simps)
    then show ?thesis using True rows [OF q x that(3)] by (auto simp: q_def)
  next
    case False
    then have "sx_rows s' ! (p * w + y) = sx_rows s ! (p * w + y)"
      using cell_inject [OF that(2) x, of p q] by (auto simp: s')
    then show ?thesis using False rows [OF that] by (auto simp: q_def)
  qed
  note rows' = this
  show ?thesis
    unfolding sixel_inv_def s'_def [symmetric]
  proof (intro conjI allI impI)
    show "length (sx_rows s') = 216 * w" "length (sx_used s') = 216" by (simp_all add: s' len)
    show "set (sx_touched s') = {p. p < 216 \<and> sx_used s' ! p}"
      using touched q len(2) by (auto simp: s' nth_list_update)
    show "sx_used s' ! p \<longleftrightarrow> (\<exists>(dy, x) \<in> insert (dy, x) V. sixel_quantize rgba ((band_y + dy) * w * 4 + x * 4) = p)"
      if "p < 216" for p
      using used [OF that] q len(2) by (auto simp: s' nth_list_update simp flip: q_def)
  qed (use rows' in blast)
qed

lemma sixel_row_inv:
  assumes "sixel_inv rgba w band_y V s" "dy < 8" "\<forall>x \<in> set xs. x < w"
  shows "sixel_inv rgba w band_y (V \<union> {dy} \<times> set xs) (fold (sixel_pixel rgba w band_y dy) xs s)"
  using assms
proof (induction xs arbitrary: V s)
  case (Cons x xs)
  have "insert (dy, x) V \<union> {dy} \<times> set xs = V \<union> {dy} \<times> set (x # xs)" by auto
  with Cons show ?case using sixel_pixel_inv [of rgba w band_y V s x dy] by (metis fold_simps(2) list.set_intros(1) list.set_intros(2))
qed simp

lemma sixel_collect_inv:
  assumes "sixel_inv rgba w band_y {} s" "band_h \<le> 6"
  shows "sixel_inv rgba w band_y ({0..<band_h} \<times> {0..<w}) (sixel_collect rgba w band_y band_h s)"
proof -
  have "sixel_inv rgba w band_y (V \<union> set dys \<times> {0..<w}) (fold (\<lambda>dy. fold (sixel_pixel rgba w band_y dy) [0..<w]) dys s)"
    if "sixel_inv rgba w band_y V s" "\<forall>dy \<in> set dys. dy < 8" for V s dys
    using that
  proof (induction dys arbitrary: V s)
    case (Cons dy dys)
    have "(V \<union> {dy} \<times> {0..<w}) \<union> set dys \<times> {0..<w} = V \<union> set (dy # dys) \<times> {0..<w}" by auto
    with Cons show ?case using sixel_row_inv [of rgba w band_y V s dy "[0..<w]"] by simp (metis)
  qed simp
  from this [OF assms(1), of "[0..<band_h]"] assms(2) show ?thesis by (simp add: sixel_collect_def)
qed

lemma bit_sixel_mask: "n < 8 \<Longrightarrow> bit (sixel_mask rgba w band_y band_h p x) n \<longleftrightarrow>
    n < band_h \<and> sixel_quantize rgba ((band_y + n) * w * 4 + x * 4) = p"
  unfolding sixel_mask_def by (induction band_h) (auto simp: bit_simps less_Suc_eq)

lemma word8_eqI: "(\<And>n. n < 8 \<Longrightarrow> bit a n = bit b n) \<Longrightarrow> a = (b :: u8)"
  by (rule bit_word_eqI) simp

lemma sixel_emit_collect:
  assumes "sixel_inv rgba w band_y ({0..<band_h} \<times> {0..<w}) s" "band_h \<le> 6"
  shows "sixel_emit w s = sixel_nest_band rgba w band_y band_h"
proof -
  have row: "sx_rows s ! (p * w + x) = sixel_mask rgba w band_y band_h p x" if "p < 216" "x < w" for p x
    using assms that by (intro word8_eqI) (auto simp: sixel_inv_def bit_sixel_mask)
  have used: "sx_used s ! p \<longleftrightarrow> \<not> (\<forall>b \<in> set (map (sixel_mask rgba w band_y band_h p) [0..<w]). b = 0)" if p: "p < 216" for p
  proof
    assume "sx_used s ! p"
    then obtain dy x where d: "dy < band_h" "x < w" "sixel_quantize rgba ((band_y + dy) * w * 4 + x * 4) = p"
      using assms(1) p by (auto simp: sixel_inv_def)
    then have "bit (sixel_mask rgba w band_y band_h p x) dy" using bit_sixel_mask [of dy] assms(2) by simp
    then have "sixel_mask rgba w band_y band_h p x \<noteq> 0" by auto
    with d show "\<not> (\<forall>b \<in> set (map (sixel_mask rgba w band_y band_h p) [0..<w]). b = 0)" by auto
  next
    assume "\<not> (\<forall>b \<in> set (map (sixel_mask rgba w band_y band_h p) [0..<w]). b = 0)"
    then obtain x where x: "x < w" "sixel_mask rgba w band_y band_h p x \<noteq> 0" by auto
    then obtain n where n: "n < 8" "bit (sixel_mask rgba w band_y band_h p x) n" using word8_eqI [of _ 0] by fastforce
    with x have "n < band_h" "sixel_quantize rgba ((band_y + n) * w * 4 + x * 4) = p" using bit_sixel_mask [of n] by simp_all
    then have "\<exists>(dy, x) \<in> {0..<band_h} \<times> {0..<w}. sixel_quantize rgba ((band_y + dy) * w * 4 + x * 4) = p"
      using x(1) by (intro bexI [of _ "(n, x)"]) simp_all
    then show "sx_used s ! p" using assms(1) p unfolding sixel_inv_def by blast
  qed
  show ?thesis
    unfolding sixel_emit_def sixel_nest_band_def Let_def
  proof (rule arg_cong [where f = concat], rule map_cong)
    fix p assume "p \<in> set [0..<216]"
    then have p: "p < 216" by simp
    have "map (\<lambda>x. char_of (63 + unat (sx_rows s ! (p * w + x)))) [0..<w] =
        map (\<lambda>b. char_of (63 + unat b)) (map (sixel_mask rgba w band_y band_h p) [0..<w])"
      using row [OF p] by simp
    then show "(if \<not> sx_used s ! p then [] else ''#'' @ dec p @ map (\<lambda>x. char_of (63 + unat (sx_rows s ! (p * w + x)))) [0..<w] @ ''$'') =
        (if \<forall>b \<in> set (map (sixel_mask rgba w band_y band_h p) [0..<w]). b = 0 then []
         else ''#'' @ dec p @ map (\<lambda>b. char_of (63 + unat b)) (map (sixel_mask rgba w band_y band_h p) [0..<w]) @ ''$'')"
      using used [OF p] by presburger
  qed simp
qed

definition sixel_blank :: "nat \<Rightarrow> sixel_rows" where
  "sixel_blank w = \<lparr>sx_rows = replicate (216 * w) 0, sx_used = replicate 216 False, sx_touched = []\<rparr>"

lemma sixel_blank_inv: "sixel_inv rgba w band_y {} (sixel_blank w)"
  by (auto simp: sixel_inv_def sixel_blank_def cell_less)

lemma clear_row:
  "length (fold (\<lambda>x rows. rows[p * w + x := 0 :: u8]) xs rows) = length rows"
  "i < length rows \<Longrightarrow> fold (\<lambda>x rows. rows[p * w + x := 0]) xs rows ! i = (if \<exists>x \<in> set xs. i = p * w + x then 0 else rows ! i)"
proof -
  show len: "length (fold (\<lambda>x rows. rows[p * w + x := 0 :: u8]) xs rows) = length rows" for rows
    by (induction xs arbitrary: rows) simp_all
  show "i < length rows \<Longrightarrow> fold (\<lambda>x rows. rows[p * w + x := 0]) xs rows ! i = (if \<exists>x \<in> set xs. i = p * w + x then 0 else rows ! i)"
  proof (induction xs arbitrary: rows)
    case (Cons x xs)
    then show ?case using Cons.IH [of "rows[p * w + x := 0]"] by (cases "i = p * w + x") auto
  qed simp
qed

lemma sixel_clear_blank:
  assumes "sixel_inv rgba w band_y V s"
  shows "sixel_clear w s = sixel_blank w"
proof -
  let ?wipe = "\<lambda>p s. s\<lparr>sx_rows := fold (\<lambda>x rows. rows[p * w + x := 0]) [0..<w] (sx_rows s), sx_used := (sx_used s)[p := False]\<rparr>"
  have wipe: "length (sx_rows (fold ?wipe ps s)) = length (sx_rows s) \<and> length (sx_used (fold ?wipe ps s)) = length (sx_used s) \<and>
      (\<forall>p < length (sx_used s). sx_used (fold ?wipe ps s) ! p = (sx_used s ! p \<and> p \<notin> set ps)) \<and>
      (\<forall>i < length (sx_rows s). sx_rows (fold ?wipe ps s) ! i = (if \<exists>p \<in> set ps. \<exists>x < w. i = p * w + x then 0 else sx_rows s ! i))"
    for ps s
  proof (induction ps arbitrary: s)
    case (Cons p ps)
    have upd: "i < length xs \<Longrightarrow> xs[p := False] ! i \<longleftrightarrow> xs ! i \<and> i \<noteq> p" for i xs by (cases "i = p") auto
    show ?case using Cons.IH [of "?wipe p s"] by (auto simp: clear_row upd)
  qed simp
  have len: "length (sx_rows s) = 216 * w" "length (sx_used s) = 216" and touched: "set (sx_touched s) = {p. p < 216 \<and> sx_used s ! p}"
    using assms by (auto simp: sixel_inv_def)
  have zero: "sx_rows s ! (p * w + x) = 0" if "p < 216" "x < w" "\<not> sx_used s ! p" for p x
  proof (rule word8_eqI)
    fix n :: nat assume "n < 8"
    moreover have "\<not> (n, x) \<in> V \<or> sixel_quantize rgba ((band_y + n) * w * 4 + x * 4) \<noteq> p"
      using assms that unfolding sixel_inv_def by fast
    ultimately show "bit (sx_rows s ! (p * w + x)) n = bit 0 n" using assms that by (auto simp: sixel_inv_def)
  qed
  have "sx_used (fold ?wipe (sx_touched s) s) = replicate 216 False"
    using wipe [of "sx_touched s" s] len touched by (intro nth_equalityI) auto
  moreover have "sx_rows (fold ?wipe (sx_touched s) s) = replicate (216 * w) 0"
  proof (rule nth_equalityI)
    fix i assume "i < length (sx_rows (fold ?wipe (sx_touched s) s))"
    then have i: "i < 216 * w" using wipe [of "sx_touched s" s] len by simp
    then have w: "0 < w" by (cases w) auto
    define p x where "p = i div w" and "x = i mod w"
    have px: "i = p * w + x" "x < w" "p < 216" using i w by (simp_all add: p_def x_def less_mult_imp_div_less)
    show "sx_rows (fold ?wipe (sx_touched s) s) ! i = replicate (216 * w) 0 ! i"
    proof (cases "sx_used s ! p")
      case True
      then have "\<exists>p \<in> set (sx_touched s). \<exists>x < w. i = p * w + x" using px touched by auto
      then show ?thesis using wipe [of "sx_touched s" s] len i by simp
    next
      case False
      then show ?thesis using wipe [of "sx_touched s" s] len i zero [OF px(3,2)] px(1) by simp
    qed
  qed (use wipe [of "sx_touched s" s] len in simp)
  ultimately show ?thesis by (simp add: sixel_clear_def sixel_blank_def)
qed

lemma sixel_bands_nest: "sixel_bands rgba w h = sixel_nest rgba w h"
proof -
  have "fold (sixel_band rgba w h) is (out, sixel_blank w) =
      (out @ concat (map (\<lambda>i. sixel_nest_band rgba w (6 * i) (min 6 (h - 6 * i)) @ ''-'') is), sixel_blank w)" for "is" out
  proof (induction "is" arbitrary: out)
    case (Cons i "is")
    define s where "s = sixel_collect rgba w (6 * i) (min 6 (h - 6 * i)) (sixel_blank w)"
    have inv: "sixel_inv rgba w (6 * i) ({0..<min 6 (h - 6 * i)} \<times> {0..<w}) s"
      unfolding s_def by (rule sixel_collect_inv [OF sixel_blank_inv]) simp
    have "sixel_band rgba w h i (out, sixel_blank w) =
        (out @ sixel_nest_band rgba w (6 * i) (min 6 (h - 6 * i)) @ ''-'', sixel_blank w)"
      unfolding sixel_band_def Let_def prod.case s_def [symmetric] sixel_clear_blank [OF inv]
      using sixel_emit_collect [OF inv] by simp
    with Cons show ?case by simp
  qed simp
  from this [where out = "[]"] show ?thesis by (simp add: sixel_bands_def sixel_nest_def sixel_blank_def)
qed

section \<open>Properties\<close>

text \<open>Base64 loses nothing: the text of any byte sequence decodes, as RFC 4648 prescribes, to the same bytes,
  and it is four characters for every three bytes begun.\<close>

theorem base64_round_trip:
  "base64_decode (base64_encode bs) = Some (map unat bs) \<and> length (base64_encode bs) = (length bs + 2) div 3 * 4"
  using base64_decode_encode base64_length by blast

text \<open>C32: the single pass over the pixels, with row buffers it reuses from band to band and clears only where a
  band touched them, writes byte for byte what the nest of one pass per colour writes.\<close>

theorem sixel_single_pass: "sixel_bands rgba w_px h_px = sixel_nest rgba w_px h_px"
  by (rule sixel_bands_nest)

end
