(* ===== verification/Input_Events.thy ===== *)
theory Input_Events
  imports Prelude
begin

text \<open>
  Keyboard input (\<open>include/ui/widget/InputEvent.hpp\<close>, \<open>src/ui/widget/InputEvent.cpp\<close>): the bytes of one read of the
  terminal become key events.
\<close>

section \<open>Events\<close>

datatype Key = KNone | KChar | KEnter | KBackspace | KEscape | KTab | KArrowUp | KArrowDown | KArrowLeft | KArrowRight
  | KPageUp | KPageDown | KHome | KEnd

record InputEvent =
  ev_key :: Key
  ev_character :: char

abbreviation key_event :: "Key \<Rightarrow> InputEvent" where "key_event k \<equiv> \<lparr>ev_key = k, ev_character = NUL\<rparr>"

definition event_is :: "InputEvent \<Rightarrow> Key \<Rightarrow> bool" where
  "event_is e k \<longleftrightarrow> ev_key e = k"

definition event_is_char :: "InputEvent \<Rightarrow> char \<Rightarrow> bool" where
  "event_is_char e c \<longleftrightarrow> ev_key e = KChar \<and> ev_character e = c"

definition event_is_printable_char :: "InputEvent \<Rightarrow> bool" where
  "event_is_printable_char e \<longleftrightarrow> ev_key e = KChar \<and> 0x20 \<le> byte (ev_character e) \<and> byte (ev_character e) < 0x7F"

section \<open>The parser\<close>

text \<open>The final letter of a recognised three-byte sequence.\<close>

definition csi_key :: "char \<Rightarrow> Key option" where
  "csi_key a = (if a = CHR ''A'' then Some KArrowUp else if a = CHR ''B'' then Some KArrowDown
     else if a = CHR ''C'' then Some KArrowRight else if a = CHR ''D'' then Some KArrowLeft
     else if a = CHR ''H'' then Some KHome else if a = CHR ''F'' then Some KEnd else None)"

text \<open>Skipping an unrecognised sequence through its terminator.\<close>

fun csi_skip :: "string \<Rightarrow> string" where
  "csi_skip [] = []"
| "csi_skip (x # xs) = (if 0x40 \<le> byte x \<and> byte x \<le> 0x7E then xs else csi_skip xs)"

lemma csi_skip_length: "length (csi_skip s) \<le> length s"
  by (induction s) auto

function parse_input_bytes :: "string \<Rightarrow> InputEvent list" where
  "parse_input_bytes [] = []"
| "parse_input_bytes (c # r) =
     (if c = ESC then
        (case r of
           b # s \<Rightarrow>
             if b = CHR ''['' then
               (case s of
                  [] \<Rightarrow> parse_input_bytes (csi_skip s)
                | a # t \<Rightarrow>
                    (case csi_key a of
                       Some k \<Rightarrow> key_event k # parse_input_bytes t
                     | None \<Rightarrow>
                       if (a = CHR ''5'' \<or> a = CHR ''6'') \<and> t \<noteq> [] \<and> hd t = CHR ''~''
                       then key_event (if a = CHR ''5'' then KPageUp else KPageDown) # parse_input_bytes (tl t)
                       else parse_input_bytes (csi_skip s)))
             else key_event KEscape # parse_input_bytes r
         | [] \<Rightarrow> key_event KEscape # parse_input_bytes r)
      else if c = CR \<or> c = LF then key_event KEnter # parse_input_bytes r
      else if byte c = 0x7F \<or> byte c = 0x08 then key_event KBackspace # parse_input_bytes r
      else if c = TAB then key_event KTab # parse_input_bytes r
      else \<lparr>ev_key = KChar, ev_character = c\<rparr> # parse_input_bytes r)"
  by pat_completeness auto
termination
  by (relation "measure length") (auto simp: less_Suc_eq_le intro: le_trans [OF csi_skip_length])

section \<open>The bytes of a key\<close>

text \<open>What a terminal sends for each key the parser knows.\<close>

definition key_bytes :: "InputEvent \<Rightarrow> string" where
  "key_bytes e = (case ev_key e of
     KNone \<Rightarrow> [] | KChar \<Rightarrow> [ev_character e] | KEnter \<Rightarrow> [CR] | KBackspace \<Rightarrow> [CHR 0x7F] | KEscape \<Rightarrow> [ESC] | KTab \<Rightarrow> [TAB]
   | KArrowUp \<Rightarrow> ESC # ''[A'' | KArrowDown \<Rightarrow> ESC # ''[B'' | KArrowRight \<Rightarrow> ESC # ''[C'' | KArrowLeft \<Rightarrow> ESC # ''[D''
   | KPageUp \<Rightarrow> ESC # ''[5~'' | KPageDown \<Rightarrow> ESC # ''[6~'' | KHome \<Rightarrow> ESC # ''[H'' | KEnd \<Rightarrow> ESC # ''[F'')"

text \<open>An event some key produces: named keys carry no character, and a character is not one of the named keys.\<close>

definition event_ok :: "InputEvent \<Rightarrow> bool" where
  "event_ok e \<longleftrightarrow> ev_key e \<noteq> KNone \<and>
     (if ev_key e = KChar then ev_character e \<notin> {ESC, CR, LF, TAB} \<and> byte (ev_character e) \<notin> {0x7F, 0x08}
      else ev_character e = NUL)"

text \<open>The one ambiguity of the encoding: the escape key followed by an opening bracket.\<close>

fun unambiguous :: "InputEvent list \<Rightarrow> bool" where
  "unambiguous (e # f # es) \<longleftrightarrow> \<not> (event_is e KEscape \<and> event_is_char f (CHR ''['')) \<and> unambiguous (f # es)"
| "unambiguous _ \<longleftrightarrow> True"

lemma unambiguous_tl: "unambiguous (e # es) \<Longrightarrow> unambiguous es"
  by (cases es) auto

lemma csi_key_simps [simp]: "csi_key (CHR ''5'') = None" "csi_key (CHR ''6'') = None"
  by (simp_all add: csi_key_def)

lemma parse_named:
  "parse_input_bytes (ESC # CHR ''['' # CHR ''A'' # s) = key_event KArrowUp # parse_input_bytes s"
  "parse_input_bytes (ESC # CHR ''['' # CHR ''B'' # s) = key_event KArrowDown # parse_input_bytes s"
  "parse_input_bytes (ESC # CHR ''['' # CHR ''C'' # s) = key_event KArrowRight # parse_input_bytes s"
  "parse_input_bytes (ESC # CHR ''['' # CHR ''D'' # s) = key_event KArrowLeft # parse_input_bytes s"
  "parse_input_bytes (ESC # CHR ''['' # CHR ''H'' # s) = key_event KHome # parse_input_bytes s"
  "parse_input_bytes (ESC # CHR ''['' # CHR ''F'' # s) = key_event KEnd # parse_input_bytes s"
  "parse_input_bytes (ESC # CHR ''['' # CHR ''5'' # CHR ''~'' # s) = key_event KPageUp # parse_input_bytes s"
  "parse_input_bytes (ESC # CHR ''['' # CHR ''6'' # CHR ''~'' # s) = key_event KPageDown # parse_input_bytes s"
  "parse_input_bytes (CR # s) = key_event KEnter # parse_input_bytes s"
  "parse_input_bytes (CHR 0x7F # s) = key_event KBackspace # parse_input_bytes s"
  "parse_input_bytes (TAB # s) = key_event KTab # parse_input_bytes s"
  by (simp_all add: csi_key_def byte_def)

lemma parse_escape: "s = [] \<or> hd s \<noteq> CHR ''['' \<Longrightarrow> parse_input_bytes (ESC # s) = key_event KEscape # parse_input_bytes s"
  by (cases s) simp_all

declare parse_input_bytes.simps(2) [simp del]

lemma key_bytes_bracket:
  assumes "event_ok e" "event_is_char e (CHR ''['') = False"
  shows "key_bytes e \<noteq> [] \<and> hd (key_bytes e) \<noteq> CHR ''[''"
  using assms by (cases "ev_key e") (auto simp: event_ok_def event_is_char_def key_bytes_def)

lemma parse_key_bytes:
  assumes "event_ok e" "event_is e KEscape \<Longrightarrow> s = [] \<or> hd s \<noteq> CHR ''[''"
  shows "parse_input_bytes (key_bytes e @ s) = e # parse_input_bytes s"
proof -
  have e: "e = \<lparr>ev_key = ev_key e, ev_character = ev_character e\<rparr>" by simp
  show ?thesis
  proof (cases "ev_key e = KChar")
    case True
    with assms(1) show ?thesis
      by (subst (2) e) (auto simp: event_ok_def key_bytes_def parse_input_bytes.simps(2))
  next
    case False
    with assms(1) have "e = key_event (ev_key e)" by (auto simp: event_ok_def)
    moreover have "parse_input_bytes (key_bytes (key_event (ev_key e)) @ s) = key_event (ev_key e) # parse_input_bytes s"
      using assms False by (cases "ev_key e") (simp_all add: parse_named parse_escape event_ok_def event_is_def key_bytes_def)
    ultimately show ?thesis by metis
  qed
qed

lemma parse_key_sequence:
  assumes "\<forall>e \<in> set es. event_ok e" "unambiguous es"
  shows "parse_input_bytes (concat (map key_bytes es)) = es"
  using assms
proof (induction es)
  case (Cons e es)
  have "concat (map key_bytes es) = [] \<or> hd (concat (map key_bytes es)) \<noteq> CHR ''[''" if "event_is e KEscape"
  proof (cases es)
    case (Cons f fs)
    have "event_is_char f (CHR ''['') = False" using Cons.prems that Cons by simp
    then have "key_bytes f \<noteq> [] \<and> hd (key_bytes f) \<noteq> CHR ''[''" using Cons.prems Cons by (intro key_bytes_bracket) simp_all
    then show ?thesis by (simp add: Cons)
  qed simp
  moreover have "event_ok e" "parse_input_bytes (concat (map key_bytes es)) = es"
    using Cons unambiguous_tl [of e es] by simp_all
  ultimately show ?case using parse_key_bytes [of e "concat (map key_bytes es)"] by simp
qed simp

text \<open>Nothing comes from a sequence the parser does not know.\<close>

lemma csi_skip_params:
  assumes "\<forall>c \<in> set ps. \<not> (0x40 \<le> byte c \<and> byte c \<le> 0x7E)" "0x40 \<le> byte z" "byte z \<le> 0x7E"
  shows "csi_skip (ps @ z # s) = s"
  using assms by (induction ps) auto

lemma parse_unknown_csi:
  assumes "\<forall>c \<in> set ps. \<not> (0x40 \<le> byte c \<and> byte c \<le> 0x7E)" "0x40 \<le> byte z" "byte z \<le> 0x7E"
    and "ps = [] \<Longrightarrow> csi_key z = None" "ps @ [z] \<noteq> ''5~''" "ps @ [z] \<noteq> ''6~''"
  shows "parse_input_bytes (ESC # CHR ''['' # ps @ z # s) = parse_input_bytes s"
proof -
  have skip: "csi_skip (ps @ z # s) = s" using assms(1-3) by (rule csi_skip_params)
  show ?thesis
  proof (cases ps)
    case Nil
    have "z \<noteq> CHR ''5''" "z \<noteq> CHR ''6''" using assms(2) by (auto simp: byte_def)
    then show ?thesis using Nil assms(4) skip by (simp add: parse_input_bytes.simps(2))
  next
    case (Cons a qs)
    have "csi_key a = None" using assms(1) Cons by (auto simp: csi_key_def byte_def)
    moreover have "\<not> ((a = CHR ''5'' \<or> a = CHR ''6'') \<and> hd (qs @ z # s) = CHR ''~'')"
      using assms(1,5,6) Cons by (cases qs) (auto simp: byte_def)
    ultimately show ?thesis using skip by (auto simp: Cons parse_input_bytes.simps(2))
  qed
qed

section \<open>Properties\<close>



text \<open>A control sequence the parser does not know, whatever its parameters, produces no event and does not
  disturb what follows it.\<close>

theorem unknown_sequence_silent:
  assumes "\<forall>c \<in> set ps. \<not> (0x40 \<le> byte c \<and> byte c \<le> 0x7E)" and "0x40 \<le> byte z" and "byte z \<le> 0x7E"
    and "ps = [] \<Longrightarrow> csi_key z = None" and "ps @ [z] \<noteq> ''5~''" and "ps @ [z] \<noteq> ''6~''"
  shows "parse_input_bytes (ESC # CHR ''['' # ps @ z # s) = parse_input_bytes s"
  using assms by (rule parse_unknown_csi)

theorem unknown_sequence_silent_witness:
  "parse_input_bytes (ESC # ''[1;5Cx'') = [\<lparr>ev_key = KChar, ev_character = CHR ''x''\<rparr>]"
  using unknown_sequence_silent [of "''1;5''" "CHR ''C''" "''x''"] by (simp add: byte_def parse_input_bytes.simps(2))

end
