(* ===== verification/Canvas.thy ===== *)
theory Canvas
  imports Prelude
begin

unbundle bit_operations_syntax

text \<open>
  The cell grid the terminal interface draws on (\<open>include/ui/widget/Color.hpp\<close>, \<open>include/ui/widget/Canvas.hpp\<close>,
  \<open>src/ui/widget/Canvas.cpp\<close>). Coordinates are unbounded integers; \<open>wcwidth\<close> of the C library is a parameter.
\<close>

section \<open>Colours and styles\<close>

type_synonym Color = u32

abbreviation ColorDefault :: Color where "ColorDefault \<equiv> 0"

definition rgb_color :: "u8 \<Rightarrow> u8 \<Rightarrow> u8 \<Rightarrow> Color" where
  "rgb_color r g b = push_bit 24 1 OR push_bit 16 (ucast r) OR push_bit 8 (ucast g) OR ucast b"

definition is_truecolor :: "Color \<Rightarrow> bool" where
  "is_truecolor c \<longleftrightarrow> c AND push_bit 24 1 \<noteq> 0"

definition color_r :: "Color \<Rightarrow> u8" where
  "color_r c = ucast (drop_bit 16 c AND 0xFF)"

definition color_g :: "Color \<Rightarrow> u8" where
  "color_g c = ucast (drop_bit 8 c AND 0xFF)"

definition color_b :: "Color \<Rightarrow> u8" where
  "color_b c = ucast (c AND 0xFF)"

type_synonym Attribute = u8

abbreviation AttrNone :: Attribute where "AttrNone \<equiv> 0"
abbreviation Bold :: Attribute where "Bold \<equiv> 1"
abbreviation Dim :: Attribute where "Dim \<equiv> 2"
abbreviation Underline :: Attribute where "Underline \<equiv> 4"
abbreviation Blink :: Attribute where "Blink \<equiv> 8"
abbreviation Reverse :: Attribute where "Reverse \<equiv> 16"
abbreviation Hidden :: Attribute where "Hidden \<equiv> 32"

definition has_attribute :: "Attribute \<Rightarrow> Attribute \<Rightarrow> bool" where
  "has_attribute s check \<longleftrightarrow> s AND check \<noteq> 0"

record Style =
  st_fg :: Color
  st_bg :: Color
  st_attr :: Attribute

definition plain_style :: Style where
  "plain_style = \<lparr>st_fg = ColorDefault, st_bg = ColorDefault, st_attr = AttrNone\<rparr>"

section \<open>Select-graphic-rendition sequences\<close>

text \<open>\<open>parse_int\<close>: the value of the digits at the cursor, zero for none, and the text after them.\<close>

definition parse_int :: "string \<Rightarrow> int \<times> string" where
  "parse_int s = (int (undec (takeWhile is_digit s)), dropWhile is_digit s)"

text \<open>The part of an extended colour after its introducer: \<open>;2;R;G;B\<close>.\<close>

definition eat_semicolon :: "string \<Rightarrow> string option" where
  "eat_semicolon s = (if s \<noteq> [] \<and> hd s = CHR '';'' then Some (tl s) else None)"

definition sgr_rgb :: "string \<Rightarrow> Color option \<times> string" where
  "sgr_rgb s = (case eat_semicolon s of None \<Rightarrow> (None, s)
   | Some s \<Rightarrow> (case parse_int s of (mode, s) \<Rightarrow>
      if mode \<noteq> 2 then (None, s)
      else (case eat_semicolon s of None \<Rightarrow> (None, s)
      | Some s \<Rightarrow> (case parse_int s of (r, s) \<Rightarrow>
        (case eat_semicolon s of None \<Rightarrow> (None, s)
        | Some s \<Rightarrow> (case parse_int s of (g, s) \<Rightarrow>
          (case eat_semicolon s of None \<Rightarrow> (None, s)
          | Some s \<Rightarrow> (case parse_int s of (b, s) \<Rightarrow>
              (Some (rgb_color (word_of_int r) (word_of_int g) (word_of_int b)), s)))))))))"

definition sgr_apply :: "int \<Rightarrow> string \<Rightarrow> Style \<Rightarrow> Style \<times> string" where
  "sgr_apply code s st =
     (if code = 0 then (plain_style, s)
      else if code = 1 then (st\<lparr>st_attr := st_attr st OR Bold\<rparr>, s)
      else if code = 2 then (st\<lparr>st_attr := st_attr st OR Dim\<rparr>, s)
      else if code = 4 then (st\<lparr>st_attr := st_attr st OR Underline\<rparr>, s)
      else if 30 \<le> code \<and> code \<le> 37 then (st\<lparr>st_fg := word_of_int (code - 29)\<rparr>, s)
      else if code = 39 then (st\<lparr>st_fg := ColorDefault\<rparr>, s)
      else if 90 \<le> code \<and> code \<le> 97 then (st\<lparr>st_fg := word_of_int (code - 81)\<rparr>, s)
      else if code = 38 then (case sgr_rgb s of (Some c, s) \<Rightarrow> (st\<lparr>st_fg := c\<rparr>, s) | (None, s) \<Rightarrow> (st, s))
      else if code = 48 then (case sgr_rgb s of (Some c, s) \<Rightarrow> (st\<lparr>st_bg := c\<rparr>, s) | (None, s) \<Rightarrow> (st, s))
      else (st, s))"

lemma parse_int_length: "parse_int s = (v, r) \<Longrightarrow> length r \<le> length s"
  by (auto simp: parse_int_def length_dropWhile_le)

lemma eat_semicolon_length: "eat_semicolon s = Some r \<Longrightarrow> length s = Suc (length r)"
  by (auto simp: eat_semicolon_def split: if_splits)

lemma sgr_rgb_length: "sgr_rgb s = (c, r) \<Longrightarrow> length r \<le> length s"
  by (auto simp: sgr_rgb_def split: option.splits prod.splits if_splits dest!: parse_int_length eat_semicolon_length)

lemma sgr_apply_length: "sgr_apply code s st = (st', r) \<Longrightarrow> length r \<le> length s"
  by (auto simp: sgr_apply_def split: if_splits prod.splits option.splits dest!: sgr_rgb_length)

lemma sgr_step_length:
  "(code, s1) = parse_int s \<Longrightarrow> (st', s2) = sgr_apply code s1 st \<Longrightarrow> eat_semicolon s2 = Some s3 \<Longrightarrow> length s3 < length s"
  using parse_int_length [of s code s1] sgr_apply_length [of code s1 st st' s2] eat_semicolon_length [of s2 s3] by simp

text \<open>The loop over the parameters, as \<open>draw_text\<close> and \<open>parse_sgr_style\<close> have it.\<close>

function draw_sgr_loop :: "string \<Rightarrow> Style \<Rightarrow> Style \<times> string" where
  "draw_sgr_loop s st =
     (case parse_int s of (code, s1) \<Rightarrow>
      (case sgr_apply code s1 st of (st', s2) \<Rightarrow>
       (case eat_semicolon s2 of Some s3 \<Rightarrow> draw_sgr_loop s3 st' | None \<Rightarrow> (st', s2))))"
  by pat_completeness auto
termination
proof (relation "measure (length \<circ> fst)", goal_cases)
  case 2
  then show ?case by (metis sgr_step_length comp_apply fst_conv in_measure)
qed simp

function style_sgr_loop :: "string \<Rightarrow> Style \<Rightarrow> Style" where
  "style_sgr_loop s st =
     (if s = [] \<or> hd s = CHR ''m'' then st
      else (case parse_int s of (code, s1) \<Rightarrow>
        (case sgr_apply code s1 st of (st', s2) \<Rightarrow>
          (case eat_semicolon s2 of Some s3 \<Rightarrow> style_sgr_loop s3 st' | None \<Rightarrow> st'))))"
  by pat_completeness auto
termination
proof (relation "measure (length \<circ> fst)", goal_cases)
  case 2
  then show ?case by (metis sgr_step_length comp_apply fst_conv in_measure)
qed simp

declare draw_sgr_loop.simps [simp del] style_sgr_loop.simps [simp del]

definition parse_sgr_style :: "string \<Rightarrow> Style" where
  "parse_sgr_style sgr =
     (if length sgr < 3 \<or> sgr ! 0 \<noteq> ESC \<or> sgr ! 1 \<noteq> CHR ''['' then plain_style
      else style_sgr_loop (drop 2 sgr) plain_style)"

section \<open>The grid\<close>

record Cell =
  cl_content :: string
  cl_style :: Style

definition blank_cell :: Cell where
  "blank_cell = \<lparr>cl_content = '' '', cl_style = plain_style\<rparr>"

record LayoutRect =
  lr_x :: int
  lr_y :: int
  lr_width :: int
  lr_height :: int

record Canvas =
  cv_width :: int
  cv_height :: int
  cv_buffer :: "Cell list"
  cv_image_mask :: "u8 list"
  cv_graphics :: "(LayoutRect \<times> string) list"

definition Canvas_new :: "int \<Rightarrow> int \<Rightarrow> Canvas" where
  "Canvas_new w h = \<lparr>cv_width = w, cv_height = h, cv_buffer = replicate (nat w * nat h) blank_cell,
     cv_image_mask = replicate (nat w * nat h) 0, cv_graphics = []\<rparr>"

definition is_in_bounds :: "Canvas \<Rightarrow> int \<Rightarrow> int \<Rightarrow> bool" where
  "is_in_bounds c x y \<longleftrightarrow> 0 \<le> x \<and> 0 \<le> y \<and> x < cv_width c \<and> y < cv_height c"

definition cell_index :: "Canvas \<Rightarrow> int \<Rightarrow> int \<Rightarrow> nat" where
  "cell_index c x y = nat y * nat (cv_width c) + nat x"

definition is_image_occupied :: "Canvas \<Rightarrow> int \<Rightarrow> int \<Rightarrow> bool" where
  "is_image_occupied c x y \<longleftrightarrow> is_in_bounds c x y \<and> cv_image_mask c ! cell_index c x y \<noteq> 0"

definition canvas_at :: "Canvas \<Rightarrow> int \<Rightarrow> int \<Rightarrow> Cell" where
  "canvas_at c x y = (if is_in_bounds c x y then cv_buffer c ! cell_index c x y else blank_cell)"

definition canvas_clear :: "Cell \<Rightarrow> Canvas \<Rightarrow> Canvas" where
  "canvas_clear fill_cell c = c\<lparr>cv_buffer := replicate (length (cv_buffer c)) fill_cell,
     cv_image_mask := replicate (length (cv_image_mask c)) 0, cv_graphics := []\<rparr>"

definition canvas_put :: "int \<Rightarrow> int \<Rightarrow> string \<Rightarrow> Style \<Rightarrow> Canvas \<Rightarrow> Canvas" where
  "canvas_put x y grapheme style c =
     (if is_in_bounds c x y \<and> \<not> is_image_occupied c x y
      then c\<lparr>cv_buffer := (cv_buffer c)[cell_index c x y := \<lparr>cl_content = grapheme, cl_style = style\<rparr>]\<rparr> else c)"

definition canvas_resize :: "int \<Rightarrow> int \<Rightarrow> Canvas \<Rightarrow> Canvas" where
  "canvas_resize w h c =
     (if cv_width c = w \<and> cv_height c = h then c
      else c\<lparr>cv_width := w, cv_height := h, cv_buffer := replicate (nat w * nat h) blank_cell,
        cv_image_mask := replicate (nat w * nat h) 0, cv_graphics := []\<rparr>)"

text \<open>The rows of a rectangle from top to bottom, each from left to right.\<close>

definition rect_cells :: "int \<Rightarrow> int \<Rightarrow> int \<Rightarrow> int \<Rightarrow> (int \<times> int) list" where
  "rect_cells x y w h = concat (map (\<lambda>cy. map (\<lambda>cx. (cx, cy)) [x..x + w - 1]) [y..y + h - 1])"

definition paint_image :: "LayoutRect \<Rightarrow> string \<Rightarrow> Canvas \<Rightarrow> Canvas" where
  "paint_image r escape_bytes c =
     (if escape_bytes = [] then c
      else fold (\<lambda>(x, y) c. if \<not> is_in_bounds c x y then c
               else c\<lparr>cv_image_mask := (cv_image_mask c)[cell_index c x y := 1]\<rparr>)
             (rect_cells (lr_x r) (lr_y r) (lr_width r) (lr_height r))
             (c\<lparr>cv_graphics := cv_graphics c @ [(r, escape_bytes)]\<rparr>))"

definition push_graphics_command :: "string \<Rightarrow> Canvas \<Rightarrow> Canvas" where
  "push_graphics_command escape_bytes c =
     (if escape_bytes = [] then c
      else c\<lparr>cv_graphics := cv_graphics c @ [(\<lparr>lr_x = 0, lr_y = 0, lr_width = 0, lr_height = 0\<rparr>, escape_bytes)]\<rparr>)"

definition fill_rect :: "int \<Rightarrow> int \<Rightarrow> int \<Rightarrow> int \<Rightarrow> Cell \<Rightarrow> Canvas \<Rightarrow> Canvas" where
  "fill_rect x y w h cell c =
     fold (\<lambda>(cx, cy) c. if is_in_bounds c cx cy then c\<lparr>cv_buffer := (cv_buffer c)[cell_index c cx cy := cell]\<rparr> else c)
       (rect_cells x y w h) c"

definition canvas_blit_rect :: "Canvas \<Rightarrow> int \<Rightarrow> int \<Rightarrow> int \<Rightarrow> int \<Rightarrow> int \<Rightarrow> int \<Rightarrow> Canvas \<Rightarrow> Canvas" where
  "canvas_blit_rect source dest_x dest_y src_x src_y w h c =
     fold (\<lambda>(dx, dy) c.
         let sx = src_x + dx; sy = src_y + dy; tx = dest_x + dx; ty = dest_y + dy
         in if is_in_bounds c tx ty \<and> 0 \<le> sx \<and> sx < cv_width source \<and> 0 \<le> sy \<and> sy < cv_height source
            then c\<lparr>cv_buffer := (cv_buffer c)[cell_index c tx ty := canvas_at source sx sy]\<rparr> else c)
       (rect_cells 0 0 w h) c"

definition canvas_blit :: "Canvas \<Rightarrow> int \<Rightarrow> int \<Rightarrow> Canvas \<Rightarrow> Canvas" where
  "canvas_blit source dest_x dest_y = canvas_blit_rect source dest_x dest_y 0 0 (cv_width source) (cv_height source)"

abbreviation box_corner_tl :: string where "box_corner_tl \<equiv> [CHR 0xE2, CHR 0x94, CHR 0x8C]"
abbreviation box_corner_tr :: string where "box_corner_tr \<equiv> [CHR 0xE2, CHR 0x94, CHR 0x90]"
abbreviation box_corner_bl :: string where "box_corner_bl \<equiv> [CHR 0xE2, CHR 0x94, CHR 0x94]"
abbreviation box_corner_br :: string where "box_corner_br \<equiv> [CHR 0xE2, CHR 0x94, CHR 0x98]"
abbreviation box_horizontal :: string where "box_horizontal \<equiv> [CHR 0xE2, CHR 0x94, CHR 0x80]"
abbreviation box_vertical :: string where "box_vertical \<equiv> [CHR 0xE2, CHR 0x94, CHR 0x82]"

definition draw_rect :: "int \<Rightarrow> int \<Rightarrow> int \<Rightarrow> int \<Rightarrow> Style \<Rightarrow> Canvas \<Rightarrow> Canvas" where
  "draw_rect x y w h style c =
     (if w \<le> 0 \<or> h \<le> 0 then c
      else let c = canvas_put x y box_corner_tl style c;
               c = canvas_put (x + w - 1) y box_corner_tr style c;
               c = canvas_put x (y + h - 1) box_corner_bl style c;
               c = canvas_put (x + w - 1) (y + h - 1) box_corner_br style c;
               c = fold (\<lambda>i c. canvas_put (x + i) (y + h - 1) box_horizontal style (canvas_put (x + i) y box_horizontal style c)) [1..w - 2] c
      in fold (\<lambda>i c. canvas_put (x + w - 1) (y + i) box_vertical style (canvas_put x (y + i) box_vertical style c)) [1..h - 2] c)"

section \<open>Text\<close>

definition utf8_char_len :: "char \<Rightarrow> nat" where
  "utf8_char_len c = (let uc = word_of_nat (byte c) :: u8
     in if uc AND 0x80 = 0 then 1 else if uc AND 0xE0 = 0xC0 then 2 else if uc AND 0xF0 = 0xE0 then 3
        else if uc AND 0xF8 = 0xF0 then 4 else 1)"

text \<open>The code point and the bytes consumed, zero on error.\<close>

definition utf8_to_wchar :: "string \<Rightarrow> u32 \<times> nat" where
  "utf8_to_wchar s =
     (if s = [] then (0, 0)
      else let b = (\<lambda>i. word_of_nat (byte (s ! i)) :: u32); c = b 0
      in if c AND 0x80 = 0 then (c, 1)
         else if c AND 0xE0 = 0xC0 \<and> 2 \<le> length s then (push_bit 6 (c AND 0x1F) OR (b 1 AND 0x3F), 2)
         else if c AND 0xF0 = 0xE0 \<and> 3 \<le> length s
           then (push_bit 12 (c AND 0x0F) OR push_bit 6 (b 1 AND 0x3F) OR (b 2 AND 0x3F), 3)
         else if c AND 0xF8 = 0xF0 \<and> 4 \<le> length s
           then (push_bit 18 (c AND 0x07) OR push_bit 12 (b 1 AND 0x3F) OR push_bit 6 (b 2 AND 0x3F) OR (b 3 AND 0x3F), 4)
         else (0, 0))"

definition char_width :: "(u32 \<Rightarrow> int) \<Rightarrow> string \<Rightarrow> int" where
  "char_width wcwidth grapheme =
     (case utf8_to_wchar grapheme of (wc, n) \<Rightarrow> if 0 < n \<and> 0 < wcwidth wc then wcwidth wc else 1)"

definition put_grapheme :: "int \<Rightarrow> int \<Rightarrow> string \<Rightarrow> int \<Rightarrow> Style \<Rightarrow> Canvas \<Rightarrow> Canvas" where
  "put_grapheme x y grapheme cw style c =
     (if 0 \<le> x \<and> x < cv_width c
      then let c' = canvas_put x y grapheme style c
           in if cw = 2 \<and> x + 1 < cv_width c then canvas_put (x + 1) y [] style c' else c'
      else c)"

lemma utf8_char_len_pos [simp]: "0 < utf8_char_len c"
  by (simp add: utf8_char_len_def Let_def)

text \<open>After the parameters the text is skipped through the terminating \<open>m\<close>.\<close>

definition skip_sgr :: "string \<Rightarrow> string" where
  "skip_sgr s = (let r = dropWhile (\<lambda>c. c \<noteq> CHR ''m'') s in tl r)"

lemma draw_sgr_loop_length: "length (snd (draw_sgr_loop s st)) \<le> length s"
proof (induction s st rule: draw_sgr_loop.induct)
  case (1 s st)
  obtain code s1 where p: "parse_int s = (code, s1)" by (rule prod.exhaust)
  obtain st' s2 where a: "sgr_apply code s1 st = (st', s2)" by (rule prod.exhaust)
  have le: "length s2 \<le> length s" using parse_int_length [OF p] sgr_apply_length [OF a] by simp
  show ?case
  proof (cases "eat_semicolon s2")
    case None
    then show ?thesis using le by (subst draw_sgr_loop.simps) (simp add: p a)
  next
    case (Some s3)
    have "length (snd (draw_sgr_loop s3 st')) \<le> length s3" using "1" p a Some by metis
    then show ?thesis using le eat_semicolon_length [OF Some] by (subst draw_sgr_loop.simps) (simp add: p a Some)
  qed
qed

lemma skip_sgr_length: "length (skip_sgr s) \<le> length s"
  using length_dropWhile_le [of "\<lambda>c. c \<noteq> CHR ''m''" s] by (simp add: skip_sgr_def Let_def)

lemma draw_sgr_step_length: "(st', r) = draw_sgr_loop (drop 2 s) st \<Longrightarrow> 2 \<le> length s \<Longrightarrow> length (skip_sgr r) < length s"
  using draw_sgr_loop_length [of "drop 2 s" st] skip_sgr_length [of r] by (auto dest: sym)

function draw_text_loop :: "(u32 \<Rightarrow> int) \<Rightarrow> string \<Rightarrow> int \<Rightarrow> int \<Rightarrow> Style \<Rightarrow> Canvas \<Rightarrow> int \<times> Canvas" where
  "draw_text_loop wcwidth text x y style c =
     (if text = [] \<or> cv_width c \<le> x then (x, c)
      else if 2 \<le> length text \<and> hd text = ESC \<and> text ! 1 = CHR ''[''
      then (case draw_sgr_loop (drop 2 text) style of (style', rest) \<Rightarrow> draw_text_loop wcwidth (skip_sgr rest) x y style' c)
      else let len = utf8_char_len (hd text)
      in if length text < len then (x, c)
         else let grapheme = take len text; cw = char_width wcwidth grapheme
         in draw_text_loop wcwidth (drop len text) (x + cw) y style (put_grapheme x y grapheme cw style c))"
  by pat_completeness auto
termination
proof (relation "measure (\<lambda>(_, text, _). length text)", goal_cases)
  case 2
  then show ?case by (auto dest: draw_sgr_step_length)
next
  case 3
  then show ?case by simp
qed simp

declare draw_text_loop.simps [simp del]

definition draw_text :: "(u32 \<Rightarrow> int) \<Rightarrow> int \<Rightarrow> int \<Rightarrow> string \<Rightarrow> Style \<Rightarrow> Canvas \<Rightarrow> int \<times> Canvas" where
  "draw_text wcwidth x y text initial_style c =
     (if y < 0 \<or> cv_height c \<le> y then (x, c) else draw_text_loop wcwidth text x y initial_style c)"

section \<open>Well-formed canvases\<close>

definition canvas_ok :: "Canvas \<Rightarrow> bool" where
  "canvas_ok c \<longleftrightarrow> 0 \<le> cv_width c \<and> 0 \<le> cv_height c \<and> length (cv_buffer c) = nat (cv_width c) * nat (cv_height c) \<and>
     length (cv_image_mask c) = nat (cv_width c) * nat (cv_height c)"

lemma cell_index_less: "is_in_bounds c x y \<Longrightarrow> cell_index c x y < nat (cv_width c) * nat (cv_height c)"
proof -
  assume b: "is_in_bounds c x y"
  then have xy: "nat x < nat (cv_width c)" "nat y < nat (cv_height c)" by (auto simp: is_in_bounds_def)
  then have "nat y * nat (cv_width c) + nat x < (nat y + 1) * nat (cv_width c)" by simp
  also have "\<dots> \<le> nat (cv_height c) * nat (cv_width c)" using xy(2) by (intro mult_le_mono1) linarith
  finally show ?thesis by (simp add: cell_index_def mult.commute)
qed

lemma cell_index_inject:
  assumes "is_in_bounds c x y" "is_in_bounds c u v"
  shows "cell_index c x y = cell_index c u v \<longleftrightarrow> x = u \<and> y = v"
proof
  assume e: "cell_index c x y = cell_index c u v"
  have n: "nat x < nat (cv_width c)" "nat u < nat (cv_width c)" using assms by (auto simp: is_in_bounds_def)
  have "nat y = cell_index c x y div nat (cv_width c)" "nat x = cell_index c x y mod nat (cv_width c)"
    "nat v = cell_index c u v div nat (cv_width c)" "nat u = cell_index c u v mod nat (cv_width c)"
    using n by (simp_all add: cell_index_def)
  then have "nat x = nat u" "nat y = nat v" using e by simp_all
  then show "x = u \<and> y = v" using assms by (auto simp: is_in_bounds_def)
qed simp

lemma in_bounds_cong: "cv_width c = cv_width c' \<Longrightarrow> cv_height c = cv_height c' \<Longrightarrow> is_in_bounds c x y = is_in_bounds c' x y"
  by (simp add: is_in_bounds_def)

lemma cell_index_cong: "cv_width c = cv_width c' \<Longrightarrow> cell_index c x y = cell_index c' x y"
  by (simp add: cell_index_def)

lemma canvas_put_simps [simp]:
  "cv_width (canvas_put x y g st c) = cv_width c" "cv_height (canvas_put x y g st c) = cv_height c"
  "cv_image_mask (canvas_put x y g st c) = cv_image_mask c" "cv_graphics (canvas_put x y g st c) = cv_graphics c"
  "length (cv_buffer (canvas_put x y g st c)) = length (cv_buffer c)"
  by (simp_all add: canvas_put_def)

lemma canvas_at_put:
  assumes "canvas_ok c"
  shows "canvas_at (canvas_put x y g st c) u v =
    (if u = x \<and> v = y \<and> is_in_bounds c x y \<and> \<not> is_image_occupied c x y then \<lparr>cl_content = g, cl_style = st\<rparr> else canvas_at c u v)"
proof (cases "is_in_bounds c x y \<and> \<not> is_image_occupied c x y")
  case True
  then have len: "cell_index c x y < length (cv_buffer c)" using cell_index_less [of c x y] assms by (simp add: canvas_ok_def)
  let ?c = "canvas_put x y g st c"
  have b: "is_in_bounds ?c u v = is_in_bounds c u v" "cell_index ?c u v = cell_index c u v"
    by (simp_all cong: in_bounds_cong cell_index_cong add: is_in_bounds_def cell_index_def)
  show ?thesis
  proof (cases "is_in_bounds c u v")
    case uv: True
    have "cv_buffer ?c = (cv_buffer c)[cell_index c x y := \<lparr>cl_content = g, cl_style = st\<rparr>]" using True by (simp add: canvas_put_def)
    then show ?thesis using True uv len cell_index_inject [OF _ uv, of x y] by (auto simp: canvas_at_def b nth_list_update)
  next
    case False
    then show ?thesis using True by (auto simp: canvas_at_def b)
  qed
qed (auto simp: canvas_put_def)

section \<open>Drawing\<close>

text \<open>
  What a drawing operation may do: nothing but change cells of the grid that no image covers.
\<close>

definition draws :: "Canvas \<Rightarrow> Canvas \<Rightarrow> bool" where
  "draws c c' \<longleftrightarrow> cv_width c' = cv_width c \<and> cv_height c' = cv_height c \<and> cv_image_mask c' = cv_image_mask c \<and>
     cv_graphics c' = cv_graphics c \<and> length (cv_buffer c') = length (cv_buffer c) \<and>
     (\<forall>x y. is_image_occupied c x y \<longrightarrow> canvas_at c' x y = canvas_at c x y)"

lemma draws_ok: "canvas_ok c \<Longrightarrow> draws c c' \<Longrightarrow> canvas_ok c'"
  by (simp add: canvas_ok_def draws_def)

lemma draws_refl [simp]: "draws c c"
  by (simp add: draws_def)

lemma draws_occupied: "draws c c' \<Longrightarrow> is_image_occupied c' x y = is_image_occupied c x y"
  by (simp add: draws_def is_image_occupied_def is_in_bounds_def cell_index_def)

lemma draws_trans: "draws c d \<Longrightarrow> draws d e \<Longrightarrow> draws c e"
  using draws_occupied [of c d] by (auto simp: draws_def)

lemma draws_put: "canvas_ok c \<Longrightarrow> draws c (canvas_put x y g st c)"
  by (auto simp: draws_def canvas_at_put)

lemma draws_fold:
  assumes "\<And>x c. canvas_ok c \<Longrightarrow> draws c (f x c)" "canvas_ok c"
  shows "draws c (fold f xs c)"
  using assms(2) by (induction xs arbitrary: c) (auto intro: draws_trans assms(1) draws_ok)

lemma draws_put_put: "canvas_ok c \<Longrightarrow> draws c (canvas_put x y g st (canvas_put u v h st' c))"
  by (meson draws_ok draws_put draws_trans)

lemma draws_draw_rect: "canvas_ok c \<Longrightarrow> draws c (draw_rect x y w h st c)"
proof -
  assume ok: "canvas_ok c"
  define d where "d = canvas_put (x + w - 1) (y + h - 1) box_corner_br st (canvas_put x (y + h - 1) box_corner_bl st
    (canvas_put (x + w - 1) y box_corner_tr st (canvas_put x y box_corner_tl st c)))"
  have d: "draws c d" unfolding d_def by (meson ok draws_ok draws_put_put draws_trans)
  let ?h = "\<lambda>i c. canvas_put (x + i) (y + h - 1) box_horizontal st (canvas_put (x + i) y box_horizontal st c)"
  let ?v = "\<lambda>i c. canvas_put (x + w - 1) (y + i) box_vertical st (canvas_put x (y + i) box_vertical st c)"
  have e: "draws d (fold ?h [1..w - 2] d)" by (rule draws_fold) (simp_all add: draws_put_put draws_ok [OF ok d])
  have f: "draws (fold ?h [1..w - 2] d) (fold ?v [1..h - 2] (fold ?h [1..w - 2] d))"
    by (rule draws_fold) (simp_all add: draws_put_put draws_ok [OF draws_ok [OF ok d] e])
  from d e f have "draws c (fold ?v [1..h - 2] (fold ?h [1..w - 2] d))" by (blast intro: draws_trans)
  then show ?thesis unfolding draw_rect_def Let_def d_def by simp
qed

lemma draws_put_grapheme: "canvas_ok c \<Longrightarrow> draws c (put_grapheme x y g cw st c)"
  by (auto simp: put_grapheme_def Let_def draws_put draws_put_put)

lemma draws_draw_text_loop: "canvas_ok c \<Longrightarrow> draws c (snd (draw_text_loop wcwidth t x y st c))"
proof (induction wcwidth t x y st c rule: draw_text_loop.induct)
  case (1 wcwidth t x y st c)
  show ?case
  proof (cases "t = [] \<or> cv_width c \<le> x")
    case True
    then show ?thesis by (subst draw_text_loop.simps) simp
  next
    case a: False
    show ?thesis
    proof (cases "2 \<le> length t \<and> hd t = ESC \<and> t ! 1 = CHR ''[''")
      case True
      obtain st' r where r: "draw_sgr_loop (drop 2 t) st = (st', r)" by (rule prod.exhaust)
      show ?thesis using "1.IH"(1) [OF a True r [symmetric] "1.prems"] a True
        by (subst draw_text_loop.simps) (simp add: r)
    next
      case b: False
      define len where "len = utf8_char_len (hd t)"
      show ?thesis
      proof (cases "length t < len")
        case True
        have "draw_text_loop wcwidth t x y st c = (x, c)" using a b True
          by (subst draw_text_loop.simps) (simp only: Let_def len_def if_False if_True not_False_eq_True simp_thms)
        then show ?thesis by simp
      next
        case False
        let ?cw = "char_width wcwidth (take len t)"
        let ?c = "put_grapheme x y (take len t) ?cw st c"
        have "canvas_ok ?c" using "1.prems" draws_put_grapheme draws_ok by blast
        from "1.IH"(2) [OF a b len_def False refl refl this]
        have "draws ?c (snd (draw_text_loop wcwidth (drop len t) (x + ?cw) y st ?c))" .
        moreover have "draw_text_loop wcwidth t x y st c = draw_text_loop wcwidth (drop len t) (x + ?cw) y st ?c"
          using a b False by (subst draw_text_loop.simps) (simp only: Let_def len_def [symmetric] if_False if_True simp_thms)
        ultimately show ?thesis using draws_put_grapheme [OF "1.prems"] by (metis draws_trans)
      qed
    qed
  qed
qed

lemma draws_draw_text: "canvas_ok c \<Longrightarrow> draws c (snd (draw_text wcwidth x y t st c))"
  by (simp add: draw_text_def draws_draw_text_loop)

section \<open>Every operation keeps the grid well formed\<close>

datatype canvas_op = OpClear Cell | OpPut int int string Style | OpText int int string Style | OpRect int int int int Style
  | OpFill int int int int Cell | OpBlit Canvas int int int int int int | OpResize int int | OpImage LayoutRect string | OpGraphics string

definition canvas_exec :: "(u32 \<Rightarrow> int) \<Rightarrow> canvas_op \<Rightarrow> Canvas \<Rightarrow> Canvas" where
  "canvas_exec wcwidth op c = (case op of
     OpClear cell \<Rightarrow> canvas_clear cell c | OpPut x y g st \<Rightarrow> canvas_put x y g st c
   | OpText x y t st \<Rightarrow> snd (draw_text wcwidth x y t st c) | OpRect x y w h st \<Rightarrow> draw_rect x y w h st c
   | OpFill x y w h cell \<Rightarrow> fill_rect x y w h cell c | OpBlit src dx dy sx sy w h \<Rightarrow> canvas_blit_rect src dx dy sx sy w h c
   | OpResize w h \<Rightarrow> canvas_resize w h c | OpImage r e \<Rightarrow> paint_image r e c | OpGraphics e \<Rightarrow> push_graphics_command e c)"

fun op_ok :: "canvas_op \<Rightarrow> bool" where
  "op_ok (OpResize w h) \<longleftrightarrow> 0 \<le> w \<and> 0 \<le> h"
| "op_ok _ \<longleftrightarrow> True"

lemma canvas_ok_new: "0 \<le> w \<Longrightarrow> 0 \<le> h \<Longrightarrow> canvas_ok (Canvas_new w h)"
  by (simp add: canvas_ok_def Canvas_new_def)

lemma canvas_ok_exec:
  assumes "canvas_ok c" "op_ok op"
  shows "canvas_ok (canvas_exec wcwidth op c)"
proof (cases op)
  case (OpFill x y w h cell)
  have "canvas_ok (fill_rect x y w h cell c)"
    unfolding fill_rect_def using assms(1) by (rule fold_invariant) (auto simp: canvas_ok_def split: prod.split)
  then show ?thesis by (simp add: OpFill canvas_exec_def)
next
  case (OpBlit src dx dy sx sy w h)
  have "canvas_ok (canvas_blit_rect src dx dy sx sy w h c)"
    unfolding canvas_blit_rect_def using assms(1) by (rule fold_invariant) (auto simp: canvas_ok_def Let_def split: prod.split)
  then show ?thesis by (simp add: OpBlit canvas_exec_def)
next
  case (OpImage r e)
  have "canvas_ok (c\<lparr>cv_graphics := cv_graphics c @ [(r, e)]\<rparr>)" using assms(1) by (simp add: canvas_ok_def)
  then have "canvas_ok (fold (\<lambda>(x, y) c. if \<not> is_in_bounds c x y then c
      else c\<lparr>cv_image_mask := (cv_image_mask c)[cell_index c x y := 1]\<rparr>)
    (rect_cells (lr_x r) (lr_y r) (lr_width r) (lr_height r)) (c\<lparr>cv_graphics := cv_graphics c @ [(r, e)]\<rparr>))"
    by (rule fold_invariant) (auto simp: canvas_ok_def split: prod.split)
  then have "canvas_ok (paint_image r e c)" using assms(1) by (simp add: paint_image_def)
  then show ?thesis by (simp add: OpImage canvas_exec_def)
next
  case (OpText x y t st)
  then show ?thesis using draws_ok [OF assms(1) draws_draw_text [OF assms(1)]] by (simp add: canvas_exec_def)
next
  case (OpRect x y w h st)
  then show ?thesis using draws_ok [OF assms(1) draws_draw_rect [OF assms(1)]] by (simp add: canvas_exec_def)
qed (use assms in \<open>auto simp: canvas_exec_def canvas_ok_def canvas_clear_def canvas_resize_def push_graphics_command_def\<close>)

section \<open>Plain text\<close>

definition plain_char :: "char \<Rightarrow> bool" where
  "plain_char ch \<longleftrightarrow> 0x20 \<le> byte ch \<and> byte ch < 0x7F"

lemma plain_char_len: "plain_char ch \<Longrightarrow> utf8_char_len ch = 1"
proof -
  assume "plain_char ch"
  then have "byte ch < 128" by (simp add: plain_char_def)
  then have "\<not> bit (word_of_nat (byte ch) :: u8) 7" by (simp add: bit_simps bit_iff_odd [of "byte ch"])
  then have "word_of_nat (byte ch) AND (2 ^ 7 :: u8) = 0" by (rule iffD2 [OF and_exp_eq_0_iff_not_bit])
  then show ?thesis by (simp add: utf8_char_len_def)
qed

lemma char_width_one: "(\<And>wc. wcwidth wc = 1) \<Longrightarrow> char_width wcwidth g = 1"
  by (simp add: char_width_def split: prod.split)

lemma draw_text_loop_plain:
  assumes "plain_char ch" "x < cv_width c"
  shows "draw_text_loop wcwidth (ch # t) x y st c =
    draw_text_loop wcwidth t (x + char_width wcwidth [ch]) y st (put_grapheme x y [ch] (char_width wcwidth [ch]) st c)"
proof -
  have "ch \<noteq> ESC" using assms(1) by (auto simp: plain_char_def byte_def)
  then show ?thesis using assms(2)
    by (subst draw_text_loop.simps) (simp add: plain_char_len [OF assms(1)] Let_def)
qed

text \<open>\<open>wcwidth\<close> gives one column to every printable ASCII character.\<close>

definition ascii_width :: "(u32 \<Rightarrow> int) \<Rightarrow> bool" where
  "ascii_width wcwidth \<longleftrightarrow> (\<forall>ch. plain_char ch \<longrightarrow> char_width wcwidth [ch] = 1)"

lemma draw_text_plain:
  assumes "ascii_width wcwidth" "\<forall>ch \<in> set t. plain_char ch" "canvas_ok c" "0 \<le> x" "0 \<le> y" "y < cv_height c"
    and "\<forall>u. \<not> is_image_occupied c u y"
  shows "fst (draw_text_loop wcwidth t x y st c) = (if cv_width c \<le> x then x else min (x + int (length t)) (cv_width c)) \<and>
    (\<forall>u v. canvas_at (snd (draw_text_loop wcwidth t x y st c)) u v =
      (if v = y \<and> x \<le> u \<and> u < x + int (length t) \<and> u < cv_width c
       then \<lparr>cl_content = [t ! nat (u - x)], cl_style = st\<rparr> else canvas_at c u v))"
  using assms(2-)
proof (induction t arbitrary: x c)
  case Nil
  then show ?case by (subst (1 2) draw_text_loop.simps) auto
next
  case (Cons ch t)
  show ?case
  proof (cases "cv_width c \<le> x")
    case True
    then show ?thesis by (subst (1 2) draw_text_loop.simps) auto
  next
    case False
    have ch: "plain_char ch" using Cons.prems by simp
    have w: "char_width wcwidth [ch] = 1" using assms(1) ch by (simp add: ascii_width_def)
    let ?c = "canvas_put x y [ch] st c"
    have step: "draw_text_loop wcwidth (ch # t) x y st c = draw_text_loop wcwidth t (x + 1) y st ?c"
      using draw_text_loop_plain [OF ch, of x c wcwidth t y st] False Cons.prems by (simp add: w put_grapheme_def)
    have ok: "canvas_ok ?c" using Cons.prems draws_ok draws_put by blast
    have b: "is_in_bounds c x y" using Cons.prems False by (simp add: is_in_bounds_def)
    have free: "\<forall>u. \<not> is_image_occupied ?c u y"
      using Cons.prems draws_occupied [OF draws_put [OF \<open>canvas_ok c\<close>], of x y "[ch]" st] by simp
    have at: "canvas_at ?c u v = (if u = x \<and> v = y then \<lparr>cl_content = [ch], cl_style = st\<rparr> else canvas_at c u v)" for u v
      using canvas_at_put [OF \<open>canvas_ok c\<close>, of x y "[ch]" st u v] b Cons.prems by auto
    from Cons.IH [of ?c "x + 1"] ok free Cons.prems
    have IH: "fst (draw_text_loop wcwidth t (x + 1) y st ?c) = (if cv_width c \<le> x + 1 then x + 1 else min (x + 1 + int (length t)) (cv_width c))"
      "\<And>u v. canvas_at (snd (draw_text_loop wcwidth t (x + 1) y st ?c)) u v =
        (if v = y \<and> x + 1 \<le> u \<and> u < x + 1 + int (length t) \<and> u < cv_width c
         then \<lparr>cl_content = [t ! nat (u - (x + 1))], cl_style = st\<rparr> else canvas_at ?c u v)" by simp_all
    have "fst (draw_text_loop wcwidth (ch # t) x y st c) = (if cv_width c \<le> x then x else min (x + int (length (ch # t))) (cv_width c))"
      unfolding step IH using False by auto
    moreover have "canvas_at (snd (draw_text_loop wcwidth (ch # t) x y st c)) u v =
      (if v = y \<and> x \<le> u \<and> u < x + int (length (ch # t)) \<and> u < cv_width c
       then \<lparr>cl_content = [(ch # t) ! nat (u - x)], cl_style = st\<rparr> else canvas_at c u v)" for u v
    proof (cases "v = y \<and> x + 1 \<le> u")
      case True
      then have "nat (u - x) = Suc (nat (u - (x + 1)))" by arith
      then show ?thesis unfolding step IH at using True False by auto
    next
      case no: False
      then show ?thesis unfolding step IH at using False by auto
    qed
    ultimately show ?thesis by blast
  qed
qed

section \<open>Properties\<close>

text \<open>C31: whatever is drawn on a canvas in whatever order, the cell and mask arrays keep the size the dimensions
  ask for, so every index the operations compute is within bounds.\<close>

theorem canvas_stays_well_formed:
  assumes "0 \<le> w" and "0 \<le> h" and "\<forall>op \<in> set ops. op_ok op"
  shows "canvas_ok (fold (canvas_exec wcwidth) ops (Canvas_new w h))"
  using canvas_ok_new [OF assms(1,2)] by (rule fold_invariant) (use assms(3) canvas_ok_exec in blast)

theorem canvas_stays_well_formed_witness:
  "canvas_ok (fold (canvas_exec (\<lambda>_. 1)) [OpRect 0 0 9 9 plain_style, OpResize 2 1, OpPut 7 7 ''x'' plain_style] (Canvas_new 3 2))"
  by (rule canvas_stays_well_formed) simp_all



text \<open>Printable ASCII text drawn on a row without images fills exactly the cells from its start to its end or
  the right edge, one character each in the given style, touches nothing else and returns where it stopped.\<close>

theorem draw_text_ascii:
  assumes "ascii_width wcwidth" and "\<forall>ch \<in> set t. plain_char ch" and "canvas_ok c" and "0 \<le> x" and "x < cv_width c" and "0 \<le> y"
    and "y < cv_height c" and "\<forall>u. \<not> is_image_occupied c u y"
  shows "fst (draw_text wcwidth x y t st c) = min (x + int (length t)) (cv_width c) \<and>
    (\<forall>u v. canvas_at (snd (draw_text wcwidth x y t st c)) u v =
      (if v = y \<and> x \<le> u \<and> u < x + int (length t) \<and> u < cv_width c
       then \<lparr>cl_content = [t ! nat (u - x)], cl_style = st\<rparr> else canvas_at c u v))"
  using draw_text_plain [OF assms(1-4,6-8), of st] assms(5-7) by (simp add: draw_text_def)

theorem draw_text_ascii_witness:
  "fst (draw_text (\<lambda>_. 1) 1 0 ''hey'' plain_style (Canvas_new 3 1)) = 3 \<and>
   canvas_at (snd (draw_text (\<lambda>_. 1) 1 0 ''hey'' plain_style (Canvas_new 3 1))) 2 0 = \<lparr>cl_content = ''e'', cl_style = plain_style\<rparr>"
proof -
  have "ascii_width (\<lambda>_. 1)" by (simp add: ascii_width_def char_width_one)
  moreover have "\<forall>ch \<in> set ''hey''. plain_char ch" by (simp add: plain_char_def byte_def)
  moreover have "\<forall>u. \<not> is_image_occupied (Canvas_new 3 1) u 0"
    using cell_index_less [of "Canvas_new 3 1" _ 0] by (auto simp: is_image_occupied_def Canvas_new_def)
  ultimately show ?thesis
    using draw_text_ascii [of "\<lambda>_. 1" "''hey''" "Canvas_new 3 1" 1 0 plain_style] canvas_ok_new [of 3 1] by (simp add: Canvas_new_def)
qed

end
