(* ===== verification/Flex_Layout.thy ===== *)
theory Flex_Layout
  imports Canvas Ieee_Bounds
begin

text \<open>
  The flexbox solver of the interface (\<open>include/ui/widget/LayoutRect.hpp\<close>, \<open>include/ui/widget/FlexLayout.hpp\<close>,
  \<open>src/ui/widget/FlexLayout.cpp\<close>). Sizes are unbounded integers; the shares are computed with the source's
  single and double precision operations.
\<close>

section \<open>Constraints\<close>

record SizeConstraints =
  min_width :: "int option"
  max_width :: "int option"
  min_height :: "int option"
  max_height :: "int option"
  preferred_width :: "int option"
  preferred_height :: "int option"

record FlexProperties =
  flex_grow :: dbl
  flex_shrink :: dbl
  flex_priority :: int

record LayoutConstraints =
  lc_size :: SizeConstraints
  lc_flex :: FlexProperties

definition LayoutConstraints_default :: LayoutConstraints where
  "LayoutConstraints_default =
     \<lparr>lc_size = \<lparr>min_width = None, max_width = None, min_height = None, max_height = None, preferred_width = None, preferred_height = None\<rparr>,
      lc_flex = \<lparr>flex_grow = Num 0, flex_shrink = Num 1, flex_priority = 0\<rparr>\<rparr>"

definition lc_fixed :: "int \<Rightarrow> int \<Rightarrow> LayoutConstraints" where
  "lc_fixed w h = (let c = LayoutConstraints_default
     in c\<lparr>lc_size := (lc_size c)\<lparr>min_width := Some w, max_width := Some w, min_height := Some h, max_height := Some h\<rparr>,
          lc_flex := (lc_flex c)\<lparr>flex_grow := Num 0, flex_shrink := Num 0\<rparr>\<rparr>)"

definition lc_flexible :: "int \<Rightarrow> int \<Rightarrow> dbl \<Rightarrow> LayoutConstraints" where
  "lc_flexible min_w max_w grow = (let c = LayoutConstraints_default
     in c\<lparr>lc_size := (lc_size c)\<lparr>min_width := Some min_w, max_width := Some max_w\<rparr>, lc_flex := (lc_flex c)\<lparr>flex_grow := grow\<rparr>\<rparr>)"

definition lc_fill :: "dbl \<Rightarrow> LayoutConstraints" where
  "lc_fill grow = (let c = LayoutConstraints_default in c\<lparr>lc_flex := (lc_flex c)\<lparr>flex_grow := grow\<rparr>\<rparr>)"

datatype FlexDirection = Row | Column

record FlexLayout =
  fl_items :: "LayoutConstraints list"
  fl_direction :: FlexDirection
  fl_spacing :: int

definition FlexLayout_new :: FlexLayout where
  "FlexLayout_new = \<lparr>fl_items = [], fl_direction = Row, fl_spacing = 0\<rparr>"

definition add_item :: "LayoutConstraints \<Rightarrow> FlexLayout \<Rightarrow> FlexLayout" where
  "add_item c l = l\<lparr>fl_items := fl_items l @ [c]\<rparr>"

section \<open>The solver\<close>

definition INT_MAX :: int where
  "INT_MAX = 2147483647"

definition get_min_size :: "SizeConstraints \<Rightarrow> bool \<Rightarrow> int" where
  "get_min_size c is_width = (case if is_width then min_width c else min_height c of Some m \<Rightarrow> m | None \<Rightarrow> 0)"

definition get_max_size :: "SizeConstraints \<Rightarrow> bool \<Rightarrow> int" where
  "get_max_size c is_width = (case if is_width then max_width c else max_height c of Some m \<Rightarrow> m | None \<Rightarrow> INT_MAX)"

text \<open>\<open>std::clamp\<close> tests the lower bound first.\<close>

definition clamp :: "int \<Rightarrow> int \<Rightarrow> int \<Rightarrow> int" where
  "clamp v lo hi = (if v < lo then lo else if hi < v then hi else v)"

definition clamp_to_constraints :: "int \<Rightarrow> SizeConstraints \<Rightarrow> bool \<Rightarrow> int" where
  "clamp_to_constraints sz c is_width = clamp sz (get_min_size c is_width) (get_max_size c is_width)"

definition flex_basis :: "bool \<Rightarrow> LayoutConstraints \<Rightarrow> int" where
  "flex_basis is_width it =
     (case if is_width then preferred_width (lc_size it) else preferred_height (lc_size it) of Some p \<Rightarrow> p
      | None \<Rightarrow> (case if is_width then min_width (lc_size it) else min_height (lc_size it) of Some m \<Rightarrow> m | None \<Rightarrow> 0))"

definition flex_of :: "int \<Rightarrow> LayoutConstraints \<Rightarrow> dbl" where
  "flex_of free_space it = (if 0 < free_space then flex_grow (lc_flex it) else flex_shrink (lc_flex it))"

definition flex_used :: "int \<Rightarrow> int list \<Rightarrow> int" where
  "flex_used spacing sizes = sum_list sizes + (if 1 < length sizes then spacing * (int (length sizes) - 1) else 0)"

definition total_flex :: "int \<Rightarrow> LayoutConstraints list \<Rightarrow> bool list \<Rightarrow> dbl" where
  "total_flex free_space items frozen =
     foldl (\<lambda>t (it, fz). if fz then t else fp_add to_flt t (flex_of free_space it)) (Num 0) (zip items frozen)"

text \<open>\<open>std::round\<close> goes to the nearest integer, halves away from zero; the cast to int is exact in range.\<close>

fun round_away :: "dbl \<Rightarrow> int" where
  "round_away (Num r) = (if 0 \<le> r then \<lfloor>r + 1/2\<rfloor> else - \<lfloor>1/2 - r\<rfloor>)"
| "round_away _ = 0"

definition flex_delta :: "int \<Rightarrow> dbl \<Rightarrow> dbl \<Rightarrow> int" where
  "flex_delta free_space flex tot = round_away (d_mul (d_of_int free_space) (d_div flex tot))"

text \<open>One pass over the items: the first violated bound, or the proposed sizes.\<close>

fun flex_scan :: "bool \<Rightarrow> int \<Rightarrow> dbl \<Rightarrow> LayoutConstraints list \<Rightarrow> bool list \<Rightarrow> int list \<Rightarrow> nat list \<Rightarrow> int list \<Rightarrow> (nat \<times> int) + int list" where
  "flex_scan is_width free_space tot items frozen sizes [] proposed = Inr proposed"
| "flex_scan is_width free_space tot items frozen sizes (i # is) proposed =
     (if frozen ! i then flex_scan is_width free_space tot items frozen sizes is proposed
      else let flex = flex_of free_space (items ! i)
        in if d_le flex (Num 0) then flex_scan is_width free_space tot items frozen sizes is proposed
           else let tentative = sizes ! i + flex_delta free_space flex tot;
                    min_s = get_min_size (lc_size (items ! i)) is_width; max_s = get_max_size (lc_size (items ! i)) is_width
             in if tentative < min_s then Inl (i, min_s)
                else if max_s < tentative then Inl (i, max_s)
                else flex_scan is_width free_space tot items frozen sizes is (proposed[i := tentative]))"

text \<open>The rounding remainder goes to the last unfrozen flexible item, found from the end.\<close>

fun flex_remainder :: "bool \<Rightarrow> int \<Rightarrow> LayoutConstraints list \<Rightarrow> bool list \<Rightarrow> nat list \<Rightarrow> int \<Rightarrow> int list \<Rightarrow> int list" where
  "flex_remainder is_width free_space items frozen [] remainder sizes = sizes"
| "flex_remainder is_width free_space items frozen (i # is) remainder sizes =
     (if \<not> frozen ! i \<and> d_less (Num 0) (flex_of free_space (items ! i))
      then sizes[i := clamp_to_constraints (sizes ! i + remainder) (lc_size (items ! i)) is_width]
      else flex_remainder is_width free_space items frozen is remainder sizes)"

lemma flex_scan_violation:
  "flex_scan is_width free_space tot items frozen sizes is proposed = Inl (i, b) \<Longrightarrow> i \<in> set is \<and> \<not> frozen ! i"
  by (induction "is" arbitrary: proposed) (auto simp: Let_def split: if_splits)

lemma freeze_count: "i < length frozen \<Longrightarrow> \<not> frozen ! i \<Longrightarrow> count_list (frozen[i := True]) False < count_list frozen False"
  by (induction frozen arbitrary: i) (auto split: nat.splits simp: nth_Cons')

function flex_loop :: "bool \<Rightarrow> int \<Rightarrow> int \<Rightarrow> LayoutConstraints list \<Rightarrow> int list \<Rightarrow> bool list \<Rightarrow> int \<Rightarrow> int list" where
  "flex_loop is_width spacing available_space items sizes frozen used_space =
     (let free_space = available_space - used_space
      in if free_space = 0 then sizes
         else let tot = total_flex free_space items frozen
           in if d_le tot (Num 0) then sizes
              else (case flex_scan is_width free_space tot items frozen sizes [0..<length frozen] sizes of
                  Inl (i, b) \<Rightarrow> let sizes = sizes[i := b]
                    in flex_loop is_width spacing available_space items sizes (frozen[i := True]) (flex_used spacing sizes)
                | Inr sizes \<Rightarrow> let remainder = available_space - flex_used spacing sizes
                    in if remainder \<noteq> 0
                       then flex_remainder is_width free_space items frozen (rev [0..<length frozen]) remainder sizes else sizes))"
  by pat_completeness auto
termination
proof (relation "measure (\<lambda>(_, _, _, _, _, frozen, _). count_list frozen False)", goal_cases)
  case 2
  then show ?case by (auto dest!: flex_scan_violation intro!: freeze_count)
qed simp

declare flex_loop.simps [simp del]

definition compute_main_axis_sizes :: "FlexLayout \<Rightarrow> int \<Rightarrow> int list" where
  "compute_main_axis_sizes l available_space =
     (let is_width = (fl_direction l = Row); sizes = map (flex_basis is_width) (fl_items l)
      in flex_loop is_width (fl_spacing l) available_space (fl_items l) sizes (replicate (length (fl_items l)) False) (flex_used (fl_spacing l) sizes))"

definition compute_cross_axis_sizes :: "FlexLayout \<Rightarrow> int \<Rightarrow> int list" where
  "compute_cross_axis_sizes l available_space =
     (let is_width = (fl_direction l = Column)
      in map (\<lambda>it. let c = lc_size it;
           sz = (case if is_width then preferred_width c else preferred_height c of Some p \<Rightarrow> p | None \<Rightarrow> available_space)
         in clamp_to_constraints sz c is_width) (fl_items l))"

fun flex_place :: "FlexDirection \<Rightarrow> int \<Rightarrow> int \<Rightarrow> int list \<Rightarrow> int list \<Rightarrow> LayoutRect list" where
  "flex_place dir spacing pos (m # ms) (c # cs) =
     (if dir = Row then \<lparr>lr_x = pos, lr_y = 0, lr_width = m, lr_height = c\<rparr> else \<lparr>lr_x = 0, lr_y = pos, lr_width = c, lr_height = m\<rparr>)
     # flex_place dir spacing (pos + m + spacing) ms cs"
| "flex_place dir spacing pos _ _ = []"

definition compute_layout :: "FlexLayout \<Rightarrow> int \<Rightarrow> int \<Rightarrow> LayoutRect list" where
  "compute_layout l available_width available_height =
     (if fl_items l = [] then []
      else flex_place (fl_direction l) (fl_spacing l) 0
        (compute_main_axis_sizes l (if fl_direction l = Row then available_width else available_height))
        (compute_cross_axis_sizes l (if fl_direction l = Row then available_height else available_width)))"

section \<open>Sizes stay within their constraints\<close>

definition main_bounds :: "bool \<Rightarrow> LayoutConstraints \<Rightarrow> int \<Rightarrow> bool" where
  "main_bounds is_width it s \<longleftrightarrow> get_min_size (lc_size it) is_width \<le> s \<and> s \<le> get_max_size (lc_size it) is_width"

definition sizes_ok :: "bool \<Rightarrow> LayoutConstraints list \<Rightarrow> int list \<Rightarrow> bool" where
  "sizes_ok is_width items sizes \<longleftrightarrow> list_all2 (main_bounds is_width) items sizes"

lemma sizes_ok_update: "sizes_ok w items sizes \<Longrightarrow> (i < length items \<Longrightarrow> main_bounds w (items ! i) b) \<Longrightarrow> sizes_ok w items (sizes[i := b])"
  by (cases "i < length items") (auto simp: sizes_ok_def list_all2_conv_all_nth nth_list_update)

lemma sizes_ok_range: "sizes_ok w items sizes \<Longrightarrow> i < length items \<Longrightarrow> get_min_size (lc_size (items ! i)) w \<le> get_max_size (lc_size (items ! i)) w"
  using list_all2_nthD [of "main_bounds w" items sizes i] by (simp add: sizes_ok_def main_bounds_def)

lemma clamp_bounds: "lo \<le> hi \<Longrightarrow> lo \<le> clamp v lo hi \<and> clamp v lo hi \<le> hi"
  by (simp add: clamp_def)

lemma flex_scan_ok:
  assumes "sizes_ok w items ps" "sizes_ok w items sizes"
  shows "case flex_scan w free tot items frozen sizes is ps of
      Inl (i, b) \<Rightarrow> sizes_ok w items (sizes[i := b]) | Inr ps' \<Rightarrow> sizes_ok w items ps'"
  using assms
proof (induction "is" arbitrary: ps)
  case (Cons i "is")
  have "sizes_ok w items (sizes[i := get_min_size (lc_size (items ! i)) w])" "sizes_ok w items (sizes[i := get_max_size (lc_size (items ! i)) w])"
    using Cons.prems(2) by (auto intro!: sizes_ok_update simp: main_bounds_def sizes_ok_range)
  moreover have "sizes_ok w items (ps[i := v])"
    if "\<not> v < get_min_size (lc_size (items ! i)) w" "\<not> get_max_size (lc_size (items ! i)) w < v" for v
    using that Cons.prems(1) by (auto intro!: sizes_ok_update simp: main_bounds_def)
  ultimately show ?case using Cons by (simp add: Let_def)
qed simp

lemma flex_remainder_ok: "sizes_ok w items sizes \<Longrightarrow> sizes_ok w items (flex_remainder w free items frozen is rem sizes)"
  by (induction "is") (auto intro!: sizes_ok_update simp: main_bounds_def clamp_to_constraints_def clamp_bounds sizes_ok_range)

lemma flex_loop_ok: "sizes_ok w items sizes \<Longrightarrow> sizes_ok w items (flex_loop w spacing av items sizes frozen used)"
proof (induction w spacing av items sizes frozen used rule: flex_loop.induct)
  case (1 w spacing av items sizes frozen used)
  let ?free = "av - used" let ?scan = "flex_scan w ?free (total_flex ?free items frozen) items frozen sizes [0..<length frozen] sizes"
  show ?case
  proof (cases ?scan)
    case (Inl v)
    then obtain i b where v: "?scan = Inl (i, b)" by (cases v) auto
    with flex_scan_ok [OF 1(2) 1(2), of ?free "total_flex ?free items frozen" frozen "[0..<length frozen]"]
    have "sizes_ok w items (sizes[i := b])" by simp
    from 1(1) [OF refl _ refl _ v refl refl this] 1(2) v show ?thesis by (subst flex_loop.simps) (simp add: Let_def)
  next
    case (Inr ps)
    with flex_scan_ok [OF 1(2) 1(2), of ?free "total_flex ?free items frozen" frozen "[0..<length frozen]"] 1(2)
    show ?thesis by (subst flex_loop.simps) (simp add: Let_def flex_remainder_ok)
  qed
qed

lemma main_axis_ok:
  assumes "\<forall>it \<in> set (fl_items l). main_bounds (fl_direction l = Row) it (flex_basis (fl_direction l = Row) it)"
  shows "sizes_ok (fl_direction l = Row) (fl_items l) (compute_main_axis_sizes l av)"
proof -
  have "sizes_ok (fl_direction l = Row) (fl_items l) (map (flex_basis (fl_direction l = Row)) (fl_items l))"
    using assms unfolding sizes_ok_def by (simp add: list_all2_conv_all_nth)
  then show ?thesis unfolding compute_main_axis_sizes_def Let_def by (rule flex_loop_ok)
qed

section \<open>Places\<close>

definition main_pos :: "FlexDirection \<Rightarrow> LayoutRect \<Rightarrow> int" where
  "main_pos dir r = (if dir = Row then lr_x r else lr_y r)"

definition main_len :: "FlexDirection \<Rightarrow> LayoutRect \<Rightarrow> int" where
  "main_len dir r = (if dir = Row then lr_width r else lr_height r)"

definition cross_len :: "FlexDirection \<Rightarrow> LayoutRect \<Rightarrow> int" where
  "cross_len dir r = (if dir = Row then lr_height r else lr_width r)"

lemma flex_place_simps:
  assumes "length cs = length ms"
  shows "map (main_len dir) (flex_place dir sp pos ms cs) = ms" "map (cross_len dir) (flex_place dir sp pos ms cs) = cs"
    "length (flex_place dir sp pos ms cs) = length ms"
  using assms by (induction dir sp pos ms cs rule: flex_place.induct) (auto simp: main_len_def cross_len_def)

lemma flex_place_first: "flex_place dir sp pos ms cs \<noteq> [] \<Longrightarrow> main_pos dir (flex_place dir sp pos ms cs ! 0) = pos"
  by (cases ms; cases cs) (auto simp: main_pos_def)

lemma flex_place_next:
  assumes "Suc i < length (flex_place dir sp pos ms cs)"
  shows "main_pos dir (flex_place dir sp pos ms cs ! Suc i) =
    main_pos dir (flex_place dir sp pos ms cs ! i) + main_len dir (flex_place dir sp pos ms cs ! i) + sp"
  using assms
proof (induction dir sp pos ms cs arbitrary: i rule: flex_place.induct)
  case (1 dir sp pos m ms c cs)
  show ?case
  proof (cases i)
    case 0
    with 1(2) have "flex_place dir sp (pos + m + sp) ms cs \<noteq> []" by auto
    with 0 flex_place_first [of dir sp "pos + m + sp" ms cs] show ?thesis by (simp add: main_pos_def main_len_def)
  qed (use 1 in auto)
qed simp_all

section \<open>The solver's contract\<close>

definition basis_ok :: "FlexLayout \<Rightarrow> bool" where
  "basis_ok l \<longleftrightarrow> (\<forall>it \<in> set (fl_items l). main_bounds (fl_direction l = Row) it (flex_basis (fl_direction l = Row) it) \<and>
     get_min_size (lc_size it) (fl_direction l = Column) \<le> get_max_size (lc_size it) (fl_direction l = Column))"

lemma compute_layout_parts:
  assumes "basis_ok l"
  obtains ms cs where
    "compute_layout l aw ah = (if fl_items l = [] then [] else flex_place (fl_direction l) (fl_spacing l) 0 ms cs)"
    "sizes_ok (fl_direction l = Row) (fl_items l) ms" "sizes_ok (fl_direction l = Column) (fl_items l) cs" "length cs = length ms"
    "ms = compute_main_axis_sizes l (if fl_direction l = Row then aw else ah)"
proof -
  let ?ms = "compute_main_axis_sizes l (if fl_direction l = Row then aw else ah)"
  let ?cs = "compute_cross_axis_sizes l (if fl_direction l = Row then ah else aw)"
  have "sizes_ok (fl_direction l = Row) (fl_items l) ?ms" using assms by (intro main_axis_ok) (simp add: basis_ok_def)
  moreover have "sizes_ok (fl_direction l = Column) (fl_items l) ?cs"
    using assms unfolding sizes_ok_def compute_cross_axis_sizes_def Let_def basis_ok_def
    by (simp add: list_all2_conv_all_nth main_bounds_def clamp_to_constraints_def clamp_bounds)
  ultimately show ?thesis using that [of ?ms ?cs] by (auto simp: compute_layout_def sizes_ok_def dest!: list_all2_lengthD)
qed

text \<open>C29: the solver always ends with one rectangle per item; when every basis meets its constraints, so does every computed
  size on both axes, and the rectangles follow each other along the main axis with exactly the spacing between them.\<close>

theorem layout_respects_constraints:
  assumes "basis_ok l"
  shows "length (compute_layout l aw ah) = length (fl_items l) \<and>
    (\<forall>i < length (fl_items l). let r = compute_layout l aw ah ! i; c = lc_size (fl_items l ! i); row = (fl_direction l = Row)
      in get_min_size c row \<le> main_len (fl_direction l) r \<and> main_len (fl_direction l) r \<le> get_max_size c row \<and>
         get_min_size c (\<not> row) \<le> cross_len (fl_direction l) r \<and> cross_len (fl_direction l) r \<le> get_max_size c (\<not> row) \<and>
         main_pos (fl_direction l) r = (if i = 0 then 0
           else main_pos (fl_direction l) (compute_layout l aw ah ! (i - 1)) + main_len (fl_direction l) (compute_layout l aw ah ! (i - 1)) + fl_spacing l))"
proof (cases "fl_items l = []")
  case False
  obtain ms cs where l: "compute_layout l aw ah = flex_place (fl_direction l) (fl_spacing l) 0 ms cs"
    "sizes_ok (fl_direction l = Row) (fl_items l) ms" "sizes_ok (fl_direction l = Column) (fl_items l) cs" "length cs = length ms"
    using compute_layout_parts [OF assms, of aw ah] False by metis
  note len = flex_place_simps [OF l(4), of "fl_direction l" "fl_spacing l" 0]
  have n: "length ms = length (fl_items l)" using l(2) unfolding sizes_ok_def by (metis list_all2_lengthD)
  have size: "main_len (fl_direction l) (flex_place (fl_direction l) (fl_spacing l) 0 ms cs ! i) = ms ! i"
    "cross_len (fl_direction l) (flex_place (fl_direction l) (fl_spacing l) 0 ms cs ! i) = cs ! i" if "i < length (fl_items l)" for i
    using that len n by (metis nth_map)+
  have col: "(fl_direction l = Column) = (\<not> fl_direction l = Row)" by (cases "fl_direction l") auto
  have pos: "main_pos (fl_direction l) (flex_place (fl_direction l) (fl_spacing l) 0 ms cs ! i) = (if i = 0 then 0
      else main_pos (fl_direction l) (flex_place (fl_direction l) (fl_spacing l) 0 ms cs ! (i - 1)) +
        main_len (fl_direction l) (flex_place (fl_direction l) (fl_spacing l) 0 ms cs ! (i - 1)) + fl_spacing l)" if "i < length (fl_items l)" for i
  proof (cases i)
    case 0
    have "flex_place (fl_direction l) (fl_spacing l) 0 ms cs \<noteq> []" using len(3) n False by (metis length_0_conv)
    with 0 show ?thesis by (simp add: flex_place_first)
  next
    case (Suc j)
    with that flex_place_next [of j "fl_direction l" "fl_spacing l" 0 ms cs] len(3) n show ?thesis by simp
  qed
  show ?thesis unfolding l(1) Let_def using l(2,3) size pos len(3) n unfolding sizes_ok_def list_all2_conv_all_nth main_bounds_def col by simp
qed (simp add: compute_layout_def)

section \<open>The root layout\<close>

lemma flex_delta_bounds:
  assumes "0 \<le> n" "n < 2 ^ 53" "0 < f" "f \<le> t"
  shows "0 \<le> flex_delta n (Num f) (Num t) \<and> flex_delta n (Num f) (Num t) \<le> n"
proof -
  have "0 \<le> f / t" "f / t \<le> of_int 1" using assms(3,4) by (simp_all add: divide_le_eq)
  from to_dbl_le_int [OF this] obtain q where q: "to_dbl False (f / t) = Num q" "0 \<le> q" "q \<le> 1" by auto
  then have d: "d_div (Num f) (Num t) = Num q" using assms(3,4) by (simp add: fp_div_def)
  have "0 \<le> of_int n * q" "of_int n * q \<le> of_int n" using q assms(1) by (simp_all add: mult_left_le)
  from to_dbl_le_int [OF this assms(2)] obtain r where r: "to_dbl False (of_int n * q) = Num r" "0 \<le> r" "r \<le> of_int n" by auto
  have "d_of_int n = Num (of_int n)" unfolding d_of_int_def using assms(1,2) by (rule to_dbl_int)
  then have "flex_delta n (Num f) (Num t) = \<lfloor>r + 1/2\<rfloor>" using q r assms(1) d by (simp add: flex_delta_def fp_mul_def)
  moreover have "\<lfloor>r + 1/2\<rfloor> \<le> n"
  proof -
    have "r + 1/2 < of_int (n + 1)" using r(3) by simp
    then show ?thesis by linarith
  qed
  ultimately show ?thesis using r(2) by simp
qed

definition root_layout :: "int \<Rightarrow> int \<Rightarrow> LayoutRect list" where
  "root_layout cols rows =
     (let root = FlexLayout_new\<lparr>fl_direction := Row, fl_spacing := 1\<rparr>;
          root = add_item (lc_flexible 40 cols (Num 2)) root;
          root = add_item (lc_flexible 20 cols (Num 1)) root
      in compute_layout root cols rows)"

lemma total_root: "fp_add to_flt (fp_add to_flt (Num 0) (Num 2)) (Num 1) = Num 3"
  by code_simp

lemma root_main_sizes:
  assumes "61 \<le> cols" "cols < 2 ^ 31" "c = lc_flexible 40 cols (Num 2)" "d = lc_flexible 20 cols (Num 1)"
  shows "\<exists>k. 0 \<le> k \<and> k \<le> cols - 61 \<and> compute_main_axis_sizes \<lparr>fl_items = [c, d], fl_direction = Row, fl_spacing = 1\<rparr> cols = [40 + k, cols - 41 - k]"
proof (cases "cols = 61")
  case True
  then show ?thesis
    by (auto simp: assms(3,4) lc_flexible_def LayoutConstraints_default_def Let_def compute_main_axis_sizes_def flex_basis_def flex_used_def flex_loop.simps)
next
  case False
  let ?f = "cols - 61" and ?a = "flex_delta (cols - 61) (Num 2) (Num 3)" and ?b = "flex_delta (cols - 61) (Num 1) (Num 3)"
  have a: "0 \<le> ?a" "?a \<le> ?f" using flex_delta_bounds [of ?f 2 3] assms(1,2) by auto
  have b: "0 \<le> ?b" "?b \<le> ?f" using flex_delta_bounds [of ?f 1 3] assms(1,2) by auto
  have c: "lc_size c = \<lparr>min_width = Some 40, max_width = Some cols, min_height = None, max_height = None, preferred_width = None, preferred_height = None\<rparr>"
    "flex_grow (lc_flex c) = Num 2" and
    d: "lc_size d = \<lparr>min_width = Some 20, max_width = Some cols, min_height = None, max_height = None, preferred_width = None, preferred_height = None\<rparr>"
    "flex_grow (lc_flex d) = Num 1"
    by (simp_all add: assms(3,4) lc_flexible_def LayoutConstraints_default_def Let_def)
  have free: "0 < ?f" using assms(1) False by simp
  have tot: "total_flex ?f [c, d] [False, False] = Num 3" using free by (simp add: total_flex_def flex_of_def c d total_root)
  have scan: "flex_scan True ?f (Num 3) [c, d] [False, False] [40, 20] [0..<2] [40, 20] = Inr [40 + ?a, 20 + ?b]"
    using free a b by (simp add: upt_rec flex_of_def c d get_min_size_def get_max_size_def Let_def d_le_def d_eq_def)
  have rem: "flex_remainder True ?f [c, d] [False, False] (rev [0..<2]) r [40 + ?a, 20 + ?b] = [40 + ?a, 20 + ?b + r]"
    if "r = ?f - ?a - ?b" for r
    using that free a b by (simp add: upt_rec flex_of_def c d clamp_to_constraints_def clamp_def get_min_size_def get_max_size_def)
  have "compute_main_axis_sizes \<lparr>fl_items = [c, d], fl_direction = Row, fl_spacing = 1\<rparr> cols = [40 + ?a, cols - 41 - ?a]"
  proof -
    have used: "cols - flex_used 1 [40 + ?a, 20 + ?b] = ?f - ?a - ?b" "cols - flex_used 1 [40, 20] = ?f" by (simp_all add: flex_used_def)
    have "flex_loop True 1 cols [c, d] [40, 20] [False, False] (flex_used 1 [40, 20]) = [40 + ?a, 20 + ?b + (?f - ?a - ?b)]"
      using free unfolding flex_loop.simps [of _ _ _ _ "[40, 20]"] Let_def used
      by (simp add: tot scan [unfolded numeral_2_eq_2] rem [OF refl, unfolded numeral_2_eq_2] used d_le_def d_eq_def
          del: flex_scan.simps flex_remainder.simps upt_Suc rev.simps)
    then show ?thesis by (simp add: compute_main_axis_sizes_def flex_basis_def c d numeral_2_eq_2)
  qed
  with a show ?thesis by blast
qed

text \<open>From 61 columns on, the interface's two panes fill the terminal exactly, one column apart, full height, the left
  one at least 40 and the right one at least 20 columns wide.\<close>

theorem root_layout_fills:
  assumes "61 \<le> cols" and "cols < 2 ^ 31" and "0 \<le> rows" and "rows < 2 ^ 31"
  shows "\<exists>w. 40 \<le> w \<and> 20 \<le> cols - w - 1 \<and> root_layout cols rows =
    [\<lparr>lr_x = 0, lr_y = 0, lr_width = w, lr_height = rows\<rparr>, \<lparr>lr_x = w + 1, lr_y = 0, lr_width = cols - w - 1, lr_height = rows\<rparr>]"
proof -
  let ?l = "\<lparr>fl_items = [lc_flexible 40 cols (Num 2), lc_flexible 20 cols (Num 1)], fl_direction = Row, fl_spacing = 1\<rparr>"
  obtain k where k: "0 \<le> k" "k \<le> cols - 61" "compute_main_axis_sizes ?l cols = [40 + k, cols - 41 - k]"
    using root_main_sizes [OF assms(1,2) refl refl] by blast
  have c: "compute_cross_axis_sizes ?l rows = [rows, rows]"
    using assms(3,4) by (simp add: compute_cross_axis_sizes_def lc_flexible_def LayoutConstraints_default_def Let_def clamp_to_constraints_def
        clamp_def get_min_size_def get_max_size_def INT_MAX_def)
  have "root_layout cols rows = compute_layout ?l cols rows" by (simp add: root_layout_def FlexLayout_new_def add_item_def)
  then show ?thesis using k c by (intro exI [of _ "40 + k"]) (simp add: compute_layout_def)
qed

theorem root_layout_fills_witness: "\<exists>w. 40 \<le> w \<and> 20 \<le> 80 - w - 1 \<and> map lr_width (root_layout 80 24) = [w, 80 - w - 1]"
  using root_layout_fills [of 80 24] by force

theorem layout_respects_constraints_witness:
  "40 \<le> main_len Row (compute_layout \<lparr>fl_items = [lc_flexible 40 50 (Num 2), lc_flexible 20 50 (Num 1)], fl_direction = Row, fl_spacing = 1\<rparr> 100 9 ! 0)"
proof -
  let ?l = "\<lparr>fl_items = [lc_flexible 40 50 (Num 2), lc_flexible 20 50 (Num 1)], fl_direction = Row, fl_spacing = 1\<rparr>"
  have "basis_ok ?l"
    by (simp add: basis_ok_def main_bounds_def lc_flexible_def LayoutConstraints_default_def Let_def flex_basis_def get_min_size_def get_max_size_def INT_MAX_def)
  from conjunct2 [OF layout_respects_constraints [OF this, of 100 9], rule_format, of 0] show ?thesis
    by (simp add: Let_def lc_flexible_def LayoutConstraints_default_def get_min_size_def)
qed

section \<open>The remainder can overflow the container\<close>

definition four_items :: FlexLayout where
  "four_items = \<lparr>fl_items = replicate 4 (lc_flexible 10 100 (Num 1)), fl_direction = Row, fl_spacing = 0\<rparr>"

lemma four_floats:
  "fp_add to_flt (Num 0) (Num 1) = Num 1" "fp_add to_flt (Num 1) (Num 1) = Num 2" "fp_add to_flt (Num 2) (Num 1) = Num 3"
  "fp_add to_flt (Num 3) (Num 1) = Num 4"
  by code_simp+

lemma to_dbl_power:
  assumes "- 1022 \<le> e" "e \<le> 0"
  shows "to_dbl False (2 powi e) = Num (2 powi e)"
proof -
  have "exp2_of (2 powi e) = e" using exp2_of_le [of "2 powi e" e] exp2_of_ge [of "2 powi e" e] by (simp add: powi_less_iff)
  then have u: "ulp 53 (- 1022) (2 powi e) = 2 powi (e - 52)" using assms by (simp add: ulp_def max_def)
  have "(2::rat) powi e = of_int (2 ^ 52) * 2 powi (e - 52)" by (simp add: power_int_diff)
  then have "round_pos 53 (- 1022) (2 powi e) = 2 powi e" unfolding u [symmetric] by (rule round_pos_exact)
  moreover have "(2::rat) powi e < 2 powi 1024" using assms(2) by (simp only: powi_less_iff)
  moreover have "\<not> (2::rat) powi e < 0" by (simp add: not_less)
  ultimately show ?thesis by (simp add: to_dbl_def fp_round_def Let_def)
qed

lemma quarter_share: "flex_delta 2 (Num 1) (Num 4) = 1"
proof -
  have "d_of_int 2 = Num 2" using to_dbl_int [of 2] by (simp add: d_of_int_def)
  moreover have "d_div (Num 1) (Num 4) = Num (1 / 4)" using to_dbl_power [of "- 2"] by (simp add: fp_div_def power_int_def power2_eq_square)
  moreover have "d_mul (Num 2) (Num (1 / 4)) = Num (1 / 2)" using to_dbl_power [of "- 1"] by (simp add: fp_mul_def power_int_def)
  ultimately show ?thesis by (simp add: flex_delta_def)
qed

text \<open>Every share of one half rounds up, so four growing items of ten columns take three of the two free columns; the
  negative remainder is then clamped away at the last item's minimum and the row is wider than its container.\<close>

theorem layout_overflows:
  "compute_main_axis_sizes four_items 42 = [11, 11, 11, 10] \<and> 42 < flex_used 0 (compute_main_axis_sizes four_items 42)"
proof -
  define i where "i = lc_flexible 10 100 (Num 1)"
  have i: "lc_size i = \<lparr>min_width = Some 10, max_width = Some 100, min_height = None, max_height = None, preferred_width = None, preferred_height = None\<rparr>"
    "flex_grow (lc_flex i) = Num 1" by (simp_all add: i_def lc_flexible_def LayoutConstraints_default_def Let_def)
  have u: "[0..<length [False, False, False, False]] = [0, 1, 2, 3]" by (simp add: upt_rec)
  have pos: "\<not> d_le (Num 1) (Num 0)" "\<not> d_le (Num 4) (Num 0)" by (simp_all add: d_le_def d_eq_def)
  have tot: "total_flex 2 [i, i, i, i] [False, False, False, False] = Num 4" by (simp add: total_flex_def flex_of_def i four_floats)
  have scan: "flex_scan True 2 (Num 4) [i, i, i, i] [False, False, False, False] [10, 10, 10, 10] [0, 1, 2, 3] [10, 10, 10, 10] = Inr [11, 11, 11, 11]"
    by (simp add: flex_of_def i quarter_share pos get_min_size_def get_max_size_def Let_def)
  have rem: "flex_remainder True 2 [i, i, i, i] [False, False, False, False] [3, 2, 1, 0] (- 2) [11, 11, 11, 11] = [11, 11, 11, 10]"
    by (simp add: flex_of_def i clamp_to_constraints_def clamp_def get_min_size_def get_max_size_def)
  have "flex_loop True 0 42 [i, i, i, i] [10, 10, 10, 10] [False, False, False, False] 40 = [11, 11, 11, 10]"
    unfolding flex_loop.simps [of _ _ _ _ "[10, 10, 10, 10]"] Let_def u using tot scan rem
    by (simp add: pos flex_used_def del: flex_scan.simps flex_remainder.simps)
  moreover have "fl_items four_items = [i, i, i, i]" "fl_direction four_items = Row" "fl_spacing four_items = 0"
    by (simp_all add: four_items_def i_def numeral_eq_Suc)
  moreover have "flex_basis True i = 10" by (simp add: flex_basis_def i)
  ultimately have "compute_main_axis_sizes four_items 42 = [11, 11, 11, 10]"
    unfolding compute_main_axis_sizes_def Let_def by (simp add: flex_used_def)
  then show ?thesis by (simp add: flex_used_def)
qed

end
