(* ===== verification/Screen.thy ===== *)
theory Screen
  imports Flex_Layout
begin

text \<open>
  Frame output (\<open>src/ui/Renderer.cpp\<close>, \<open>src/ui/Terminal.cpp\<close>): the difference of two canvases becomes a byte
  string, and a bounded queue hands the strings to the writer thread. The theorems run the bytes on a model
  of the terminal and compare what it then shows with the canvas.
\<close>

section \<open>The frame\<close>

definition append_sgr :: "string \<Rightarrow> Style \<Rightarrow> string" where
  "append_sgr frame s =
     (if st_fg s = ColorDefault \<and> st_bg s = ColorDefault \<and> st_attr s = AttrNone then frame @ ESC # ''[0m''
      else let frame = frame @ ESC # ''[0'';
               frame = (if has_attribute (st_attr s) Bold then frame @ '';1'' else frame);
               frame = (if has_attribute (st_attr s) Dim then frame @ '';2'' else frame);
               frame = (if has_attribute (st_attr s) Underline then frame @ '';4'' else frame);
               frame = (if has_attribute (st_attr s) Blink then frame @ '';5'' else frame);
               frame = (if has_attribute (st_attr s) Reverse then frame @ '';7'' else frame);
               frame = (if is_truecolor (st_fg s)
                 then frame @ '';38;2;'' @ dec_word (color_r (st_fg s)) @ '';'' @ dec_word (color_g (st_fg s)) @ '';'' @ dec_word (color_b (st_fg s))
                 else if st_fg s \<noteq> ColorDefault
                 then let idx = sint (st_fg s)
                   in if 1 \<le> idx \<and> idx \<le> 8 then frame @ '';'' @ dec_int (29 + idx)
                      else if 9 \<le> idx \<and> idx \<le> 16 then frame @ '';'' @ dec_int (81 + idx) else frame
                 else frame);
               frame = (if is_truecolor (st_bg s)
                 then frame @ '';48;2;'' @ dec_word (color_r (st_bg s)) @ '';'' @ dec_word (color_g (st_bg s)) @ '';'' @ dec_word (color_b (st_bg s))
                 else if st_bg s \<noteq> ColorDefault
                 then let idx = sint (st_bg s)
                   in if 1 \<le> idx \<and> idx \<le> 8 then frame @ '';'' @ dec_int (39 + idx)
                      else if 9 \<le> idx \<and> idx \<le> 16 then frame @ '';'' @ dec_int (91 + idx) else frame
                 else frame)
      in frame @ ''m'')"

text \<open>The numbers go through a buffer of 32 bytes; nothing is appended when they do not fit.\<close>

definition append_cup :: "string \<Rightarrow> int \<Rightarrow> int \<Rightarrow> string" where
  "append_cup out row col =
     (let r = dec_int row; c = dec_int col
      in if 2 + length r \<ge> 32 - 2 then out
         else if 2 + length r + 1 + length c \<ge> 32 - 1 then out
         else out @ ESC # ''['' @ r @ '';'' @ c @ ''H'')"

record diff_state =
  df_frame :: string
  df_style :: "Style option"
  df_cursor_x :: int
  df_cursor_y :: int

definition diff_cell :: "Canvas \<Rightarrow> Canvas \<Rightarrow> bool \<Rightarrow> int \<times> int \<Rightarrow> diff_state \<Rightarrow> diff_state" where
  "diff_cell cur prev full_repaint = (\<lambda>(x, y) s.
     let cell = canvas_at cur x y; base = (if full_repaint then blank_cell else canvas_at prev x y)
     in if cell = base then s
        else let s = (if df_cursor_y s \<noteq> y \<or> df_cursor_x s \<noteq> x
                   then s\<lparr>df_frame := append_cup (df_frame s) (y + 1) (x + 1), df_cursor_x := x, df_cursor_y := y\<rparr> else s);
                 s = (if df_style s \<noteq> Some (cl_style cell)
                   then s\<lparr>df_frame := append_sgr (df_frame s) (cl_style cell), df_style := Some (cl_style cell)\<rparr> else s)
        in s\<lparr>df_frame := df_frame s @ (if cl_content cell = [] then '' '' else cl_content cell),
             df_cursor_x := df_cursor_x s + 1\<rparr>)"

definition canvas_diff_to_frame :: "Canvas \<Rightarrow> Canvas \<Rightarrow> int \<Rightarrow> int \<Rightarrow> bool \<Rightarrow> string" where
  "canvas_diff_to_frame cur prev rows cols full_repaint =
     (let s = fold (diff_cell cur prev full_repaint) (rect_cells 0 0 cols rows)
            \<lparr>df_frame = (if full_repaint then ESC # ''[2J'' @ ESC # ''[H'' else []), df_style = None, df_cursor_x = -1, df_cursor_y = -1\<rparr>;
          frame = df_frame s @ concat (map snd (cv_graphics cur));
          frame = (if df_style s \<noteq> None then frame @ ESC # ''[0m'' else frame)
      in append_cup frame rows cols)"

section \<open>The queue to the writer\<close>

definition kMaxQueuedFrames :: nat where
  "kMaxQueuedFrames = 4"

fun drop_queued :: "string list \<Rightarrow> string list" where
  "drop_queued [] = []"
| "drop_queued (f # q) = (if kMaxQueuedFrames \<le> length (f # q) then drop_queued q else f # q)"

definition enqueue_frame :: "string \<Rightarrow> string list \<Rightarrow> string list" where
  "enqueue_frame frame q = (if frame = [] then q else drop_queued q @ [frame])"

section \<open>The render loop's end and the writer\<close>

text \<open>
  \<open>Renderer::render\<close> keeps two canvases. The widgets' drawing into the two panes is the parameter \<open>draw\<close>; the size of the terminal
  is asked anew for every frame.
\<close>

record renderer =
  rd_canvas :: Canvas
  rd_prev_canvas :: Canvas
  rd_last_cols :: int
  rd_last_rows :: int

definition renderer_new :: renderer where
  "renderer_new = \<lparr>rd_canvas = Canvas_new 1 1, rd_prev_canvas = Canvas_new 1 1, rd_last_cols = 0, rd_last_rows = 0\<rparr>"

definition render :: "(LayoutRect \<Rightarrow> LayoutRect \<Rightarrow> Canvas \<Rightarrow> Canvas) \<Rightarrow> int \<Rightarrow> int \<Rightarrow> renderer \<Rightarrow> string \<times> renderer" where
  "render draw term_cols term_rows r =
     (let cols = term_cols; rows = max 5 term_rows;
          size_changed = (cols \<noteq> rd_last_cols r \<or> rows \<noteq> rd_last_rows r);
          r = (if size_changed
            then r\<lparr>rd_canvas := canvas_resize cols rows (rd_canvas r), rd_prev_canvas := canvas_resize cols rows (rd_prev_canvas r),
                   rd_last_cols := cols, rd_last_rows := rows\<rparr> else r);
          rects = root_layout cols rows;
          left_rect = \<lparr>lr_x = lr_x (rects ! 0), lr_y = 0, lr_width = lr_width (rects ! 0), lr_height = rows\<rparr>;
          right_rect = \<lparr>lr_x = lr_x (rects ! 1), lr_y = 0, lr_width = lr_width (rects ! 1), lr_height = rows\<rparr>;
          canvas = draw left_rect right_rect (canvas_clear blank_cell (rd_canvas r));
          frame = canvas_diff_to_frame canvas (rd_prev_canvas r) rows cols size_changed
      in (frame, r\<lparr>rd_canvas := rd_prev_canvas r, rd_prev_canvas := canvas\<rparr>))"

section \<open>A terminal\<close>

text \<open>
  What the bytes mean (ECMA-48): cursor position, graphic rendition, erase display, and characters of one
  column written at the cursor. Erased cells take the current background. Columns and rows count from zero.
\<close>

record vt =
  vt_cell :: "int \<Rightarrow> int \<Rightarrow> Cell"
  vt_x :: int
  vt_y :: int
  vt_style :: Style

fun split_semi :: "string \<Rightarrow> string list" where
  "split_semi [] = [[]]"
| "split_semi (c # s) = (if c = CHR '';'' then [] # split_semi s
     else (case split_semi s of p # ps \<Rightarrow> (c # p) # ps | [] \<Rightarrow> [[c]]))"

definition csi_params :: "string \<Rightarrow> int list" where
  "csi_params s = map (\<lambda>p. int (undec p)) (split_semi s)"

definition vt_sgr1 :: "int \<Rightarrow> Style \<Rightarrow> Style" where
  "vt_sgr1 n st =
     (if n = 0 then plain_style
      else if n = 1 then st\<lparr>st_attr := st_attr st OR Bold\<rparr> else if n = 2 then st\<lparr>st_attr := st_attr st OR Dim\<rparr>
      else if n = 4 then st\<lparr>st_attr := st_attr st OR Underline\<rparr> else if n = 5 then st\<lparr>st_attr := st_attr st OR Blink\<rparr>
      else if n = 7 then st\<lparr>st_attr := st_attr st OR Reverse\<rparr>
      else if 30 \<le> n \<and> n \<le> 37 then st\<lparr>st_fg := word_of_int (n - 29)\<rparr> else if n = 39 then st\<lparr>st_fg := 0\<rparr>
      else if 40 \<le> n \<and> n \<le> 47 then st\<lparr>st_bg := word_of_int (n - 39)\<rparr> else if n = 49 then st\<lparr>st_bg := 0\<rparr>
      else if 90 \<le> n \<and> n \<le> 97 then st\<lparr>st_fg := word_of_int (n - 81)\<rparr>
      else if 100 \<le> n \<and> n \<le> 107 then st\<lparr>st_bg := word_of_int (n - 91)\<rparr> else st)"

function vt_sgr :: "int list \<Rightarrow> Style \<Rightarrow> Style" where
  "vt_sgr [] st = st"
| "vt_sgr (n # ps) st =
     (if (n = 38 \<or> n = 48) \<and> 4 \<le> length ps \<and> hd ps = 2
      then let c = rgb_color (word_of_int (ps ! 1)) (word_of_int (ps ! 2)) (word_of_int (ps ! 3))
           in vt_sgr (drop 4 ps) (if n = 38 then st\<lparr>st_fg := c\<rparr> else st\<lparr>st_bg := c\<rparr>)
      else vt_sgr ps (vt_sgr1 n st))"
  by pat_completeness auto
termination by (relation "measure (length \<circ> fst)") auto

definition vt_csi :: "char \<Rightarrow> int list \<Rightarrow> vt \<Rightarrow> vt" where
  "vt_csi z ps t =
     (if z = CHR ''H'' then (case ps of [r, c] \<Rightarrow> t\<lparr>vt_x := c - 1, vt_y := r - 1\<rparr> | _ \<Rightarrow> t\<lparr>vt_x := 0, vt_y := 0\<rparr>)
      else if z = CHR ''m'' then t\<lparr>vt_style := vt_sgr ps (vt_style t)\<rparr>
      else if z = CHR ''J'' \<and> ps = [2]
      then t\<lparr>vt_cell := \<lambda>_ _. \<lparr>cl_content = '' '', cl_style = plain_style\<lparr>st_bg := st_bg (vt_style t)\<rparr>\<rparr>\<rparr>
      else t)"

definition vt_print :: "string \<Rightarrow> vt \<Rightarrow> vt" where
  "vt_print g t = t\<lparr>vt_cell := (vt_cell t)(vt_x t := (vt_cell t (vt_x t))(vt_y t := \<lparr>cl_content = g, cl_style = vt_style t\<rparr>)),
     vt_x := vt_x t + 1\<rparr>"

definition csi_final :: "char \<Rightarrow> bool" where
  "csi_final c \<longleftrightarrow> 0x40 \<le> byte c \<and> byte c \<le> 0x7E"

function vt_run :: "string \<Rightarrow> vt \<Rightarrow> vt" where
  "vt_run s t =
     (if s = [] then t
      else if 2 \<le> length s \<and> hd s = ESC \<and> s ! 1 = CHR ''[''
      then let r = dropWhile (\<lambda>c. \<not> csi_final c) (drop 2 s)
           in if r = [] then t
              else vt_run (tl r) (vt_csi (hd r) (csi_params (takeWhile (\<lambda>c. \<not> csi_final c) (drop 2 s))) t)
      else let len = utf8_char_len (hd s) in vt_run (drop len s) (vt_print (take len s) t))"
  by pat_completeness auto
termination
proof (relation "measure (length \<circ> fst)", goal_cases)
  case (2 s t r)
  have "length r \<le> length (drop 2 s)" unfolding 2 by (rule length_dropWhile_le)
  with 2 show ?case by (cases r) auto
qed auto

declare vt_run.simps [simp del]

lemma vt_run_nil [simp]: "vt_run [] t = t"
  by (simp add: vt_run.simps)

lemma vt_run_csi:
  assumes "\<forall>c \<in> set ps. \<not> csi_final c" "csi_final z"
  shows "vt_run (ESC # CHR ''['' # ps @ z # s) t = vt_run s (vt_csi z (csi_params ps) t)"
proof -
  have "dropWhile (\<lambda>c. \<not> csi_final c) (ps @ z # s) = z # s" "takeWhile (\<lambda>c. \<not> csi_final c) (ps @ z # s) = ps"
    using assms by (simp_all add: dropWhile_append2 takeWhile_append2 takeWhile_tail)
  then show ?thesis by (subst vt_run.simps) (simp add: Let_def)
qed

definition glyph :: "string \<Rightarrow> bool" where
  "glyph g \<longleftrightarrow> g \<noteq> [] \<and> hd g \<noteq> ESC \<and> length g = utf8_char_len (hd g)"

lemma vt_run_glyph:
  assumes "glyph g"
  shows "vt_run (g @ s) t = vt_run s (vt_print g t)"
proof -
  obtain a h where g: "g = a # h" using assms by (cases g) (auto simp: glyph_def)
  then have "a \<noteq> ESC" "utf8_char_len a = length g" using assms by (auto simp: glyph_def)
  then show ?thesis by (subst vt_run.simps) (simp add: Let_def g)
qed

section \<open>Parameters\<close>

definition sgr_text :: "nat list \<Rightarrow> string" where
  "sgr_text ns = concat (map (\<lambda>n. CHR '';'' # dec n) ns)"

lemma sgr_text_simps [simp]: "sgr_text [] = []" "sgr_text (n # ns) = CHR '';'' # dec n @ sgr_text ns"
  "sgr_text (ms @ ns) = sgr_text ms @ sgr_text ns"
  by (simp_all add: sgr_text_def)

lemma split_semi_part: "CHR '';'' \<notin> set p \<Longrightarrow> split_semi p = [p]"
  by (induction p) auto

lemma split_semi_append: "CHR '';'' \<notin> set p \<Longrightarrow> split_semi (p @ CHR '';'' # s) = p # split_semi s"
  by (induction p) auto

lemma dec_no_semi: "CHR '';'' \<notin> set (dec n)"
  using dec_digits [of "CHR '';''" n] by (auto simp: is_digit_def byte_def)

lemma csi_params_text: "csi_params (dec n @ sgr_text ns) = int n # map int ns"
proof (induction ns arbitrary: n)
  case Nil
  show ?case by (simp add: csi_params_def split_semi_part [OF dec_no_semi])
next
  case (Cons m ns)
  then show ?case by (simp add: csi_params_def split_semi_append [OF dec_no_semi])
qed

lemma digits_not_final: "c \<in> set (dec n) \<Longrightarrow> \<not> csi_final c"
  using dec_digits [of c n] by (auto simp: is_digit_def csi_final_def)

lemma params_not_final: "\<forall>c \<in> set (dec n @ sgr_text ns). \<not> csi_final c"
  by (induction ns arbitrary: n) (auto dest: digits_not_final simp: csi_final_def byte_def)

lemma vt_run_codes:
  assumes "csi_final z"
  shows "vt_run (ESC # CHR ''['' # dec n @ sgr_text ns @ z # s) t = vt_run s (vt_csi z (int n # map int ns) t)"
  using vt_run_csi [OF params_not_final assms, of n ns s t] by (simp add: csi_params_text)

lemma length_dec: "n < 10 ^ k \<Longrightarrow> 0 < k \<Longrightarrow> length (dec n) \<le> k"
proof (induction k arbitrary: n)
  case (Suc k)
  show ?case
  proof (cases "n < 10")
    case True
    then show ?thesis by (simp add: dec.simps [of n])
  next
    case False
    then have "0 < k" using Suc.prems by (cases k) auto
    moreover have "n div 10 < 10 ^ k" using Suc.prems by (simp add: less_mult_imp_div_less mult.commute)
    ultimately show ?thesis using Suc.IH [of "n div 10"] False by (simp add: dec.simps [of n])
  qed
qed simp

lemma vt_run_cup:
  assumes "0 \<le> row" "row < 2 ^ 31" "0 \<le> col" "col < 2 ^ 31"
  shows "append_cup f row col = f @ append_cup [] row col"
    and "vt_run (append_cup [] row col @ s) t = vt_run s (t\<lparr>vt_x := col - 1, vt_y := row - 1\<rparr>)"
proof -
  have "length (dec (nat row)) \<le> 10" "length (dec (nat col)) \<le> 10" using assms by (intro length_dec; simp)+
  then have cup: "append_cup f row col = f @ ESC # CHR ''['' # dec (nat row) @ sgr_text [nat col] @ CHR ''H'' # []" for f
    using assms by (simp add: append_cup_def Let_def dec_int_def)
  show "append_cup f row col = f @ append_cup [] row col" unfolding cup by simp
  have "csi_final (CHR ''H'')" by (simp add: csi_final_def byte_def)
  from vt_run_codes [OF this, of "nat row" "[nat col]" s t] show
    "vt_run (append_cup [] row col @ s) t = vt_run s (t\<lparr>vt_x := col - 1, vt_y := row - 1\<rparr>)"
    unfolding cup using assms by (simp add: vt_csi_def)
qed

section \<open>Styles\<close>

definition color_ok :: "Color \<Rightarrow> bool" where
  "color_ok c \<longleftrightarrow> c \<le> 16 \<or> (\<exists>r g b. c = rgb_color r g b)"

definition style_ok :: "Style \<Rightarrow> bool" where
  "style_ok st \<longleftrightarrow> color_ok (st_fg st) \<and> color_ok (st_bg st) \<and> st_attr st < 32"

lemma bit8: "bit (x :: u8) n \<Longrightarrow> n < 8"
  using bit_imp_le_length [of x n] by simp

lemma rgb_parts [simp]:
  "is_truecolor (rgb_color r g b)" "color_r (rgb_color r g b) = r" "color_g (rgb_color r g b) = g" "color_b (rgb_color r g b) = b"
proof -
  have ff: "bit (0xFF :: u32) n \<longleftrightarrow> n < 8" for n
  proof -
    have "(0xFF :: u32) = mask 8" by (simp add: mask_eq_exp_minus_1)
    then show ?thesis by (simp only: bit_mask_iff) auto
  qed
  have no: "8 \<le> n \<Longrightarrow> \<not> bit (x :: u8) n" for x n using bit8 [of x n] by auto
  have rgb: "n < 32 \<Longrightarrow> bit (rgb_color r g b) n \<longleftrightarrow> n = 24 \<or> 16 \<le> n \<and> bit r (n - 16) \<or> 8 \<le> n \<and> bit g (n - 8) \<or> bit b n" for n
    unfolding rgb_color_def bit_or_iff bit_push_bit_iff bit_unsigned_iff bit_1_iff by (simp add: le_less) linarith
  have byte: "n < 8 \<Longrightarrow> bit (ucast (drop_bit k c AND 0xFF) :: u8) n \<longleftrightarrow> bit c (k + n)" for c :: u32 and k n
    by (simp only: bit_unsigned_iff bit_and_iff ff bit_drop_bit_eq comp_def) simp
  have "bit (rgb_color r g b AND push_bit 24 1) 24" by (simp only: bit_and_iff rgb bit_push_bit_iff bit_1_iff) simp
  then show "is_truecolor (rgb_color r g b)" unfolding is_truecolor_def by (metis bit_0_eq bot_apply bot_bool_def)
  show "color_r (rgb_color r g b) = r" "color_g (rgb_color r g b) = g"
    unfolding color_r_def color_g_def by (intro bit_word_eqI; simp only: len_num1 len_bit0 byte; simp add: rgb no)+
  show "color_b (rgb_color r g b) = b"
    using byte [where k = 0 and c = "rgb_color r g b"] unfolding color_b_def drop_bit_0 id_apply
    by (intro bit_word_eqI) (simp add: rgb no)
qed

lemma small_cases: "c \<le> 16 \<Longrightarrow> c \<in> {0, 1, 2, 3, 4, 5, 6, 7, 8, 9, 10, 11, 12, 13, 14, 15, 16}" for c :: u32
proof -
  assume "c \<le> 16"
  then have "unat c \<le> 16" by (simp add: word_le_nat_alt)
  then have "unat c \<in> set [0..<17]" by simp
  then have "(of_nat (unat c) :: u32) \<in> of_nat ` set [0..<17]" by (rule imageI)
  then show ?thesis by (simp add: upt_rec)
qed

lemma attr_cases: "a < 32 \<Longrightarrow> a \<in> of_nat ` set [0..<32]" for a :: u8
proof -
  assume "a < 32"
  then have "unat a \<in> set [0..<32]" by (simp add: word_less_nat_alt)
  then have "(of_nat (unat a) :: u8) \<in> of_nat ` set [0..<32]" by (rule imageI)
  then show ?thesis by simp
qed

definition attr_codes :: "Attribute \<Rightarrow> nat list" where
  "attr_codes a = (if has_attribute a Bold then [1] else []) @ (if has_attribute a Dim then [2] else []) @
     (if has_attribute a Underline then [4] else []) @ (if has_attribute a Blink then [5] else []) @
     (if has_attribute a Reverse then [7] else [])"

definition color_codes :: "nat \<Rightarrow> Color \<Rightarrow> nat list" where
  "color_codes k c =
     (if is_truecolor c then [k + 8, 2, unat (color_r c), unat (color_g c), unat (color_b c)]
      else if 1 \<le> sint c \<and> sint c \<le> 8 then [k - 1 + nat (sint c)]
      else if 9 \<le> sint c \<and> sint c \<le> 16 then [k + 51 + nat (sint c)] else [])"

definition style_codes :: "Style \<Rightarrow> nat list" where
  "style_codes st = attr_codes (st_attr st) @ color_codes 30 (st_fg st) @ color_codes 40 (st_bg st)"

lemma has_attribute_none [simp]: "\<not> has_attribute 0 b"
  by (simp add: has_attribute_def)

lemma not_truecolor_0 [simp]: "\<not> is_truecolor 0"
  by (simp add: is_truecolor_def)

lemma dec_digit [simp]: "dec 0 = ''0''" "dec (Suc 0) = ''1''" "dec 1 = ''1''" "dec 2 = ''2''" "dec 4 = ''4''" "dec 5 = ''5''" "dec 7 = ''7''"
  "dec 38 = ''38''" "dec 48 = ''48''"
  by (simp_all add: dec.simps digit_char_lits)

lemma if_append: "(if b then f @ x else f) = f @ (if b then x else [])" for f :: string
  by simp

lemma attr_text: "sgr_text (attr_codes a) = (if has_attribute a Bold then '';1'' else []) @ (if has_attribute a Dim then '';2'' else []) @
    (if has_attribute a Underline then '';4'' else []) @ (if has_attribute a Blink then '';5'' else []) @
    (if has_attribute a Reverse then '';7'' else [])"
proof -
  have "sgr_text (if b then [n] else []) = (if b then CHR '';'' # dec n else [])" for b n by simp
  then show ?thesis unfolding attr_codes_def sgr_text_simps by simp
qed

lemma color_text:
  "frame @ sgr_text (color_codes 30 c) =
    (if is_truecolor c
     then frame @ '';38;2;'' @ dec_word (color_r c) @ '';'' @ dec_word (color_g c) @ '';'' @ dec_word (color_b c)
     else if c \<noteq> ColorDefault
     then let idx = sint c
       in if 1 \<le> idx \<and> idx \<le> 8 then frame @ '';'' @ dec_int (29 + idx)
          else if 9 \<le> idx \<and> idx \<le> 16 then frame @ '';'' @ dec_int (81 + idx) else frame
     else frame)"
  "frame @ sgr_text (color_codes 40 c) =
    (if is_truecolor c
     then frame @ '';48;2;'' @ dec_word (color_r c) @ '';'' @ dec_word (color_g c) @ '';'' @ dec_word (color_b c)
     else if c \<noteq> ColorDefault
     then let idx = sint c
       in if 1 \<le> idx \<and> idx \<le> 8 then frame @ '';'' @ dec_int (39 + idx)
          else if 9 \<le> idx \<and> idx \<le> 16 then frame @ '';'' @ dec_int (91 + idx) else frame
     else frame)"
  by (simp_all add: color_codes_def Let_def dec_int_def nat_add_distrib)

lemma append_sgr_codes: "append_sgr f st = f @ ESC # CHR ''['' # dec 0 @ sgr_text (style_codes st) @ CHR ''m'' # []"
proof (cases "st_fg st = ColorDefault \<and> st_bg st = ColorDefault \<and> st_attr st = AttrNone")
  case True
  then show ?thesis by (simp add: append_sgr_def style_codes_def attr_codes_def color_codes_def)
next
  case False
  have "append_sgr f st = (let frame = f @ ESC # ''[0'';
               frame = (if has_attribute (st_attr st) Bold then frame @ '';1'' else frame);
               frame = (if has_attribute (st_attr st) Dim then frame @ '';2'' else frame);
               frame = (if has_attribute (st_attr st) Underline then frame @ '';4'' else frame);
               frame = (if has_attribute (st_attr st) Blink then frame @ '';5'' else frame);
               frame = (if has_attribute (st_attr st) Reverse then frame @ '';7'' else frame);
               frame = frame @ sgr_text (color_codes 30 (st_fg st));
               frame = frame @ sgr_text (color_codes 40 (st_bg st))
      in frame @ ''m'')"
    unfolding append_sgr_def color_text if_not_P [OF False] by (rule refl)
  also have "\<dots> = f @ ESC # CHR ''['' # dec 0 @ sgr_text (style_codes st) @ CHR ''m'' # []"
    unfolding Let_def if_append style_codes_def sgr_text_simps attr_text by simp
  finally show ?thesis .
qed

lemma color_codes_zero [simp]: "color_codes k 0 = []"
  by (simp add: color_codes_def)

lemma bit24 [simp]: "push_bit 24 1 = (0x1000000 :: u32)"
  by (simp add: push_bit_eq_mult)

lemma small_color:
  fixes c :: u32
  assumes "c \<le> 16"
  shows "\<not> is_truecolor c" "sint c = int (unat c)"
proof -
  show "\<not> is_truecolor c" using small_cases [OF assms] unfolding is_truecolor_def by (elim insertE) simp_all
  show "sint c = int (unat c)" using small_cases [OF assms] by (elim insertE) simp_all
qed

lemma small_nat:
  fixes c :: u32
  assumes "c \<le> 16" "c \<noteq> 0"
  obtains n where "unat c = n" "sint c = int n" "word_of_nat n = c" "0 < n" "n \<le> 16"
  using that [OF refl small_color(2) [OF assms(1)]] assms by (simp add: word_le_nat_alt unat_gt_0)

lemma vt_sgr1_colors:
  assumes "0 < n" "n \<le> 16"
  shows "vt_sgr1 (if n \<le> 8 then 29 + int n else 81 + int n) st = st\<lparr>st_fg := word_of_nat n\<rparr>"
    and "vt_sgr1 (if n \<le> 8 then 39 + int n else 91 + int n) st = st\<lparr>st_bg := word_of_nat n\<rparr>"
  using assms by (cases "n \<le> 8"; simp add: vt_sgr1_def)+

lemma color_codes_small:
  fixes c :: u32
  assumes "c \<le> 16" "c \<noteq> 0"
  shows "map int (color_codes 30 c) = [if unat c \<le> 8 then 29 + int (unat c) else 81 + int (unat c)]"
    and "map int (color_codes 40 c) = [if unat c \<le> 8 then 39 + int (unat c) else 91 + int (unat c)]"
proof -
  obtain n where n: "unat c = n" "sint c = int n" "0 < n" "n \<le> 16" using small_nat [OF assms] .
  then show "map int (color_codes 30 c) = [if unat c \<le> 8 then 29 + int (unat c) else 81 + int (unat c)]"
    and "map int (color_codes 40 c) = [if unat c \<le> 8 then 39 + int (unat c) else 91 + int (unat c)]"
    using small_color(1) [OF assms(1)] unfolding color_codes_def n(1,2) by auto
qed

lemma vt_sgr_step: "n \<noteq> 38 \<Longrightarrow> n \<noteq> 48 \<Longrightarrow> vt_sgr (n # ps) st = vt_sgr ps (vt_sgr1 n st)"
  by simp

lemma vt_sgr_small:
  fixes c :: u32
  assumes "c \<le> 16" "c \<noteq> 0"
  shows "vt_sgr (map int (color_codes 30 c) @ ps) st = vt_sgr ps (st\<lparr>st_fg := c\<rparr>)"
    and "vt_sgr (map int (color_codes 40 c) @ ps) st = vt_sgr ps (st\<lparr>st_bg := c\<rparr>)"
proof -
  obtain n where n: "unat c = n" "word_of_nat n = c" "0 < n" "n \<le> 16" using small_nat [OF assms] .
  show "vt_sgr (map int (color_codes 30 c) @ ps) st = vt_sgr ps (st\<lparr>st_fg := c\<rparr>)"
    using n vt_sgr1_colors(1) [OF n(3,4), of st] unfolding color_codes_small [OF assms] n(1)
    by (simp only: append_Cons append_Nil) (subst vt_sgr_step; auto)
  show "vt_sgr (map int (color_codes 40 c) @ ps) st = vt_sgr ps (st\<lparr>st_bg := c\<rparr>)"
    using n vt_sgr1_colors(2) [OF n(3,4), of st] unfolding color_codes_small [OF assms] n(1)
    by (simp only: append_Cons append_Nil) (subst vt_sgr_step; auto)
qed

lemma vt_color:
  assumes "color_ok c"
  shows "vt_sgr (map int (color_codes 30 c) @ ps) (st\<lparr>st_fg := 0\<rparr>) = vt_sgr ps (st\<lparr>st_fg := c\<rparr>)"
    and "vt_sgr (map int (color_codes 40 c) @ ps) (st\<lparr>st_bg := 0\<rparr>) = vt_sgr ps (st\<lparr>st_bg := c\<rparr>)"
proof -
  consider "c = 0" | "c \<le> 16" "c \<noteq> 0" | r g b where "c = rgb_color r g b" using assms by (auto simp: color_ok_def)
  then have "vt_sgr (map int (color_codes 30 c) @ ps) (st\<lparr>st_fg := 0\<rparr>) = vt_sgr ps (st\<lparr>st_fg := c\<rparr>) \<and>
    vt_sgr (map int (color_codes 40 c) @ ps) (st\<lparr>st_bg := 0\<rparr>) = vt_sgr ps (st\<lparr>st_bg := c\<rparr>)"
  proof cases
    case 3
    then show ?thesis by (simp add: color_codes_def Let_def numeral_eq_Suc)
  qed (simp_all add: vt_sgr_small)
  then show "vt_sgr (map int (color_codes 30 c) @ ps) (st\<lparr>st_fg := 0\<rparr>) = vt_sgr ps (st\<lparr>st_fg := c\<rparr>)"
    and "vt_sgr (map int (color_codes 40 c) @ ps) (st\<lparr>st_bg := 0\<rparr>) = vt_sgr ps (st\<lparr>st_bg := c\<rparr>)" by auto
qed

lemma attr_or:
  assumes "a < 32"
  shows "(a AND 1) OR (a AND 2) OR (a AND 4) OR (a AND 8) OR (a AND 16) = (a :: u8)"
proof -
  have "a AND 31 = a"
  proof -
    have "a AND mask 5 = a" using assms by (intro less_mask_eq) simp
    then show ?thesis by (simp add: mask_eq_exp_minus_1)
  qed
  moreover have "(a AND 1) OR (a AND 2) OR (a AND 4) OR (a AND 8) OR (a AND 16) = a AND (1 OR 2 OR 4 OR 8 OR 16)"
    by (simp only: bit.conj_disj_distrib)
  ultimately show ?thesis by simp
qed

lemma vt_sgr1_attr:
  "vt_sgr (map int (if b then [1] else []) @ ps) st = vt_sgr ps (if b then st\<lparr>st_attr := st_attr st OR Bold\<rparr> else st)"
  "vt_sgr (map int (if b then [2] else []) @ ps) st = vt_sgr ps (if b then st\<lparr>st_attr := st_attr st OR Dim\<rparr> else st)"
  "vt_sgr (map int (if b then [4] else []) @ ps) st = vt_sgr ps (if b then st\<lparr>st_attr := st_attr st OR Underline\<rparr> else st)"
  "vt_sgr (map int (if b then [5] else []) @ ps) st = vt_sgr ps (if b then st\<lparr>st_attr := st_attr st OR Blink\<rparr> else st)"
  "vt_sgr (map int (if b then [7] else []) @ ps) st = vt_sgr ps (if b then st\<lparr>st_attr := st_attr st OR Reverse\<rparr> else st)"
  by (simp_all add: vt_sgr1_def)

lemma and_pow:
  fixes st :: Style
  assumes "m = 2 ^ k" "k < 8"
  shows "(if has_attribute a m then st\<lparr>st_attr := st_attr st OR m\<rparr> else st) = st\<lparr>st_attr := st_attr st OR (a AND m)\<rparr>"
proof (cases "bit a k")
  case True
  then have "a AND m = m" unfolding assms(1) by (intro bit_word_eqI) (auto simp: bit_and_iff bit_exp_iff)
  with assms show ?thesis by (simp add: has_attribute_def)
next
  case False
  then have "a AND m = 0" unfolding assms(1) by (rule iffD2 [OF and_exp_eq_0_iff_not_bit])
  then show ?thesis by (simp add: has_attribute_def)
qed

lemma vt_attr:
  assumes "a < 32"
  shows "vt_sgr (map int (attr_codes a) @ ps) plain_style = vt_sgr ps (plain_style\<lparr>st_attr := a\<rparr>)"
proof -
  have a: "(if has_attribute a Bold then st\<lparr>st_attr := st_attr st OR Bold\<rparr> else st) = st\<lparr>st_attr := st_attr st OR (a AND 1)\<rparr>"
    "(if has_attribute a Dim then st\<lparr>st_attr := st_attr st OR Dim\<rparr> else st) = st\<lparr>st_attr := st_attr st OR (a AND 2)\<rparr>"
    "(if has_attribute a Underline then st\<lparr>st_attr := st_attr st OR Underline\<rparr> else st) = st\<lparr>st_attr := st_attr st OR (a AND 4)\<rparr>"
    "(if has_attribute a Blink then st\<lparr>st_attr := st_attr st OR Blink\<rparr> else st) = st\<lparr>st_attr := st_attr st OR (a AND 8)\<rparr>"
    "(if has_attribute a Reverse then st\<lparr>st_attr := st_attr st OR Reverse\<rparr> else st) = st\<lparr>st_attr := st_attr st OR (a AND 16)\<rparr>" for st :: Style
    by (rule and_pow [of _ 0], simp, simp, rule and_pow [of _ 1], simp, simp, rule and_pow [of _ 2], simp, simp,
        rule and_pow [of _ 3], simp, simp, rule and_pow [of _ 4], simp, simp)
  show ?thesis
    unfolding attr_codes_def map_append append_assoc vt_sgr1_attr a
    by (simp add: plain_style_def or.assoc [symmetric] attr_or [OF assms, unfolded or.assoc [symmetric]])
qed

lemma vt_style_codes:
  assumes "style_ok st"
  shows "vt_sgr (0 # map int (style_codes st)) st' = st"
proof -
  have c: "color_ok (st_fg st)" "color_ok (st_bg st)" "st_attr st < 32" using assms by (simp_all add: style_ok_def)
  have "vt_sgr (0 # map int (style_codes st)) st' = vt_sgr (map int (style_codes st)) plain_style" by (simp add: vt_sgr1_def)
  also have "\<dots> = vt_sgr (map int (color_codes 30 (st_fg st)) @ map int (color_codes 40 (st_bg st))) (plain_style\<lparr>st_attr := st_attr st\<rparr>)"
    unfolding style_codes_def map_append by (rule vt_attr [OF c(3)])
  also have "\<dots> = vt_sgr (map int (color_codes 40 (st_bg st))) (plain_style\<lparr>st_attr := st_attr st, st_fg := st_fg st\<rparr>)"
    using vt_color(1) [OF c(1), of _ "plain_style\<lparr>st_attr := st_attr st\<rparr>"] by (simp add: plain_style_def)
  also have "\<dots> = plain_style\<lparr>st_attr := st_attr st, st_fg := st_fg st, st_bg := st_bg st\<rparr>"
    using vt_color(2) [OF c(2), of "[]" "plain_style\<lparr>st_attr := st_attr st, st_fg := st_fg st\<rparr>"] by (simp add: plain_style_def)
  finally show ?thesis by (simp add: plain_style_def)
qed

lemma vt_run_sgr:
  assumes "style_ok st"
  shows "append_sgr f st = f @ append_sgr [] st" "vt_run (append_sgr [] st @ s) t = vt_run s (t\<lparr>vt_style := st\<rparr>)"
proof -
  show "append_sgr f st = f @ append_sgr [] st" unfolding append_sgr_codes by simp
  have "csi_final (CHR ''m'')" by (simp add: csi_final_def byte_def)
  from vt_run_codes [OF this, of 0 "style_codes st" s t] show "vt_run (append_sgr [] st @ s) t = vt_run s (t\<lparr>vt_style := st\<rparr>)"
    unfolding append_sgr_codes using vt_style_codes [OF assms, of "vt_style t"] by (simp add: vt_csi_def del: vt_sgr.simps)
qed

section \<open>One frame\<close>

definition shown :: "Cell \<Rightarrow> Cell" where
  "shown cell = (if cl_content cell = [] then cell\<lparr>cl_content := '' ''\<rparr> else cell)"

definition cell_ok :: "Cell \<Rightarrow> bool" where
  "cell_ok cell \<longleftrightarrow> (cl_content cell = [] \<or> glyph (cl_content cell)) \<and> style_ok (cl_style cell)"

text \<open>A frame in the making agrees with the terminal that has read it so far.\<close>

definition in_step :: "diff_state \<Rightarrow> vt \<Rightarrow> vt \<Rightarrow> bool" where
  "in_step s t0 t \<longleftrightarrow> (\<forall>rest. vt_run (df_frame s @ rest) t0 = vt_run rest t) \<and>
     (0 \<le> df_cursor_y s \<longrightarrow> df_cursor_x s = vt_x t \<and> df_cursor_y s = vt_y t) \<and>
     vt_style t = (case df_style s of None \<Rightarrow> vt_style t0 | Some st \<Rightarrow> st)"

definition diff_move :: "int \<Rightarrow> int \<Rightarrow> diff_state \<Rightarrow> diff_state" where
  "diff_move x y s = (if df_cursor_y s \<noteq> y \<or> df_cursor_x s \<noteq> x
     then s\<lparr>df_frame := append_cup (df_frame s) (y + 1) (x + 1), df_cursor_x := x, df_cursor_y := y\<rparr> else s)"

definition diff_restyle :: "Style \<Rightarrow> diff_state \<Rightarrow> diff_state" where
  "diff_restyle st s = (if df_style s \<noteq> Some st then s\<lparr>df_frame := append_sgr (df_frame s) st, df_style := Some st\<rparr> else s)"

lemma diff_cell_steps:
  "diff_cell cur prev fr (x, y) s =
    (let cell = canvas_at cur x y
     in if cell = (if fr then blank_cell else canvas_at prev x y) then s
        else (let s = diff_restyle (cl_style cell) (diff_move x y s)
          in s\<lparr>df_frame := df_frame s @ cl_content (shown cell), df_cursor_x := df_cursor_x s + 1\<rparr>))"
  by (simp add: diff_cell_def diff_move_def diff_restyle_def shown_def Let_def)

lemma in_step_move:
  assumes "in_step s t0 t" "0 \<le> x" "x < 2 ^ 31 - 1" "0 \<le> y" "y < 2 ^ 31 - 1"
  shows "in_step (diff_move x y s) t0 (t\<lparr>vt_x := x, vt_y := y\<rparr>)" "df_cursor_y (diff_move x y s) = y" "df_cursor_x (diff_move x y s) = x"
proof -
  have xy: "0 \<le> y + 1" "y + 1 < 2 ^ 31" "0 \<le> x + 1" "x + 1 < 2 ^ 31" using assms(2-5) by auto
  show "in_step (diff_move x y s) t0 (t\<lparr>vt_x := x, vt_y := y\<rparr>)"
    using assms(1,4) vt_run_cup(1) [OF xy, of "df_frame s"] vt_run_cup(2) [OF xy] by (auto simp: in_step_def diff_move_def)
qed (auto simp: diff_move_def)

lemma in_step_restyle:
  assumes "in_step s t0 t" "style_ok st"
  shows "in_step (diff_restyle st s) t0 (t\<lparr>vt_style := st\<rparr>)" "df_style (diff_restyle st s) = Some st"
  using assms vt_run_sgr(1) [OF assms(2), of "df_frame s"] vt_run_sgr(2) [OF assms(2)] by (auto simp: in_step_def diff_restyle_def)

lemma in_step_print:
  assumes "in_step s t0 t" "glyph g" "0 \<le> df_cursor_y s" "df_style s = Some st"
  shows "in_step (s\<lparr>df_frame := df_frame s @ g, df_cursor_x := df_cursor_x s + 1\<rparr>) t0 (vt_print g t)"
  using assms vt_run_glyph [OF assms(2)] by (auto simp: in_step_def vt_print_def)

lemma shown_glyph: "cell_ok c \<Longrightarrow> glyph (cl_content (shown c))"
  by (auto simp: cell_ok_def shown_def glyph_def utf8_char_len_def byte_def)

lemma shown_eq: "\<lparr>cl_content = cl_content (shown c), cl_style = cl_style c\<rparr> = shown c"
  by (cases c) (simp add: shown_def)

definition put_cell :: "int \<Rightarrow> int \<Rightarrow> Cell \<Rightarrow> (int \<Rightarrow> int \<Rightarrow> Cell) \<Rightarrow> int \<Rightarrow> int \<Rightarrow> Cell" where
  "put_cell x y c f = f(x := (f x)(y := c))"

lemma put_cell_apply [simp]: "put_cell x y c f u v = (if u = x \<and> v = y then c else f u v)"
  by (simp add: put_cell_def)

lemma diff_cell_in_step:
  assumes "in_step s t0 t" "cell_ok (canvas_at cur x y)" "0 \<le> x" "x < 2 ^ 31 - 1" "0 \<le> y" "y < 2 ^ 31 - 1"
  obtains t' where "in_step (diff_cell cur prev fr (x, y) s) t0 t'"
    "vt_cell t' = (if canvas_at cur x y = (if fr then blank_cell else canvas_at prev x y) then vt_cell t
       else put_cell x y (shown (canvas_at cur x y)) (vt_cell t))"
proof (cases "canvas_at cur x y = (if fr then blank_cell else canvas_at prev x y)")
  case True
  then show ?thesis using that [of t] assms(1) by (simp add: diff_cell_steps Let_def)
next
  case False
  let ?c = "canvas_at cur x y" and ?s = "diff_move x y s"
  have st: "style_ok (cl_style ?c)" using assms(2) by (simp add: cell_ok_def)
  note move = in_step_move [OF assms(1,3-6)]
  note sgr = in_step_restyle [OF move(1) st]
  have y: "0 \<le> df_cursor_y (diff_restyle (cl_style ?c) ?s)" using move(2) assms(5) by (simp add: diff_restyle_def)
  from in_step_print [OF sgr(1) shown_glyph [OF assms(2)] y sgr(2)] False show ?thesis
    by (intro that) (auto simp: diff_cell_steps Let_def vt_print_def put_cell_def shown_eq)
qed

lemma diff_cells_in_step:
  assumes "in_step s t0 t" "\<forall>(x, y) \<in> set cs. cell_ok (canvas_at cur x y) \<and> 0 \<le> x \<and> x < 2 ^ 31 - 1 \<and> 0 \<le> y \<and> y < 2 ^ 31 - 1"
  shows "\<exists>t'. in_step (fold (diff_cell cur prev fr) cs s) t0 t' \<and>
    (\<forall>x y. vt_cell t' x y = (if (x, y) \<in> set cs \<and> canvas_at cur x y \<noteq> (if fr then blank_cell else canvas_at prev x y)
      then shown (canvas_at cur x y) else vt_cell t x y))"
  using assms
proof (induction cs arbitrary: s t)
  case Nil
  then show ?case by auto
next
  case (Cons c cs)
  obtain x y where c: "c = (x, y)" by (cases c)
  obtain t1 where t1: "in_step (diff_cell cur prev fr (x, y) s) t0 t1"
    "vt_cell t1 = (if canvas_at cur x y = (if fr then blank_cell else canvas_at prev x y) then vt_cell t
       else put_cell x y (shown (canvas_at cur x y)) (vt_cell t))"
    using diff_cell_in_step [OF Cons.prems(1), of cur x y] Cons.prems(2) c by auto
  obtain t2 where t2: "in_step (fold (diff_cell cur prev fr) cs (diff_cell cur prev fr (x, y) s)) t0 t2"
    "\<And>u v. vt_cell t2 u v = (if (u, v) \<in> set cs \<and> canvas_at cur u v \<noteq> (if fr then blank_cell else canvas_at prev u v)
      then shown (canvas_at cur u v) else vt_cell t1 u v)"
    using Cons.IH [OF t1(1)] Cons.prems(2) by auto
  then show ?case by (intro exI [of _ t2]) (auto simp: c t1(2))
qed

definition displays :: "int \<Rightarrow> int \<Rightarrow> vt \<Rightarrow> Canvas \<Rightarrow> bool" where
  "displays rows cols t c \<longleftrightarrow> (\<forall>x y. 0 \<le> x \<longrightarrow> x < cols \<longrightarrow> 0 \<le> y \<longrightarrow> y < rows \<longrightarrow> vt_cell t x y = shown (canvas_at c x y))"

definition drawable :: "int \<Rightarrow> int \<Rightarrow> Canvas \<Rightarrow> bool" where
  "drawable rows cols c \<longleftrightarrow> cv_graphics c = [] \<and>
     (\<forall>x y. 0 \<le> x \<longrightarrow> x < cols \<longrightarrow> 0 \<le> y \<longrightarrow> y < rows \<longrightarrow> cell_ok (canvas_at c x y))"

lemma in_rect_cells: "(u, v) \<in> set (rect_cells 0 0 cols rows) \<longleftrightarrow> 0 \<le> u \<and> u < cols \<and> 0 \<le> v \<and> v < rows"
  by (auto simp: rect_cells_def intro!: bexI [of _ v])

lemma vt_run_clear: "vt_run ((ESC # ''[2J'' @ ESC # ''[H'') @ s) t =
    vt_run s (t\<lparr>vt_cell := \<lambda>_ _. \<lparr>cl_content = '' '', cl_style = plain_style\<lparr>st_bg := st_bg (vt_style t)\<rparr>\<rparr>, vt_x := 0, vt_y := 0\<rparr>)"
proof -
  have f: "csi_final (CHR ''J'')" "csi_final (CHR ''H'')" by (simp_all add: csi_final_def byte_def)
  have "csi_params [] = [0]" by (simp add: csi_params_def undec_def)
  with vt_run_csi [OF _ f(2), of "[]" s] vt_run_codes [OF f(1), of 2 "[]" "ESC # ''[H'' @ s"] show ?thesis by (simp add: vt_csi_def)
qed

lemma frame_shows_canvas:
  assumes "drawable rows cols cur" "0 \<le> rows" "rows < 2 ^ 31 - 1" "0 \<le> cols" "cols < 2 ^ 31 - 1" "vt_style t = plain_style"
    and "fr \<or> displays rows cols t prev"
  shows "displays rows cols (vt_run (canvas_diff_to_frame cur prev rows cols fr) t) cur"
    and "vt_style (vt_run (canvas_diff_to_frame cur prev rows cols fr) t) = plain_style"
proof -
  define t0 where "t0 = (if fr then t\<lparr>vt_cell := \<lambda>_ _. blank_cell, vt_x := 0, vt_y := 0\<rparr> else t)"
  define s0 where "s0 = \<lparr>df_frame = (if fr then ESC # ''[2J'' @ ESC # ''[H'' else []), df_style = None, df_cursor_x = -1, df_cursor_y = -1\<rparr>"
  define s where "s = fold (diff_cell cur prev fr) (rect_cells 0 0 cols rows) s0"
  have "in_step s0 t t0"
    using vt_run_clear [of _ t] assms(6) by (auto simp: in_step_def s0_def t0_def blank_cell_def plain_style_def)
  moreover have "\<forall>(x, y) \<in> set (rect_cells 0 0 cols rows). cell_ok (canvas_at cur x y) \<and> 0 \<le> x \<and> x < 2 ^ 31 - 1 \<and> 0 \<le> y \<and> y < 2 ^ 31 - 1"
    using assms(1,3,5) by (auto simp: in_rect_cells drawable_def)
  ultimately obtain t1 where t1: "in_step s t t1"
    "\<And>x y. vt_cell t1 x y = (if (x, y) \<in> set (rect_cells 0 0 cols rows) \<and> canvas_at cur x y \<noteq> (if fr then blank_cell else canvas_at prev x y)
      then shown (canvas_at cur x y) else vt_cell t0 x y)"
    unfolding s_def using diff_cells_in_step by blast
  have "style_ok plain_style" by (simp add: style_ok_def color_ok_def plain_style_def)
  note reset = vt_run_sgr(2) [OF this] and plain = append_sgr_def [of "[]" plain_style]
  have rc: "0 \<le> rows" "rows < 2 ^ 31" "0 \<le> cols" "cols < 2 ^ 31" using assms(2-5) by auto
  define e where "e = (if df_style s \<noteq> None then ESC # ''[0m'' else [])"
  define t2 where "t2 = t1\<lparr>vt_style := plain_style, vt_x := cols - 1, vt_y := rows - 1\<rparr>"
  have "canvas_diff_to_frame cur prev rows cols fr = append_cup (df_frame s @ e) rows cols"
    using assms(1) by (simp add: canvas_diff_to_frame_def Let_def s_def s0_def e_def drawable_def)
  then have "vt_run (canvas_diff_to_frame cur prev rows cols fr) t = vt_run (e @ append_cup [] rows cols) t1"
    using t1(1) vt_run_cup(1) [OF rc, of "df_frame s @ e"] by (simp add: in_step_def)
  also have "\<dots> = t2"
    using t1(1) assms(6) reset [of "append_cup [] rows cols" t1] plain vt_run_cup(2) [OF rc, of "[]"]
    by (auto simp: e_def t2_def in_step_def plain_style_def)
  finally have run: "vt_run (canvas_diff_to_frame cur prev rows cols fr) t = t2" .
  have "shown blank_cell = blank_cell" by (simp add: shown_def blank_cell_def)
  then show "displays rows cols (vt_run (canvas_diff_to_frame cur prev rows cols fr) t) cur"
    using assms(7) unfolding run displays_def t2_def by (auto simp: t1(2) t0_def in_rect_cells)
  show "vt_style (vt_run (canvas_diff_to_frame cur prev rows cols fr) t) = plain_style" unfolding run t2_def by simp
qed

section \<open>Renderer, queue, writer and terminal\<close>

text \<open>
  The render loop enqueues a frame per turn, the writer thread takes the oldest and writes it out.
  \<open>sc_dropped\<close> counts the frames the queue threw away.
\<close>

record screen =
  sc_renderer :: renderer
  sc_queue :: "string list"
  sc_dropped :: nat
  sc_vt :: vt

definition screen_render :: "(LayoutRect \<Rightarrow> LayoutRect \<Rightarrow> Canvas \<Rightarrow> Canvas) \<Rightarrow> int \<Rightarrow> int \<Rightarrow> screen \<Rightarrow> screen" where
  "screen_render draw cols rows s = (case render draw cols rows (sc_renderer s) of (frame, r) \<Rightarrow>
     s\<lparr>sc_renderer := r, sc_queue := enqueue_frame frame (sc_queue s),
       sc_dropped := sc_dropped s + (length (sc_queue s) - length (drop_queued (sc_queue s)))\<rparr>)"

definition screen_write :: "screen \<Rightarrow> screen" where
  "screen_write s = (case sc_queue s of [] \<Rightarrow> s | f # q \<Rightarrow> s\<lparr>sc_queue := q, sc_vt := vt_run f (sc_vt s)\<rparr>)"

inductive screen_run :: "screen \<Rightarrow> bool" where
  run_start: "vt_style t = plain_style \<Longrightarrow> screen_run \<lparr>sc_renderer = renderer_new, sc_queue = [], sc_dropped = 0, sc_vt = t\<rparr>"
| run_render: "screen_run s \<Longrightarrow> 0 \<le> cols \<Longrightarrow> cols < 2 ^ 16 \<Longrightarrow> rows < 2 ^ 16 \<Longrightarrow>
    drawable (max 5 rows) cols (rd_prev_canvas (sc_renderer (screen_render draw cols rows s))) \<Longrightarrow> screen_run (screen_render draw cols rows s)"
| run_write: "screen_run s \<Longrightarrow> screen_run (screen_write s)"

lemma drop_queued_bound: "length (drop_queued q) < kMaxQueuedFrames"
  by (induction q) (auto simp: kMaxQueuedFrames_def)

lemma drop_queued_suffix: "\<exists>p. q = p @ drop_queued q"
proof (induction q)
  case (Cons f q)
  then obtain p where "q = p @ drop_queued q" by blast
  then have "f # q = (if kMaxQueuedFrames \<le> length (f # q) then f # p else []) @ drop_queued (f # q)" by simp
  then show ?case by (rule exI)
qed simp

lemma enqueue_length: "length q \<le> kMaxQueuedFrames \<Longrightarrow> length (enqueue_frame f q) \<le> kMaxQueuedFrames"
  using drop_queued_bound [of q] by (auto simp: enqueue_frame_def)

definition screen_ok :: "screen \<Rightarrow> bool" where
  "screen_ok s \<longleftrightarrow> (let r = sc_renderer s; t = fold vt_run (sc_queue s) (sc_vt s)
     in vt_style t = plain_style \<and> displays (rd_last_rows r) (rd_last_cols r) t (rd_prev_canvas r))"

lemma enqueue_kept:
  "length (drop_queued q) = length q \<Longrightarrow> fold vt_run (enqueue_frame f q) t = vt_run f (fold vt_run q t)"
proof -
  assume "length (drop_queued q) = length q"
  moreover obtain p where p: "q = p @ drop_queued q" using drop_queued_suffix [of q] by blast
  ultimately have "p = []" by (metis add_cancel_right_left length_0_conv length_append)
  with p have "drop_queued q = q" by simp
  then show ?thesis by (simp add: enqueue_frame_def)
qed

lemma screen_ok_render:
  assumes "screen_ok s" "0 \<le> cols" "cols < 2 ^ 16" "rows < 2 ^ 16"
    "drawable (max 5 rows) cols (rd_prev_canvas (sc_renderer (screen_render draw cols rows s)))"
    "length (drop_queued (sc_queue s)) = length (sc_queue s)"
  shows "screen_ok (screen_render draw cols rows s)"
proof -
  let ?r = "sc_renderer s" and ?t = "fold vt_run (sc_queue s) (sc_vt s)"
  let ?s = "screen_render draw cols rows s"
  have b: "0 \<le> max 5 rows" "max 5 rows < 2 ^ 31 - 1" "0 \<le> cols" "cols < 2 ^ 31 - 1" using assms(2-4) by auto
  have plain: "vt_style ?t = plain_style" using assms(1) by (simp add: screen_ok_def Let_def)
  obtain prev fr where f: "fst (render draw cols rows ?r) = canvas_diff_to_frame (rd_prev_canvas (sc_renderer ?s)) prev (max 5 rows) cols fr"
    "fr \<or> displays (max 5 rows) cols ?t prev" "rd_last_cols (sc_renderer ?s) = cols" "rd_last_rows (sc_renderer ?s) = max 5 rows"
    using assms(1) by (auto simp: screen_render_def render_def Let_def screen_ok_def)
  have t: "fold vt_run (sc_queue ?s) (sc_vt ?s) = vt_run (fst (render draw cols rows ?r)) ?t"
    using enqueue_kept [OF assms(6), of "fst (render draw cols rows ?r)" "sc_vt s"] by (simp add: screen_render_def case_prod_beta)
  from frame_shows_canvas [OF assms(5) b plain f(2)] show ?thesis unfolding screen_ok_def Let_def t f(1,3,4) by blast
qed

lemma screen_run_ok: "screen_run s \<Longrightarrow> sc_dropped s = 0 \<Longrightarrow> screen_ok s"
proof (induction rule: screen_run.induct)
  case (run_start t)
  then show ?case by (simp add: screen_ok_def displays_def renderer_new_def)
next
  case (run_render s cols rows draw)
  have "length (drop_queued (sc_queue s)) \<le> length (sc_queue s)" using drop_queued_suffix [of "sc_queue s"] by (metis length_append le_add2)
  then have "sc_dropped s = 0" "length (drop_queued (sc_queue s)) = length (sc_queue s)"
    using run_render.prems by (auto simp: screen_render_def split: prod.splits)
  with run_render show ?case by (intro screen_ok_render) auto
next
  case (run_write s)
  then show ?case by (auto simp: screen_write_def screen_ok_def Let_def split: list.splits)
qed


section \<open>A run\<close>

abbreviation put_A :: "Canvas \<Rightarrow> Canvas" where
  "put_A \<equiv> canvas_put 0 0 ''A'' plain_style"

abbreviation draw_A :: "LayoutRect \<Rightarrow> LayoutRect \<Rightarrow> Canvas \<Rightarrow> Canvas" where
  "draw_A \<equiv> \<lambda>_ _. put_A"

abbreviation canvas_A :: Canvas where
  "canvas_A \<equiv> put_A (Canvas_new 1 5)"

abbreviation screen_0 :: screen where
  "screen_0 \<equiv> \<lparr>sc_renderer = renderer_new, sc_queue = [], sc_dropped = 0,
     sc_vt = \<lparr>vt_cell = \<lambda>_ _. blank_cell, vt_x = 0, vt_y = 0, vt_style = plain_style\<rparr>\<rparr>"

lemma canvas_A: "canvas_at canvas_A x y = (if x = 0 \<and> y = 0 then \<lparr>cl_content = ''A'', cl_style = plain_style\<rparr> else blank_cell)"
proof -
  have "x = 0 \<Longrightarrow> 0 \<le> y \<Longrightarrow> y < 5 \<Longrightarrow> y \<noteq> 0 \<Longrightarrow> nat y \<noteq> 0 \<and> nat y < 5" by auto
  then show ?thesis
    by (auto simp: canvas_at_def canvas_put_def Canvas_new_def is_in_bounds_def is_image_occupied_def cell_index_def nth_Cons'
        simp del: nat_eq_iff2)
qed

lemma canvas_A_drawable: "drawable rows cols canvas_A"
proof -
  have "style_ok plain_style" by (simp add: style_ok_def color_ok_def plain_style_def)
  then have "cell_ok (canvas_at canvas_A x y)" for x y
    unfolding canvas_A by (simp add: cell_ok_def blank_cell_def glyph_def utf8_char_len_def byte_def)
  then show ?thesis by (simp add: drawable_def canvas_put_def Canvas_new_def)
qed

lemma clear_A: "canvas_clear blank_cell canvas_A = Canvas_new 1 5" "canvas_clear blank_cell (Canvas_new w h) = Canvas_new w h"
  by (simp_all add: canvas_clear_def canvas_put_def Canvas_new_def)

lemma resize_new: "canvas_resize w h (Canvas_new v k) = Canvas_new w h"
  by (simp add: canvas_resize_def Canvas_new_def)

lemma diff_cells_same: "fold (diff_cell c c False) cs s = s"
  by (induction cs) (auto simp: diff_cell_def Let_def)

lemma unchanged_frame: "canvas_diff_to_frame c c rows cols False = append_cup (concat (map snd (cv_graphics c))) rows cols"
  by (simp add: canvas_diff_to_frame_def diff_cells_same)

lemma render_A:
  "render draw_A 1 5 renderer_new = (canvas_diff_to_frame canvas_A (Canvas_new 1 5) 5 1 True,
    \<lparr>rd_canvas = Canvas_new 1 5, rd_prev_canvas = canvas_A, rd_last_cols = 1, rd_last_rows = 5\<rparr>)"
  by (simp add: render_def renderer_new_def resize_new clear_A Let_def)

lemma render_A_again:
  assumes "c = Canvas_new 1 5 \<or> c = canvas_A"
  shows "render draw_A 1 5 \<lparr>rd_canvas = c, rd_prev_canvas = canvas_A, rd_last_cols = 1, rd_last_rows = 5\<rparr> =
    (append_cup [] 5 1, \<lparr>rd_canvas = canvas_A, rd_prev_canvas = canvas_A, rd_last_cols = 1, rd_last_rows = 5\<rparr>)"
proof -
  have "cv_graphics canvas_A = []" by (simp add: canvas_put_def Canvas_new_def)
  moreover have "canvas_clear blank_cell c = Canvas_new 1 5" using assms clear_A by auto
  ultimately show ?thesis by (simp add: render_def unchanged_frame Let_def)
qed

lemma cup_5_1: "append_cup f 5 1 = f @ ESC # ''[5;1H''"
  by (simp add: append_cup_def Let_def dec_int_def dec.simps digit_char_lits)

lemma frame_A: "canvas_diff_to_frame canvas_A (Canvas_new 1 5) 5 1 True \<noteq> []"
  by (simp add: canvas_diff_to_frame_def Let_def cup_5_1)

lemma screen_A_run:
  "screen_run (screen_render draw_A 1 5 screen_0)"
  "screen_run ((screen_render draw_A 1 5 ^^ 5) screen_0)"
proof -
  have r: "screen_run (screen_render draw_A 1 5 s)"
    if "screen_run s" "sc_renderer s = renderer_new \<or> rd_last_cols (sc_renderer s) = 1 \<and> rd_last_rows (sc_renderer s) = 5 \<and>
      rd_prev_canvas (sc_renderer s) = canvas_A \<and> (rd_canvas (sc_renderer s) = Canvas_new 1 5 \<or> rd_canvas (sc_renderer s) = canvas_A)" for s
  proof (rule run_render [OF that(1)])
    show "drawable (max 5 5) 1 (rd_prev_canvas (sc_renderer (screen_render draw_A 1 5 s)))"
      using that(2) render_A render_A_again [of "rd_canvas (sc_renderer s)"] canvas_A_drawable
      by (cases "sc_renderer s") (auto simp: screen_render_def)
  qed simp_all
  have s0: "screen_run screen_0" by (rule run_start) simp
  then show 1: "screen_run (screen_render draw_A 1 5 screen_0)" by (rule r) simp
  have "screen_run ((screen_render draw_A 1 5 ^^ n) screen_0) \<and> (\<exists>c. (c = Canvas_new 1 5 \<or> c = canvas_A) \<and>
      sc_renderer ((screen_render draw_A 1 5 ^^ n) screen_0) = \<lparr>rd_canvas = c, rd_prev_canvas = canvas_A, rd_last_cols = 1, rd_last_rows = 5\<rparr>)"
    if "0 < n" for n
    using that
  proof (induction n)
    case (Suc n)
    show ?case
    proof (cases "n = 0")
      case True
      then show ?thesis using 1 by (auto simp: screen_render_def render_A)
    next
      case False
      let ?s = "(screen_render draw_A 1 5 ^^ n) screen_0"
      from False Suc.IH obtain c where c: "screen_run ?s" "c = Canvas_new 1 5 \<or> c = canvas_A"
        "sc_renderer ?s = \<lparr>rd_canvas = c, rd_prev_canvas = canvas_A, rd_last_cols = 1, rd_last_rows = 5\<rparr>" by auto
      then have "screen_run (screen_render draw_A 1 5 ?s)" by (intro r) auto
      moreover have "sc_renderer (screen_render draw_A 1 5 s) = \<lparr>rd_canvas = canvas_A, rd_prev_canvas = canvas_A, rd_last_cols = 1, rd_last_rows = 5\<rparr>"
        if "sc_renderer s = sc_renderer ?s" for s
        using that c(2,3) by (auto simp: screen_render_def render_A_again)
      ultimately show ?thesis by auto
    qed
  qed simp
  from this [of 5] show "screen_run ((screen_render draw_A 1 5 ^^ 5) screen_0)" by simp
qed


text \<open>C28: the queue throws the oldest frame away when four are pending, yet a frame is only the difference to the one
  before it. Five turns of the same picture without a write lose its first, complete frame; the writer then catches
  up, nothing is pending, and the terminal still does not show the picture.\<close>

theorem dropped_frame_stale:
  "\<exists>s. screen_run s \<and> sc_queue s = [] \<and>
    \<not> displays (rd_last_rows (sc_renderer s)) (rd_last_cols (sc_renderer s)) (sc_vt s) (rd_prev_canvas (sc_renderer s))"
proof -
  let ?m = "append_cup [] 5 1" and ?s = "(screen_render draw_A 1 5 ^^ 5) screen_0"
  let ?w = "screen_write (screen_write (screen_write (screen_write ?s)))"
  have m: "?m \<noteq> []" by (simp add: cup_5_1)
  have s: "sc_queue ?s = [?m, ?m, ?m, ?m]" "sc_vt ?s = sc_vt screen_0"
    "sc_renderer ?s = \<lparr>rd_canvas = canvas_A, rd_prev_canvas = canvas_A, rd_last_cols = 1, rd_last_rows = 5\<rparr>"
    using frame_A m by (simp_all add: numeral_eq_Suc screen_render_def render_A render_A_again enqueue_frame_def kMaxQueuedFrames_def)
  have "screen_run ?w" by (intro run_write screen_A_run)
  moreover have "sc_queue ?w = []" "sc_renderer ?w = sc_renderer ?s" by (simp_all add: screen_write_def s(1))
  moreover have "vt_cell (sc_vt ?w) 0 0 = blank_cell"
    using vt_run_cup(2) [of 5 1 "[]"] by (simp add: screen_write_def s(1,2))
  moreover have "shown (canvas_at canvas_A 0 0) \<noteq> blank_cell" by (simp add: canvas_A shown_def blank_cell_def)
  ultimately have "screen_run ?w \<and> sc_queue ?w = [] \<and>
    \<not> displays (rd_last_rows (sc_renderer ?w)) (rd_last_cols (sc_renderer ?w)) (sc_vt ?w) (rd_prev_canvas (sc_renderer ?w))"
    by (simp add: s(3) displays_def) (metis order_refl zero_less_numeral zero_less_one)
  then show ?thesis by blast
qed

end
