(* ===== verification/Text_Regex.thy ===== *)
theory Text_Regex
  imports Prelude
begin

unbundle bit_operations_syntax

text \<open>
  The regular expression face of the text matcher (\<open>sublimation/src/text/match.c\<close>, \<open>sublimation/src/text/field.inc\<close>):
  bracket expressions, the parser that builds the position automaton of a pattern, and the bit-parallel
  simulations. A byte set is a word of 256 bits, a position set one of 128; the engine's width is the field
  \<open>g_nwords\<close>. The generated case folding tables are arguments.
\<close>

type_synonym byteset = "256 word"
type_synonym pset = "128 word"

section \<open>UTF-8 and case folding\<close>

text \<open>The length of the character at the start of \<open>p\<close> and its code point, length 0 when it is not well formed.\<close>

definition u8_decode :: "string \<Rightarrow> nat \<times> u32" where
  "u8_decode p =
     (if p = [] then (0, 0)
      else let c = byte (hd p)
        in if c < 0x80 then (1, of_nat c)
           else let (n, v) = (if c div 32 = 6 then (2, c mod 32) else if c div 16 = 14 then (3, c mod 16)
                              else if c div 8 = 30 then (4, c mod 8) else (0, 0))
             in if n = 0 \<or> length p < n then (0, 0)
                else if list_all (\<lambda>i. byte (p ! i) div 64 = 2) [1..<n]
                then (n, fold (\<lambda>i v. push_bit 6 v OR of_nat (byte (p ! i) mod 64)) [1..<n] (of_nat v)) else (0, 0))"

definition u8_encode :: "u32 \<Rightarrow> string" where
  "u8_encode cp =
     (let b = (\<lambda>lead k m. char_of (lead + unat (drop_bit k cp) mod m))
      in if cp < 0x80 then [char_of (unat cp)]
         else if cp < 0x800 then [b 0xC0 6 256, b 0x80 0 64]
         else if cp < 0x10000 then [b 0xE0 12 256, b 0x80 6 64, b 0x80 0 64]
         else if cp < 0x110000 then [b 0xF0 18 256, b 0x80 12 64, b 0x80 6 64, b 0x80 0 64] else [])"

text \<open>Binary search over a table ordered by code point.\<close>

function fold_search :: "(u32 \<times> 'a) list \<Rightarrow> u32 \<Rightarrow> nat \<Rightarrow> nat \<Rightarrow> 'a option" where
  "fold_search tbl cp lo hi =
     (if lo < hi
      then let mid = lo + (hi - lo) div 2
        in if fst (tbl ! mid) = cp then Some (snd (tbl ! mid))
           else if fst (tbl ! mid) < cp then fold_search tbl cp (mid + 1) hi else fold_search tbl cp lo mid
      else None)"
  by pat_completeness auto
termination by (relation "measure (\<lambda>(_, _, lo, hi). hi - lo)") auto

declare fold_search.simps [simp del]

record fold_tables =
  ft_last :: "(u32 \<times> u8) list"
  ft_alt :: "(u32 \<times> u32 list) list"

definition fold_alt_last :: "fold_tables \<Rightarrow> u32 \<Rightarrow> u8" where
  "fold_alt_last ft cp = (case fold_search (ft_last ft) cp 0 (length (ft_last ft)) of Some b \<Rightarrow> b | None \<Rightarrow> 0)"

definition fold_alt_members :: "fold_tables \<Rightarrow> u32 \<Rightarrow> u32 list" where
  "fold_alt_members ft cp =
     (case fold_search (ft_alt ft) cp 0 (length (ft_alt ft)) of Some ms \<Rightarrow> filter (\<lambda>m. m \<noteq> 0) (take 3 ms) | None \<Rightarrow> [])"

section \<open>Byte sets\<close>

definition gset_byte :: "nat \<Rightarrow> bool \<Rightarrow> byteset \<Rightarrow> byteset" where
  "gset_byte b icase S =
     (let S = set_bit b S;
          sw = (if 0x61 \<le> b \<and> b \<le> 0x7A then b - 32 else if 0x41 \<le> b \<and> b \<le> 0x5A then b + 32 else b)
      in if icase \<and> sw \<noteq> b then set_bit sw S else S)"

definition set_range :: "nat \<Rightarrow> nat \<Rightarrow> bool \<Rightarrow> byteset \<Rightarrow> byteset" where
  "set_range lo hi icase S = fold (\<lambda>b. gset_byte b icase) [lo..<hi + 1] S"

definition shorthand_set :: "char \<Rightarrow> byteset option" where
  "shorthand_set c =
     (let w = gset_byte 0x5F False (set_range 0x61 0x7A False (set_range 0x41 0x5A False (set_range 0x30 0x39 False 0)));
          s = fold (\<lambda>b. gset_byte b False) [0x20, 0x09, 0x0A, 0x0B, 0x0C, 0x0D] 0
      in if c = CHR ''W'' then Some (NOT w) else if c = CHR ''w'' then Some w
         else if c = CHR ''S'' then Some (NOT s) else if c = CHR ''s'' then Some s else None)"

definition posix_class :: "string \<Rightarrow> (nat \<Rightarrow> bool) option" where
  "posix_class nm =
     (let digit = (\<lambda>b. 0x30 \<le> b \<and> b \<le> 0x39); upper = (\<lambda>b. 0x41 \<le> b \<and> b \<le> 0x5A); lower = (\<lambda>b. 0x61 \<le> b \<and> b \<le> 0x7A)
      in if nm = ''alpha'' then Some (\<lambda>b. upper b \<or> lower b) else if nm = ''digit'' then Some digit
         else if nm = ''alnum'' then Some (\<lambda>b. digit b \<or> upper b \<or> lower b)
         else if nm = ''upper'' then Some upper else if nm = ''lower'' then Some lower
         else if nm = ''space'' then Some (\<lambda>b. b = 0x20 \<or> 9 \<le> b \<and> b \<le> 13)
         else if nm = ''blank'' then Some (\<lambda>b. b = 0x20 \<or> b = 9)
         else if nm = ''print'' then Some (\<lambda>b. 0x20 \<le> b \<and> b \<le> 0x7E)
         else if nm = ''graph'' then Some (\<lambda>b. 0x21 \<le> b \<and> b \<le> 0x7E)
         else if nm = ''cntrl'' then Some (\<lambda>b. b \<le> 0x1F \<or> b = 0x7F)
         else if nm = ''punct'' then Some (\<lambda>b. 0x21 \<le> b \<and> b \<le> 0x7E \<and> \<not> (digit b \<or> upper b \<or> lower b))
         else if nm = ''xdigit'' then Some (\<lambda>b. digit b \<or> 0x41 \<le> b \<and> b \<le> 0x46 \<or> 0x61 \<le> b \<and> b \<le> 0x66)
         else None)"

text \<open>\<open>None\<close> for an unknown class name, index 0 when there is no class at \<open>i\<close>.\<close>

definition posix_class_span :: "string \<Rightarrow> nat \<Rightarrow> bool \<Rightarrow> byteset \<Rightarrow> (nat \<times> byteset) option" where
  "posix_class_span p i icase S =
     (if i + 1 \<ge> length p \<or> p ! i \<noteq> CHR ''['' \<or> p ! (i + 1) \<noteq> CHR '':'' then Some (0, S)
      else case find (\<lambda>j. p ! j = CHR '':'' \<and> p ! (j + 1) = CHR '']'') [i + 2..<length p - 1] of
          None \<Rightarrow> Some (0, S)
        | Some j \<Rightarrow> (case posix_class (take (j - (i + 2)) (drop (i + 2) p)) of
              None \<Rightarrow> None
            | Some f \<Rightarrow> Some (j + 2, fold (\<lambda>b S. if f b then gset_byte b icase S else S) [0..<256] S)))"

lemma posix_class_span_forward: "posix_class_span p i icase S = Some (j, S') \<Longrightarrow> j = 0 \<or> i < j"
  by (auto simp: posix_class_span_def find_Some_iff split: if_splits option.splits)

function class_items :: "string \<Rightarrow> nat \<Rightarrow> bool \<Rightarrow> bool \<Rightarrow> byteset \<Rightarrow> (nat \<times> byteset) option" where
  "class_items p i is_first icase S =
     (if i < length p \<and> (is_first \<or> p ! i \<noteq> CHR '']'')
      then case posix_class_span p i icase S of
          None \<Rightarrow> None
        | Some (after, S) \<Rightarrow>
            if after \<noteq> 0 then class_items p after False icase S
            else if i + 2 < length p \<and> p ! (i + 1) = CHR ''-'' \<and> p ! (i + 2) \<noteq> CHR '']''
            then class_items p (i + 3) False icase (set_range (byte (p ! i)) (byte (p ! (i + 2))) icase S)
            else class_items p (i + 1) False icase (gset_byte (byte (p ! i)) icase S)
      else Some (i, S))"
  by pat_completeness auto
termination
  by (relation "measure (\<lambda>(p, i, _). length p - i)") (auto dest!: posix_class_span_forward)

declare class_items.simps [simp del]

text \<open>The index behind the bracket expression that opens at \<open>i\<close>, 0 when it is malformed, and its set.\<close>

definition class_span :: "string \<Rightarrow> nat \<Rightarrow> byteset \<Rightarrow> bool \<Rightarrow> nat \<times> byteset" where
  "class_span p i S icase =
     (let i = i + 1; neg = (i < length p \<and> p ! i = CHR ''^''); i = (if neg then i + 1 else i)
      in case class_items p i True icase S of
          None \<Rightarrow> (0, S)
        | Some (i, S) \<Rightarrow> if i \<ge> length p then (0, S) else (i + 1, if neg then NOT S else S))"

section \<open>The automaton\<close>

record gnfa =
  g_setb :: "byteset list"
  g_follow :: "pset list"
  g_first :: pset
  g_last :: pset
  g_npos :: nat
  g_nwords :: nat
  g_nullable :: bool
  g_ok :: bool
  g_anchored_start :: bool
  g_anchored_end :: bool
  g_icase :: bool

record gattr =
  a_nullable :: bool
  a_first :: pset
  a_last :: pset

record gpar =
  x_p :: string
  x_g :: gnfa
  x_fold_left :: nat
  x_fold_byte :: nat

definition SEARCH_MAX_POS :: nat where
  "SEARCH_MAX_POS = 128"

definition gnfa_zero :: gnfa where
  "gnfa_zero = \<lparr>g_setb = replicate SEARCH_MAX_POS 0, g_follow = replicate SEARCH_MAX_POS 0, g_first = 0, g_last = 0, g_npos = 0,
     g_nwords = 0, g_nullable = False, g_ok = False, g_anchored_start = False, g_anchored_end = False, g_icase = False\<rparr>"

definition no_attr :: gattr where
  "no_attr = \<lparr>a_nullable = False, a_first = 0, a_last = 0\<rparr>"

definition one_attr :: "nat \<Rightarrow> gattr" where
  "one_attr p = \<lparr>a_nullable = False, a_first = set_bit p 0, a_last = set_bit p 0\<rparr>"

definition ps_elems :: "nat \<Rightarrow> pset \<Rightarrow> nat list" where
  "ps_elems nwords a = filter (\<lambda>i. bit a i) [0..<64 * nwords]"

text \<open>The byte under the cursor, NUL at the end of the pattern.\<close>

definition cur :: "string \<Rightarrow> char" where
  "cur p = (case p of [] \<Rightarrow> NUL | c # _ \<Rightarrow> c)"

definition adv :: "nat \<Rightarrow> gpar \<Rightarrow> gpar" where
  "adv n x = x\<lparr>x_p := drop n (x_p x)\<rparr>"

definition g_map :: "(gnfa \<Rightarrow> gnfa) \<Rightarrow> gpar \<Rightarrow> gpar" where
  "g_map f x = x\<lparr>x_g := f (x_g x)\<rparr>"

definition g_fail :: "gpar \<Rightarrow> gpar" where
  "g_fail = g_map (\<lambda>g. g\<lparr>g_ok := False\<rparr>)"

definition full :: "gnfa \<Rightarrow> bool" where
  "full g \<longleftrightarrow> g_nwords g * 64 \<le> g_npos g"

definition alloc_pos :: "byteset \<Rightarrow> gnfa \<Rightarrow> gnfa" where
  "alloc_pos S g = g\<lparr>g_setb := (g_setb g)[g_npos g := S], g_npos := g_npos g + 1\<rparr>"

text \<open>Every position of \<open>from\<close> is followed by \<open>to\<close>.\<close>

definition link :: "pset \<Rightarrow> pset \<Rightarrow> gnfa \<Rightarrow> gnfa" where
  "link src dst g = g\<lparr>g_follow := fold (\<lambda>i fo. fo[i := fo ! i OR dst]) (ps_elems (g_nwords g) src) (g_follow g)\<rparr>"

definition seq_attr :: "gattr \<Rightarrow> gattr \<Rightarrow> gattr" where
  "seq_attr a b = \<lparr>a_nullable = a_nullable a \<and> a_nullable b,
     a_first = (if a_nullable a then a_first a OR a_first b else a_first a),
     a_last = (if a_nullable b then a_last b OR a_last a else a_last b)\<rparr>"

definition alt_attr :: "gattr \<Rightarrow> gattr \<Rightarrow> gattr" where
  "alt_attr a b = \<lparr>a_nullable = a_nullable a \<or> a_nullable b, a_first = a_first a OR a_first b, a_last = a_last a OR a_last b\<rparr>"

fun g_bytes_loop :: "string \<Rightarrow> nat option \<Rightarrow> nat option \<Rightarrow> gpar \<Rightarrow> gattr \<times> gpar" where
  "g_bytes_loop [] first_pos prev x =
     (case (first_pos, prev) of (Some f, Some l) \<Rightarrow> (\<lparr>a_nullable = False, a_first = set_bit f 0, a_last = set_bit l 0\<rparr>, x)
      | _ \<Rightarrow> (no_attr\<lparr>a_nullable := True\<rparr>, x))"
| "g_bytes_loop (c # cs) first_pos prev x =
     (if full (x_g x) then (no_attr, g_fail x)
      else let p = g_npos (x_g x);
               x = g_map (alloc_pos (gset_byte (byte c) False 0)) x;
               x = (case prev of None \<Rightarrow> x | Some q \<Rightarrow> g_map (\<lambda>g. g\<lparr>g_follow := (g_follow g)[q := set_bit p (g_follow g ! q)]\<rparr>) x)
        in g_bytes_loop cs (case first_pos of None \<Rightarrow> Some p | Some f \<Rightarrow> Some f) (Some p) x)"

definition g_bytes :: "string \<Rightarrow> gpar \<Rightarrow> gattr \<times> gpar" where
  "g_bytes cs x = g_bytes_loop cs None None x"

text \<open>The branches of a case fold that needs an alternation.\<close>

fun g_members :: "u32 list \<Rightarrow> gattr \<Rightarrow> gpar \<Rightarrow> gattr \<times> gpar" where
  "g_members [] a x = (a, x)"
| "g_members (m # ms) a x =
     (if \<not> g_ok (x_g x) then (a, x)
      else if u8_encode m = [] then g_members ms a x
      else case g_bytes (u8_encode m) x of (b, x) \<Rightarrow>
        g_members ms (a\<lparr>a_first := a_first a OR a_first b, a_last := a_last a OR a_last b\<rparr>) x)"

definition fold_branches :: "fold_tables \<Rightarrow> gpar \<Rightarrow> (gattr \<times> gpar) option" where
  "fold_branches ft x =
     (if g_icase (x_g x) \<and> 0xC0 \<le> byte (cur (x_p x)) \<and> x_fold_left x = 0
      then let (n, cp) = u8_decode (x_p x); ms = (if 2 \<le> n then fold_alt_members ft cp else [])
        in if ms = [] then None
           else case g_bytes (take n (x_p x)) x of (b, x) \<Rightarrow>
             (case g_members ms \<lparr>a_nullable = False, a_first = a_first b, a_last = a_last b\<rparr> x of (a, x) \<Rightarrow>
               Some (a, if g_ok (x_g x) then adv n x else x))
      else None)"

text \<open>The set of a single position, and the pattern behind it.\<close>

definition literal_set :: "fold_tables \<Rightarrow> gpar \<Rightarrow> byteset \<times> gpar" where
  "literal_set ft x =
     (let b = byte (cur (x_p x)); icase = g_icase (x_g x); S = gset_byte b icase 0
      in if \<not> icase then (S, adv 1 x)
         else if 0 < x_fold_left x
         then let x = x\<lparr>x_fold_left := x_fold_left x - 1\<rparr>
           in (if x_fold_left x = 0 then gset_byte (x_fold_byte x) False S else S, adv 1 x)
         else if 0xC0 \<le> b
         then let (n, cp) = u8_decode (x_p x); alt = (if 2 \<le> n then fold_alt_last ft cp else 0)
           in (S, adv 1 (if alt \<noteq> 0 then x\<lparr>x_fold_left := n - 1, x_fold_byte := unat alt\<rparr> else x))
         else (S, adv 1 x))"

definition atom_set :: "fold_tables \<Rightarrow> gpar \<Rightarrow> byteset \<times> gpar" where
  "atom_set ft x =
     (let c = cur (x_p x)
      in if c = CHR ''.'' then (NOT 0, adv 1 x)
         else if c = CHR ''[''
         then (case class_span (x_p x) 0 0 (g_icase (x_g x)) of (e, S) \<Rightarrow>
           if e = 0 then (S, g_fail (adv (length (x_p x)) x)) else (S, adv e x))
         else if c = BSLASH \<and> 2 \<le> length (x_p x)
         then (case shorthand_set (x_p x ! 1) of Some S \<Rightarrow> (S, adv 2 x) | None \<Rightarrow> literal_set ft (adv 1 x))
         else literal_set ft x)"

text \<open>The copies of a bounded repeat from the second on.\<close>

fun g_copies :: "byteset \<Rightarrow> nat \<Rightarrow> nat list \<Rightarrow> gattr \<Rightarrow> gpar \<Rightarrow> gattr \<times> gpar" where
  "g_copies S lo [] a x = (a, x)"
| "g_copies S lo (ci # rest) a x =
     (if full (x_g x) then (a, g_fail x)
      else let b = (one_attr (g_npos (x_g x)))\<lparr>a_nullable := lo \<le> ci\<rparr>;
               x = g_map (\<lambda>g. link (a_last a) (a_first b) (alloc_pos S g)) x
        in g_copies S lo rest (seq_attr a b) x)"

definition digits :: "gpar \<Rightarrow> string \<times> gpar" where
  "digits x = (takeWhile is_digit (x_p x), x\<lparr>x_p := dropWhile is_digit (x_p x)\<rparr>)"

text \<open>\<open>{m}\<close>, \<open>{m,n}\<close> behind a single position; \<open>{m,}\<close> is refused.\<close>

definition g_bound :: "nat \<Rightarrow> gattr \<Rightarrow> gpar \<Rightarrow> gattr \<times> gpar" where
  "g_bound pos_before a x =
     (if g_npos (x_g x) \<noteq> pos_before + 1 then (a, g_fail x)
      else case digits (adv 1 x) of (lo_ds, x) \<Rightarrow>
        let lo = undec lo_ds;
            (hi, x) = (if cur (x_p x) = CHR '',''
              then (case digits (adv 1 x) of (hi_ds, x) \<Rightarrow> (if hi_ds = [] then None else Some (undec hi_ds), x))
              else (Some lo, x))
        in case hi of None \<Rightarrow> (a, g_fail x)
         | Some hi \<Rightarrow>
           if lo_ds = [] \<or> cur (x_p x) \<noteq> CHR ''}'' \<or> 60 < hi then (a, g_fail x)
           else if hi = 0 then (no_attr\<lparr>a_nullable := True\<rparr>, g_map (\<lambda>g. g\<lparr>g_npos := pos_before\<rparr>) (adv 1 x))
           else g_copies (g_setb (x_g x) ! pos_before) lo [1..<hi] (if lo = 0 then a\<lparr>a_nullable := True\<rparr> else a) (adv 1 x))"

definition g_quantify :: "nat \<Rightarrow> gattr \<Rightarrow> gpar \<Rightarrow> gattr \<times> gpar" where
  "g_quantify pos_before a x =
     (let c = cur (x_p x)
      in if c = CHR ''*'' \<or> c = CHR ''+''
         then (if c = CHR ''*'' then a\<lparr>a_nullable := True\<rparr> else a, g_map (link (a_last a) (a_first a)) (adv 1 x))
         else if c = CHR ''?'' then (a\<lparr>a_nullable := True\<rparr>, adv 1 x)
         else if c = CHR ''{'' then g_bound pos_before a x
         else (a, x))"

definition eps_attr :: gattr where
  "eps_attr = no_attr\<lparr>a_nullable := True\<rparr>"

text \<open>The recursive descent. The first argument bounds its depth; \<open>None\<close> says it did not suffice.\<close>

fun g_atom :: "nat \<Rightarrow> fold_tables \<Rightarrow> gpar \<Rightarrow> (gattr \<times> gpar) option"
  and g_repeat :: "nat \<Rightarrow> fold_tables \<Rightarrow> gpar \<Rightarrow> (gattr \<times> gpar) option"
  and g_concat :: "nat \<Rightarrow> fold_tables \<Rightarrow> bool \<Rightarrow> gattr \<Rightarrow> gpar \<Rightarrow> (gattr \<times> gpar) option"
  and g_alt :: "nat \<Rightarrow> fold_tables \<Rightarrow> gpar \<Rightarrow> (gattr \<times> gpar) option"
  and g_alts :: "nat \<Rightarrow> fold_tables \<Rightarrow> gattr \<Rightarrow> gpar \<Rightarrow> (gattr \<times> gpar) option" where
  "g_atom 0 ft x = None"
| "g_atom (Suc n) ft x =
     (if cur (x_p x) = CHR ''(''
      then (case g_alt n ft (adv 1 x) of None \<Rightarrow> None
        | Some (a, x) \<Rightarrow> Some (a, if cur (x_p x) = CHR '')'' then adv 1 x else g_fail x))
      else case fold_branches ft x of Some r \<Rightarrow> Some r
        | None \<Rightarrow> if full (x_g x) then Some (no_attr, g_fail x)
          else (case atom_set ft x of (S, x) \<Rightarrow> Some (one_attr (g_npos (x_g x)), g_map (alloc_pos S) x)))"
| "g_repeat 0 ft x = None"
| "g_repeat (Suc n) ft x =
     (case g_atom n ft x of None \<Rightarrow> None | Some (a, x') \<Rightarrow> Some (g_quantify (g_npos (x_g x)) a x'))"
| "g_concat 0 ft any a x = None"
| "g_concat (Suc n) ft any a x =
     (if x_p x \<noteq> [] \<and> cur (x_p x) \<noteq> CHR ''|'' \<and> cur (x_p x) \<noteq> CHR '')'' \<and> g_ok (x_g x)
      then (case g_repeat n ft x of None \<Rightarrow> None
        | Some (b, x) \<Rightarrow> if \<not> any then g_concat n ft True b x
            else g_concat n ft True (seq_attr a b) (g_map (link (a_last a) (a_first b)) x))
      else Some (a, x))"
| "g_alt 0 ft x = None"
| "g_alt (Suc n) ft x = (case g_concat n ft False eps_attr x of None \<Rightarrow> None | Some (a, x) \<Rightarrow> g_alts n ft a x)"
| "g_alts 0 ft a x = None"
| "g_alts (Suc n) ft a x =
     (if cur (x_p x) = CHR ''|'' \<and> g_ok (x_g x)
      then (case g_concat n ft False eps_attr (adv 1 x) of None \<Rightarrow> None | Some (b, x) \<Rightarrow> g_alts n ft (alt_attr a b) x)
      else Some (a, x))"

definition parse_fuel :: "string \<Rightarrow> nat" where
  "parse_fuel p = 6 * length p + 6"

text \<open>The automaton of a pattern at a width of \<open>nw\<close> words; the flag says whether it compiled.\<close>

definition build_gnfa_w :: "nat \<Rightarrow> fold_tables \<Rightarrow> string \<Rightarrow> bool \<Rightarrow> (bool \<times> gnfa) option" where
  "build_gnfa_w nw ft pat icase =
     (let g = gnfa_zero\<lparr>g_ok := True, g_icase := icase, g_nwords := nw\<rparr>;
          anch = (pat \<noteq> [] \<and> hd pat = CHR ''^''); s = (if anch then 1 else 0);
          ende = (s < length pat \<and> last pat = CHR ''$''); e = (if ende then length pat - 1 else length pat);
          g = g\<lparr>g_anchored_start := anch, g_anchored_end := ende\<rparr>
      in if 1024 \<le> e - s then Some (False, g)
         else if e = s then Some (True, g\<lparr>g_nullable := True\<rparr>)
         else let buf = take (e - s) (drop s pat)
           in case g_alt (parse_fuel buf) ft \<lparr>x_p = buf, x_g = g, x_fold_left = 0, x_fold_byte = 0\<rparr> of
               None \<Rightarrow> None
             | Some (a, x) \<Rightarrow>
               let g = x_g x
               in if \<not> g_ok g \<or> x_p x \<noteq> [] \<or> g_npos g = 0 then Some (False, g)
                  else Some (True, g\<lparr>g_first := a_first a, g_last := a_last a, g_nullable := a_nullable a\<rparr>))"

definition build_gnfa :: "fold_tables \<Rightarrow> string \<Rightarrow> bool \<Rightarrow> (bool \<times> gnfa) option" where
  "build_gnfa ft pat icase =
     (case build_gnfa_w 1 ft pat icase of None \<Rightarrow> None
      | Some (ok, g) \<Rightarrow> if ok then Some (True, g) else if g_npos g < 64 then Some (False, g) else build_gnfa_w 2 ft pat icase)"

section \<open>The simulations\<close>

type_synonym imap = "char \<Rightarrow> pset"

definition build_imap :: "gnfa \<Rightarrow> imap" where
  "build_imap g c = fold (\<lambda>i I. if bit (g_setb g ! i) (byte c) then set_bit i I else I) [0..<g_npos g] 0"

definition follow_all :: "gnfa \<Rightarrow> pset \<Rightarrow> pset \<Rightarrow> pset" where
  "follow_all g D acc = fold (\<lambda>i r. r OR g_follow g ! i) (ps_elems (g_nwords g) D) acc"

definition reach_compute :: "gnfa \<Rightarrow> pset \<Rightarrow> pset" where
  "reach_compute g D = follow_all g D (g_first g)"

definition gnfa_full_loop :: "gnfa \<Rightarrow> imap \<Rightarrow> string \<Rightarrow> pset \<Rightarrow> pset option" where
  "gnfa_full_loop g I s D = foldl (\<lambda>d c. case d of None \<Rightarrow> None
     | Some D \<Rightarrow> let D = follow_all g D 0 AND I c in if D = 0 then None else Some D) (Some D) s"

definition gnfa_full :: "gnfa \<Rightarrow> imap \<Rightarrow> string \<Rightarrow> bool" where
  "gnfa_full g I hay =
     (if hay = [] then g_nullable g
      else let D = g_first g AND I (hd hay)
        in if D = 0 then False else case gnfa_full_loop g I (tl hay) D of None \<Rightarrow> False | Some D \<Rightarrow> D AND g_last g \<noteq> 0)"

fun start_longest_loop :: "gnfa \<Rightarrow> imap \<Rightarrow> string \<Rightarrow> nat \<Rightarrow> pset option \<Rightarrow> nat option \<Rightarrow> nat option" where
  "start_longest_loop g I [] j D best = best"
| "start_longest_loop g I (c # s) j D best =
     (let cand = (case D of None \<Rightarrow> g_first g | Some D \<Rightarrow> follow_all g D 0); D = cand AND I c
      in if D = 0 then best
         else start_longest_loop g I s (j + 1) (Some D)
           (if D AND g_last g \<noteq> 0 \<and> (\<not> g_anchored_end g \<or> s = []) then Some (j + 1) else best))"

text \<open>The longest match end for a match starting exactly at \<open>start\<close>.\<close>

definition gnfa_start_longest :: "gnfa \<Rightarrow> imap \<Rightarrow> string \<Rightarrow> nat \<Rightarrow> nat option" where
  "gnfa_start_longest g I hay start =
     start_longest_loop g I (drop start hay) start None
       (if g_nullable g \<and> (\<not> g_anchored_end g \<or> start = length hay) then Some start else None)"

end
