(* ===== verification/Text_Glushkov.thy ===== *)
theory Text_Glushkov
  imports Text_Regex
begin

text \<open>
  The mathematics behind the position automaton: the language of a regular expression is the set of words
  spelled by the paths through its positions. Expressions carry the byte set of each position.
\<close>

section \<open>Expressions and languages\<close>

datatype gx = GEps | GPos byteset | GSeq gx gx | GAlt gx gx | GStar gx | GPlus gx | GOpt gx

definition in_set :: "byteset \<Rightarrow> char \<Rightarrow> bool" where
  "in_set S c \<longleftrightarrow> bit S (byte c)"

fun glang :: "gx \<Rightarrow> string set" where
  "glang GEps = {[]}"
| "glang (GPos S) = {[c] | c. in_set S c}"
| "glang (GSeq r s) = {u @ v | u v. u \<in> glang r \<and> v \<in> glang s}"
| "glang (GAlt r s) = glang r \<union> glang s"
| "glang (GStar r) = {concat ws | ws. set ws \<subseteq> glang r}"
| "glang (GPlus r) = {concat ws | ws. ws \<noteq> [] \<and> set ws \<subseteq> glang r}"
| "glang (GOpt r) = insert [] (glang r)"

section \<open>Positions\<close>

fun gsz :: "gx \<Rightarrow> nat" where
  "gsz GEps = 0" | "gsz (GPos S) = 1" | "gsz (GSeq r s) = gsz r + gsz s" | "gsz (GAlt r s) = gsz r + gsz s"
| "gsz (GStar r) = gsz r" | "gsz (GPlus r) = gsz r" | "gsz (GOpt r) = gsz r"

fun glab :: "gx \<Rightarrow> byteset list" where
  "glab GEps = []" | "glab (GPos S) = [S]" | "glab (GSeq r s) = glab r @ glab s" | "glab (GAlt r s) = glab r @ glab s"
| "glab (GStar r) = glab r" | "glab (GPlus r) = glab r" | "glab (GOpt r) = glab r"

fun gnul :: "gx \<Rightarrow> bool" where
  "gnul GEps = True" | "gnul (GPos S) = False" | "gnul (GSeq r s) = (gnul r \<and> gnul s)" | "gnul (GAlt r s) = (gnul r \<or> gnul s)"
| "gnul (GStar r) = True" | "gnul (GPlus r) = gnul r" | "gnul (GOpt r) = True"

fun gfst :: "nat \<Rightarrow> gx \<Rightarrow> nat set" where
  "gfst n GEps = {}" | "gfst n (GPos S) = {n}"
| "gfst n (GSeq r s) = gfst n r \<union> (if gnul r then gfst (n + gsz r) s else {})"
| "gfst n (GAlt r s) = gfst n r \<union> gfst (n + gsz r) s"
| "gfst n (GStar r) = gfst n r" | "gfst n (GPlus r) = gfst n r" | "gfst n (GOpt r) = gfst n r"

fun glst :: "nat \<Rightarrow> gx \<Rightarrow> nat set" where
  "glst n GEps = {}" | "glst n (GPos S) = {n}"
| "glst n (GSeq r s) = glst (n + gsz r) s \<union> (if gnul s then glst n r else {})"
| "glst n (GAlt r s) = glst n r \<union> glst (n + gsz r) s"
| "glst n (GStar r) = glst n r" | "glst n (GPlus r) = glst n r" | "glst n (GOpt r) = glst n r"

fun gfol :: "nat \<Rightarrow> gx \<Rightarrow> (nat \<times> nat) set" where
  "gfol n GEps = {}" | "gfol n (GPos S) = {}"
| "gfol n (GSeq r s) = gfol n r \<union> gfol (n + gsz r) s \<union> glst n r \<times> gfst (n + gsz r) s"
| "gfol n (GAlt r s) = gfol n r \<union> gfol (n + gsz r) s"
| "gfol n (GStar r) = gfol n r \<union> glst n r \<times> gfst n r" | "gfol n (GPlus r) = gfol n r \<union> glst n r \<times> gfst n r"
| "gfol n (GOpt r) = gfol n r"

lemma length_glab [simp]: "length (glab r) = gsz r"
  by (induction r) auto

lemma gfst_range: "i \<in> gfst n r \<Longrightarrow> n \<le> i \<and> i < n + gsz r"
  by (induction n r rule: gfst.induct) (auto split: if_splits)

lemma glst_range: "i \<in> glst n r \<Longrightarrow> n \<le> i \<and> i < n + gsz r"
  by (induction n r rule: glst.induct) (auto split: if_splits)

lemma gfol_range: "(i, j) \<in> gfol n r \<Longrightarrow> n \<le> i \<and> i < n + gsz r \<and> n \<le> j \<and> j < n + gsz r"
  by (induction n r rule: gfol.induct) (auto dest: gfst_range glst_range)

section \<open>Paths\<close>

definition path :: "(nat \<times> nat) set \<Rightarrow> nat list \<Rightarrow> bool" where
  "path E = successively (\<lambda>i j. (i, j) \<in> E)"

definition paths :: "(nat \<times> nat) set \<Rightarrow> nat set \<Rightarrow> nat set \<Rightarrow> nat list set" where
  "paths E F L = {p. p \<noteq> [] \<and> hd p \<in> F \<and> last p \<in> L \<and> path E p}"

lemma path_simps [simp]: "path E []" "path E [x]" "path E (x # y # p) \<longleftrightarrow> (x, y) \<in> E \<and> path E (y # p)"
  by (simp_all add: path_def)

lemma path_append: "path E (p @ q) \<longleftrightarrow> path E p \<and> path E q \<and> (p = [] \<or> q = [] \<or> (last p, hd q) \<in> E)"
  by (auto simp: path_def successively_append_iff)

lemma path_mono: "path E p \<Longrightarrow> E \<subseteq> E' \<Longrightarrow> path E' p"
  by (auto simp: path_def elim!: successively_mono)

lemma seq_path_split:
  assumes "path (E1 \<union> E2 \<union> L1 \<times> F2) p" "p \<noteq> []" "E1 \<subseteq> A \<times> A" "E2 \<subseteq> B \<times> B" "L1 \<subseteq> A" "F2 \<subseteq> B" "A \<inter> B = {}"
  shows "hd p \<in> B \<Longrightarrow> path E2 p \<and> set p \<subseteq> B"
    and "hd p \<in> A \<Longrightarrow> \<exists>u v. p = u @ v \<and> u \<noteq> [] \<and> path E1 u \<and> set u \<subseteq> A \<and> path E2 v \<and> set v \<subseteq> B \<and> (v \<noteq> [] \<longrightarrow> last u \<in> L1 \<and> hd v \<in> F2)"
proof -
  have "(hd p \<in> B \<longrightarrow> path E2 p \<and> set p \<subseteq> B) \<and>
    (hd p \<in> A \<longrightarrow> (\<exists>u v. p = u @ v \<and> u \<noteq> [] \<and> path E1 u \<and> set u \<subseteq> A \<and> path E2 v \<and> set v \<subseteq> B \<and> (v \<noteq> [] \<longrightarrow> last u \<in> L1 \<and> hd v \<in> F2)))"
    using assms(1,2)
  proof (induction p)
    case (Cons x p)
    show ?case
    proof (cases p)
      case Nil
      have "x \<in> A \<Longrightarrow> \<exists>u v. [x] = u @ v \<and> u \<noteq> [] \<and> path E1 u \<and> set u \<subseteq> A \<and> path E2 v \<and> set v \<subseteq> B \<and> (v \<noteq> [] \<longrightarrow> last u \<in> L1 \<and> hd v \<in> F2)"
        by (intro exI [of _ "[x]"] exI [of _ "[]"]) auto
      with Nil show ?thesis by auto
    next
      case (Cons y q)
      have IH: "(y \<in> B \<longrightarrow> path E2 p \<and> set p \<subseteq> B) \<and>
        (y \<in> A \<longrightarrow> (\<exists>u v. p = u @ v \<and> u \<noteq> [] \<and> path E1 u \<and> set u \<subseteq> A \<and> path E2 v \<and> set v \<subseteq> B \<and> (v \<noteq> [] \<longrightarrow> last u \<in> L1 \<and> hd v \<in> F2)))"
        using Cons.IH Cons.prems \<open>p = y # q\<close> by simp
      have e: "(x, y) \<in> E1 \<or> (x, y) \<in> E2 \<or> x \<in> L1 \<and> y \<in> F2" using Cons.prems \<open>p = y # q\<close> by auto
      show ?thesis
      proof (intro conjI impI)
        assume "hd (x # p) \<in> B"
        then have "(x, y) \<in> E2" "y \<in> B" using e assms(3-7) by auto
        with IH Cons \<open>hd (x # p) \<in> B\<close> show "path E2 (x # p)" "set (x # p) \<subseteq> B" by auto
      next
        assume x: "hd (x # p) \<in> A"
        show "\<exists>u v. x # p = u @ v \<and> u \<noteq> [] \<and> path E1 u \<and> set u \<subseteq> A \<and> path E2 v \<and> set v \<subseteq> B \<and> (v \<noteq> [] \<longrightarrow> last u \<in> L1 \<and> hd v \<in> F2)"
        proof (cases "(x, y) \<in> E1")
          case True
          then have "y \<in> A" using assms(3) by auto
          with IH obtain u v where u: "p = u @ v" "u \<noteq> []" "path E1 u" "set u \<subseteq> A" "path E2 v" "set v \<subseteq> B" "v \<noteq> [] \<longrightarrow> last u \<in> L1 \<and> hd v \<in> F2" by blast
          moreover have "hd u = y" using u(1,2) Cons by (cases u) auto
          ultimately show ?thesis using True x by (intro exI [of _ "x # u"] exI [of _ v]) (cases u; auto)
        next
          case False
          then have "x \<in> L1" "y \<in> F2" using e x assms(4,7) by auto
          moreover from this have "path E2 p" "set p \<subseteq> B" using IH assms(6) by auto
          ultimately show ?thesis using x Cons by (intro exI [of _ "[x]"] exI [of _ p]) auto
        qed
      qed
    qed
  qed simp
  then show "hd p \<in> B \<Longrightarrow> path E2 p \<and> set p \<subseteq> B"
    and "hd p \<in> A \<Longrightarrow> \<exists>u v. p = u @ v \<and> u \<noteq> [] \<and> path E1 u \<and> set u \<subseteq> A \<and> path E2 v \<and> set v \<subseteq> B \<and> (v \<noteq> [] \<longrightarrow> last u \<in> L1 \<and> hd v \<in> F2)"
    by auto
qed

lemma loop_path_split:
  assumes "path (E \<union> L \<times> F) p" "p \<noteq> []" "last p \<in> L"
  shows "\<exists>q ps. p = q @ concat ps \<and> q \<noteq> [] \<and> path E q \<and> last q \<in> L \<and> set ps \<subseteq> paths E F L"
  using assms
proof (induction p)
  case (Cons x p)
  show ?case
  proof (cases p)
    case Nil
    with Cons.prems show ?thesis by (intro exI [of _ "[x]"] exI [of _ "[]"]) auto
  next
    case (Cons y r)
    with Cons.IH Cons.prems obtain q ps where q: "p = q @ concat ps" "q \<noteq> []" "path E q" "last q \<in> L" "set ps \<subseteq> paths E F L" by auto
    then have hd: "hd q = y" using Cons by (cases q) auto
    show ?thesis
    proof (cases "(x, y) \<in> E")
      case True
      with q hd show ?thesis by (intro exI [of _ "x # q"] exI [of _ ps]) (cases q; auto)
    next
      case False
      then have "x \<in> L" "y \<in> F" using Cons.prems Cons by auto
      with q hd show ?thesis by (intro exI [of _ "[x]"] exI [of _ "q # ps"]) (auto simp: paths_def)
    qed
  qed
qed simp

lemma loop_path_join: "set ps \<subseteq> paths E F L \<Longrightarrow> ps \<noteq> [] \<Longrightarrow> concat ps \<in> paths (E \<union> L \<times> F) F L"
proof (induction ps)
  case (Cons p ps)
  have p: "p \<in> paths (E \<union> L \<times> F) F L" using Cons.prems by (auto simp: paths_def intro: path_mono)
  show ?case
  proof (cases "ps = []")
    case False
    with Cons have "concat ps \<in> paths (E \<union> L \<times> F) F L" by auto
    with p show ?thesis by (auto simp: paths_def path_append)
  qed (use p in simp)
qed simp

section \<open>Words along paths\<close>

definition spells :: "(nat \<Rightarrow> byteset) \<Rightarrow> nat list \<Rightarrow> string \<Rightarrow> bool" where
  "spells lb = list_all2 (\<lambda>i c. in_set (lb i) c)"

definition path_words :: "(nat \<Rightarrow> byteset) \<Rightarrow> nat list set \<Rightarrow> string set" where
  "path_words lb P = {w. \<exists>p \<in> P. spells lb p w}"

lemma spells_append: "spells lb (p @ q) w \<longleftrightarrow> (\<exists>u v. w = u @ v \<and> spells lb p u \<and> spells lb q v)"
proof
  assume "spells lb (p @ q) w"
  then show "\<exists>u v. w = u @ v \<and> spells lb p u \<and> spells lb q v" unfolding spells_def list_all2_append1 by blast
qed (auto simp: spells_def intro: list_all2_appendI)

lemma spells_join: "spells lb p u \<Longrightarrow> spells lb q v \<Longrightarrow> spells lb (p @ q) (u @ v)"
  unfolding spells_def by (rule list_all2_appendI)

lemma spells_Nil [simp]: "spells lb [] w \<longleftrightarrow> w = []" "spells lb p [] \<longleftrightarrow> p = []"
  by (auto simp: spells_def)

definition labelled :: "(nat \<Rightarrow> byteset) \<Rightarrow> nat \<Rightarrow> gx \<Rightarrow> bool" where
  "labelled lb n r \<longleftrightarrow> (\<forall>k < gsz r. lb (n + k) = glab r ! k)"

lemma labelled_parts:
  "labelled lb n (GSeq r s) \<Longrightarrow> labelled lb n r \<and> labelled lb (n + gsz r) s"
  "labelled lb n (GAlt r s) \<Longrightarrow> labelled lb n r \<and> labelled lb (n + gsz r) s"
proof -
  have *: "(\<forall>k < gsz r + gsz s. lb (n + k) = (glab r @ glab s) ! k) \<Longrightarrow> labelled lb n r \<and> labelled lb (n + gsz r) s" for r s
  proof -
    assume a: "\<forall>k < gsz r + gsz s. lb (n + k) = (glab r @ glab s) ! k"
    have "lb (n + k) = glab r ! k" if "k < gsz r" for k using spec [OF a, of k] that by (simp add: nth_append)
    moreover have "lb (n + gsz r + k) = glab s ! k" if "k < gsz s" for k
      using spec [OF a, of "gsz r + k"] that by (simp add: nth_append add.assoc)
    ultimately show ?thesis by (simp add: labelled_def)
  qed
  show "labelled lb n (GSeq r s) \<Longrightarrow> labelled lb n r \<and> labelled lb (n + gsz r) s"
    and "labelled lb n (GAlt r s) \<Longrightarrow> labelled lb n r \<and> labelled lb (n + gsz r) s"
    by (rule *; simp add: labelled_def)+
qed

abbreviation gpaths :: "nat \<Rightarrow> gx \<Rightarrow> nat list set" where
  "gpaths n r \<equiv> paths (gfol n r) (gfst n r) (glst n r)"

lemma paths_range: "p \<in> gpaths n r \<Longrightarrow> set p \<subseteq> {n..<n + gsz r}"
proof -
  have *: "path E p \<Longrightarrow> E \<subseteq> A \<times> A \<Longrightarrow> p \<noteq> [] \<Longrightarrow> hd p \<in> A \<Longrightarrow> set p \<subseteq> A" for E A and p :: "nat list"
  proof (induction p)
    case (Cons x p)
    then show ?case by (cases p) auto
  qed simp
  assume "p \<in> gpaths n r"
  then show ?thesis by (intro * [of "gfol n r"]) (auto simp: paths_def dest: gfol_range gfst_range)
qed

text \<open>The paths of a concatenation are those of its parts, one after the other, or of one part alone.\<close>

lemma seq_paths:
  "gpaths n (GSeq r s) = {u @ v | u v. u \<in> gpaths n r \<and> v \<in> gpaths (n + gsz r) s} \<union>
     (if gnul s then gpaths n r else {}) \<union> (if gnul r then gpaths (n + gsz r) s else {})"
proof (intro set_eqI iffI)
  let ?m = "n + gsz r" and ?E = "gfol n (GSeq r s)"
  let ?A = "{n..<?m}" and ?B = "{?m..<?m + gsz s}"
  have sub: "gfol n r \<subseteq> ?A \<times> ?A" "gfol ?m s \<subseteq> ?B \<times> ?B" "glst n r \<subseteq> ?A" "gfst ?m s \<subseteq> ?B" "?A \<inter> ?B = {}"
    by (auto dest: gfol_range gfst_range glst_range)
  fix p
  {
    assume "p \<in> gpaths n (GSeq r s)"
    then have p: "path (gfol n r \<union> gfol ?m s \<union> glst n r \<times> gfst ?m s) p" "p \<noteq> []" "hd p \<in> gfst n (GSeq r s)" "last p \<in> glst n (GSeq r s)"
      by (auto simp: paths_def)
    note split = seq_path_split [OF p(1,2) sub]
    show "p \<in> {u @ v | u v. u \<in> gpaths n r \<and> v \<in> gpaths ?m s} \<union> (if gnul s then gpaths n r else {}) \<union> (if gnul r then gpaths ?m s else {})"
    proof (cases "hd p \<in> ?A")
      case True
      then obtain u v where u: "p = u @ v" "u \<noteq> []" "path (gfol n r) u" "set u \<subseteq> ?A" "path (gfol ?m s) v" "set v \<subseteq> ?B"
        "v \<noteq> [] \<longrightarrow> last u \<in> glst n r \<and> hd v \<in> gfst ?m s" using split(2) by blast
      have "hd u \<in> ?A" "hd p = hd u" using u(1,2,4) hd_in_set by (auto simp: subset_iff)
      then have f: "hd u \<in> gfst n r" using p(3) sub(4,5) by (auto split: if_splits)
      show ?thesis
      proof (cases "v = []")
        case True
        have "last u \<in> ?A" using u(2,4) last_in_set by blast
        then have "last u \<in> glst n r \<and> gnul s" using p(4) u(1) True by (auto split: if_splits dest: glst_range)
        with True f u show ?thesis by (auto simp: paths_def)
      next
        case False
        then have "last v \<in> ?B" using u(6) last_in_set by blast
        then have "last v \<in> glst ?m s" using p(4) u(1) False by (auto split: if_splits dest: glst_range)
        with False f u show ?thesis by (auto simp: paths_def)
      qed
    next
      case False
      then have f: "hd p \<in> gfst ?m s" "gnul r" using p(3) by (auto split: if_splits dest: gfst_range)
      then have "hd p \<in> ?B" using sub(4) by blast
      from split(1) [OF this] have "path (gfol ?m s) p" "set p \<subseteq> ?B" by auto
      moreover have "last p \<in> ?B" using calculation(2) p(2) last_in_set by blast
      then have "last p \<in> glst ?m s" using p(4) by (auto split: if_splits dest: glst_range)
      ultimately show ?thesis using f p(2) by (auto simp: paths_def)
    qed
  next
    assume "p \<in> {u @ v | u v. u \<in> gpaths n r \<and> v \<in> gpaths ?m s} \<union> (if gnul s then gpaths n r else {}) \<union> (if gnul r then gpaths ?m s else {})"
    then show "p \<in> gpaths n (GSeq r s)"
      by (auto simp: paths_def path_append intro: path_mono split: if_splits)
  }
qed

lemma alt_paths: "gpaths n (GAlt r s) = gpaths n r \<union> gpaths (n + gsz r) s"
proof (intro set_eqI iffI)
  let ?m = "n + gsz r"
  let ?A = "{n..<?m}" and ?B = "{?m..<?m + gsz s}"
  have sub: "gfol n r \<subseteq> ?A \<times> ?A" "gfol ?m s \<subseteq> ?B \<times> ?B" "{} \<subseteq> ?A" "{} \<subseteq> ?B" "?A \<inter> ?B = {}"
    by (auto dest: gfol_range)
  fix p
  {
    assume "p \<in> gpaths n (GAlt r s)"
    then have p: "path (gfol n r \<union> gfol ?m s \<union> {} \<times> {}) p" "p \<noteq> []" "hd p \<in> gfst n (GAlt r s)" "last p \<in> glst n (GAlt r s)"
      by (auto simp: paths_def)
    note split = seq_path_split [OF p(1,2) sub]
    show "p \<in> gpaths n r \<union> gpaths ?m s"
    proof (cases "hd p \<in> ?A")
      case True
      then have u: "path (gfol n r) p" "set p \<subseteq> ?A" using split(2) by auto
      then have "last p \<in> ?A" using p(2) last_in_set by blast
      with True p(2-4) u show ?thesis by (auto simp: paths_def dest: gfst_range glst_range)
    next
      case False
      then have f: "hd p \<in> ?B" "hd p \<in> gfst ?m s" using p(3) by (auto dest: gfst_range)
      from split(1) [OF f(1)] have u: "path (gfol ?m s) p" "set p \<subseteq> ?B" by auto
      then have "last p \<in> ?B" using p(2) last_in_set by blast
      with f(2) p(2,4) u show ?thesis by (auto simp: paths_def dest: glst_range)
    qed
  next
    assume "p \<in> gpaths n r \<union> gpaths ?m s"
    then show "p \<in> gpaths n (GAlt r s)" by (auto simp: paths_def intro: path_mono)
  }
qed

lemma path_words_union [simp]: "path_words lb (P \<union> Q) = path_words lb P \<union> path_words lb Q"
  by (auto simp: path_words_def)

lemma path_words_append: "path_words lb {u @ v | u v. u \<in> P \<and> v \<in> Q} = {u @ v | u v. u \<in> path_words lb P \<and> v \<in> path_words lb Q}"
  by (fastforce simp: path_words_def spells_append intro: spells_join)

lemma path_words_empty [simp]: "path_words lb {} = {}"
  by (simp add: path_words_def)

lemma path_words_nonempty: "w \<in> path_words lb (paths E F L) \<Longrightarrow> w \<noteq> []"
  by (auto simp: path_words_def paths_def)

lemma spells_concat: "spells lb (concat ps) w \<longleftrightarrow> (\<exists>ws. w = concat ws \<and> list_all2 (spells lb) ps ws)"
proof (induction ps arbitrary: w)
  case (Cons p ps)
  have "(\<exists>ws. w = concat ws \<and> list_all2 (spells lb) (p # ps) ws) \<longleftrightarrow> (\<exists>u v. w = u @ v \<and> spells lb p u \<and> (\<exists>ws. v = concat ws \<and> list_all2 (spells lb) ps ws))"
  proof
    assume "\<exists>u v. w = u @ v \<and> spells lb p u \<and> (\<exists>ws. v = concat ws \<and> list_all2 (spells lb) ps ws)"
    then obtain u ws where "w = concat (u # ws)" "list_all2 (spells lb) (p # ps) (u # ws)" by auto
    then show "\<exists>ws. w = concat ws \<and> list_all2 (spells lb) (p # ps) ws" by blast
  next
    assume "\<exists>ws. w = concat ws \<and> list_all2 (spells lb) (p # ps) ws"
    then obtain u ws where "w = u @ concat ws" "spells lb p u" "list_all2 (spells lb) ps ws" by (auto simp: list_all2_Cons1)
    then show "\<exists>u v. w = u @ v \<and> spells lb p u \<and> (\<exists>ws. v = concat ws \<and> list_all2 (spells lb) ps ws)" by blast
  qed
  then show ?case using Cons.IH by (simp add: spells_append)
qed simp

lemma spelled_words: "list_all2 (spells lb) ps ws \<Longrightarrow> set ps \<subseteq> P \<Longrightarrow> set ws \<subseteq> path_words lb P"
  by (induction rule: list_all2_induct) (auto simp: path_words_def)

lemma loop_words:
  "w \<in> path_words lb (paths (E \<union> L \<times> F) F L) \<longleftrightarrow> (\<exists>ws. ws \<noteq> [] \<and> w = concat ws \<and> set ws \<subseteq> path_words lb (paths E F L))"
proof
  assume "w \<in> path_words lb (paths (E \<union> L \<times> F) F L)"
  then obtain p where p: "p \<in> paths (E \<union> L \<times> F) F L" "spells lb p w" by (auto simp: path_words_def)
  then obtain q ps where q: "p = q @ concat ps" "q \<noteq> []" "path E q" "last q \<in> L" "set ps \<subseteq> paths E F L"
    using loop_path_split [of E L F p] by (auto simp: paths_def)
  then have "q \<in> paths E F L" using p(1) by (auto simp: paths_def)
  then have s: "set (q # ps) \<subseteq> paths E F L" "spells lb (concat (q # ps)) w" using q p(2) by auto
  then obtain ws where ws: "w = concat ws" "list_all2 (spells lb) (q # ps) ws" using spells_concat by blast
  then have "set ws \<subseteq> path_words lb (paths E F L)" using s(1) spelled_words by blast
  with ws show "\<exists>ws. ws \<noteq> [] \<and> w = concat ws \<and> set ws \<subseteq> path_words lb (paths E F L)" by (intro exI [of _ ws]) auto
next
  assume "\<exists>ws. ws \<noteq> [] \<and> w = concat ws \<and> set ws \<subseteq> path_words lb (paths E F L)"
  then obtain ws where ws: "ws \<noteq> []" "w = concat ws" "set ws \<subseteq> path_words lb (paths E F L)" by blast
  then have "\<forall>v \<in> set ws. \<exists>p. p \<in> paths E F L \<and> spells lb p v" by (auto simp: path_words_def)
  then obtain f where f: "\<forall>v \<in> set ws. f v \<in> paths E F L \<and> spells lb (f v) v" by metis
  then have "list_all2 (spells lb) (map f ws) ws" by (simp add: list_all2_conv_all_nth)
  then have "spells lb (concat (map f ws)) w" using ws(2) spells_concat by blast
  moreover have "concat (map f ws) \<in> paths (E \<union> L \<times> F) F L" using f ws(1) by (intro loop_path_join) auto
  ultimately show "w \<in> path_words lb (paths (E \<union> L \<times> F) F L)" by (auto simp: path_words_def)
qed

lemma concat_nonempty_words: "\<exists>vs. concat ws = concat vs \<and> set vs \<subseteq> set ws - {[]}"
proof -
  have "concat ws = concat (filter (\<lambda>w. w \<noteq> []) ws)" by (induction ws) auto
  then show ?thesis by (intro exI [of _ "filter (\<lambda>w. w \<noteq> []) ws"]) auto
qed

section \<open>The language of the automaton\<close>

theorem glushkov: "labelled lb n r \<Longrightarrow> w \<in> glang r \<longleftrightarrow> w = [] \<and> gnul r \<or> w \<in> path_words lb (gpaths n r)"
proof (induction r arbitrary: n w)
  case GEps
  have "gpaths n GEps = {}" by (auto simp: paths_def)
  then show ?case by simp
next
  case (GPos S)
  have "path {} p \<Longrightarrow> p \<noteq> [] \<Longrightarrow> p = [hd p]" for p :: "nat list"
    by (cases p rule: remdups_adj.cases) auto
  then have "gpaths n (GPos S) = {[n]}" by (auto simp: paths_def)
  moreover have "lb n = S" using GPos by (simp add: labelled_def)
  ultimately show ?case by (auto simp: path_words_def spells_def list_all2_Cons1)
next
  case (GSeq r s)
  then have "labelled lb n r" "labelled lb (n + gsz r) s" by (auto dest: labelled_parts)
  note IH = GSeq.IH(1) [OF this(1)] GSeq.IH(2) [OF this(2)]
  show ?case unfolding seq_paths path_words_union path_words_append glang.simps using IH by (auto split: if_splits) 
next
  case (GAlt r s)
  then have "labelled lb n r" "labelled lb (n + gsz r) s" by (auto dest: labelled_parts)
  note IH = GAlt.IH(1) [OF this(1)] GAlt.IH(2) [OF this(2)]
  show ?case unfolding alt_paths path_words_union using IH by auto
next
  case (GStar r)
  then have "labelled lb n r" by (simp add: labelled_def)
  note IH = GStar.IH [OF this]
  have "w \<in> glang (GStar r) \<longleftrightarrow> w = [] \<or> (\<exists>ws. ws \<noteq> [] \<and> w = concat ws \<and> set ws \<subseteq> path_words lb (gpaths n r))"
  proof
    assume "w \<in> glang (GStar r)"
    then obtain ws where "w = concat ws" "set ws \<subseteq> glang r" by auto
    moreover obtain vs where "concat ws = concat vs" "set vs \<subseteq> set ws - {[]}" using concat_nonempty_words by blast
    ultimately have "w = concat vs" "set vs \<subseteq> path_words lb (gpaths n r)" using IH by auto
    moreover from this have "vs = [] \<Longrightarrow> w = []" by simp
    ultimately show "w = [] \<or> (\<exists>ws. ws \<noteq> [] \<and> w = concat ws \<and> set ws \<subseteq> path_words lb (gpaths n r))" by blast
  next
    assume "w = [] \<or> (\<exists>ws. ws \<noteq> [] \<and> w = concat ws \<and> set ws \<subseteq> path_words lb (gpaths n r))"
    then show "w \<in> glang (GStar r)" using IH by (auto intro: exI [of _ "[]"])
  qed
  then show ?case using loop_words [of w lb "gfol n r" "glst n r" "gfst n r"] by simp
next
  case (GPlus r)
  then have "labelled lb n r" by (simp add: labelled_def)
  note IH = GPlus.IH [OF this]
  have "w \<in> glang (GPlus r) \<longleftrightarrow> w = [] \<and> gnul r \<or> (\<exists>ws. ws \<noteq> [] \<and> w = concat ws \<and> set ws \<subseteq> path_words lb (gpaths n r))"
  proof
    assume "w \<in> glang (GPlus r)"
    then obtain ws where ws: "ws \<noteq> []" "w = concat ws" "set ws \<subseteq> glang r" by auto
    moreover obtain vs where vs: "concat ws = concat vs" "set vs \<subseteq> set ws - {[]}" using concat_nonempty_words by blast
    ultimately have v: "w = concat vs" "set vs \<subseteq> path_words lb (gpaths n r)" using IH by auto
    show "w = [] \<and> gnul r \<or> (\<exists>ws. ws \<noteq> [] \<and> w = concat ws \<and> set ws \<subseteq> path_words lb (gpaths n r))"
    proof (cases vs)
      case Nil
      then have "\<forall>u \<in> set ws. u = []" using vs ws by auto
      with ws have "[] \<in> glang r" by (cases ws) auto
      moreover have "[] \<notin> path_words lb (gpaths n r)" using path_words_nonempty by blast
      ultimately show ?thesis using IH [of "[]"] v(1) Nil by simp
    next
      case (Cons a list)
      with v show ?thesis by blast
    qed
  next
    assume "w = [] \<and> gnul r \<or> (\<exists>ws. ws \<noteq> [] \<and> w = concat ws \<and> set ws \<subseteq> path_words lb (gpaths n r))"
    then show "w \<in> glang (GPlus r)"
    proof
      assume "w = [] \<and> gnul r"
      then have "[] \<in> glang r" "w = concat [[]]" using IH by auto
      then show ?thesis unfolding glang.simps by (intro CollectI exI [of _ "[[]]"]) auto
    qed (use IH in auto)
  qed
  then show ?case using loop_words [of w lb "gfol n r" "glst n r" "gfst n r"] by simp
next
  case (GOpt r)
  then have "labelled lb n r" by (simp add: labelled_def)
  note IH = GOpt.IH [OF this]
  then show ?case by auto
qed

end
