(* ===== verification/Text_Build.thy ===== *)
theory Text_Build
  imports Text_Glushkov
begin

text \<open>
  The parser of \<open>Text_Regex\<close> builds the position automaton of \<open>Text_Glushkov\<close>: what each parsing step adds to the
  tables, and the steps composed over the text of an expression.
\<close>

section \<open>Position sets and follow tables\<close>

definition bits :: "pset \<Rightarrow> nat set" where
  "bits w = {i. bit w i}"

lemma bits_simps [simp]: "bits 0 = {}" "bits (a OR b) = bits a \<union> bits b" "bits (a AND b) = bits a \<inter> bits b"
  by (auto simp: bits_def bit_or_iff bit_and_iff)

lemma bits_set_bit: "p < 128 \<Longrightarrow> bits (set_bit p a) = insert p (bits a)"
  by (auto simp: bits_def bit_set_bit_iff)

lemma bits_empty_iff: "bits a = {} \<longleftrightarrow> a = 0" for a :: pset
proof
  assume "bits a = {}"
  then have "\<not> bit a n" for n by (auto simp: bits_def)
  then show "a = 0" by (intro bit_eqI) simp
qed simp

lemma set_ps_elems: "set (ps_elems nw a) = {i \<in> bits a. i < 64 * nw}"
  by (auto simp: ps_elems_def bits_def)

lemma fold_or_nth:
  "fold (\<lambda>i fo. fo[i := fo ! i OR dst]) xs fo ! j = (if j \<in> set xs \<and> j < length fo then fo ! j OR dst else fo ! j)" for dst :: pset
proof (induction xs arbitrary: fo)
  case (Cons x xs)
  show ?case unfolding fold_simps(2) Cons.IH comp_apply by (cases "j < length fo"; cases "x = j") (auto simp: nth_list_update list_update_beyond)
qed simp

lemma fold_or_length [simp]: "length (fold (\<lambda>i fo. fo[i := fo ! i OR dst]) xs fo) = length fo"
  by (induction xs arbitrary: fo) auto

lemma link_follow:
  "g_follow (link src dst g) ! j = (if bit src j \<and> j < 64 * g_nwords g \<and> j < length (g_follow g) then g_follow g ! j OR dst else g_follow g ! j)"
  by (auto simp: link_def fold_or_nth set_ps_elems bits_def)

lemma link_simps [simp]: "g_setb (link src dst g) = g_setb g" "length (g_follow (link src dst g)) = length (g_follow g)"
  "g_npos (link src dst g) = g_npos g" "g_nwords (link src dst g) = g_nwords g"
  by (simp_all add: link_def)

section \<open>What a step builds\<close>

definition wf_g :: "gnfa \<Rightarrow> bool" where
  "wf_g g \<longleftrightarrow> length (g_setb g) = 128 \<and> length (g_follow g) = 128 \<and> g_nwords g \<le> 2 \<and> g_npos g \<le> 64 * g_nwords g \<and>
     (\<forall>i. g_npos g \<le> i \<longrightarrow> i < 128 \<longrightarrow> g_follow g ! i = 0)"

text \<open>From \<open>g\<close> the expression \<open>r\<close> was added at the next positions, giving \<open>g'\<close> and the attributes \<open>a\<close>.\<close>

definition built :: "gx \<Rightarrow> gnfa \<Rightarrow> gattr \<Rightarrow> gnfa \<Rightarrow> bool" where
  "built r g a g' \<longleftrightarrow> wf_g g' \<and> g_npos g' = g_npos g + gsz r \<and>
     (\<exists>sb fo. g' = g\<lparr>g_setb := sb, g_follow := fo, g_npos := g_npos g + gsz r\<rparr>) \<and>
     (\<forall>k < gsz r. g_setb g' ! (g_npos g + k) = glab r ! k) \<and> (\<forall>i < g_npos g. g_setb g' ! i = g_setb g ! i) \<and>
     (\<forall>i < g_npos g. g_follow g' ! i = g_follow g ! i) \<and>
     (\<forall>i. g_npos g \<le> i \<longrightarrow> i < g_npos g + gsz r \<longrightarrow> bits (g_follow g' ! i) = {j. (i, j) \<in> gfol (g_npos g) r}) \<and>
     a_nullable a = gnul r \<and> bits (a_first a) = gfst (g_npos g) r \<and> bits (a_last a) = glst (g_npos g) r"

lemma built_frame:
  "built r g a g' \<Longrightarrow> g_nwords g' = g_nwords g \<and> g_ok g' = g_ok g \<and> g_icase g' = g_icase g \<and>
    g_anchored_start g' = g_anchored_start g \<and> g_anchored_end g' = g_anchored_end g"
  by (auto simp: built_def)

lemma built_eps: "wf_g g \<Longrightarrow> built GEps g eps_attr g"
  by (auto simp: built_def eps_attr_def no_attr_def intro!: exI [of _ "g_setb g"] exI [of _ "g_follow g"])

lemma built_pos:
  assumes "wf_g g" "\<not> full g"
  shows "built (GPos S) g (one_attr (g_npos g)) (alloc_pos S g)"
proof -
  have n: "g_npos g < 128" using assms by (auto simp: wf_g_def full_def)
  have b: "bits (set_bit (g_npos g) 0) = {g_npos g}" using bits_set_bit [OF n, of 0] unfolding bits_simps(1) .
  have "wf_g (alloc_pos S g)" using assms by (auto simp: wf_g_def full_def alloc_pos_def)
  moreover have "bits (g_follow g ! g_npos g) = {}" using assms(1) n by (auto simp: wf_g_def)
  ultimately show ?thesis unfolding built_def using assms n b
    by (auto simp: alloc_pos_def one_attr_def wf_g_def less_Suc_eq_le le_antisym simp del: set_bit_0 intro!: exI [of _ "(g_setb g)[g_npos g := S]"] exI [of _ "g_follow g"])
qed

lemma built_alt: "built r g a g1 \<Longrightarrow> built s g1 b g2 \<Longrightarrow> built (GAlt r s) g (alt_attr a b) g2"
proof -
  assume 1: "built r g a g1" and 2: "built s g1 b g2"
  have n: "g_npos g1 = g_npos g + gsz r" using 1 by (simp add: built_def)
  have f: "bits (g_follow g2 ! i) = {j. (i, j) \<in> gfol (g_npos g) (GAlt r s)}" if "g_npos g \<le> i" "i < g_npos g + gsz (GAlt r s)" for i
  proof (cases "i < g_npos g1")
    case True
    then have "\<And>j. (i, j) \<notin> gfol (g_npos g + gsz r) s" using n by (auto dest: gfol_range)
    with True 1 2 that n show ?thesis by (simp add: built_def)
  next
    case False
    then have "\<And>j. (i, j) \<notin> gfol (g_npos g) r" using n by (auto dest: gfol_range)
    with False 2 that n show ?thesis by (simp add: built_def add.assoc)
  qed
  have l: "g_setb g2 ! (g_npos g + k) = glab (GAlt r s) ! k" if "k < gsz (GAlt r s)" for k
  proof (cases "k < gsz r")
    case True
    then show ?thesis using 1 2 n by (simp add: built_def nth_append)
  next
    case False
    have "\<forall>k < gsz s. g_setb g2 ! (g_npos g1 + k) = glab s ! k" using 2 by (simp add: built_def)
    from spec [OF this, of "k - gsz r"] have "g_setb g2 ! (g_npos g1 + (k - gsz r)) = glab s ! (k - gsz r)" using that False by fastforce
    moreover have "g_npos g1 + (k - gsz r) = g_npos g + k" using n False by simp
    ultimately show ?thesis using False by (simp add: nth_append)
  qed
  have frame: "\<exists>sb fo. g2 = g\<lparr>g_setb := sb, g_follow := fo, g_npos := g_npos g + gsz (GAlt r s)\<rparr>"
  proof -
    obtain sb fo where 3: "g1 = g\<lparr>g_setb := sb, g_follow := fo, g_npos := g_npos g + gsz r\<rparr>" using 1 by (auto simp: built_def)
    obtain sb fo where "g2 = g1\<lparr>g_setb := sb, g_follow := fo, g_npos := g_npos g1 + gsz s\<rparr>" using 2 by (auto simp: built_def)
    then show ?thesis unfolding 3 by (intro exI [of _ sb] exI [of _ fo]) (simp add: add.assoc)
  qed
  have low: "g_setb g2 ! i = g_setb g ! i" "g_follow g2 ! i = g_follow g ! i" if "i < g_npos g" for i
    using 1 2 n that by (simp_all add: built_def)
  have at: "a_nullable (alt_attr a b) = gnul (GAlt r s)" "bits (a_first (alt_attr a b)) = gfst (g_npos g) (GAlt r s)"
    "bits (a_last (alt_attr a b)) = glst (g_npos g) (GAlt r s)" "wf_g g2" "g_npos g2 = g_npos g + gsz (GAlt r s)"
    using 1 2 n by (simp_all add: built_def alt_attr_def)
  show ?thesis unfolding built_def by (intro conjI allI impI; (rule at frame f l low; assumption)?; (rule at frame))
qed

text \<open>Linking two position sets adds their product to the edges.\<close>

lemma built_link:
  assumes "built r g a g'" "bits src \<subseteq> {g_npos g..<g_npos g + gsz r}"
  shows "wf_g (link src dst g')" "g_npos (link src dst g') = g_npos g + gsz r"
    "\<exists>sb fo. link src dst g' = g\<lparr>g_setb := sb, g_follow := fo, g_npos := g_npos g + gsz r\<rparr>"
    "\<forall>i < g_npos g. g_follow (link src dst g') ! i = g_follow g ! i"
    "\<And>i. g_npos g \<le> i \<Longrightarrow> i < g_npos g + gsz r \<Longrightarrow>
      bits (g_follow (link src dst g') ! i) = {j. (i, j) \<in> gfol (g_npos g) r} \<union> (if i \<in> bits src then bits dst else {})"
proof -
  have b: "wf_g g'" "g_npos g' = g_npos g + gsz r" using assms(1) by (simp_all add: built_def)
  have out: "\<not> bit src i" if "i < g_npos g \<or> g_npos g + gsz r \<le> i" for i using assms(2) that by (auto simp: bits_def)
  show "wf_g (link src dst g')" using b out by (auto simp: wf_g_def link_follow)
  show "g_npos (link src dst g') = g_npos g + gsz r" using b by simp
  obtain sb fo where "g' = g\<lparr>g_setb := sb, g_follow := fo, g_npos := g_npos g + gsz r\<rparr>" using assms(1) by (auto simp: built_def)
  then show "\<exists>sb fo. link src dst g' = g\<lparr>g_setb := sb, g_follow := fo, g_npos := g_npos g + gsz r\<rparr>"
    by (intro exI [of _ sb] exI [of _ "fold (\<lambda>i fo. fo[i := fo ! i OR dst]) (ps_elems (g_nwords g) src) fo"]) (simp add: link_def)
  show "\<forall>i < g_npos g. g_follow (link src dst g') ! i = g_follow g ! i" using assms(1) out by (simp add: link_follow built_def)
  show "bits (g_follow (link src dst g') ! i) = {j. (i, j) \<in> gfol (g_npos g) r} \<union> (if i \<in> bits src then bits dst else {})"
    if "g_npos g \<le> i" "i < g_npos g + gsz r" for i
  proof -
    have "i < 64 * g_nwords g'" "i < length (g_follow g')" using b that by (auto simp: wf_g_def)
    then show ?thesis using assms(1) that by (auto simp: link_follow built_def bits_def [of src])
  qed
qed

lemma built_plus:
  assumes "built r g a g'"
  shows "built (GPlus r) g a (link (a_last a) (a_first a) g')"
proof -
  have a: "bits (a_last a) = glst (g_npos g) r" "bits (a_first a) = gfst (g_npos g) r" using assms by (simp_all add: built_def)
  then have "bits (a_last a) \<subseteq> {g_npos g..<g_npos g + gsz r}" by (auto dest: glst_range)
  note l = built_link [OF assms this, where dst = "a_first a"]
  show ?thesis unfolding built_def using assms l a by (auto simp: built_def)
qed

lemma built_star: "built r g a g' \<Longrightarrow> built (GStar r) g (a\<lparr>a_nullable := True\<rparr>) (link (a_last a) (a_first a) g')"
  using built_plus [of r g a g'] by (simp add: built_def)

lemma built_opt: "built r g a g' \<Longrightarrow> built (GOpt r) g (a\<lparr>a_nullable := True\<rparr>) g'"
  by (simp add: built_def)

lemma built_seq:
  assumes "built r g a g1" "built s g1 b g2"
  shows "built (GSeq r s) g (seq_attr a b) (link (a_last a) (a_first b) g2)"
proof -
  have ab: "built (GAlt r s) g (alt_attr a b) g2" using assms by (rule built_alt)
  have a: "bits (a_last a) = glst (g_npos g) r" using assms(1) by (simp add: built_def)
  have n: "g_npos g1 = g_npos g + gsz r" using assms(1) by (simp add: built_def)
  then have b: "bits (a_first b) = gfst (g_npos g + gsz r) s" using assms(2) by (simp add: built_def)
  have "bits (a_last a) \<subseteq> {g_npos g..<g_npos g + gsz (GAlt r s)}" unfolding a by (auto dest: glst_range)
  note l = built_link [OF ab this, where dst = "a_first b"]
  have "{j. (i, j) \<in> gfol (g_npos g) (GAlt r s)} \<union> (if i \<in> bits (a_last a) then bits (a_first b) else {}) = {j. (i, j) \<in> gfol (g_npos g) (GSeq r s)}" for i
    unfolding a b by auto
  note f = l(5) [unfolded this]
  show ?thesis
    using l(1-4) f ab assms n unfolding built_def seq_attr_def by (simp add: add.assoc Un_commute)
qed

end

