(* ===== verification/Text_Grammar.thy ===== *)
theory Text_Grammar
  imports Text_Build
begin

text \<open>
  What a pattern means: the concrete syntax of the regular expression face as a grammar that relates the text of
  a pattern to the expression it denotes, with the characters a position admits given by predicates. The parser is
  compared with it in \<open>Text_Parse\<close>.
\<close>

section \<open>Sets of characters\<close>

definition char_set :: "(char \<Rightarrow> bool) \<Rightarrow> byteset" where
  "char_set P = fold (\<lambda>b S. if P (char_of b) then set_bit b S else S) [0..<256] 0"

lemma char_of_byte [simp]: "char_of (byte c) = c"
  by (simp add: byte_def)

lemma bit_fold_set:
  "set bs \<subseteq> {..<256} \<Longrightarrow> i < 256 \<Longrightarrow>
    bit (fold (\<lambda>b S. if P b then set_bit b S else S) bs S) i \<longleftrightarrow> bit S i \<or> i \<in> set bs \<and> P i" for S :: byteset
  by (induction bs arbitrary: S) (auto simp: bit_set_bit_iff)

lemma in_char_set [simp]: "in_set (char_set P) c \<longleftrightarrow> P c"
proof -
  have "set [0..<256] \<subseteq> {..<256::nat}" by auto
  from bit_fold_set [OF this byte_less, of "\<lambda>b. P (char_of b)" 0] show ?thesis by (simp add: in_set_def char_set_def)
qed

lemma byteset_eqI: "(\<And>c. in_set A c = in_set B c) \<Longrightarrow> A = B"
proof (rule bit_eqI)
  fix n
  assume a: "\<And>c. in_set A c = in_set B c"
  assume "possible_bit TYPE(256 word) n"
  then have "n < 256" by (simp add: possible_bit_def)
  then show "bit A n = bit B n" using a [of "char_of n"] by (simp add: in_set_def byte_char_of)
qed

lemma char_set_eq: "(\<And>c. in_set S c \<longleftrightarrow> P c) \<Longrightarrow> S = char_set P"
  by (rule byteset_eqI) simp

lemma in_set_simps [simp]: "\<not> in_set 0 c" "in_set (NOT S) c \<longleftrightarrow> \<not> in_set S c" "in_set (A OR B) c \<longleftrightarrow> in_set A c \<or> in_set B c"
  by (auto simp: in_set_def bit_not_iff bit_or_iff possible_bit_def)

section \<open>Case folding\<close>

definition lower_byte :: "nat \<Rightarrow> nat" where
  "lower_byte b = (if 0x41 \<le> b \<and> b \<le> 0x5A then b + 32 else b)"

text \<open>\<open>d\<close> matches where the pattern says \<open>c\<close>.\<close>

definition folds :: "bool \<Rightarrow> char \<Rightarrow> char \<Rightarrow> bool" where
  "folds icase c d \<longleftrightarrow> c = d \<or> icase \<and> lower_byte (byte c) = lower_byte (byte d)"

lemma in_gset_byte: "b < 256 \<Longrightarrow> in_set (gset_byte b icase S) d \<longleftrightarrow> in_set S d \<or> folds icase (char_of b) d"
proof -
  assume b: "b < 256"
  have "byte d = b \<longleftrightarrow> char_of b = d" using b byte_char_of by auto
  moreover have "lower_byte b = lower_byte (byte d) \<longleftrightarrow>
    byte d = b \<or> byte d = (if 0x61 \<le> b \<and> b \<le> 0x7A then b - 32 else if 0x41 \<le> b \<and> b \<le> 0x5A then b + 32 else b)"
    by (auto simp: lower_byte_def)
  ultimately show ?thesis using b
    by (auto simp: gset_byte_def in_set_def folds_def Let_def bit_set_bit_iff byte_char_of split: if_splits)
qed

lemma gset_byte_char [simp]: "in_set (gset_byte (byte c) icase S) d \<longleftrightarrow> in_set S d \<or> folds icase c d"
  by (simp add: in_gset_byte)

lemma in_set_bytes:
  "set bs \<subseteq> {..<256} \<Longrightarrow>
    in_set (fold (\<lambda>b S. if f b then gset_byte b icase S else S) bs S) d \<longleftrightarrow> in_set S d \<or> (\<exists>c. byte c \<in> set bs \<and> f (byte c) \<and> folds icase c d)"
proof (induction bs arbitrary: S)
  case (Cons b bs)
  then have "b < 256" by simp
  then have e: "byte c = b \<longleftrightarrow> c = char_of b" for c by (auto simp: byte_char_of)
  show ?case using Cons by (auto simp: in_gset_byte e)
qed simp

lemma in_set_range: "hi < 256 \<Longrightarrow> in_set (set_range lo hi icase S) d \<longleftrightarrow> in_set S d \<or> (\<exists>c. lo \<le> byte c \<and> byte c \<le> hi \<and> folds icase c d)"
proof -
  assume "hi < 256"
  then have "set [lo..<hi + 1] \<subseteq> {..<256}" by auto
  from in_set_bytes [OF this, of "\<lambda>_. True" icase S d] show ?thesis
    by (simp add: set_range_def less_Suc_eq_le conj_assoc del: upt_Suc)
qed

section \<open>Bracket expressions\<close>

datatype citem = CByte char | CRange char char | CName string

fun item_text :: "citem \<Rightarrow> string" where
  "item_text (CByte c) = [c]"
| "item_text (CRange a b) = [a, CHR ''-'', b]"
| "item_text (CName nm) = ''[:'' @ nm @ '':]''"

fun item_has :: "bool \<Rightarrow> citem \<Rightarrow> char \<Rightarrow> bool" where
  "item_has icase (CByte c) d \<longleftrightarrow> folds icase c d"
| "item_has icase (CRange a b) d \<longleftrightarrow> (\<exists>c. byte a \<le> byte c \<and> byte c \<le> byte b \<and> folds icase c d)"
| "item_has icase (CName nm) d \<longleftrightarrow> (\<exists>c. folds icase c d \<and> (case posix_class nm of Some f \<Rightarrow> f (byte c) | None \<Rightarrow> False))"

fun item_ok :: "citem \<Rightarrow> bool" where
  "item_ok (CByte c) \<longleftrightarrow> c \<notin> set '']-[''"
| "item_ok (CRange a b) \<longleftrightarrow> a \<notin> set '']-['' \<and> b \<noteq> CHR '']''"
| "item_ok (CName nm) \<longleftrightarrow> posix_class nm \<noteq> None"

text \<open>A bracket expression: negated or not, a closing bracket first, the items, a dash last.\<close>

datatype bracket = Bracket (b_neg: bool) (b_lead: bool) (b_items: "citem list") (b_dash: bool)

definition bracket_body :: "bracket \<Rightarrow> string" where
  "bracket_body k = (if b_lead k then '']'' else []) @ concat (map item_text (b_items k)) @ (if b_dash k then ''-'' else [])"

definition bracket_text :: "bracket \<Rightarrow> string" where
  "bracket_text k = ''['' @ (if b_neg k then ''^'' else []) @ bracket_body k @ '']''"

definition bracket_has :: "bool \<Rightarrow> bracket \<Rightarrow> char \<Rightarrow> bool" where
  "bracket_has icase k d \<longleftrightarrow>
     b_neg k \<noteq> (b_lead k \<and> d = CHR '']'' \<or> b_dash k \<and> d = CHR ''-'' \<or> (\<exists>it \<in> set (b_items k). item_has icase it d))"

definition bracket_ok :: "bracket \<Rightarrow> bool" where
  "bracket_ok k \<longleftrightarrow> bracket_body k \<noteq> [] \<and> list_all item_ok (b_items k) \<and> (b_neg k \<or> hd (bracket_body k) \<noteq> CHR ''^'')"

section \<open>Patterns\<close>

definition word_char :: "char \<Rightarrow> bool" where
  "word_char c \<longleftrightarrow> (let b = byte c in 0x30 \<le> b \<and> b \<le> 0x39 \<or> 0x41 \<le> b \<and> b \<le> 0x5A \<or> 0x61 \<le> b \<and> b \<le> 0x7A \<or> b = 0x5F)"

definition space_char :: "char \<Rightarrow> bool" where
  "space_char c \<longleftrightarrow> byte c = 0x20 \<or> 9 \<le> byte c \<and> byte c \<le> 13"

text \<open>
  One position and the characters it admits. A byte from 0xC0 on is the lead of a character of several bytes and
  is left out when case is ignored.
\<close>

inductive single :: "bool \<Rightarrow> string \<Rightarrow> (char \<Rightarrow> bool) \<Rightarrow> bool" for icase where
  dot: "single icase ''.'' (\<lambda>_. True)"
| plain: "c \<notin> set ''.[(|)*+?{'' \<Longrightarrow> c \<noteq> BSLASH \<Longrightarrow> (icase \<longrightarrow> byte c < 0xC0) \<Longrightarrow> single icase [c] (folds icase c)"
| escaped: "c \<notin> set ''wWsS'' \<Longrightarrow> (icase \<longrightarrow> byte c < 0xC0) \<Longrightarrow> single icase [BSLASH, c] (folds icase c)"
| word: "single icase [BSLASH, CHR ''w''] word_char"
| not_word: "single icase [BSLASH, CHR ''W''] (\<lambda>c. \<not> word_char c)"
| space: "single icase [BSLASH, CHR ''s''] space_char"
| not_space: "single icase [BSLASH, CHR ''S''] (\<lambda>c. \<not> space_char c)"
| bracket: "bracket_ok k \<Longrightarrow> single icase (bracket_text k) (bracket_has icase k)"

text \<open>A position repeated between \<open>lo\<close> and \<open>hi\<close> times; the parser bounds \<open>hi\<close> by 60.\<close>

definition copies :: "byteset \<Rightarrow> nat \<Rightarrow> nat \<Rightarrow> gx" where
  "copies S lo hi =
     (if hi = 0 then GEps
      else foldl (\<lambda>r i. GSeq r (if lo \<le> i then GOpt (GPos S) else GPos S)) (if lo = 0 then GOpt (GPos S) else GPos S) [1..<hi])"

inductive p_atom :: "bool \<Rightarrow> string \<Rightarrow> gx \<Rightarrow> bool"
  and p_rep :: "bool \<Rightarrow> string \<Rightarrow> gx \<Rightarrow> bool"
  and p_cat :: "bool \<Rightarrow> string \<Rightarrow> gx \<Rightarrow> bool"
  and p_alt :: "bool \<Rightarrow> string \<Rightarrow> gx \<Rightarrow> bool" for icase where
  atom_one: "single icase s P \<Longrightarrow> p_atom icase s (GPos (char_set P))"
| atom_group: "p_alt icase s r \<Longrightarrow> p_atom icase (''('' @ s @ '')'') r"
| rep_none: "p_atom icase s r \<Longrightarrow> p_rep icase s r"
| rep_star: "p_atom icase s r \<Longrightarrow> p_rep icase (s @ ''*'') (GStar r)"
| rep_plus: "p_atom icase s r \<Longrightarrow> p_rep icase (s @ ''+'') (GPlus r)"
| rep_opt: "p_atom icase s r \<Longrightarrow> p_rep icase (s @ ''?'') (GOpt r)"
| rep_times: "single icase s P \<Longrightarrow> 1 \<le> n \<Longrightarrow> n \<le> 60 \<Longrightarrow> p_rep icase (s @ ''{'' @ dec n @ ''}'') (copies (char_set P) n n)"
| rep_between: "single icase s P \<Longrightarrow> m \<le> n \<Longrightarrow> 1 \<le> n \<Longrightarrow> n \<le> 60 \<Longrightarrow>
    p_rep icase (s @ ''{'' @ dec m @ '','' @ dec n @ ''}'') (copies (char_set P) m n)"
| cat_none: "p_cat icase [] GEps"
| cat_one: "p_rep icase s r \<Longrightarrow> p_cat icase s r"
| cat_more: "p_cat icase s r \<Longrightarrow> s \<noteq> [] \<Longrightarrow> p_rep icase t q \<Longrightarrow> p_cat icase (s @ t) (GSeq r q)"
| alt_one: "p_cat icase s r \<Longrightarrow> p_alt icase s r"
| alt_more: "p_alt icase s r \<Longrightarrow> p_cat icase t q \<Longrightarrow> p_alt icase (s @ ''|'' @ t) (GAlt r q)"

lemmas p_inducts = p_atom_p_rep_p_cat_p_alt.inducts
lemmas p_intros = p_atom_p_rep_p_cat_p_alt.intros

section \<open>Bounded repetition\<close>

lemma copies_step: "0 < hi \<Longrightarrow> copies S lo (Suc hi) = GSeq (copies S lo hi) (if lo \<le> hi then GOpt (GPos S) else GPos S)"
  by (simp add: copies_def)

lemma glang_copies:
  "lo \<le> hi \<Longrightarrow> glang (copies S lo hi) = {w. lo \<le> length w \<and> length w \<le> hi \<and> list_all (in_set S) w}"
proof -
  have *: "glang (copies S lo (Suc n)) = {w. min lo (Suc n) \<le> length w \<and> length w \<le> Suc n \<and> list_all (in_set S) w}" for n
  proof (induction n)
    case 0
    have "w \<in> glang (copies S lo (Suc 0)) \<longleftrightarrow> min lo (Suc 0) \<le> length w \<and> length w \<le> Suc 0 \<and> list_all (in_set S) w" for w
    proof (cases w)
      case (Cons c v)
      then show ?thesis by (cases v) (auto simp: copies_def)
    qed (auto simp: copies_def)
    then show ?case by blast
  next
    case (Suc n)
    have one: "glang (if lo \<le> Suc n then GOpt (GPos S) else GPos S) =
      {v. length v \<le> 1 \<and> (lo \<le> Suc n \<or> v \<noteq> []) \<and> list_all (in_set S) v}"
    proof (intro set_eqI)
      fix v
      show "v \<in> glang (if lo \<le> Suc n then GOpt (GPos S) else GPos S) \<longleftrightarrow>
        v \<in> {v. length v \<le> 1 \<and> (lo \<le> Suc n \<or> v \<noteq> []) \<and> list_all (in_set S) v}"
      proof (cases v)
        case (Cons c u)
        then show ?thesis by (cases u) auto
      qed auto
    qed
    show ?case
    proof (intro set_eqI iffI)
      fix w
      assume "w \<in> glang (copies S lo (Suc (Suc n)))"
      then obtain u v where "w = u @ v" "u \<in> glang (copies S lo (Suc n))" "v \<in> glang (if lo \<le> Suc n then GOpt (GPos S) else GPos S)"
        by (auto simp: copies_step)
      then have u: "min lo (Suc n) \<le> length u" "length u \<le> Suc n" "length v \<le> 1" "lo \<le> Suc n \<or> v \<noteq> []"
        "list_all (in_set S) w" "length w = length u + length v" unfolding Suc one by simp_all
      then have "min lo (Suc (Suc n)) \<le> length w" by (cases v) auto
      with u show "w \<in> {w. min lo (Suc (Suc n)) \<le> length w \<and> length w \<le> Suc (Suc n) \<and> list_all (in_set S) w}" by simp
    next
      fix w
      assume w: "w \<in> {w. min lo (Suc (Suc n)) \<le> length w \<and> length w \<le> Suc (Suc n) \<and> list_all (in_set S) w}"
      define k where "k = (if length w = Suc (Suc n) \<or> \<not> lo \<le> Suc n then length w - 1 else length w)"
      have all: "list_all (in_set S) (take k w)" "list_all (in_set S) (drop k w)"
        using w by (auto simp: list_all_iff dest: in_set_takeD in_set_dropD)
      have k: "min lo (Suc n) \<le> min (length w) k" "min (length w) k \<le> Suc n" "length w - k \<le> 1" "lo \<le> Suc n \<or> k < length w"
        using w by (auto simp: k_def)
      have "take k w \<in> glang (copies S lo (Suc n))" "drop k w \<in> glang (if lo \<le> Suc n then GOpt (GPos S) else GPos S)"
        unfolding Suc one using all k by (auto simp: not_le)
      then show "w \<in> glang (copies S lo (Suc (Suc n)))" unfolding copies_step [OF zero_less_Suc] glang.simps
        by (intro CollectI exI [of _ "take k w"] exI [of _ "drop k w"]) simp
    qed
  qed
  assume "lo \<le> hi"
  then show ?thesis
  proof (cases hi)
    case 0
    with \<open>lo \<le> hi\<close> show ?thesis by (auto simp: copies_def)
  next
    case (Suc n)
    with * \<open>lo \<le> hi\<close> show ?thesis by (simp add: min_absorb1)
  qed
qed

end
