(* ===== verification/Text_Parse.thy ===== *)
theory Text_Parse
  imports Text_Grammar
begin

text \<open>
  The parser against the grammar: on the text of a pattern it builds the positions of the expression the grammar
  assigns to it, and it returns on every text within the fuel given.
\<close>

section \<open>Bracket expressions\<close>

lemma find_upt: "i \<le> j \<Longrightarrow> j < n \<Longrightarrow> P j \<Longrightarrow> (\<And>k. i \<le> k \<Longrightarrow> k < j \<Longrightarrow> \<not> P k) \<Longrightarrow> find P [i..<n] = Some j"
  by (auto simp: find_Some_iff intro!: exI [of _ "j - i"])

lemma drop_nth_at: "drop i p = u \<Longrightarrow> k < length u \<Longrightarrow> p ! (i + k) = u ! k"
  by auto

lemma drop_length_at: "drop i p = u \<Longrightarrow> u \<noteq> [] \<Longrightarrow> length p = i + length u"
  by auto

lemma posix_name_plain: "posix_class nm \<noteq> None \<Longrightarrow> CHR '':'' \<notin> set nm"
  by (auto simp: posix_class_def Let_def split: if_splits)

lemma class_items_end: "drop i p = CHR '']'' # rest \<Longrightarrow> class_items p i False icase S = Some (i, S)"
  using drop_nth_at [of i p "CHR '']'' # rest" 0] by (simp add: class_items.simps [of p i])

lemma class_items_byte:
  assumes "drop i p = c # d # rest" "c \<noteq> CHR ''[''" "is_first \<or> c \<noteq> CHR '']''" "d = CHR ''-'' \<Longrightarrow> rest = [] \<or> hd rest = CHR '']''"
  shows "class_items p i is_first icase S = class_items p (i + 1) False icase (gset_byte (byte c) icase S)"
proof -
  have n: "length p = i + 2 + length rest" "p ! i = c" "p ! (i + 1) = d" "rest \<noteq> [] \<Longrightarrow> p ! (i + 2) = hd rest"
    using drop_length_at [OF assms(1)] drop_nth_at [OF assms(1), of 0] drop_nth_at [OF assms(1), of 1] drop_nth_at [OF assms(1), of 2]
    by (auto simp: hd_conv_nth)
  have "posix_class_span p i icase S = Some (0, S)" using n assms(2) by (simp add: posix_class_span_def)
  then show ?thesis using n assms(3,4) by (auto simp: class_items.simps [of p i])
qed

lemma class_items_range:
  assumes "drop i p = a # CHR ''-'' # b # rest" "a \<noteq> CHR ''[''" "is_first \<or> a \<noteq> CHR '']''" "b \<noteq> CHR '']''"
  shows "class_items p i is_first icase S = class_items p (i + 3) False icase (set_range (byte a) (byte b) icase S)"
proof -
  have n: "length p = i + 3 + length rest" "p ! i = a" "p ! (i + 1) = CHR ''-''" "p ! (i + 2) = b"
    using drop_length_at [OF assms(1)] drop_nth_at [OF assms(1), of 0] drop_nth_at [OF assms(1), of 1] drop_nth_at [OF assms(1), of 2]
    by auto
  have "posix_class_span p i icase S = Some (0, S)" using n assms(2) by (simp add: posix_class_span_def)
  then show ?thesis using n assms(3,4) by (auto simp: class_items.simps [of p i])
qed

lemma class_items_name:
  assumes "drop i p = ''[:'' @ nm @ '':]'' @ rest" "posix_class nm = Some f"
  shows "class_items p i is_first icase S =
    class_items p (i + length nm + 4) False icase (fold (\<lambda>b S. if f b then gset_byte b icase S else S) [0..<256] S)"
proof -
  let ?u = "''[:'' @ nm @ '':]'' @ rest"
  have plain: "CHR '':'' \<notin> set nm" using posix_name_plain assms(2) by blast
  have at: "p ! (i + k) = ?u ! k" if "k < length nm + 4" for k using drop_nth_at [OF assms(1)] that by simp
  have len: "length p = i + length nm + 4 + length rest" using drop_length_at [OF assms(1)] by simp
  have here: "p ! i = CHR ''[''" "p ! (i + 1) = CHR '':''" using at [of 0] at [of 1] by simp_all
  have name: "p ! (i + 2 + k) = nm ! k" if "k < length nm" for k using at [of "2 + k"] that by (simp add: nth_append add.assoc)
  have close: "p ! (i + 2 + length nm) = CHR '':''" "p ! (i + 2 + length nm + 1) = CHR '']''"
    using at [of "2 + length nm"] at [of "3 + length nm"] by (simp_all add: nth_append add.assoc numeral_eq_Suc)
  have "find (\<lambda>j. p ! j = CHR '':'' \<and> p ! (j + 1) = CHR '']'') [i + 2..<length p - 1] = Some (i + 2 + length nm)"
  proof (rule find_upt)
    fix k assume k: "i + 2 \<le> k" "k < i + 2 + length nm"
    obtain m where m: "k = i + 2 + m" "m < length nm" using k by (metis add_less_cancel_left le_Suc_ex)
    then have "p ! k = nm ! (k - (i + 2))" using name [OF m(2)] by simp
    moreover have "nm ! (k - (i + 2)) \<in> set nm" using k by (intro nth_mem) auto
    ultimately show "\<not> (p ! k = CHR '':'' \<and> p ! (k + 1) = CHR '']'')" using plain by metis
  qed (use len close in auto)
  moreover have "take (length nm) (drop (i + 2) p) = nm"
    using arg_cong [OF assms(1), of "drop 2"] by (simp add: add.commute)
  ultimately have "posix_class_span p i icase S =
    Some (i + length nm + 4, fold (\<lambda>b S. if f b then gset_byte b icase S else S) [0..<256] S)"
    using here len assms(2) by (simp add: posix_class_span_def del: upt_Suc)
  then show ?thesis using here len by (simp add: class_items.simps [of p i])
qed

lemma class_items_run:
  "drop i p = concat (map item_text its) @ (if dash then ''-'' else []) @ '']'' @ rest \<Longrightarrow> list_all item_ok its \<Longrightarrow>
    is_first \<longrightarrow> its \<noteq> [] \<or> dash \<Longrightarrow>
    \<exists>T. class_items p i is_first icase S = Some (i + length (concat (map item_text its)) + (if dash then 1 else 0), T) \<and>
      (\<forall>d. in_set T d \<longleftrightarrow> in_set S d \<or> (\<exists>it \<in> set its. item_has icase it d) \<or> dash \<and> folds icase (CHR ''-'') d)"
proof (induction its arbitrary: i is_first S)
  case Nil
  show ?case
  proof (cases dash)
    case True
    then have d: "drop i p = CHR ''-'' # CHR '']'' # rest" using Nil(1) by simp
    then have "drop (Suc i) p = CHR '']'' # rest" by (metis drop_Suc list.sel(3) tl_drop)
    then show ?thesis using True class_items_byte [OF d, of is_first icase S] by (simp add: class_items_end)
  next
    case False
    then show ?thesis using Nil class_items_end [of i p rest icase S] by simp
  qed
next
  case (Cons it its)
  let ?more = "concat (map item_text its) @ (if dash then ''-'' else []) @ '']'' @ rest"
  have d: "drop i p = item_text it @ ?more" using Cons.prems(1) by simp
  have d2: "drop (i + length (item_text it)) p = ?more" using arg_cong [OF d, of "drop (length (item_text it))"] by (simp add: add.commute)
  obtain c u where cu: "?more = c # u" by (cases ?more) auto
  have first: "c = CHR ''-'' \<Longrightarrow> u = [] \<or> hd u = CHR '']''"
  proof (cases its)
    case Nil
    then show "c = CHR ''-'' \<Longrightarrow> ?thesis" using cu by (auto split: if_splits)
  next
    case (Cons jt jts)
    then show "c = CHR ''-'' \<Longrightarrow> ?thesis" using cu Cons.prems(2) by (cases jt) auto
  qed
  have "class_items p i is_first icase S = class_items p (i + length (item_text it)) False icase
      (case it of CByte c \<Rightarrow> gset_byte (byte c) icase S | CRange a b \<Rightarrow> set_range (byte a) (byte b) icase S
       | CName nm \<Rightarrow> fold (\<lambda>b S. if the (posix_class nm) b then gset_byte b icase S else S) [0..<256] S)"
  proof (cases it)
    case (CByte c')
    with d cu have "drop i p = c' # c # u" by simp
    with CByte Cons.prems(2) first show ?thesis by (simp add: class_items_byte)
  next
    case (CRange a b)
    with d Cons.prems(2) show ?thesis by (simp add: class_items_range add.assoc numeral_eq_Suc)
  next
    case (CName nm)
    then obtain f where "posix_class nm = Some f" using Cons.prems(2) by auto
    moreover have "i + length nm + 4 = i + length (item_text it)" using CName by simp
    moreover have "drop i p = ''[:'' @ nm @ '':]'' @ ?more" using d CName by simp
    note class_items_name [OF this \<open>posix_class nm = Some f\<close>, of is_first icase S]
    ultimately show ?thesis using CName by (simp only: citem.case option.sel)
  qed
  moreover have "in_set (case it of CByte c \<Rightarrow> gset_byte (byte c) icase S | CRange a b \<Rightarrow> set_range (byte a) (byte b) icase S
       | CName nm \<Rightarrow> fold (\<lambda>b S. if the (posix_class nm) b then gset_byte b icase S else S) [0..<256] S) d
      \<longleftrightarrow> in_set S d \<or> item_has icase it d" for d
  proof (cases it)
    case (CName nm)
    then obtain f where "posix_class nm = Some f" using Cons.prems(2) by auto
    moreover have "set [0..<256] \<subseteq> {..<256::nat}" by auto
    ultimately show ?thesis using CName in_set_bytes [of "[0..<256]" f icase S d] by auto
  qed (auto simp: in_set_range)
  ultimately show ?case using Cons.IH [OF d2, of False] Cons.prems(2) by (fastforce simp: add_ac)
qed

lemma folds_plain [simp]: "folds icase (CHR '']'') d \<longleftrightarrow> d = CHR '']''" "folds icase (CHR ''-'') d \<longleftrightarrow> d = CHR ''-''"
proof -
  have "lower_byte (byte c) = lower_byte (byte d) \<longleftrightarrow> c = d" if "byte c < 0x41 \<or> 0x5A < byte c \<and> byte c < 0x61 \<or> 0x7A < byte c" for c
  proof -
    have "c = d \<longleftrightarrow> byte c = byte d" by (metis char_of_byte)
    then show ?thesis using that by (auto simp: lower_byte_def split: if_splits)
  qed
  from this [of "CHR '']''"] this [of "CHR ''-''"]
  show "folds icase (CHR '']'') d \<longleftrightarrow> d = CHR '']''" "folds icase (CHR ''-'') d \<longleftrightarrow> d = CHR ''-''"
    by (auto simp: folds_def byte_def)
qed

lemma class_items_body:
  assumes d: "drop i p = bracket_body k @ '']'' @ rest" and ok: "bracket_ok k"
  shows "\<exists>T. class_items p i True icase 0 = Some (i + length (bracket_body k), T) \<and>
    (\<forall>d. in_set T d \<longleftrightarrow> b_lead k \<and> d = CHR '']'' \<or> b_dash k \<and> d = CHR ''-'' \<or> (\<exists>it \<in> set (b_items k). item_has icase it d))"
proof (cases "b_lead k")
  case False
  then have "drop i p = concat (map item_text (b_items k)) @ (if b_dash k then ''-'' else []) @ '']'' @ rest"
    using d by (simp add: bracket_body_def)
  moreover have "list_all item_ok (b_items k)" "b_items k \<noteq> [] \<or> b_dash k"
    using ok False by (auto simp: bracket_ok_def bracket_body_def split: if_splits)
  ultimately show ?thesis using class_items_run [of i p "b_items k" "b_dash k" rest True icase 0] False
    by (auto simp: bracket_body_def)
next
  case True
  let ?more = "concat (map item_text (b_items k)) @ (if b_dash k then ''-'' else []) @ '']'' @ rest"
  have d1: "drop i p = CHR '']'' # ?more" using d True by (simp add: bracket_body_def)
  have d2: "drop (i + 1) p = ?more" using arg_cong [OF d1, of "drop 1"] by (simp add: add.commute)
  obtain c u where cu: "?more = c # u" by (cases ?more) auto
  have first: "c = CHR ''-'' \<Longrightarrow> u = [] \<or> hd u = CHR '']''"
  proof (cases "b_items k")
    case Nil
    then show "c = CHR ''-'' \<Longrightarrow> ?thesis" using cu by (auto split: if_splits)
  next
    case (Cons jt jts)
    then show "c = CHR ''-'' \<Longrightarrow> ?thesis" using cu ok by (cases jt) (auto simp: bracket_ok_def)
  qed
  have "class_items p i True icase 0 = class_items p (i + 1) False icase (gset_byte (byte (CHR '']'')) icase 0)"
    using d1 first unfolding cu by (intro class_items_byte) auto
  moreover have "list_all item_ok (b_items k)" using ok by (simp add: bracket_ok_def)
  from class_items_run [OF d2 this, of False icase "gset_byte (byte (CHR '']'')) icase 0"]
  obtain T where "class_items p (i + 1) False icase (gset_byte (byte (CHR '']'')) icase 0) =
      Some (i + 1 + length (concat (map item_text (b_items k))) + (if b_dash k then 1 else 0), T)"
    "\<forall>d. in_set T d \<longleftrightarrow> in_set (gset_byte (byte (CHR '']'')) icase 0) d \<or> (\<exists>it \<in> set (b_items k). item_has icase it d) \<or> b_dash k \<and> folds icase (CHR ''-'') d"
    by auto
  ultimately show ?thesis using True by (intro exI [of _ T]) (auto simp: bracket_body_def)
qed

lemma class_span_bracket:
  assumes "bracket_ok k"
  shows "class_span (bracket_text k @ rest) 0 0 icase = (length (bracket_text k), char_set (bracket_has icase k))"
proof -
  define p i where "p = bracket_text k @ rest" and "i = (if b_neg k then 2 else 1 :: nat)"
  have d: "drop i p = bracket_body k @ '']'' @ rest" by (simp add: bracket_text_def p_def i_def)
  obtain c u where cu: "bracket_body k = c # u" using assms by (cases "bracket_body k") (auto simp: bracket_ok_def)
  have neg: "(1 < length p \<and> p ! 1 = CHR ''^'') \<longleftrightarrow> b_neg k"
    using assms cu by (auto simp: bracket_text_def bracket_ok_def p_def)
  obtain T where T: "class_items p i True icase 0 = Some (i + length (bracket_body k), T)"
    "\<And>d. in_set T d \<longleftrightarrow> b_lead k \<and> d = CHR '']'' \<or> b_dash k \<and> d = CHR ''-'' \<or> (\<exists>it \<in> set (b_items k). item_has icase it d)"
    using class_items_body [OF d assms] by blast
  have "(if b_neg k then NOT T else T) = char_set (bracket_has icase k)"
    by (rule char_set_eq) (auto simp: T(2) bracket_has_def)
  moreover have "length (bracket_text k) = i + length (bracket_body k) + 1" "i + length (bracket_body k) < length p"
    by (simp_all add: bracket_text_def i_def p_def)
  moreover have "class_span p 0 0 icase = (case class_items p i True icase 0 of
      None \<Rightarrow> (0, 0) | Some (j, S) \<Rightarrow> if length p \<le> j then (0, S) else (j + 1, if b_neg k then NOT S else S))"
    unfolding class_span_def Let_def add_0 neg i_def by (simp add: numeral_eq_Suc split: option.split)
  ultimately show ?thesis using T(1) unfolding p_def [symmetric] by simp
qed

end
