(* ===== verification/Text_Compile.thy ===== *)
theory Text_Compile
  imports Text_Parse
begin

text \<open>
  The recursive descent parser of the regular expression face against the grammar of \<open>Text_Grammar\<close>, and its
  termination: the fuel \<open>parse_fuel\<close> suffices for every text.
\<close>

section \<open>One position\<close>

lemma shorthand_word: "shorthand_set (CHR ''w'') = Some (char_set word_char)" "shorthand_set (CHR ''W'') = Some (char_set (\<lambda>c. \<not> word_char c))"
proof -
  let ?w = "gset_byte 0x5F False (set_range 0x61 0x7A False (set_range 0x41 0x5A False (set_range 0x30 0x39 False 0)))"
  have "in_set ?w c \<longleftrightarrow> word_char c" for c
    by (auto simp: in_gset_byte in_set_range folds_def word_char_def byte_char_of Let_def)
       (metis byte_char_of char_of_byte)+
  then have "?w = char_set word_char" "NOT ?w = char_set (\<lambda>c. \<not> word_char c)" by (auto intro!: char_set_eq)
  then show "shorthand_set (CHR ''w'') = Some (char_set word_char)" "shorthand_set (CHR ''W'') = Some (char_set (\<lambda>c. \<not> word_char c))"
    by (simp_all add: shorthand_set_def Let_def)
qed

lemma shorthand_space: "shorthand_set (CHR ''s'') = Some (char_set space_char)" "shorthand_set (CHR ''S'') = Some (char_set (\<lambda>c. \<not> space_char c))"
proof -
  let ?w = "fold (\<lambda>b. gset_byte b False) [0x20, 0x09, 0x0A, 0x0B, 0x0C, 0x0D] 0"
  have e: "c = char_of b \<longleftrightarrow> byte c = b" "char_of b = c \<longleftrightarrow> byte c = b" if "b < 256" for c b using that by (auto simp: byte_char_of)
  have "in_set ?w c \<longleftrightarrow> space_char c" for c
    by (auto simp: in_gset_byte folds_def space_char_def e)
  then have "?w = char_set space_char" "NOT ?w = char_set (\<lambda>c. \<not> space_char c)" by (auto intro!: char_set_eq)
  then show "shorthand_set (CHR ''s'') = Some (char_set space_char)" "shorthand_set (CHR ''S'') = Some (char_set (\<lambda>c. \<not> space_char c))"
    by (simp_all add: shorthand_set_def Let_def)
qed

lemma shorthand_none: "c \<notin> set ''wWsS'' \<Longrightarrow> shorthand_set c = None"
  by (simp add: shorthand_set_def Let_def)

lemma literal_set_char:
  "x_p x = c # rest \<Longrightarrow> x_fold_left x = 0 \<Longrightarrow> g_icase (x_g x) \<longrightarrow> byte c < 0xC0 \<Longrightarrow>
    literal_set ft x = (char_set (folds (g_icase (x_g x)) c), adv 1 x)"
proof -
  have "gset_byte (byte c) icase 0 = char_set (folds icase c)" for icase by (rule char_set_eq) simp
  then show "x_p x = c # rest \<Longrightarrow> x_fold_left x = 0 \<Longrightarrow> g_icase (x_g x) \<longrightarrow> byte c < 0xC0 \<Longrightarrow>
    literal_set ft x = (char_set (folds (g_icase (x_g x)) c), adv 1 x)"
    by (auto simp: literal_set_def cur_def Let_def)
qed

lemma single_head: "single icase s P \<Longrightarrow> \<exists>c u. s = c # u \<and> c \<notin> set ''(|)*+?{'' \<and> (icase \<longrightarrow> byte c < 0xC0)"
  by (induction rule: single.induct) (auto simp: bracket_text_def byte_def)

lemma atom_set_single:
  assumes "single icase s P" "x_p x = s @ rest" "x_fold_left x = 0" "g_icase (x_g x) = icase"
  shows "atom_set ft x = (char_set P, adv (length s) x)"
  using assms
proof (induction rule: single.induct)
  case dot
  have "NOT 0 = char_set (\<lambda>_. True)" by (rule char_set_eq) (use in_set_simps(2) [of 0] in simp)
  with dot show ?case by (simp add: atom_set_def cur_def)
next
  case (plain c)
  then show ?case using literal_set_char [of x c rest ft] by (simp add: atom_set_def cur_def)
next
  case (escaped c)
  then show ?case using literal_set_char [of "adv 1 x" c rest ft] by (simp add: atom_set_def cur_def shorthand_none adv_def)
next
  case (bracket k)
  then show ?case using class_span_bracket [of k rest icase]
    by (simp add: atom_set_def cur_def bracket_text_def Let_def)
qed (simp_all add: atom_set_def cur_def shorthand_word shorthand_space numeral_2_eq_2)

text \<open>The fuel needed is finite.\<close>

definition runs :: "(nat \<Rightarrow> 'a option) \<Rightarrow> 'a \<Rightarrow> bool" where
  "runs f r \<longleftrightarrow> (\<exists>N. \<forall>n \<ge> N. f n = Some r)"

lemma runs_shift: "runs (\<lambda>n. f (Suc n)) r \<Longrightarrow> runs f r"
proof -
  assume "runs (\<lambda>n. f (Suc n)) r"
  then obtain N where N: "\<forall>n \<ge> N. f (Suc n) = Some r" by (auto simp: runs_def)
  have "f n = Some r" if "n \<ge> Suc N" for n using N that by (cases n) auto
  then show ?thesis unfolding runs_def by blast
qed

lemma runs_const: "f = (\<lambda>_. Some r) \<Longrightarrow> runs f r"
  by (simp add: runs_def)

lemma runs_bind: "runs f r \<Longrightarrow> runs (\<lambda>n. k n r) q \<Longrightarrow> runs (\<lambda>n. case f n of None \<Rightarrow> None | Some r \<Rightarrow> k n r) q"
proof -
  assume "runs f r" "runs (\<lambda>n. k n r) q"
  then obtain N M where "\<forall>n \<ge> N. f n = Some r" "\<forall>n \<ge> M. k n r = Some q" by (auto simp: runs_def)
  then show ?thesis unfolding runs_def by (intro exI [of _ "max N M"]) auto
qed

text \<open>The parser stands before the text \<open>s\<close> and has room for the positions of \<open>r\<close>; it has read it.\<close>

definition ready :: "bool \<Rightarrow> gpar \<Rightarrow> string \<Rightarrow> gx \<Rightarrow> string \<Rightarrow> bool" where
  "ready icase x s r rest \<longleftrightarrow> x_p x = s @ rest \<and> x_fold_left x = 0 \<and> g_icase (x_g x) = icase \<and> g_ok (x_g x) \<and> wf_g (x_g x) \<and>
     g_npos (x_g x) + gsz r \<le> 64 * g_nwords (x_g x)"

definition read :: "gpar \<Rightarrow> gx \<Rightarrow> gattr \<Rightarrow> gpar \<Rightarrow> string \<Rightarrow> bool" where
  "read x r a y rest \<longleftrightarrow> built r (x_g x) a (x_g y) \<and> x_p y = rest \<and> x_fold_left y = 0"

lemma ready_one:
  assumes "single icase s P" "ready icase x s (GPos S) rest"
  shows "g_atom (Suc n) ft x = Some (one_attr (g_npos (x_g x)), g_map (alloc_pos (char_set P)) (adv (length s) x))"
    "\<not> full (x_g x)" "read x (GPos (char_set P)) (one_attr (g_npos (x_g x))) (g_map (alloc_pos (char_set P)) (adv (length s) x)) rest"
proof -
  obtain c u where s: "s = c # u" "c \<noteq> CHR ''(''" "icase \<longrightarrow> byte c < 0xC0" using single_head [OF assms(1)] by auto
  show f: "\<not> full (x_g x)" using assms(2) by (auto simp: ready_def full_def)
  have "fold_branches ft x = None" using s assms(2) by (auto simp: fold_branches_def cur_def ready_def)
  moreover have "atom_set ft x = (char_set P, adv (length s) x)" using assms by (intro atom_set_single) (auto simp: ready_def)
  moreover have "cur (x_p x) = c" using s assms(2) by (simp add: cur_def ready_def)
  moreover have "x_g (adv (length s) x) = x_g x" by (simp add: adv_def)
  ultimately show "g_atom (Suc n) ft x = Some (one_attr (g_npos (x_g x)), g_map (alloc_pos (char_set P)) (adv (length s) x))"
    using f s by simp
  show "read x (GPos (char_set P)) (one_attr (g_npos (x_g x))) (g_map (alloc_pos (char_set P)) (adv (length s) x)) rest"
    using assms(2) f by (auto simp: read_def ready_def g_map_def adv_def intro: built_pos)
qed

section \<open>Quantifiers\<close>

lemma x_g_simps [simp]: "x_g (adv n x) = x_g x" "x_g (g_map f x) = f (x_g x)" "x_p (g_map f x) = x_p x" "x_p (adv n x) = drop n (x_p x)"
  "x_fold_left (adv n x) = x_fold_left x" "x_fold_left (g_map f x) = x_fold_left x"
  by (simp_all add: adv_def g_map_def)

lemma cur_simps [simp]: "cur [] = NUL" "cur (c # u) = c"
  by (simp_all add: cur_def)

lemma g_quantify_cases:
  "rest = [] \<or> hd rest \<notin> set ''*+?{'' \<Longrightarrow> x_p y = rest \<Longrightarrow> g_quantify pb a y = (a, y)"
  "x_p y = CHR ''*'' # rest \<Longrightarrow> g_quantify pb a y = (a\<lparr>a_nullable := True\<rparr>, g_map (link (a_last a) (a_first a)) (adv 1 y))"
  "x_p y = CHR ''+'' # rest \<Longrightarrow> g_quantify pb a y = (a, g_map (link (a_last a) (a_first a)) (adv 1 y))"
  "x_p y = CHR ''?'' # rest \<Longrightarrow> g_quantify pb a y = (a\<lparr>a_nullable := True\<rparr>, adv 1 y)"
  "x_p y = CHR ''{'' # rest \<Longrightarrow> g_quantify pb a y = g_bound pb a y"
  by (cases rest; simp add: g_quantify_def)+

lemma gsz_copies [simp]: "1 \<le> n \<Longrightarrow> gsz (copies S lo n) = n"
proof (induction n)
  case (Suc n)
  show ?case
  proof (cases n)
    case 0
    then show ?thesis by (simp add: copies_def)
  next
    case (Suc m)
    then show ?thesis using Suc.IH copies_step [of n S lo] by simp
  qed
qed simp

lemma g_copies_built:
  "built (copies S lo ci) g a (x_g y) \<Longrightarrow> 1 \<le> ci \<Longrightarrow> ci \<le> hi \<Longrightarrow> g_npos g + hi \<le> 64 * g_nwords g \<Longrightarrow>
    \<exists>a' y'. g_copies S lo [ci..<hi] a y = (a', y') \<and> built (copies S lo hi) g a' (x_g y') \<and> x_p y' = x_p y \<and> x_fold_left y' = x_fold_left y"
proof (induction "hi - ci" arbitrary: ci a y)
  case 0
  then show ?case by simp
next
  case (Suc k)
  then have lt: "ci < hi" by simp
  let ?r = "if lo \<le> ci then GOpt (GPos S) else GPos S"
  let ?b = "(one_attr (g_npos (x_g y)))\<lparr>a_nullable := lo \<le> ci\<rparr>"
  have n: "g_npos (x_g y) = g_npos g + ci" "g_nwords (x_g y) = g_nwords g" "wf_g (x_g y)"
    using Suc.prems(1,2) by (auto simp: built_def)
  then have room: "\<not> full (x_g y)" using lt Suc.prems(4) by (simp add: full_def)
  have "built (GPos S) (x_g y) (one_attr (g_npos (x_g y))) (alloc_pos S (x_g y))" using n(3) room by (rule built_pos)
  then have "built ?r (x_g y) ?b (alloc_pos S (x_g y))" by (auto simp: one_attr_def built_def)
  from built_seq [OF Suc.prems(1) this]
  have "built (copies S lo (Suc ci)) g (seq_attr a ?b) (link (a_last a) (a_first ?b) (alloc_pos S (x_g y)))"
    using Suc.prems(2) by (simp add: copies_step)
  moreover have "k = hi - Suc ci" using Suc.hyps(2) by simp
  ultimately have "\<exists>a' y'. g_copies S lo [Suc ci..<hi] (seq_attr a ?b) (g_map (\<lambda>g. link (a_last a) (a_first ?b) (alloc_pos S g)) y) = (a', y') \<and>
    built (copies S lo hi) g a' (x_g y') \<and> x_p y' = x_p y \<and> x_fold_left y' = x_fold_left y"
    using Suc.hyps(1) [of "Suc ci" "seq_attr a ?b" "g_map (\<lambda>g. link (a_last a) (a_first ?b) (alloc_pos S g)) y"] lt Suc.prems(4) by simp
  then show ?case using room lt by (simp add: upt_conv_Cons Let_def)
qed

lemma takeWhile_dec_append: "\<not> is_digit c \<Longrightarrow> takeWhile is_digit (dec n @ c # u) = dec n \<and> dropWhile is_digit (dec n @ c # u) = c # u"
  using dec_all_digits [of n] by (simp add: takeWhile_append2 dropWhile_append2 list_all_iff)

text \<open>The text of a bound, and what \<open>g_bound\<close> makes of it.\<close>

definition bound_text :: "nat \<Rightarrow> nat \<Rightarrow> string \<Rightarrow> bool" where
  "bound_text m n u \<longleftrightarrow> u = ''{'' @ dec m @ '','' @ dec n @ ''}'' \<or> m = n \<and> u = ''{'' @ dec n @ ''}''"

lemma g_bound_copies:
  assumes "bound_text m n u" "m \<le> n" "1 \<le> n" "n \<le> 60" "x_p y = u @ rest" "g_npos (x_g y) = pb + 1"
  shows "\<exists>z. g_bound pb a y = g_copies (g_setb (x_g y) ! pb) m [1..<n] (if m = 0 then a\<lparr>a_nullable := True\<rparr> else a) z \<and>
    x_p z = rest \<and> x_g z = x_g y \<and> x_fold_left z = x_fold_left y"
proof -
  have nd: "\<not> is_digit (CHR '','')" "\<not> is_digit (CHR ''}'')" by (simp_all add: is_digit_def byte_def)
  consider "u = ''{'' @ dec m @ '','' @ dec n @ ''}''" | "m = n" "u = ''{'' @ dec n @ ''}''"
    using assms(1) by (auto simp: bound_text_def)
  then show ?thesis
  proof cases
    case 1
    then show ?thesis using assms(2-6) nd
      by (simp add: g_bound_def digits_def takeWhile_dec_append dec_nonempty Let_def)
         (intro conjI impI; (rule exI, rule conjI, rule refl, simp))
  next
    case 2
    then show ?thesis using assms(2-6) nd
      by (simp add: g_bound_def digits_def takeWhile_dec_append dec_nonempty Let_def)
         (rule exI, rule conjI, rule refl, simp)
  qed
qed

section \<open>The grammar\<close>

lemma p_heads:
  "p_atom icase s r \<Longrightarrow> \<exists>c u. s = c # u \<and> c \<notin> set ''|)*+?{''"
  "p_rep icase s r \<Longrightarrow> \<exists>c u. s = c # u \<and> c \<notin> set ''|)*+?{''"
  "p_cat icase s r \<Longrightarrow> True" "p_alt icase s r \<Longrightarrow> True"
  by (induction rule: p_inducts) (auto dest!: single_head)

definition atom_parsed :: "fold_tables \<Rightarrow> bool \<Rightarrow> string \<Rightarrow> gx \<Rightarrow> bool" where
  "atom_parsed ft icase s r \<longleftrightarrow> (\<forall>x rest. ready icase x s r rest \<longrightarrow> (\<exists>a y. read x r a y rest \<and> runs (\<lambda>n. g_atom n ft x) (a, y)))"

definition rep_parsed :: "fold_tables \<Rightarrow> bool \<Rightarrow> string \<Rightarrow> gx \<Rightarrow> bool" where
  "rep_parsed ft icase s r \<longleftrightarrow> (\<forall>x rest. ready icase x s r rest \<longrightarrow> rest = [] \<or> hd rest \<notin> set ''*+?{'' \<longrightarrow>
     (\<exists>a y. read x r a y rest \<and> runs (\<lambda>n. g_repeat n ft x) (a, y)))"

definition cat_parsed :: "fold_tables \<Rightarrow> bool \<Rightarrow> string \<Rightarrow> gx \<Rightarrow> bool" where
  "cat_parsed ft icase s r \<longleftrightarrow> (\<forall>x rest. ready icase x s r rest \<longrightarrow> rest = [] \<or> hd rest \<notin> set ''*+?{'' \<longrightarrow>
     (\<exists>a y. read x r a y rest \<and> (s = [] \<longrightarrow> a = eps_attr \<and> y = x) \<and>
       (\<forall>q. runs (\<lambda>n. g_concat n ft (s \<noteq> []) a y) q \<longrightarrow> runs (\<lambda>n. g_concat n ft False eps_attr x) q)))"

definition alt_parsed :: "fold_tables \<Rightarrow> bool \<Rightarrow> string \<Rightarrow> gx \<Rightarrow> bool" where
  "alt_parsed ft icase s r \<longleftrightarrow> (\<forall>x rest. ready icase x s r rest \<longrightarrow> rest = [] \<or> hd rest \<in> set ''|)'' \<longrightarrow>
     (\<exists>a y. read x r a y rest \<and> (\<forall>q. runs (\<lambda>n. g_alts n ft a y) q \<longrightarrow> runs (\<lambda>n. g_alt n ft x) q)))"

lemma concat_stops: "rest = [] \<or> hd rest \<in> set ''|)'' \<Longrightarrow> x_p y = rest \<Longrightarrow> runs (\<lambda>n. g_concat n ft any a y) (a, y)"
  by (rule runs_shift, rule runs_const) (cases rest; auto)

lemma alts_stops: "rest = [] \<or> hd rest \<noteq> CHR ''|'' \<Longrightarrow> x_p y = rest \<Longrightarrow> runs (\<lambda>n. g_alts n ft a y) (a, y)"
  by (rule runs_shift, rule runs_const) (cases rest; auto)

lemma concat_step:
  assumes "runs (\<lambda>n. g_repeat n ft x) (b, y)" "x_p x = c # u" "c \<notin> set ''|)''" "g_ok (x_g x)"
    "runs (\<lambda>n. if \<not> any then g_concat n ft True b y
      else g_concat n ft True (seq_attr a b) (g_map (link (a_last a) (a_first b)) y)) q"
  shows "runs (\<lambda>n. g_concat n ft any a x) q"
proof -
  let ?k = "\<lambda>n (b, x). if \<not> any then g_concat n ft True b x
      else g_concat n ft True (seq_attr a b) (g_map (link (a_last a) (a_first b)) x)"
  have "runs (\<lambda>n. ?k n (b, y)) q" using assms(5) by simp
  from runs_bind [OF assms(1), where k = ?k, OF this] show ?thesis
    using assms(2-4) by (intro runs_shift [of "\<lambda>n. g_concat n ft any a x"]) simp
qed

lemma read_frame: "ready icase x s r rest \<Longrightarrow> read x r a y rest \<Longrightarrow> g_ok (x_g y) \<and> g_icase (x_g y) = icase \<and> wf_g (x_g y) \<and>
    g_nwords (x_g y) = g_nwords (x_g x) \<and> g_npos (x_g y) = g_npos (x_g x) + gsz r"
  using built_frame [of r "x_g x" a "x_g y"] by (auto simp: ready_def read_def built_def)

lemma rep_quantified:
  assumes "atom_parsed ft icase s r" "ready icase x (s @ u) q rest" "gsz r \<le> gsz q"
    "\<And>a y. read x r a y (u @ rest) \<Longrightarrow> \<exists>b z. g_quantify (g_npos (x_g x)) a y = (b, z) \<and> read x q b z rest"
  shows "\<exists>a y. read x q a y rest \<and> runs (\<lambda>n. g_repeat n ft x) (a, y)"
proof -
  have "ready icase x s r (u @ rest)" using assms(2,3) by (simp add: ready_def)
  then obtain a y where a: "read x r a y (u @ rest)" "runs (\<lambda>n. g_atom n ft x) (a, y)" using assms(1) unfolding atom_parsed_def by blast
  then obtain b z where b: "g_quantify (g_npos (x_g x)) a y = (b, z)" "read x q b z rest" using assms(4) by blast
  have "runs (\<lambda>n. case g_atom n ft x of None \<Rightarrow> None | Some (a, x') \<Rightarrow> Some (g_quantify (g_npos (x_g x)) a x')) (b, z)"
    using runs_bind [OF a(2), of "\<lambda>n (a, x'). Some (g_quantify (g_npos (x_g x)) a x')" "(b, z)"] b(1) by (simp add: runs_const)
  then have "runs (\<lambda>n. g_repeat n ft x) (b, z)" by (intro runs_shift [of "\<lambda>n. g_repeat n ft x"]) simp
  with b(2) show ?thesis by blast
qed

lemma single_parsed: "single icase s P \<Longrightarrow> atom_parsed ft icase s (GPos (char_set P))"
  unfolding atom_parsed_def
proof (intro allI impI)
  fix x rest
  assume s: "single icase s P" "ready icase x s (GPos (char_set P)) rest"
  have "runs (\<lambda>n. g_atom n ft x) (one_attr (g_npos (x_g x)), g_map (alloc_pos (char_set P)) (adv (length s) x))"
    by (rule runs_shift, rule runs_const, rule ext) (rule ready_one(1) [OF s])
  with ready_one(3) [OF s] show "\<exists>a y. read x (GPos (char_set P)) a y rest \<and> runs (\<lambda>n. g_atom n ft x) (a, y)" by blast
qed

lemma bound_parsed:
  assumes "single icase s P" "bound_text m n u" "m \<le> n" "1 \<le> n" "n \<le> 60"
  shows "rep_parsed ft icase (s @ u) (copies (char_set P) m n)"
  unfolding rep_parsed_def
proof (intro allI impI rep_quantified [OF single_parsed [OF assms(1)]])
  let ?S = "char_set P"
  fix x rest
  assume x: "ready icase x (s @ u) (copies ?S m n) rest"
  then show "ready icase x (s @ u) (copies ?S m n) rest" .
  show "gsz (GPos ?S) \<le> gsz (copies ?S m n)" using assms(4) by simp
  fix a y
  assume y: "read x (GPos ?S) a y (u @ rest)"
  then have b: "built (GPos ?S) (x_g x) a (x_g y)" "x_p y = u @ rest" "x_fold_left y = 0" by (simp_all add: read_def)
  then have n: "g_npos (x_g y) = g_npos (x_g x) + 1" "g_setb (x_g y) ! g_npos (x_g x) = ?S" by (simp_all add: built_def)
  have "built (copies ?S m 1) (x_g x) (if m = 0 then a\<lparr>a_nullable := True\<rparr> else a) (x_g y)"
    using b(1) by (auto simp: copies_def intro: built_opt)
  moreover obtain z where z: "g_bound (g_npos (x_g x)) a y = g_copies ?S m [1..<n] (if m = 0 then a\<lparr>a_nullable := True\<rparr> else a) z"
    "x_p z = rest" "x_g z = x_g y" "x_fold_left z = 0"
    using g_bound_copies [OF assms(2-5) b(2) n(1)] n(2) b(3) by metis
  moreover have "g_npos (x_g x) + n \<le> 64 * g_nwords (x_g x)" using x assms(4) by (simp add: ready_def)
  ultimately obtain a' y' where "g_copies ?S m [1..<n] (if m = 0 then a\<lparr>a_nullable := True\<rparr> else a) z = (a', y')"
    "built (copies ?S m n) (x_g x) a' (x_g y')" "x_p y' = rest" "x_fold_left y' = 0"
    using g_copies_built [of ?S m 1 "x_g x" _ z n] assms(4) by fastforce
  moreover have "g_quantify (g_npos (x_g x)) a y = g_bound (g_npos (x_g x)) a y"
    using b(2) assms(2) by (auto simp: bound_text_def intro: g_quantify_cases(5))
  ultimately show "\<exists>b z. g_quantify (g_npos (x_g x)) a y = (b, z) \<and> read x (copies ?S m n) b z rest"
    using z(1) by (auto simp: read_def)
qed

lemma group_parsed: "alt_parsed ft icase s r \<Longrightarrow> atom_parsed ft icase (''('' @ s @ '')'') r"
  unfolding atom_parsed_def
proof (intro allI impI)
  fix x rest
  assume s: "alt_parsed ft icase s r" and x: "ready icase x (''('' @ s @ '')'') r rest"
  then have "ready icase (adv 1 x) s r (CHR '')'' # rest)" by (simp add: ready_def)
  then obtain a y where y: "read (adv 1 x) r a y (CHR '')'' # rest)"
    "\<And>q. runs (\<lambda>n. g_alts n ft a y) q \<Longrightarrow> runs (\<lambda>n. g_alt n ft (adv 1 x)) q"
    using s unfolding alt_parsed_def by (metis insertI1 insertI2 list.sel(1) list.simps(15))
  have "runs (\<lambda>n. g_alts n ft a y) (a, y)" using y(1) by (intro alts_stops [of "CHR '')'' # rest"]) (auto simp: read_def)
  from y(2) [OF this] have alt: "runs (\<lambda>n. g_alt n ft (adv 1 x)) (a, y)" .
  let ?k = "\<lambda>n (a, x). Some (a, if cur (x_p x) = CHR '')'' then adv 1 x else g_fail x)"
  have "runs (\<lambda>n. ?k n (a, y)) (a, adv 1 y)" using y(1) by (simp add: read_def runs_const)
  from runs_bind [OF alt, where k = ?k, OF this] have "runs (\<lambda>n. g_atom n ft x) (a, adv 1 y)"
    using x by (intro runs_shift [of "\<lambda>n. g_atom n ft x"]) (simp add: ready_def)
  moreover have "read x r a (adv 1 y) rest" using y(1) by (simp add: read_def)
  ultimately show "\<exists>a y. read x r a y rest \<and> runs (\<lambda>n. g_atom n ft x) (a, y)" by blast
qed

lemma cat_more_parsed:
  assumes "cat_parsed ft icase s r" "s \<noteq> []" "rep_parsed ft icase t q" "p_rep icase t q"
  shows "cat_parsed ft icase (s @ t) (GSeq r q)"
  unfolding cat_parsed_def
proof (intro allI impI)
  fix x rest
  assume x: "ready icase x (s @ t) (GSeq r q) rest" and rest: "rest = [] \<or> hd rest \<notin> set ''*+?{''"
  obtain c u where t: "t = c # u" "c \<notin> set ''|)*+?{''" using p_heads(2) [OF assms(4)] by auto
  have s: "ready icase x s r (t @ rest)" using x by (simp add: ready_def)
  then obtain a y where y: "read x r a y (t @ rest)" "\<And>p. runs (\<lambda>n. g_concat n ft True a y) p \<Longrightarrow> runs (\<lambda>n. g_concat n ft False eps_attr x) p"
    using assms(1,2) t unfolding cat_parsed_def by fastforce
  have "ready icase y t q rest" using x y(1) read_frame [OF s y(1)] by (auto simp: ready_def read_def)
  then obtain b z where z: "read y q b z rest" "runs (\<lambda>n. g_repeat n ft y) (b, z)"
    using assms(3) rest unfolding rep_parsed_def by blast
  have "read x (GSeq r q) (seq_attr a b) (g_map (link (a_last a) (a_first b)) z) rest"
    using y(1) z(1) by (auto simp: read_def intro: built_seq)
  moreover have "runs (\<lambda>n. g_concat n ft False eps_attr x) p"
    if "runs (\<lambda>n. g_concat n ft True (seq_attr a b) (g_map (link (a_last a) (a_first b)) z)) p" for p
    using concat_step [OF z(2), where c = c and u = "u @ rest" and any = True and a = a and q = p] t y read_frame [OF s y(1)] that by (auto simp: read_def)
  ultimately show "\<exists>a y. read x (GSeq r q) a y rest \<and> (s @ t = [] \<longrightarrow> a = eps_attr \<and> y = x) \<and>
       (\<forall>p. runs (\<lambda>n. g_concat n ft (s @ t \<noteq> []) a y) p \<longrightarrow> runs (\<lambda>n. g_concat n ft False eps_attr x) p)"
    using assms(2) by (intro exI [of _ "seq_attr a b"] exI [of _ "g_map (link (a_last a) (a_first b)) z"]) simp
qed

lemma cat_one_parsed: "rep_parsed ft icase s r \<Longrightarrow> p_rep icase s r \<Longrightarrow> cat_parsed ft icase s r"
  unfolding cat_parsed_def
proof (intro allI impI)
  fix x rest
  assume s: "rep_parsed ft icase s r" "p_rep icase s r" and x: "ready icase x s r rest" and rest: "rest = [] \<or> hd rest \<notin> set ''*+?{''"
  obtain c u where t: "s = c # u" "c \<notin> set ''|)*+?{''" using p_heads(2) [OF s(2)] by auto
  obtain b z where z: "read x r b z rest" "runs (\<lambda>n. g_repeat n ft x) (b, z)"
    using s(1) x rest unfolding rep_parsed_def by blast
  have "runs (\<lambda>n. g_concat n ft False eps_attr x) p" if "runs (\<lambda>n. g_concat n ft True b z) p" for p
    using concat_step [OF z(2), where c = c and u = "u @ rest" and any = False and a = eps_attr and q = p] t x that by (auto simp: ready_def)
  with z(1) t show "\<exists>a y. read x r a y rest \<and> (s = [] \<longrightarrow> a = eps_attr \<and> y = x) \<and>
       (\<forall>p. runs (\<lambda>n. g_concat n ft (s \<noteq> []) a y) p \<longrightarrow> runs (\<lambda>n. g_concat n ft False eps_attr x) p)"
    by (intro exI [of _ b] exI [of _ z]) simp
qed

lemma cat_reads:
  assumes "cat_parsed ft icase s r" "ready icase x s r rest" "rest = [] \<or> hd rest \<in> set ''|)''"
  shows "\<exists>a y. read x r a y rest \<and> runs (\<lambda>n. g_concat n ft False eps_attr x) (a, y)"
proof -
  have "rest = [] \<or> hd rest \<notin> set ''*+?{''" using assms(3) by auto
  then obtain a y where y: "read x r a y rest" "\<And>q. runs (\<lambda>n. g_concat n ft (s \<noteq> []) a y) q \<Longrightarrow> runs (\<lambda>n. g_concat n ft False eps_attr x) q"
    using assms(1,2) unfolding cat_parsed_def by blast
  have "runs (\<lambda>n. g_concat n ft (s \<noteq> []) a y) (a, y)" using assms(3) y(1) by (intro concat_stops [of rest]) (auto simp: read_def)
  with y show ?thesis by blast
qed

lemma alt_one_parsed: "cat_parsed ft icase s r \<Longrightarrow> alt_parsed ft icase s r"
  unfolding alt_parsed_def
proof (intro allI impI)
  fix x rest
  assume s: "cat_parsed ft icase s r" and x: "ready icase x s r rest" and rest: "rest = [] \<or> hd rest \<in> set ''|)''"
  obtain a y where y: "read x r a y rest" "runs (\<lambda>n. g_concat n ft False eps_attr x) (a, y)" using cat_reads [OF s x rest] by blast
  let ?k = "\<lambda>n (a, x). g_alts n ft a x"
  have "runs (\<lambda>n. g_alt n ft x) q" if "runs (\<lambda>n. g_alts n ft a y) q" for q
  proof -
    have "runs (\<lambda>n. ?k n (a, y)) q" using that by simp
    from runs_bind [OF y(2), where k = ?k, OF this] show ?thesis by (intro runs_shift [of "\<lambda>n. g_alt n ft x"]) simp
  qed
  with y(1) show "\<exists>a y. read x r a y rest \<and> (\<forall>q. runs (\<lambda>n. g_alts n ft a y) q \<longrightarrow> runs (\<lambda>n. g_alt n ft x) q)" by blast
qed

lemma alt_more_parsed: "alt_parsed ft icase s r \<Longrightarrow> cat_parsed ft icase t q \<Longrightarrow> alt_parsed ft icase (s @ ''|'' @ t) (GAlt r q)"
  unfolding alt_parsed_def
proof (intro allI impI)
  fix x rest
  assume IH: "\<forall>x rest. ready icase x s r rest \<longrightarrow> rest = [] \<or> hd rest \<in> set ''|)'' \<longrightarrow>
     (\<exists>a y. read x r a y rest \<and> (\<forall>q. runs (\<lambda>n. g_alts n ft a y) q \<longrightarrow> runs (\<lambda>n. g_alt n ft x) q))"
    and t: "cat_parsed ft icase t q"
    and x: "ready icase x (s @ ''|'' @ t) (GAlt r q) rest" and rest: "rest = [] \<or> hd rest \<in> set ''|)''"
  let ?u = "CHR ''|'' # t @ rest"
  have s: "ready icase x s r ?u" using x by (simp add: ready_def)
  with IH obtain a y where y: "read x r a y ?u" "\<And>q. runs (\<lambda>n. g_alts n ft a y) q \<Longrightarrow> runs (\<lambda>n. g_alt n ft x) q"
    by (metis insertI1 list.sel(1) list.simps(15))
  have yf: "g_ok (x_g y)" "x_p y = ?u" using read_frame [OF s y(1)] y(1) by (auto simp: read_def)
  have "ready icase (adv 1 y) t q rest" using x y(1) read_frame [OF s y(1)] by (auto simp: ready_def read_def)
  from cat_reads [OF t this rest] obtain b z where z: "read (adv 1 y) q b z rest" "runs (\<lambda>n. g_concat n ft False eps_attr (adv 1 y)) (b, z)"
    by blast
  have "read x (GAlt r q) (alt_attr a b) z rest" using y(1) z(1) by (auto simp: read_def intro: built_alt)
  moreover have "runs (\<lambda>n. g_alt n ft x) p" if "runs (\<lambda>n. g_alts n ft (alt_attr a b) z) p" for p
  proof (rule y(2), rule runs_shift)
    let ?k = "\<lambda>n (b, x). g_alts n ft (alt_attr a b) x"
    have "runs (\<lambda>n. ?k n (b, z)) p" using that by simp
    from runs_bind [OF z(2), where k = ?k, OF this] show "runs (\<lambda>n. g_alts (Suc n) ft a y) p" using yf by simp
  qed
  ultimately show "\<exists>a y. read x (GAlt r q) a y rest \<and> (\<forall>q. runs (\<lambda>n. g_alts n ft a y) q \<longrightarrow> runs (\<lambda>n. g_alt n ft x) q)" by blast
qed

lemma rep_parsed_intros:
  assumes "atom_parsed ft icase s r"
  shows "rep_parsed ft icase s r" "rep_parsed ft icase (s @ ''*'') (GStar r)" "rep_parsed ft icase (s @ ''+'') (GPlus r)"
    "rep_parsed ft icase (s @ ''?'') (GOpt r)"
proof -
  show "rep_parsed ft icase s r" unfolding rep_parsed_def
  proof (intro allI impI rep_quantified [OF assms, where u = "[]"])
    fix x rest a y
    assume "rest = [] \<or> hd rest \<notin> set ''*+?{''" "read x r a y ([] @ rest)"
    then show "\<exists>b z. g_quantify (g_npos (x_g x)) a y = (b, z) \<and> read x r b z rest"
      by (intro exI [of _ a] exI [of _ y]) (simp add: g_quantify_cases(1) read_def)
  qed simp_all
  show "rep_parsed ft icase (s @ ''*'') (GStar r)" unfolding rep_parsed_def
  proof (intro allI impI rep_quantified [OF assms])
    fix x rest a y
    assume "read x r a y (''*'' @ rest)"
    then show "\<exists>b z. g_quantify (g_npos (x_g x)) a y = (b, z) \<and> read x (GStar r) b z rest"
      using g_quantify_cases(2) [of y rest "g_npos (x_g x)" a] by (auto simp: read_def intro: built_star)
  qed simp_all
  show "rep_parsed ft icase (s @ ''+'') (GPlus r)" unfolding rep_parsed_def
  proof (intro allI impI rep_quantified [OF assms])
    fix x rest a y
    assume "read x r a y (''+'' @ rest)"
    then show "\<exists>b z. g_quantify (g_npos (x_g x)) a y = (b, z) \<and> read x (GPlus r) b z rest"
      using g_quantify_cases(3) [of y rest "g_npos (x_g x)" a] by (auto simp: read_def intro: built_plus)
  qed simp_all
  show "rep_parsed ft icase (s @ ''?'') (GOpt r)" unfolding rep_parsed_def
  proof (intro allI impI rep_quantified [OF assms])
    fix x rest a y
    assume "read x r a y (''?'' @ rest)"
    then show "\<exists>b z. g_quantify (g_npos (x_g x)) a y = (b, z) \<and> read x (GOpt r) b z rest"
      using g_quantify_cases(4) [of y rest "g_npos (x_g x)" a] by (auto simp: read_def intro: built_opt)
  qed simp_all
qed

theorem grammar_parsed:
  "p_atom icase s r \<Longrightarrow> atom_parsed ft icase s r"
  "p_rep icase s r \<Longrightarrow> rep_parsed ft icase s r"
  "p_cat icase s r \<Longrightarrow> cat_parsed ft icase s r"
  "p_alt icase s r \<Longrightarrow> alt_parsed ft icase s r"
proof (induction rule: p_inducts)
  case cat_none
  then show ?case using built_eps by (auto simp: cat_parsed_def read_def ready_def)
next
  case (rep_times s P n)
  then show ?case by (intro bound_parsed) (auto simp: bound_text_def)
next
  case (rep_between s P m n)
  then show ?case by (intro bound_parsed) (auto simp: bound_text_def)
qed (blast intro: single_parsed group_parsed rep_parsed_intros cat_one_parsed cat_more_parsed alt_one_parsed alt_more_parsed)+

section \<open>The parser returns\<close>

lemma concat_halts:
  "\<not> (x_p x \<noteq> [] \<and> cur (x_p x) \<noteq> CHR ''|'' \<and> cur (x_p x) \<noteq> CHR '')'' \<and> g_ok (x_g x)) \<Longrightarrow> g_concat (Suc n) ft any a x = Some (a, x)"
  by (subst g_concat.simps(2), subst if_not_P) (assumption | rule refl)+

lemma alts_halts: "\<not> (cur (x_p x) = CHR ''|'' \<and> g_ok (x_g x)) \<Longrightarrow> g_alts (Suc n) ft a x = Some (a, x)"
  by (subst g_alts.simps(2), subst if_not_P) (assumption | rule refl)+

lemma fuel_step:
  "(\<forall>x r. g_atom n ft x = Some r \<longrightarrow> g_atom (Suc n) ft x = Some r) \<and>
   (\<forall>x r. g_repeat n ft x = Some r \<longrightarrow> g_repeat (Suc n) ft x = Some r) \<and>
   (\<forall>any a x r. g_concat n ft any a x = Some r \<longrightarrow> g_concat (Suc n) ft any a x = Some r) \<and>
   (\<forall>x r. g_alt n ft x = Some r \<longrightarrow> g_alt (Suc n) ft x = Some r) \<and>
   (\<forall>a x r. g_alts n ft a x = Some r \<longrightarrow> g_alts (Suc n) ft a x = Some r)"
proof (induction n)
  case 0
  then show ?case by simp
next
  case (Suc n)
  note IH = Suc.IH [THEN conjunct1, rule_format] Suc.IH [THEN conjunct2, THEN conjunct1, rule_format]
    Suc.IH [THEN conjunct2, THEN conjunct2, THEN conjunct1, rule_format]
    Suc.IH [THEN conjunct2, THEN conjunct2, THEN conjunct2, THEN conjunct1, rule_format]
    Suc.IH [THEN conjunct2, THEN conjunct2, THEN conjunct2, THEN conjunct2, rule_format]
  have "g_atom (Suc (Suc n)) ft x = Some r" if "g_atom (Suc n) ft x = Some r" for x r
    using that unfolding g_atom.simps(2) [of "Suc n"] g_atom.simps(2) [of n]
    by (auto dest: IH simp del: g_alt.simps split: if_splits option.splits)
  moreover have "g_repeat (Suc (Suc n)) ft x = Some r" if "g_repeat (Suc n) ft x = Some r" for x r
    using that unfolding g_repeat.simps(2) [of "Suc n"] g_repeat.simps(2) [of n]
    by (auto dest: IH simp del: g_atom.simps split: option.splits)
  moreover have "g_concat (Suc (Suc n)) ft any a x = Some r" if h: "g_concat (Suc n) ft any a x = Some r" for any a x r
  proof (cases "x_p x \<noteq> [] \<and> cur (x_p x) \<noteq> CHR ''|'' \<and> cur (x_p x) \<noteq> CHR '')'' \<and> g_ok (x_g x)")
    case True
    then obtain b y where y: "g_repeat n ft x = Some (b, y)"
      "(if \<not> any then g_concat n ft True b y else g_concat n ft True (seq_attr a b) (g_map (link (a_last a) (a_first b)) y)) = Some r"
      using h unfolding g_concat.simps(2) [of n] by (cases "g_repeat n ft x") auto
    then show ?thesis using True IH(2) [OF y(1)] IH(3) unfolding g_concat.simps(2) [of "Suc n"]
      by (cases any) (simp_all del: g_repeat.simps g_concat.simps)
  next
    case False
    then show ?thesis using h unfolding concat_halts [OF False] by simp
  qed
  moreover have "g_alt (Suc (Suc n)) ft x = Some r" if h: "g_alt (Suc n) ft x = Some r" for x r
  proof -
    obtain b y where y: "g_concat n ft False eps_attr x = Some (b, y)" "g_alts n ft b y = Some r"
      using h unfolding g_alt.simps(2) [of n] by (cases "g_concat n ft False eps_attr x") auto
    show ?thesis using IH(3) [OF y(1)] IH(5) [OF y(2)] unfolding g_alt.simps(2) [of "Suc n"]
      by (simp del: g_alts.simps g_concat.simps)
  qed
  moreover have "g_alts (Suc (Suc n)) ft a x = Some r" if h: "g_alts (Suc n) ft a x = Some r" for a x r
  proof (cases "cur (x_p x) = CHR ''|'' \<and> g_ok (x_g x)")
    case True
    then obtain b y where y: "g_concat n ft False eps_attr (adv 1 x) = Some (b, y)" "g_alts n ft (alt_attr a b) y = Some r"
      using h unfolding g_alts.simps(2) [of n] by (cases "g_concat n ft False eps_attr (adv 1 x)") auto
    then show ?thesis using True IH(3) [OF y(1)] IH(5) [OF y(2)] unfolding g_alts.simps(2) [of "Suc n"]
      by (simp del: g_alts.simps g_concat.simps)
  next
    case False
    then show ?thesis using h unfolding alts_halts [OF False] by simp
  qed
  ultimately show ?case by blast
qed

lemma fuel_mono: "g_alt n ft x = Some r \<Longrightarrow> n \<le> m \<Longrightarrow> g_alt m ft x = Some r"
proof (induction m)
  case (Suc m)
  then show ?case
    using fuel_step [of m ft, THEN conjunct2, THEN conjunct2, THEN conjunct2, THEN conjunct1, rule_format, of x r]
    by (cases "n = Suc m") (auto simp del: g_alt.simps)
qed simp

lemma g_fail_simps [simp]: "x_p (g_fail x) = x_p x" "\<not> g_ok (x_g (g_fail x))"
  by (simp_all add: g_fail_def g_map_def)

lemma g_copies_frame: "g_copies S lo cs a x = (b, y) \<Longrightarrow> x_p y = x_p x \<and> (g_ok (x_g y) \<longrightarrow> g_ok (x_g x))"
  by (induction S lo cs a x rule: g_copies.induct) (auto simp: Let_def alloc_pos_def link_def split: if_splits)

lemma digits_shrink: "digits x = (ds, y) \<Longrightarrow> length (x_p y) \<le> length (x_p x) \<and> x_g y = x_g x"
  by (auto simp: digits_def length_dropWhile_le)

lemma g_bound_frame: "g_bound pb a x = (b, y) \<Longrightarrow> length (x_p y) \<le> length (x_p x) \<and> (g_ok (x_g y) \<longrightarrow> g_ok (x_g x))"
  unfolding g_bound_def Let_def
  by (auto dest!: digits_shrink g_copies_frame split: if_splits option.splits prod.splits)

lemma g_quantify_frame: "g_quantify pb a x = (b, y) \<Longrightarrow> length (x_p y) \<le> length (x_p x) \<and> (g_ok (x_g y) \<longrightarrow> g_ok (x_g x))"
  by (auto simp: g_quantify_def Let_def link_def split: if_splits dest: g_bound_frame)

lemma g_bytes_loop_frame: "g_bytes_loop cs f p x = (b, y) \<Longrightarrow> x_p y = x_p x"
  by (induction cs f p x rule: g_bytes_loop.induct) (auto simp: Let_def split: if_splits option.splits)

lemma g_members_frame: "g_members ms a x = (b, y) \<Longrightarrow> x_p y = x_p x"
  by (induction ms a x rule: g_members.induct)
     (auto simp: g_bytes_def dest: g_bytes_loop_frame split: if_splits prod.splits)

lemma fold_branches_shrink:
  assumes "fold_branches ft x = Some (a, y)" "x_p x \<noteq> []"
  shows "length (x_p y) \<le> length (x_p x) \<and> (g_ok (x_g y) \<longrightarrow> length (x_p y) < length (x_p x))"
  using assms unfolding fold_branches_def Let_def g_bytes_def
  by (auto dest!: g_bytes_loop_frame g_members_frame split: if_splits prod.splits)

lemma literal_set_shrink: "literal_set ft x = (S, y) \<Longrightarrow> length (x_p y) = length (x_p x) - 1"
  by (auto simp: literal_set_def Let_def split: if_splits prod.splits)

lemma atom_set_shrink: "atom_set ft x = (S, y) \<Longrightarrow> x_p x \<noteq> [] \<Longrightarrow> length (x_p y) < length (x_p x)"
  by (auto simp: atom_set_def Let_def split: if_splits prod.splits option.splits dest!: literal_set_shrink)

text \<open>Reading never moves back, and a step that keeps the pattern valid moves forward.\<close>

lemma parse_shrinks:
  "(\<forall>x a y. g_atom n ft x = Some (a, y) \<longrightarrow> x_p x \<noteq> [] \<longrightarrow>
      length (x_p y) \<le> length (x_p x) \<and> (g_ok (x_g y) \<longrightarrow> length (x_p y) < length (x_p x))) \<and>
   (\<forall>x a y. g_repeat n ft x = Some (a, y) \<longrightarrow> x_p x \<noteq> [] \<longrightarrow>
      length (x_p y) \<le> length (x_p x) \<and> (g_ok (x_g y) \<longrightarrow> length (x_p y) < length (x_p x))) \<and>
   (\<forall>any b x a y. g_concat n ft any b x = Some (a, y) \<longrightarrow> length (x_p y) \<le> length (x_p x)) \<and>
   (\<forall>x a y. g_alt n ft x = Some (a, y) \<longrightarrow> length (x_p y) \<le> length (x_p x)) \<and>
   (\<forall>b x a y. g_alts n ft b x = Some (a, y) \<longrightarrow> length (x_p y) \<le> length (x_p x))"
proof (induction n)
  case 0
  then show ?case by simp
next
  case (Suc n)
  note IH = Suc.IH [THEN conjunct1, rule_format] Suc.IH [THEN conjunct2, THEN conjunct1, rule_format]
    Suc.IH [THEN conjunct2, THEN conjunct2, THEN conjunct1, rule_format]
    Suc.IH [THEN conjunct2, THEN conjunct2, THEN conjunct2, THEN conjunct1, rule_format]
    Suc.IH [THEN conjunct2, THEN conjunct2, THEN conjunct2, THEN conjunct2, rule_format]
  have atom: "length (x_p y) \<le> length (x_p x) \<and> (g_ok (x_g y) \<longrightarrow> length (x_p y) < length (x_p x))"
    if h: "g_atom (Suc n) ft x = Some (a, y)" "x_p x \<noteq> []" for x a y
  proof (cases "cur (x_p x) = CHR ''(''")
    case True
    then obtain z where "g_alt n ft (adv 1 x) = Some (a, z)" "y = (if cur (x_p z) = CHR '')'' then adv 1 z else g_fail z)"
      using h(1) unfolding g_atom.simps(2) by (cases "g_alt n ft (adv 1 x)") auto
    moreover from this(1) have "length (x_p z) \<le> length (x_p x) - 1" using IH(4) [of "adv 1 x" a z] by simp
    moreover obtain c u where "x_p x = c # u" using h(2) by (cases "x_p x") auto
    ultimately show ?thesis by auto
  next
    case False
    show ?thesis
    proof (cases "fold_branches ft x")
      case None
      then show ?thesis using h False atom_set_shrink [of ft x]
        by (auto simp: g_atom.simps(2) full_def split: if_splits prod.splits dest!: atom_set_shrink)
    next
      case (Some r)
      then show ?thesis using h False fold_branches_shrink [of ft x a y] by (simp add: g_atom.simps(2))
    qed
  qed
  have rep: "length (x_p y) \<le> length (x_p x) \<and> (g_ok (x_g y) \<longrightarrow> length (x_p y) < length (x_p x))"
    if h: "g_repeat (Suc n) ft x = Some (a, y)" "x_p x \<noteq> []" for x a y
  proof -
    obtain b z where z: "g_atom n ft x = Some (b, z)" "g_quantify (g_npos (x_g x)) b z = (a, y)"
      using h(1) unfolding g_repeat.simps(2) by (cases "g_atom n ft x") auto
    show ?thesis using IH(1) [OF z(1) h(2)] g_quantify_frame [OF z(2)] by auto
  qed
  have cat: "length (x_p y) \<le> length (x_p x)" if h: "g_concat (Suc n) ft any b x = Some (a, y)" for any b x a y
  proof (cases "x_p x \<noteq> [] \<and> cur (x_p x) \<noteq> CHR ''|'' \<and> cur (x_p x) \<noteq> CHR '')'' \<and> g_ok (x_g x)")
    case True
    then obtain c z where z: "g_repeat n ft x = Some (c, z)"
      "(if \<not> any then g_concat n ft True c z else g_concat n ft True (seq_attr b c) (g_map (link (a_last b) (a_first c)) z)) = Some (a, y)"
      using h unfolding g_concat.simps(2) [of n] by (cases "g_repeat n ft x") auto
    then have "length (x_p y) \<le> length (x_p z)"
      using IH(3) [of True c z a y] IH(3) [of True "seq_attr b c" "g_map (link (a_last b) (a_first c)) z" a y] by (auto split: if_splits)
    then show ?thesis using IH(2) [OF z(1)] True by fastforce
  next
    case False
    then show ?thesis using h unfolding concat_halts [OF False] by simp
  qed
  have alts: "length (x_p y) \<le> length (x_p x)" if h: "g_alts (Suc n) ft b x = Some (a, y)" for b x a y
  proof (cases "cur (x_p x) = CHR ''|'' \<and> g_ok (x_g x)")
    case True
    then obtain c z where z: "g_concat n ft False eps_attr (adv 1 x) = Some (c, z)" "g_alts n ft (alt_attr b c) z = Some (a, y)"
      using h unfolding g_alts.simps(2) [of n] by (cases "g_concat n ft False eps_attr (adv 1 x)") auto
    then show ?thesis using IH(3) [OF z(1)] IH(5) [OF z(2)] by simp
  next
    case False
    then show ?thesis using h unfolding alts_halts [OF False] by simp
  qed
  have alt: "length (x_p y) \<le> length (x_p x)" if h: "g_alt (Suc n) ft x = Some (a, y)" for x a y
  proof -
    obtain c z where z: "g_concat n ft False eps_attr x = Some (c, z)" "g_alts n ft c z = Some (a, y)"
      using h unfolding g_alt.simps(2) [of n] by (cases "g_concat n ft False eps_attr x") auto
    then show ?thesis using IH(3) [OF z(1)] IH(5) [OF z(2)] by simp
  qed
  from atom rep cat alts alt show ?case by blast
qed

lemmas shrinks = parse_shrinks [THEN conjunct1, rule_format] parse_shrinks [THEN conjunct2, THEN conjunct1, rule_format]
  parse_shrinks [THEN conjunct2, THEN conjunct2, THEN conjunct1, rule_format]

lemma parse_enough:
  "(\<forall>x. x_p x \<noteq> [] \<longrightarrow> 6 * length (x_p x) + 1 \<le> n \<longrightarrow> g_atom n ft x \<noteq> None) \<and>
   (\<forall>x. x_p x \<noteq> [] \<longrightarrow> 6 * length (x_p x) + 2 \<le> n \<longrightarrow> g_repeat n ft x \<noteq> None) \<and>
   (\<forall>any b x. (if g_ok (x_g x) then 6 * length (x_p x) + 3 else 1) \<le> n \<longrightarrow> g_concat n ft any b x \<noteq> None) \<and>
   (\<forall>x. 6 * length (x_p x) + 4 \<le> n \<longrightarrow> g_alt n ft x \<noteq> None) \<and>
   (\<forall>b x. 6 * length (x_p x) + 3 \<le> n \<longrightarrow> g_alts n ft b x \<noteq> None)"
proof (induction n)
  case 0
  then show ?case by simp
next
  case (Suc n)
  note IH = Suc.IH [THEN conjunct1, rule_format] Suc.IH [THEN conjunct2, THEN conjunct1, rule_format]
    Suc.IH [THEN conjunct2, THEN conjunct2, THEN conjunct1, rule_format]
    Suc.IH [THEN conjunct2, THEN conjunct2, THEN conjunct2, THEN conjunct1, rule_format]
    Suc.IH [THEN conjunct2, THEN conjunct2, THEN conjunct2, THEN conjunct2, rule_format]
  have atom: "g_atom (Suc n) ft x \<noteq> None" if h: "x_p x \<noteq> []" "6 * length (x_p x) + 1 \<le> Suc n" for x
  proof (cases "cur (x_p x) = CHR ''(''")
    case True
    obtain c u where "x_p x = c # u" using h(1) by (cases "x_p x") auto
    then have "6 * length (x_p (adv 1 x)) + 4 \<le> n" using h(2) by simp
    from IH(4) [OF this] True show ?thesis by (auto simp: g_atom.simps(2) split: option.splits)
  next
    case False
    then show ?thesis by (auto simp: g_atom.simps(2) split: option.splits prod.splits)
  qed
  have rep: "g_repeat (Suc n) ft x \<noteq> None" if h: "x_p x \<noteq> []" "6 * length (x_p x) + 2 \<le> Suc n" for x
    using IH(1) [OF h(1)] h(2) by (auto simp: g_repeat.simps(2) split: option.splits)
  have cat: "g_concat (Suc n) ft any b x \<noteq> None" if h: "(if g_ok (x_g x) then 6 * length (x_p x) + 3 else 1) \<le> Suc n" for any b x
  proof (cases "x_p x \<noteq> [] \<and> cur (x_p x) \<noteq> CHR ''|'' \<and> cur (x_p x) \<noteq> CHR '')'' \<and> g_ok (x_g x)")
    case True
    then have l: "6 * length (x_p x) + 2 \<le> n" "x_p x \<noteq> []" using h by simp_all
    then obtain c z where z: "g_repeat n ft x = Some (c, z)" using IH(2) [OF l(2,1)] by (cases "g_repeat n ft x") auto
    have "(if g_ok (x_g z) then 6 * length (x_p z) + 3 else 1) \<le> n" using shrinks(2) [OF z l(2)] l(1) by auto
    then have "g_concat n ft True c z \<noteq> None"
      "g_concat n ft True (seq_attr b c) (g_map (link (a_last b) (a_first c)) z) \<noteq> None"
      by (intro IH(3); simp add: link_def split: if_splits)+
    then show ?thesis using True z unfolding g_concat.simps(2) [of n] by simp
  next
    case False
    then show ?thesis unfolding concat_halts [OF False] by simp
  qed
  have alts: "g_alts (Suc n) ft b x \<noteq> None" if h: "6 * length (x_p x) + 3 \<le> Suc n" for b x
  proof (cases "cur (x_p x) = CHR ''|'' \<and> g_ok (x_g x)")
    case True
    then obtain d u where "x_p x = d # u" by (cases "x_p x") auto
    then have l: "6 * length (x_p (adv 1 x)) + 3 \<le> n" using h by simp
    then have "g_concat n ft False eps_attr (adv 1 x) \<noteq> None" by (intro IH(3)) auto
    then obtain c z where z: "g_concat n ft False eps_attr (adv 1 x) = Some (c, z)" by (cases "g_concat n ft False eps_attr (adv 1 x)") auto
    have "6 * length (x_p z) + 3 \<le> n" using shrinks(3) [OF z] l by simp
    then have "g_alts n ft (alt_attr b c) z \<noteq> None" by (rule IH(5))
    then show ?thesis using True z unfolding g_alts.simps(2) [of n] by simp
  next
    case False
    then show ?thesis unfolding alts_halts [OF False] by simp
  qed
  have alt: "g_alt (Suc n) ft x \<noteq> None" if h: "6 * length (x_p x) + 4 \<le> Suc n" for x
  proof -
    have "g_concat n ft False eps_attr x \<noteq> None" using h by (intro IH(3)) auto
    then obtain c z where z: "g_concat n ft False eps_attr x = Some (c, z)" by (cases "g_concat n ft False eps_attr x") auto
    have "6 * length (x_p z) + 3 \<le> n" using shrinks(3) [OF z] h by simp
    then have "g_alts n ft c z \<noteq> None" by (rule IH(5))
    then show ?thesis using z unfolding g_alt.simps(2) [of n] by simp
  qed
  from atom rep cat alts alt show ?case by blast
qed

lemma parse_returns: "g_alt (parse_fuel (x_p x)) ft x \<noteq> None"
  using parse_enough [of "parse_fuel (x_p x)" ft, THEN conjunct2, THEN conjunct2, THEN conjunct2, THEN conjunct1, rule_format, of x]
  by (simp add: parse_fuel_def del: g_alt.simps)

lemma parse_result: "runs (\<lambda>n. g_alt n ft x) r \<Longrightarrow> g_alt (parse_fuel (x_p x)) ft x = Some r"
proof -
  assume "runs (\<lambda>n. g_alt n ft x) r"
  then obtain N where N: "\<And>n. N \<le> n \<Longrightarrow> g_alt n ft x = Some r" by (auto simp: runs_def)
  obtain q where q: "g_alt (parse_fuel (x_p x)) ft x = Some q" using parse_returns by blast
  from fuel_mono [OF q, of "max N (parse_fuel (x_p x))"] N [of "max N (parse_fuel (x_p x))"] q show ?thesis by simp
qed

end
