(* ===== verification/Text_Match.thy ===== *)
theory Text_Match
  imports Text_Compile
begin

text \<open>
  The bit-parallel simulations of the position automaton against the language of the expression, and the compiled
  automaton of a pattern of the grammar.
\<close>

section \<open>The sets the simulations step through\<close>

text \<open>The automaton holds the positions of the expression \<open>r\<close>.\<close>

definition automaton :: "gx \<Rightarrow> gnfa \<Rightarrow> bool" where
  "automaton r g \<longleftrightarrow> wf_g g \<and> g_npos g = gsz r \<and> (\<forall>k < gsz r. g_setb g ! k = glab r ! k) \<and>
     (\<forall>i < gsz r. bits (g_follow g ! i) = {j. (i, j) \<in> gfol 0 r}) \<and>
     bits (g_first g) = gfst 0 r \<and> bits (g_last g) = glst 0 r \<and> g_nullable g = gnul r"

lemma bit_fold_imap:
  "set is \<subseteq> {..<128} \<Longrightarrow> bits (fold (\<lambda>i I. if P i then set_bit i I else I) is I) = bits I \<union> {i \<in> set is. P i}" for I :: pset
  by (induction "is" arbitrary: I) (auto simp: bits_set_bit)

lemma bits_imap: "wf_g g \<Longrightarrow> bits (build_imap g c) = {i. i < g_npos g \<and> in_set (g_setb g ! i) c}"
proof -
  assume "wf_g g"
  then have "set [0..<g_npos g] \<subseteq> {..<128}" by (auto simp: wf_g_def)
  from bit_fold_imap [OF this] show ?thesis by (auto simp: build_imap_def in_set_def)
qed

lemma bits_fold_follow: "bits (fold (\<lambda>i r. r OR fo ! i) is acc) = bits acc \<union> (\<Union>i \<in> set is. bits (fo ! i))" for acc :: pset
  by (induction "is" arbitrary: acc) auto

lemma bits_follow_all:
  assumes "automaton r g" "bits D \<subseteq> {..<gsz r}"
  shows "bits (follow_all g D acc) = bits acc \<union> {j. \<exists>i \<in> bits D. (i, j) \<in> gfol 0 r}"
proof -
  have "set (ps_elems (g_nwords g) D) = bits D" using assms by (auto simp: set_ps_elems automaton_def wf_g_def)
  moreover have "bits (g_follow g ! i) = {j. (i, j) \<in> gfol 0 r}" if "i \<in> bits D" for i
    using assms that by (auto simp: automaton_def)
  ultimately show ?thesis by (auto simp: follow_all_def bits_fold_follow)
qed

definition labels :: "gnfa \<Rightarrow> nat \<Rightarrow> byteset" where
  "labels g i = g_setb g ! i"

text \<open>The positions where a path can stand that has spelled \<open>w\<close> from the start.\<close>

definition stands :: "gx \<Rightarrow> (nat \<Rightarrow> byteset) \<Rightarrow> string \<Rightarrow> nat set" where
  "stands r lb w = {last p | p. p \<noteq> [] \<and> hd p \<in> gfst 0 r \<and> path (gfol 0 r) p \<and> spells lb p w}"

lemma spells_one: "spells lb [i] v \<longleftrightarrow> (\<exists>c. v = [c] \<and> in_set (lb i) c)"
  by (auto simp: spells_def list_all2_Cons1)

lemma spells_snoc: "spells lb (p @ [i]) (w @ [c]) \<longleftrightarrow> spells lb p w \<and> in_set (lb i) c"
  by (auto simp: spells_append spells_one)

lemma spells_length: "spells lb p w \<Longrightarrow> length p = length w"
  by (auto simp: spells_def dest: list_all2_lengthD)

lemma stands_first: "stands r lb [c] = {i \<in> gfst 0 r. in_set (lb i) c}"
proof -
  have *: "p \<noteq> [] \<and> spells lb p [c] \<longleftrightarrow> (\<exists>i. p = [i] \<and> in_set (lb i) c)" for p
    by (auto simp: spells_def list_all2_Cons2)
  show ?thesis
  proof (intro set_eqI iffI)
    fix j
    assume "j \<in> stands r lb [c]"
    then obtain p where "p \<noteq> [] \<and> spells lb p [c]" "j = last p" "hd p \<in> gfst 0 r" by (auto simp: stands_def)
    then show "j \<in> {i \<in> gfst 0 r. in_set (lb i) c}" unfolding * by auto
  next
    fix j
    assume "j \<in> {i \<in> gfst 0 r. in_set (lb i) c}"
    then show "j \<in> stands r lb [c]" unfolding stands_def by (intro CollectI exI [of _ "[j]"]) (simp add: spells_one)
  qed
qed

lemma stands_step: "w \<noteq> [] \<Longrightarrow> stands r lb (w @ [c]) = {j. (\<exists>i \<in> stands r lb w. (i, j) \<in> gfol 0 r) \<and> in_set (lb j) c}"
proof (intro set_eqI iffI)
  assume w: "w \<noteq> []"
  fix j
  {
    assume "j \<in> stands r lb (w @ [c])"
    then obtain p where p: "p \<noteq> []" "j = last p" "hd p \<in> gfst 0 r" "path (gfol 0 r) p" "spells lb p (w @ [c])"
      by (auto simp: stands_def)
    then obtain q where q: "p = q @ [j]" by (metis append_butlast_last_id)
    then have "spells lb q w" "in_set (lb j) c" using p(5) by (simp_all add: spells_snoc)
    moreover from this have "q \<noteq> []" using w by auto
    moreover from this have "hd q \<in> gfst 0 r" "path (gfol 0 r) q" "(last q, j) \<in> gfol 0 r"
      using p(3,4) unfolding q by (simp_all add: path_append)
    ultimately have "last q \<in> stands r lb w" unfolding stands_def by blast
    with \<open>(last q, j) \<in> gfol 0 r\<close> \<open>in_set (lb j) c\<close>
    show "j \<in> {j. (\<exists>i \<in> stands r lb w. (i, j) \<in> gfol 0 r) \<and> in_set (lb j) c}" by blast
  next
    assume "j \<in> {j. (\<exists>i \<in> stands r lb w. (i, j) \<in> gfol 0 r) \<and> in_set (lb j) c}"
    then obtain p where p: "p \<noteq> []" "(last p, j) \<in> gfol 0 r" "hd p \<in> gfst 0 r" "path (gfol 0 r) p" "spells lb p w" "in_set (lb j) c"
      by (auto simp: stands_def)
    then have "hd (p @ [j]) \<in> gfst 0 r" "path (gfol 0 r) (p @ [j])" "spells lb (p @ [j]) (w @ [c])"
      by (simp_all add: path_append spells_snoc)
    then show "j \<in> stands r lb (w @ [c])" unfolding stands_def by (intro CollectI exI [of _ "p @ [j]"]) simp
  }
qed

lemma stands_range: "stands r lb w \<subseteq> {..<gsz r}"
proof
  fix j assume "j \<in> stands r lb w"
  then obtain p where p: "p \<noteq> []" "j = last p" "hd p \<in> gfst 0 r" "path (gfol 0 r) p" by (auto simp: stands_def)
  have "last p < gsz r" using p(1,3,4)
  proof (induction p rule: rev_induct)
    case (snoc x p)
    then show ?case by (cases "p = []") (auto simp: path_append dest: gfst_range gfol_range)
  qed simp
  with p(2) show "j \<in> {..<gsz r}" by simp
qed

lemma stands_accepts:
  assumes "labelled lb 0 r" "w \<noteq> []"
  shows "w \<in> glang r \<longleftrightarrow> stands r lb w \<inter> glst 0 r \<noteq> {}"
proof -
  have "w \<in> glang r \<longleftrightarrow> (\<exists>p \<in> gpaths 0 r. spells lb p w)"
    using glushkov [OF assms(1)] assms(2) by (simp add: path_words_def)
  also have "\<dots> \<longleftrightarrow> stands r lb w \<inter> glst 0 r \<noteq> {}" by (auto simp: stands_def paths_def)
  finally show ?thesis .
qed

lemma empty_word: "labelled lb 0 r \<Longrightarrow> [] \<in> glang r \<longleftrightarrow> gnul r"
  using glushkov [of lb 0 r "[]"] path_words_nonempty [of "[]" lb "gfol 0 r" "gfst 0 r" "glst 0 r"] by blast

lemma automaton_labelled: "automaton r g \<Longrightarrow> labelled (labels g) 0 r"
  by (simp add: automaton_def labelled_def labels_def)

lemma first_step: "automaton r g \<Longrightarrow> bits (g_first g AND build_imap g c) = stands r (labels g) [c]"
  by (auto simp: automaton_def bits_imap stands_first labels_def dest: gfst_range)

lemma next_step:
  assumes "automaton r g" "w \<noteq> []" "bits D = stands r (labels g) w"
  shows "bits (follow_all g D 0 AND build_imap g c) = stands r (labels g) (w @ [c])"
proof -
  have "bits D \<subseteq> {..<gsz r}" using assms(3) stands_range by simp
  from bits_follow_all [OF assms(1) this, of 0] show ?thesis
    using assms by (auto simp: automaton_def bits_imap stands_step labels_def dest: gfol_range)
qed

lemma stands_prefix: "stands r lb (u @ v) \<noteq> {} \<Longrightarrow> u \<noteq> [] \<Longrightarrow> stands r lb u \<noteq> {}"
proof (induction v rule: rev_induct)
  case (snoc c v)
  then have "stands r lb (u @ v) \<noteq> {}" using stands_step [of "u @ v" r lb c] by auto
  with snoc show ?case by simp
qed simp

lemma zero_iff: "D = 0 \<longleftrightarrow> bits D = {}" for D :: pset
  by (simp add: bits_empty_iff)

section \<open>The whole input\<close>

lemma full_loop_dead: "foldl (\<lambda>d c. case d of None \<Rightarrow> None | Some D \<Rightarrow> f D c) None s = None"
  by (induction s) auto

lemma full_loop_stands:
  assumes "automaton r g"
  shows "w \<noteq> [] \<Longrightarrow> bits D = stands r (labels g) w \<Longrightarrow> D \<noteq> 0 \<Longrightarrow>
    case gnfa_full_loop g (build_imap g) s D of None \<Rightarrow> stands r (labels g) (w @ s) = {}
    | Some D' \<Rightarrow> bits D' = stands r (labels g) (w @ s)"
proof (induction s arbitrary: w D)
  case (Cons c s)
  let ?D = "follow_all g D 0 AND build_imap g c"
  have b: "bits ?D = stands r (labels g) (w @ [c])" using next_step [OF assms Cons.prems(1,2)] .
  show ?case
  proof (cases "?D = 0")
    case True
    then have "stands r (labels g) (w @ [c]) = {}" using b zero_iff by metis
    then have "stands r (labels g) ((w @ [c]) @ s) = {}" using stands_prefix by blast
    with True show ?thesis by (simp add: gnfa_full_loop_def full_loop_dead Let_def)
  next
    case False
    have e: "w @ c # s = (w @ [c]) @ s" by simp
    from Cons.IH [OF _ b False] show ?thesis using False unfolding e by (simp add: gnfa_full_loop_def Let_def)
  qed
qed (simp add: gnfa_full_loop_def)

theorem gnfa_full_language:
  assumes "automaton r g"
  shows "gnfa_full g (build_imap g) hay \<longleftrightarrow> hay \<in> glang r"
proof (cases hay)
  case Nil
  have "[] \<in> glang r \<longleftrightarrow> gnul r" by (rule empty_word [OF automaton_labelled [OF assms]])
  with Nil assms show ?thesis by (simp add: gnfa_full_def automaton_def)
next
  case (Cons c s)
  let ?D = "g_first g AND build_imap g c"
  have acc: "hay \<in> glang r \<longleftrightarrow> stands r (labels g) ([c] @ s) \<inter> glst 0 r \<noteq> {}"
    using stands_accepts [OF automaton_labelled [OF assms], of hay] Cons by simp
  have b: "bits ?D = stands r (labels g) [c]" by (rule first_step [OF assms])
  show ?thesis
  proof (cases "?D = 0")
    case True
    then have "stands r (labels g) ([c] @ s) = {}" using b stands_prefix [of r "labels g" "[c]" s] zero_iff by (metis list.distinct(1))
    with True acc Cons show ?thesis by (simp add: gnfa_full_def Let_def)
  next
    case False
    have last: "D AND g_last g \<noteq> 0 \<longleftrightarrow> bits D \<inter> glst 0 r \<noteq> {}" for D
      using assms zero_iff [of "D AND g_last g"] by (simp add: automaton_def)
    from full_loop_stands [OF assms _ b False, of s] False acc Cons show ?thesis
      by (auto simp: gnfa_full_def Let_def last split: option.splits)
  qed
qed

section \<open>The longest match at a start\<close>

text \<open>The ends \<open>e\<close> of the matches that start at \<open>start\<close>; a pattern anchored at its end reaches the end of the input.\<close>

definition ends_at :: "gx \<Rightarrow> bool \<Rightarrow> string \<Rightarrow> nat \<Rightarrow> nat set" where
  "ends_at r anch hay start = {e. start \<le> e \<and> e \<le> length hay \<and> (anch \<longrightarrow> e = length hay) \<and> take (e - start) (drop start hay) \<in> glang r}"

definition greatest :: "nat set \<Rightarrow> nat option" where
  "greatest E = (if E = {} then None else Some (Max E))"

lemma ends_finite: "finite (ends_at r anch hay start)"
  by (rule finite_subset [of _ "{..length hay}"]) (auto simp: ends_at_def)

lemma start_longest_stands:
  assumes "automaton r g"
  shows "drop start hay = w @ s \<Longrightarrow> j = start + length w \<Longrightarrow> start \<le> length hay \<Longrightarrow>
    (case D of None \<Rightarrow> w = [] | Some D \<Rightarrow> w \<noteq> [] \<and> bits D = stands r (labels g) w) \<Longrightarrow>
    best = greatest (ends_at r (g_anchored_end g) hay start \<inter> {..j}) \<Longrightarrow>
    start_longest_loop g (build_imap g) s j D best = greatest (ends_at r (g_anchored_end g) hay start)"
proof (induction s arbitrary: w j D best)
  case Nil
  have "length hay - start = length w" using arg_cong [OF Nil.prems(1), of length] by simp
  then have "j = length hay" using Nil.prems(2,3) by simp
  then have "ends_at r (g_anchored_end g) hay start \<inter> {..j} = ends_at r (g_anchored_end g) hay start" by (auto simp: ends_at_def)
  with Nil show ?case by simp
next
  case (Cons c s)
  let ?E = "ends_at r (g_anchored_end g) hay start"
  define D' where "D' = (case D of None \<Rightarrow> g_first g | Some D \<Rightarrow> follow_all g D 0) AND build_imap g c"
  have b: "bits D' = stands r (labels g) (w @ [c])"
    using Cons.prems(4) first_step [OF assms, of c] next_step [OF assms, of w _ c] by (auto simp: D'_def split: option.splits)
  have "length hay - start = length w + 1 + length s" using arg_cong [OF Cons.prems(1), of length] by simp
  then have len: "length hay = j + 1 + length s" using Cons.prems(2,3) by simp
  have tk: "take (j + 1 + k - start) (drop start hay) = w @ [c] @ take k s" for k
    using Cons.prems(1,2) by simp
  have new: "j + 1 \<in> ?E \<longleftrightarrow> D' AND g_last g \<noteq> 0 \<and> (\<not> g_anchored_end g \<or> s = [])"
  proof -
    have "w @ [c] \<in> glang r \<longleftrightarrow> D' AND g_last g \<noteq> 0"
      using stands_accepts [OF automaton_labelled [OF assms], of "w @ [c]"] b assms zero_iff [of "D' AND g_last g"]
      by (simp add: automaton_def)
    then show ?thesis using tk [of 0] len Cons.prems(2) by (auto simp: ends_at_def)
  qed
  have split: "?E \<inter> {..j + 1} = (?E \<inter> {..j}) \<union> (if j + 1 \<in> ?E then {j + 1} else {})" by (auto simp: le_Suc_eq)
  have fin: "finite (?E \<inter> {..j})" by simp
  show ?case
  proof (cases "D' = 0")
    case True
    have "e \<notin> ?E" if "j < e" for e
    proof
      assume e: "e \<in> ?E"
      define k where "k = e - (j + 1)"
      have "e = j + 1 + k" using that by (simp add: k_def)
      then have "w @ [c] @ take k s \<in> glang r" using e tk [of k] by (simp add: ends_at_def)
      then have "stands r (labels g) ((w @ [c]) @ take k s) \<noteq> {}"
        using stands_accepts [OF automaton_labelled [OF assms], of "w @ [c] @ take k s"] by auto
      then have "stands r (labels g) (w @ [c]) \<noteq> {}" using stands_prefix by blast
      then show False using True b zero_iff [of D'] by simp
    qed
    then have "?E \<inter> {..j} = ?E" using not_le by blast
    with True Cons.prems(5) show ?thesis by (simp add: D'_def [symmetric] Let_def)
  next
    case False
    define best' where "best' = (if D' AND g_last g \<noteq> 0 \<and> (\<not> g_anchored_end g \<or> s = []) then Some (j + 1) else best)"
    have "best' = greatest (?E \<inter> {..j + 1})"
    proof (cases "j + 1 \<in> ?E")
      case True
      have "Max (insert (j + 1) (?E \<inter> {..j})) = j + 1" using fin by (intro Max_eqI) auto
      with True split new show ?thesis by (simp add: best'_def greatest_def)
    next
      case False
      then have "\<not> (D' AND g_last g \<noteq> 0 \<and> (\<not> g_anchored_end g \<or> s = []))" using new by blast
      then have "best' = best" unfolding best'_def by (rule if_not_P)
      moreover have "?E \<inter> {..j + 1} = ?E \<inter> {..j}" unfolding split using False by simp
      ultimately show ?thesis using Cons.prems(5) by simp
    qed
    then have "start_longest_loop g (build_imap g) s (j + 1) (Some D') best' = greatest ?E"
      using Cons.prems b by (intro Cons.IH [of "w @ [c]"]) simp_all
    with False show ?thesis by (simp add: D'_def [symmetric] best'_def Let_def)
  qed
qed

theorem gnfa_start_longest_greatest:
  assumes "automaton r g" "start \<le> length hay"
  shows "gnfa_start_longest g (build_imap g) hay start = greatest (ends_at r (g_anchored_end g) hay start)"
  unfolding gnfa_start_longest_def
proof (rule start_longest_stands [OF assms(1), of start hay "[]"])
  have "[] \<in> glang r \<longleftrightarrow> gnul r" by (rule empty_word [OF automaton_labelled [OF assms(1)]])
  then have "ends_at r (g_anchored_end g) hay start \<inter> {..start} =
    (if g_nullable g \<and> (\<not> g_anchored_end g \<or> start = length hay) then {start} else {})"
    using assms by (auto simp: ends_at_def automaton_def)
  then show "(if g_nullable g \<and> (\<not> g_anchored_end g \<or> start = length hay) then Some start else None) =
    greatest (ends_at r (g_anchored_end g) hay start \<inter> {..start})" by (simp add: greatest_def)
qed (use assms in simp_all)

end
