(* ===== verification/Text_Scan.thy ===== *)
theory Text_Scan
  imports Prelude
begin

text \<open>
  The literal and the fuzzy face of the text matcher (\<open>sublimation/src/text/match.c\<close>): the scans that count
  overlapping occurrences, each shown to count the same windows. A haystack is a byte string, \<open>memcmp\<close>
  compares segments, a histogram is a function of the byte.
\<close>

section \<open>Bytes\<close>

definition fold_byte :: "char \<Rightarrow> bool \<Rightarrow> char" where
  "fold_byte c icase = (if icase \<and> 0x41 \<le> byte c \<and> byte c \<le> 0x5A then char_of (byte c + 32) else c)"

definition byte_hist :: "string \<Rightarrow> char \<Rightarrow> nat" where
  "byte_hist hay = foldl (\<lambda>h c. h(c := h c + 1)) (\<lambda>_. 0) (take (2 ^ 18) hay)"

text \<open>\<open>memchr\<close> from index \<open>p\<close> below \<open>e\<close>, and the loop every scan has around it: find the byte, run the body, go on behind it.\<close>

definition memchr :: "string \<Rightarrow> char \<Rightarrow> nat \<Rightarrow> nat \<Rightarrow> nat option" where
  "memchr hay c p e = find (\<lambda>j. hay ! j = c) [p..<e]"

lemma memchr_range: "memchr hay c p e = Some j \<Longrightarrow> p \<le> j \<and> j < e"
  by (auto simp: memchr_def find_Some_iff)

function memchr_loop :: "string \<Rightarrow> char \<Rightarrow> nat \<Rightarrow> (nat \<Rightarrow> 's \<Rightarrow> 's) \<Rightarrow> nat \<Rightarrow> 's \<Rightarrow> 's" where
  "memchr_loop hay c e body p s =
     (case memchr hay c p e of None \<Rightarrow> s | Some j \<Rightarrow> memchr_loop hay c e body (j + 1) (body j s))"
  by pat_completeness auto
termination
  by (relation "measure (\<lambda>(_, _, e, _, p, _). e - p)") (auto dest!: memchr_range)

declare memchr_loop.simps [simp del]

definition at_offset :: "string \<Rightarrow> nat \<Rightarrow> string \<Rightarrow> bool" where
  "at_offset hay i pat \<longleftrightarrow> take (length pat) (drop i hay) = pat"

section \<open>Exact counting\<close>

record anchor =
  an_byte :: char
  an_off :: nat

definition scan_anchor :: "string \<Rightarrow> string \<Rightarrow> anchor \<Rightarrow> nat" where
  "scan_anchor hay pat a =
     (let n = length hay; m = length pat
      in if m = 0 \<or> n < m then 0
         else memchr_loop hay (an_byte a) n
           (\<lambda>j count. if an_off a \<le> j \<and> j - an_off a + m \<le> n \<and> at_offset hay (j - an_off a) pat then count + 1 else count) (an_off a) 0)"

definition scan_anchor2 :: "string \<Rightarrow> string \<Rightarrow> anchor \<Rightarrow> anchor \<Rightarrow> nat" where
  "scan_anchor2 hay pat a b =
     (let n = length hay; m = length pat
      in if m = 0 \<or> n < m then 0
         else memchr_loop hay (an_byte a) n
           (\<lambda>j count. if an_off a \<le> j \<and> j - an_off a + m \<le> n
              then let start = j - an_off a
                in if hay ! (start + an_off b) = an_byte b \<and> at_offset hay start pat then count + 1 else count
              else count) (an_off a) 0)"

definition bmh_skip :: "string \<Rightarrow> char \<Rightarrow> nat" where
  "bmh_skip pat = fold (\<lambda>i skip. skip(pat ! i := length pat - 1 - i)) [0..<length pat - 1] (\<lambda>_. length pat)"

lemma bmh_skip_fold:
  assumes "k \<le> length pat - 1" "pat \<noteq> []"
  defines "f \<equiv> fold (\<lambda>i skip. skip(pat ! i := length pat - 1 - i)) [0..<k] (\<lambda>_. length pat)"
  shows "0 < f c \<and> (\<forall>i < k. pat ! i = c \<longrightarrow> f c \<le> length pat - 1 - i)"
  using assms(1) unfolding f_def
proof (induction k)
  case (Suc k)
  then show ?case by (auto simp: less_Suc_eq)
qed (use assms(2) in simp)

lemma bmh_skip_bounds:
  assumes "pat \<noteq> []"
  shows "0 < bmh_skip pat c" "\<And>i. i < length pat - 1 \<Longrightarrow> pat ! i = c \<Longrightarrow> bmh_skip pat c \<le> length pat - 1 - i"
  using bmh_skip_fold [of "length pat - 1" pat c] assms unfolding bmh_skip_def by auto

text \<open>Only entered with a pattern.\<close>

function bmh_loop :: "string \<Rightarrow> string \<Rightarrow> nat \<Rightarrow> nat \<Rightarrow> nat" where
  "bmh_loop hay pat i count =
     (if pat \<noteq> [] \<and> i + length pat \<le> length hay
      then let count = (if at_offset hay i pat then count + 1 else count)
        in bmh_loop hay pat (i + bmh_skip pat (hay ! (i + length pat - 1))) count
      else count)"
  by pat_completeness auto
termination
  by (relation "measure (\<lambda>(hay, pat, i, _). length hay + 1 - i)") (use bmh_skip_bounds(1) in \<open>auto simp: diff_less_mono2\<close>)

declare bmh_loop.simps [simp del]

definition scan_bmh :: "string \<Rightarrow> string \<Rightarrow> nat" where
  "scan_bmh hay pat = (if length pat = 0 \<or> length hay < length pat then 0 else bmh_loop hay pat 0 0)"

definition off_min_by_data :: "string \<Rightarrow> (char \<Rightarrow> nat) \<Rightarrow> nat" where
  "off_min_by_data pat hist = fst (fold (\<lambda>i (best, bc). if hist (pat ! i) < bc then (i, hist (pat ! i)) else (best, bc))
     [1..<length pat] (0, hist (pat ! 0)))"

definition off_second_by_data :: "string \<Rightarrow> nat \<Rightarrow> (char \<Rightarrow> nat) \<Rightarrow> nat" where
  "off_second_by_data pat avoid hist = fst (fold (\<lambda>i (best, bc).
       let d = (if avoid < i then i - avoid else avoid - i)
       in if d < 2 then (best, bc) else if hist (pat ! i) < bc then (i, hist (pat ! i)) else (best, bc))
     [0..<length pat] (avoid, 0xFFFFFFFF))"

definition exact_count :: "string \<Rightarrow> string \<Rightarrow> nat" where
  "exact_count hay pat =
     (if length pat = 0 \<or> length hay < length pat then 0
      else let hist = byte_hist hay; ssz = min (length hay) (2 ^ 18); rare = ssz div 32; o1 = off_min_by_data pat hist
        in if rare < hist (pat ! o1) then scan_bmh hay pat
           else let o2 = off_second_by_data pat o1 hist
             in if o2 \<noteq> o1 \<and> hist (pat ! o2) \<le> rare
                then scan_anchor2 hay pat \<lparr>an_byte = pat ! o1, an_off = o1\<rparr> \<lparr>an_byte = pat ! o2, an_off = o2\<rparr>
                else scan_anchor hay pat \<lparr>an_byte = pat ! o1, an_off = o1\<rparr>)"

definition same_fold :: "bool \<Rightarrow> char \<Rightarrow> char \<Rightarrow> bool" where
  "same_fold icase a b \<longleftrightarrow> fold_byte a icase = fold_byte b icase"

definition exact_count_folded :: "string \<Rightarrow> string \<Rightarrow> bool \<Rightarrow> nat" where
  "exact_count_folded hay pat icase =
     (if length pat = 0 \<or> length hay < length pat then 0
      else fold (\<lambda>i count. if list_all (\<lambda>j. same_fold icase (hay ! (i + j)) (pat ! j)) [0..<length pat] then count + 1 else count)
        [0..<length hay + 1 - length pat] 0)"

section \<open>Fuzzy counting\<close>

text \<open>The mismatches of a window, cut off once they exceed \<open>k\<close>.\<close>

fun mism_loop :: "(nat \<Rightarrow> bool) \<Rightarrow> nat \<Rightarrow> nat list \<Rightarrow> nat \<Rightarrow> nat" where
  "mism_loop differs k [] mism = mism"
| "mism_loop differs k (j # js) mism =
     (if differs j then (if k < mism + 1 then mism + 1 else mism_loop differs k js (mism + 1)) else mism_loop differs k js mism)"

definition scan_kmismatch :: "string \<Rightarrow> string \<Rightarrow> nat \<Rightarrow> bool \<Rightarrow> nat" where
  "scan_kmismatch hay pat k icase =
     (if length pat = 0 \<or> length hay < length pat then 0
      else fold (\<lambda>i count. if mism_loop (\<lambda>j. \<not> same_fold icase (hay ! (i + j)) (pat ! j)) k [0..<length pat] 0 \<le> k then count + 1 else count)
        [0..<length hay + 1 - length pat] 0)"

text \<open>The rarest byte of the piece \<open>ps \<le> i < pe\<close> of the pattern.\<close>

definition piece_probe :: "string \<Rightarrow> (char \<Rightarrow> nat) \<Rightarrow> nat \<Rightarrow> nat \<Rightarrow> nat" where
  "piece_probe pat hist ps pe = fst (fold (\<lambda>i (roff, bf). if hist (pat ! i) < bf then (i, hist (pat ! i)) else (roff, bf))
     [ps + 1..<pe] (ps, hist (pat ! ps)))"

definition kmismatch_piece :: "string \<Rightarrow> string \<Rightarrow> nat \<Rightarrow> (char \<Rightarrow> nat) \<Rightarrow> nat \<Rightarrow> bool list \<times> nat \<Rightarrow> bool list \<times> nat" where
  "kmismatch_piece hay pat k hist pc s =
     (let n = length hay; m = length pat; pieces = k + 1; ps = pc * m div pieces; pe = (pc + 1) * m div pieces
      in if pe = ps then s
         else let roff = piece_probe pat hist ps pe
           in memchr_loop hay (pat ! roff) n
             (\<lambda>hp (seen, count). if roff \<le> hp \<and> hp - roff + m \<le> n
                then let p = hp - roff
                  in if \<not> seen ! p
                     then (seen[p := True], if mism_loop (\<lambda>j. hay ! (p + j) \<noteq> pat ! j) k [0..<m] 0 \<le> k then count + 1 else count)
                     else (seen, count)
                else (seen, count)) 0 s)"

text \<open>\<open>None\<close> is the allocation failure the caller falls back on.\<close>

definition scan_kmismatch_pre :: "bool \<Rightarrow> string \<Rightarrow> string \<Rightarrow> nat \<Rightarrow> nat option" where
  "scan_kmismatch_pre alloc_ok hay pat k =
     (if length pat = 0 \<or> length hay < length pat then Some 0
      else if length pat \<le> k then Some (length hay - length pat + 1)
      else if \<not> alloc_ok then None
      else Some (snd (fold (kmismatch_piece hay pat k (byte_hist hay)) [0..<k + 1] (replicate (length hay) False, 0))))"

section \<open>Every scan counts the same windows\<close>

definition occurrences :: "string \<Rightarrow> string \<Rightarrow> nat" where
  "occurrences hay pat = length (filter (\<lambda>i. at_offset hay i pat) [0..<length hay + 1 - length pat])"

lemma upt_split: "i \<le> j \<Longrightarrow> j \<le> k \<Longrightarrow> [i..<k] = [i..<j] @ [j..<k]"
  by (metis le_add_diff_inverse upt_add_eq_append)

lemma memchr_loop_fold: "memchr_loop hay c e body p s = fold body (filter (\<lambda>j. hay ! j = c) [p..<e]) s"
proof (induction hay c e body p s rule: memchr_loop.induct)
  case (1 hay c e body p s)
  show ?case
  proof (cases "memchr hay c p e")
    case None
    then have "filter (\<lambda>j. hay ! j = c) [p..<e] = []" by (auto simp: memchr_def find_None_iff filter_empty_conv)
    with None show ?thesis by (simp add: memchr_loop.simps)
  next
    case (Some j)
    then obtain i where i: "i < e - p" "j = p + i" "hay ! j = c" "\<forall>k < i. hay ! (p + k) \<noteq> c"
      by (auto simp: memchr_def find_Some_iff)
    have "[p..<e] = [p..<j] @ j # [j + 1..<e]" using i(1,2) upt_split [of p j e] upt_conv_Cons [of j e] by simp
    moreover have "filter (\<lambda>j. hay ! j = c) [p..<j] = []"
      using i(2,4) by (auto simp: filter_empty_conv) (metis add.commute le_add_diff_inverse2 less_diff_conv2 nat_add_left_cancel_less)
    ultimately show ?thesis using Some 1 [OF Some] i(3) by (simp add: memchr_loop.simps [of hay c e body p])
  qed
qed

lemma fold_count: "fold (\<lambda>i count. if P i then count + 1 else count) xs c = c + length (filter P xs)" for c :: nat
  by (induction xs arbitrary: c) auto

lemma at_offset_room: "at_offset hay i pat \<Longrightarrow> pat \<noteq> [] \<Longrightarrow> i + length pat \<le> length hay"
  unfolding at_offset_def by (metis add_diff_cancel_left' length_drop length_take length_greater_0_conv min.cobounded1 min_def nat_le_linear le_diff_conv2 add.commute diff_is_0_eq not_less le_0_eq)

lemma at_offset_nth: "at_offset hay i pat \<longleftrightarrow> (pat = [] \<or> i + length pat \<le> length hay) \<and> (\<forall>j < length pat. hay ! (i + j) = pat ! j)"
proof (cases "pat = []")
  case False
  show ?thesis
  proof
    assume a: "at_offset hay i pat"
    then have r: "i + length pat \<le> length hay" using at_offset_room False by blast
    have "hay ! (i + j) = pat ! j" if "j < length pat" for j
    proof -
      have "take (length pat) (drop i hay) ! j = pat ! j" using a by (simp add: at_offset_def)
      then show ?thesis using that r by simp
    qed
    with r show "(pat = [] \<or> i + length pat \<le> length hay) \<and> (\<forall>j < length pat. hay ! (i + j) = pat ! j)" by simp
  qed (use False in \<open>auto simp: at_offset_def intro!: nth_equalityI\<close>)
qed (simp add: at_offset_def)

lemma windows_filter:
  assumes "off < length pat" "length pat \<le> length hay" "\<And>i. P i \<Longrightarrow> i + length pat \<le> length hay"
  shows "length (filter (\<lambda>j. off \<le> j \<and> P (j - off)) [off..<length hay]) = length (filter P [0..<length hay + 1 - length pat])"
proof -
  have "[off..<length hay] = map (\<lambda>i. i + off) [0..<length hay - off]" using assms(1,2) by (simp add: map_add_upt)
  then have "length (filter (\<lambda>j. off \<le> j \<and> P (j - off)) [off..<length hay]) = length (filter P [0..<length hay - off])"
    by (simp add: filter_map comp_def)
  also have "[0..<length hay - off] = [0..<length hay + 1 - length pat] @ [length hay + 1 - length pat..<length hay - off]"
    using assms(1,2) by (intro upt_split) auto
  also have "filter P \<dots> = filter P [0..<length hay + 1 - length pat]" using assms(2,3) by (fastforce simp: filter_empty_conv)
  finally show ?thesis .
qed

lemma scan_anchor_occurrences:
  assumes "an_off a < length pat" "an_byte a = pat ! an_off a"
  shows "scan_anchor hay pat a = (if length hay < length pat then 0 else occurrences hay pat)"
proof (cases "length hay < length pat")
  case False
  let ?o = "an_off a" and ?P = "\<lambda>i. at_offset hay i pat"
  have ne: "pat \<noteq> []" using assms(1) by auto
  have room: "?P i \<Longrightarrow> i + length pat \<le> length hay" for i using at_offset_room ne by blast
  have "filter (\<lambda>j. ?o \<le> j \<and> j - ?o + length pat \<le> length hay \<and> ?P (j - ?o)) (filter (\<lambda>j. hay ! j = pat ! ?o) [?o..<length hay])
      = filter (\<lambda>j. ?o \<le> j \<and> ?P (j - ?o)) [?o..<length hay]"
    unfolding filter_filter using assms(1) room by (intro filter_cong) (auto simp: at_offset_nth)
  then show ?thesis
    using False ne windows_filter [OF assms(1) _ room, of ?P] by (simp add: scan_anchor_def Let_def memchr_loop_fold fold_count assms(2) occurrences_def)
qed (simp add: scan_anchor_def)

lemma scan_anchor2_anchor:
  assumes "an_off b < length pat" "an_byte b = pat ! an_off b"
  shows "scan_anchor2 hay pat a b = scan_anchor hay pat a"
proof -
  have "(\<lambda>j count. if an_off a \<le> j \<and> j - an_off a + length pat \<le> length hay
      then let start = j - an_off a in if hay ! (start + an_off b) = an_byte b \<and> at_offset hay start pat then count + 1 else count else count) =
    (\<lambda>j count. if an_off a \<le> j \<and> j - an_off a + length pat \<le> length hay \<and> at_offset hay (j - an_off a) pat then count + 1 else (count :: nat))"
    using assms by (intro ext) (auto simp: Let_def at_offset_nth)
  then show ?thesis unfolding scan_anchor2_def scan_anchor_def Let_def by (simp only:)
qed

lemma bmh_skips_none:
  assumes "pat \<noteq> []" "i + length pat \<le> length hay" "i < k" "k < i + bmh_skip pat (hay ! (i + length pat - 1))"
  shows "\<not> at_offset hay k pat"
proof
  assume a: "at_offset hay k pat"
  let ?m = "length pat" and ?e = "k - i"
  have m: "0 < ?m" using assms(1) by simp
  have "bmh_skip pat c \<le> ?m" for c
  proof (cases "\<exists>j < ?m - 1. pat ! j = c")
    case True
    then show ?thesis using bmh_skip_bounds(2) [OF assms(1)] by (meson diff_le_self le_trans)
  next
    case False
    have "fold (\<lambda>i skip. skip(pat ! i := ?m - 1 - i)) xs f c \<le> ?m" if "f c \<le> ?m" for xs f
      using that by (induction xs arbitrary: f) auto
    then show ?thesis by (simp add: bmh_skip_def)
  qed
  then have e: "0 < ?e" "?e < ?m" using assms(3,4) less_le_trans [OF assms(4)] by (auto simp: less_diff_conv2 add.commute)
  then have j: "?m - 1 - ?e < ?m - 1" by simp
  have "hay ! (k + (?m - 1 - ?e)) = pat ! (?m - 1 - ?e)" using a j by (simp add: at_offset_nth)
  moreover have "k + (?m - 1 - ?e) = i + ?m - 1" using e assms(3) by simp
  ultimately have "bmh_skip pat (hay ! (i + ?m - 1)) \<le> ?e" using bmh_skip_bounds(2) [OF assms(1) j] e by simp
  with assms(3,4) show False by simp
qed

lemma bmh_loop_count: "pat \<noteq> [] \<Longrightarrow> bmh_loop hay pat i count = count + length (filter (\<lambda>i. at_offset hay i pat) [i..<length hay + 1 - length pat])"
proof (induction hay pat i count rule: bmh_loop.induct)
  case (1 hay pat i count)
  show ?case
  proof (cases "i + length pat \<le> length hay")
    case True
    let ?d = "bmh_skip pat (hay ! (i + length pat - 1))" and ?e = "length hay + 1 - length pat"
    have d: "0 < ?d" by (rule bmh_skip_bounds(1) [OF 1(2)])
    have skip: "filter (\<lambda>i. at_offset hay i pat) [Suc i..<i + ?d] = []"
      using bmh_skips_none [OF 1(2) True] by (auto simp: filter_empty_conv)
    have split: "filter (\<lambda>i. at_offset hay i pat) [i..<?e] = (if at_offset hay i pat then [i] else []) @ filter (\<lambda>i. at_offset hay i pat) [i + ?d..<?e]"
    proof -
      have "[i..<?e] = i # [Suc i..<?e]" using True by (intro upt_conv_Cons) auto
      moreover have "filter (\<lambda>i. at_offset hay i pat) [Suc i..<?e] = filter (\<lambda>i. at_offset hay i pat) [i + ?d..<?e]"
      proof (cases "i + ?d \<le> ?e")
        case True
        have "[Suc i..<?e] = [Suc i..<i + ?d] @ [i + ?d..<?e]" using d True by (intro upt_split) auto
        then show ?thesis using skip by simp
      next
        case False
        have "set [Suc i..<?e] \<subseteq> set [Suc i..<i + ?d]" using False by auto
        then show ?thesis using skip False by (auto simp: filter_empty_conv subset_iff)
      qed
      ultimately show ?thesis by simp
    qed
    from 1(1) [OF _ refl] 1(2) True arg_cong [OF split, of length] show ?thesis by (subst bmh_loop.simps) (simp add: Let_def)
  next
    case False
    then have "[i..<length hay + 1 - length pat] = []" by simp
    with False show ?thesis by (subst bmh_loop.simps) simp
  qed
qed

lemma scan_bmh_occurrences: "pat \<noteq> [] \<Longrightarrow> scan_bmh hay pat = (if length hay < length pat then 0 else occurrences hay pat)"
  by (simp add: scan_bmh_def bmh_loop_count occurrences_def)

lemma off_min_range: "pat \<noteq> [] \<Longrightarrow> off_min_by_data pat hist < length pat"
proof -
  assume "pat \<noteq> []"
  have "fst (fold (\<lambda>i (best, bc). if hist (pat ! i) < bc then (i, hist (pat ! i)) else (best, bc)) xs (b, c)) < length pat"
    if "b < length pat" "\<forall>x \<in> set xs. x < length pat" for xs b c
    using that by (induction xs arbitrary: b c) auto
  from this [of 0 "[1..<length pat]"] \<open>pat \<noteq> []\<close> show ?thesis unfolding off_min_by_data_def by simp
qed

lemma off_second_range: "avoid < length pat \<Longrightarrow> off_second_by_data pat avoid hist < length pat"
proof -
  assume "avoid < length pat"
  have "fst (fold (\<lambda>i (best, bc).
       let d = (if avoid < i then i - avoid else avoid - i)
       in if d < 2 then (best, bc) else if hist (pat ! i) < bc then (i, hist (pat ! i)) else (best, bc)) xs (b, c)) < length pat"
    if "b < length pat" "\<forall>x \<in> set xs. x < length pat" for xs b c
    using that by (induction xs arbitrary: b c) (auto simp: Let_def)
  from this [of avoid "[0..<length pat]"] \<open>avoid < length pat\<close> show ?thesis unfolding off_second_by_data_def by simp
qed

lemma exact_count_occurrences:
  assumes "pat \<noteq> []" "length pat \<le> length hay"
  shows "exact_count hay pat = occurrences hay pat"
proof -
  define o1 where "o1 = off_min_by_data pat (byte_hist hay)"
  have o1: "o1 < length pat" using off_min_range [OF assms(1)] by (simp add: o1_def)
  have o2: "off_second_by_data pat o1 h < length pat" for h using off_second_range [OF o1] .
  have "scan_anchor hay pat \<lparr>an_byte = pat ! o1, an_off = o1\<rparr> = occurrences hay pat"
    using scan_anchor_occurrences [of "\<lparr>an_byte = pat ! o1, an_off = o1\<rparr>" pat hay] o1 assms(2) by simp
  then show ?thesis
    using assms scan_bmh_occurrences [OF assms(1), of hay] scan_anchor2_anchor [of "\<lparr>an_byte = pat ! j, an_off = j\<rparr>" pat hay "\<lparr>an_byte = pat ! o1, an_off = o1\<rparr>" for j] o2
    unfolding exact_count_def Let_def o1_def [symmetric] by simp
qed

section \<open>The folded and the fuzzy count\<close>

definition mismatches :: "bool \<Rightarrow> string \<Rightarrow> nat \<Rightarrow> string \<Rightarrow> nat" where
  "mismatches icase hay i pat = length (filter (\<lambda>j. \<not> same_fold icase (hay ! (i + j)) (pat ! j)) [0..<length pat])"

lemma mism_loop_le: "m \<le> k \<Longrightarrow> mism_loop differs k js m \<le> k \<longleftrightarrow> m + length (filter differs js) \<le> k"
proof (induction js arbitrary: m)
  case (Cons j js)
  show ?case
  proof (cases "differs j \<and> m + 1 \<le> k")
    case True
    then show ?thesis using Cons.IH [of "m + 1"] by simp
  next
    case False
    then show ?thesis using Cons.IH [of m] Cons.prems by (auto simp: not_le)
  qed
qed simp

lemma same_fold_False [simp]: "same_fold False a b \<longleftrightarrow> a = b"
  by (simp add: same_fold_def fold_byte_def)

lemma scan_kmismatch_windows:
  assumes "pat \<noteq> []" "length pat \<le> length hay"
  shows "scan_kmismatch hay pat k icase = length (filter (\<lambda>i. mismatches icase hay i pat \<le> k) [0..<length hay + 1 - length pat])"
  using assms by (simp add: scan_kmismatch_def fold_count mism_loop_le mismatches_def)

lemma exact_count_folded_windows:
  assumes "pat \<noteq> []" "length pat \<le> length hay"
  shows "exact_count_folded hay pat icase = length (filter (\<lambda>i. mismatches icase hay i pat = 0) [0..<length hay + 1 - length pat])"
proof -
  have "list_all (\<lambda>j. same_fold icase (hay ! (i + j)) (pat ! j)) [0..<length pat] \<longleftrightarrow> mismatches icase hay i pat = 0" for i
    by (auto simp: list_all_iff mismatches_def filter_empty_conv)
  then show ?thesis using assms by (simp add: exact_count_folded_def fold_count)
qed

text \<open>The pieces cover the pattern without overlap; none is empty when there are no more pieces than bytes.\<close>

definition piece_start :: "string \<Rightarrow> nat \<Rightarrow> nat \<Rightarrow> nat" where
  "piece_start pat k pc = pc * length pat div (k + 1)"

lemma piece_start_ends: "piece_start pat k 0 = 0" "piece_start pat k (Suc k) = length pat"
proof -
  have "Suc k * length pat div Suc k = length pat" by (rule nonzero_mult_div_cancel_left) simp
  then show "piece_start pat k (Suc k) = length pat" by (simp add: piece_start_def del: mult_Suc)
qed (simp add: piece_start_def)

lemma piece_start_less: "k < length pat \<Longrightarrow> piece_start pat k pc < piece_start pat k (Suc pc)"
proof -
  assume "k < length pat"
  then have "pc * length pat + (k + 1) \<le> Suc pc * length pat" by simp
  then have "(pc * length pat + (k + 1)) div (k + 1) \<le> Suc pc * length pat div (k + 1)" by (rule div_le_mono)
  moreover have "(pc * length pat + (k + 1)) div (k + 1) = pc * length pat div (k + 1) + 1" by (rule div_add_self2) simp
  ultimately show ?thesis unfolding piece_start_def by simp
qed

lemma piece_start_mono: "i \<le> j \<Longrightarrow> piece_start pat k i \<le> piece_start pat k j"
  unfolding piece_start_def by (intro div_le_mono mult_le_mono1)

text \<open>With at most \<open>k\<close> mismatches one of the \<open>k + 1\<close> pieces has none.\<close>

lemma clean_piece:
  assumes "k < length pat" "mismatches False hay i pat \<le> k"
  shows "\<exists>pc < k + 1. \<forall>j. piece_start pat k pc \<le> j \<longrightarrow> j < piece_start pat k (Suc pc) \<longrightarrow> hay ! (i + j) = pat ! j"
proof (rule ccontr)
  let ?D = "{j. j < length pat \<and> hay ! (i + j) \<noteq> pat ! j}"
  assume "\<not> ?thesis"
  then have "\<forall>pc. \<exists>j. pc < k + 1 \<longrightarrow> piece_start pat k pc \<le> j \<and> j < piece_start pat k (Suc pc) \<and> hay ! (i + j) \<noteq> pat ! j" by blast
  then obtain f where f: "\<And>pc. pc < k + 1 \<Longrightarrow> piece_start pat k pc \<le> f pc \<and> f pc < piece_start pat k (Suc pc) \<and> hay ! (i + f pc) \<noteq> pat ! f pc"
    by metis
  have "f pc \<noteq> f pd" if "pc < pd" "pd < k + 1" for pc pd
    using f [of pc] f [of pd] piece_start_mono [of "Suc pc" pd pat k] that by auto
  then have "inj_on f {..<k + 1}" unfolding inj_on_def by (metis lessThan_iff linorder_neqE_nat)
  then have "card (f ` {..<k + 1}) = k + 1" by (simp add: card_image)
  moreover have "f pc \<in> ?D" if "pc < k + 1" for pc
    using f [OF that] piece_start_mono [of "Suc pc" "Suc k" pat k] that by (simp add: piece_start_ends)
  then have "f ` {..<k + 1} \<subseteq> ?D" by blast
  moreover have "finite ?D" by simp
  ultimately have "k + 1 \<le> card ?D" using card_mono [of ?D "f ` {..<k + 1}"] by simp
  moreover have "card ?D = mismatches False hay i pat"
  proof -
    have "?D = set (filter (\<lambda>j. hay ! (i + j) \<noteq> pat ! j) [0..<length pat])" by auto
    then show ?thesis by (simp add: mismatches_def distinct_card del: set_filter)
  qed
  ultimately show False using assms(2) by simp
qed

lemma piece_probe_range: "ps < pe \<Longrightarrow> ps \<le> piece_probe pat hist ps pe \<and> piece_probe pat hist ps pe < pe"
proof -
  assume "ps < pe"
  have "ps \<le> fst (fold (\<lambda>i (roff, bf). if hist (pat ! i) < bf then (i, hist (pat ! i)) else (roff, bf)) xs (b, c)) \<and>
      fst (fold (\<lambda>i (roff, bf). if hist (pat ! i) < bf then (i, hist (pat ! i)) else (roff, bf)) xs (b, c)) < pe"
    if "ps \<le> b" "b < pe" "\<forall>x \<in> set xs. ps \<le> x \<and> x < pe" for xs b c
    using that by (induction xs arbitrary: b c) auto
  from this [of ps "[ps + 1..<pe]"] \<open>ps < pe\<close> show ?thesis unfolding piece_probe_def by simp
qed

text \<open>The marks of the prefiltered scan: the windows seen so far, and the good ones among them counted once.\<close>

definition kseen :: "string \<Rightarrow> string \<Rightarrow> nat \<Rightarrow> nat set \<Rightarrow> bool list \<times> nat \<Rightarrow> bool" where
  "kseen hay pat k V s \<longleftrightarrow> length (fst s) = length hay \<and> (\<forall>p < length hay. fst s ! p \<longleftrightarrow> p \<in> V) \<and> V \<subseteq> {p. p + length pat \<le> length hay} \<and>
     snd s = card {p \<in> V. mismatches False hay p pat \<le> k}"

definition kbody :: "string \<Rightarrow> string \<Rightarrow> nat \<Rightarrow> nat \<Rightarrow> nat \<Rightarrow> bool list \<times> nat \<Rightarrow> bool list \<times> nat" where
  "kbody hay pat k roff = (\<lambda>hp (seen, count). if roff \<le> hp \<and> hp - roff + length pat \<le> length hay
     then let p = hp - roff
       in if \<not> seen ! p
          then (seen[p := True], if mism_loop (\<lambda>j. hay ! (p + j) \<noteq> pat ! j) k [0..<length pat] 0 \<le> k then count + 1 else count)
          else (seen, count)
     else (seen, count))"

lemma kseen_step:
  assumes "kseen hay pat k V s" "pat \<noteq> []"
  shows "kseen hay pat k (V \<union> {p. hp = p + roff \<and> p + length pat \<le> length hay}) (kbody hay pat k roff hp s)"
proof (cases "roff \<le> hp \<and> hp - roff + length pat \<le> length hay")
  case True
  then obtain p where hp: "hp = p + roff" and room: "p + length pat \<le> length hay" by (metis le_add_diff_inverse2)
  obtain seen cnt where s: "s = (seen, cnt)" by (cases s)
  let ?G = "\<lambda>V. {p \<in> V. mismatches False hay p pat \<le> k}"
  have V: "V \<union> {p. hp = p + roff \<and> p + length pat \<le> length hay} = insert p V" using hp room by auto
  have p: "p < length hay" using room assms(2) by (cases pat) auto
  have good: "mism_loop (\<lambda>j. hay ! (p + j) \<noteq> pat ! j) k [0..<length pat] 0 \<le> k \<longleftrightarrow> mismatches False hay p pat \<le> k"
    by (simp add: mism_loop_le mismatches_def)
  have body: "kbody hay pat k roff hp (seen, cnt) = (if \<not> seen ! p
      then (seen[p := True], if mismatches False hay p pat \<le> k then cnt + 1 else cnt) else (seen, cnt))"
    using room good by (simp add: kbody_def hp)
  have "V \<subseteq> {..length hay}" using assms(1) by (auto simp: kseen_def)
  then have fin: "finite V" by (rule finite_subset) simp
  show ?thesis
  proof (cases "seen ! p")
    case True
    then have "p \<in> V" using assms(1) p s by (simp add: kseen_def)
    then have "insert p V = V" by blast
    with True assms(1) show ?thesis unfolding V s body by simp
  next
    case False
    then have n: "p \<notin> V" using assms(1) p s by (simp add: kseen_def)
    have "?G (insert p V) = (if mismatches False hay p pat \<le> k then insert p (?G V) else ?G V)" by auto
    moreover have "card (insert p (?G V)) = card (?G V) + 1" using fin n by simp
    ultimately show ?thesis
      using False assms(1) p room unfolding V s body by (auto simp: kseen_def nth_list_update)
  qed
next
  case False
  then have e: "{p. hp = p + roff \<and> p + length pat \<le> length hay} = {}" by auto
  have "kbody hay pat k roff hp s = s" unfolding kbody_def using False by (cases s) (simp only: prod.case if_False)
  then show ?thesis using assms(1) unfolding e by simp
qed

lemma kseen_fold:
  "kseen hay pat k V s \<Longrightarrow> pat \<noteq> [] \<Longrightarrow>
    kseen hay pat k (V \<union> {p. p + roff \<in> set hps \<and> p + length pat \<le> length hay}) (fold (kbody hay pat k roff) hps s)"
proof (induction hps arbitrary: V s)
  case (Cons hp hps)
  have "V \<union> {p. p + roff \<in> set (hp # hps) \<and> p + length pat \<le> length hay} =
      (V \<union> {p. hp = p + roff \<and> p + length pat \<le> length hay}) \<union> {p. p + roff \<in> set hps \<and> p + length pat \<le> length hay}" by auto
  then show ?case using Cons.IH [OF kseen_step [OF Cons.prems]] Cons.prems(2) by simp
qed simp

definition piece_windows :: "string \<Rightarrow> string \<Rightarrow> nat \<Rightarrow> nat \<Rightarrow> nat set" where
  "piece_windows hay pat k pc =
     (let roff = piece_probe pat (byte_hist hay) (piece_start pat k pc) (piece_start pat k (Suc pc))
      in {p. hay ! (p + roff) = pat ! roff \<and> p + length pat \<le> length hay})"

lemma kseen_piece:
  assumes "kseen hay pat k V s" "k < length pat" "pc < k + 1"
  shows "kseen hay pat k (V \<union> piece_windows hay pat k pc) (kmismatch_piece hay pat k (byte_hist hay) pc s)"
proof -
  let ?ps = "piece_start pat k pc" and ?pe = "piece_start pat k (Suc pc)"
  define roff where "roff = piece_probe pat (byte_hist hay) ?ps ?pe"
  have less: "?ps < ?pe" using assms(2) by (rule piece_start_less)
  have "?pe \<le> length pat" using piece_start_mono [of "Suc pc" "Suc k" pat k] assms(3) by (simp add: piece_start_ends)
  then have r: "roff < length pat" using piece_probe_range [OF less, of pat "byte_hist hay"] by (simp add: roff_def)
  have "kmismatch_piece hay pat k (byte_hist hay) pc s = memchr_loop hay (pat ! roff) (length hay) (kbody hay pat k roff) 0 s"
  proof -
    have ps: "pc * length pat div (k + 1) = ?ps" "(pc + 1) * length pat div (k + 1) = ?pe" by (simp_all add: piece_start_def)
    show ?thesis using less unfolding kmismatch_piece_def Let_def ps roff_def [symmetric] kbody_def by simp
  qed
  also have "\<dots> = fold (kbody hay pat k roff) (filter (\<lambda>j. hay ! j = pat ! roff) [0..<length hay]) s" by (rule memchr_loop_fold)
  finally have "kmismatch_piece hay pat k (byte_hist hay) pc s = \<dots>" .
  moreover have "{p. p + roff \<in> set (filter (\<lambda>j. hay ! j = pat ! roff) [0..<length hay]) \<and> p + length pat \<le> length hay} = piece_windows hay pat k pc"
    using r by (auto simp: piece_windows_def Let_def roff_def)
  moreover have "pat \<noteq> []" using assms(2) by auto
  ultimately show ?thesis using kseen_fold [OF assms(1), of roff "filter (\<lambda>j. hay ! j = pat ! roff) [0..<length hay]"] by simp
qed

lemma kseen_pieces:
  assumes "kseen hay pat k V s" "k < length pat" "\<forall>pc \<in> set pcs. pc < k + 1"
  shows "kseen hay pat k (V \<union> (\<Union>pc \<in> set pcs. piece_windows hay pat k pc)) (fold (kmismatch_piece hay pat k (byte_hist hay)) pcs s)"
  using assms
proof (induction pcs arbitrary: V s)
  case (Cons pc pcs)
  then have "kseen hay pat k (V \<union> piece_windows hay pat k pc) (kmismatch_piece hay pat k (byte_hist hay) pc s)" by (intro kseen_piece) auto
  from Cons.IH [OF this] Cons.prems show ?case by (simp add: Un_assoc)
qed simp

lemma scan_kmismatch_pre_windows:
  assumes "pat \<noteq> []" "length pat \<le> length hay"
  shows "scan_kmismatch_pre True hay pat k = Some (scan_kmismatch hay pat k False)"
proof (cases "length pat \<le> k")
  case True
  have "mismatches False hay i pat \<le> k" for i unfolding mismatches_def using True by (metis diff_zero length_filter_le length_upt le_trans)
  then show ?thesis using True assms by (simp add: scan_kmismatch_pre_def scan_kmismatch_windows)
next
  case False
  let ?init = "(replicate (length hay) False, 0 :: nat)"
  let ?V = "\<Union>pc \<in> set [0..<k + 1]. piece_windows hay pat k pc" and ?W = "{p. p + length pat \<le> length hay}"
  have "kseen hay pat k {} ?init" by (simp add: kseen_def)
  from kseen_pieces [OF this, of "[0..<k + 1]"] False
  have s: "kseen hay pat k ?V (fold (kmismatch_piece hay pat k (byte_hist hay)) [0..<k + 1] ?init)" by simp
  have cover: "p \<in> ?V" if p: "p + length pat \<le> length hay" "mismatches False hay p pat \<le> k" for p
  proof -
    obtain pc where pc: "pc < k + 1" "\<forall>j. piece_start pat k pc \<le> j \<longrightarrow> j < piece_start pat k (Suc pc) \<longrightarrow> hay ! (p + j) = pat ! j"
      using clean_piece [OF _ p(2)] False by auto
    then show ?thesis using p(1) piece_probe_range [OF piece_start_less [of k pat pc], of pat "byte_hist hay"] False
      by (intro UN_I [of pc]) (auto simp: piece_windows_def Let_def)
  qed
  have "?V \<subseteq> ?W" by (auto simp: piece_windows_def Let_def)
  then have "{p \<in> ?V. mismatches False hay p pat \<le> k} = {p \<in> ?W. mismatches False hay p pat \<le> k}" using cover by blast
  also have "\<dots> = set (filter (\<lambda>p. mismatches False hay p pat \<le> k) [0..<length hay + 1 - length pat])" using assms(2) by auto
  finally have "{p \<in> ?V. mismatches False hay p pat \<le> k} = \<dots>" .
  then have "card {p \<in> ?V. mismatches False hay p pat \<le> k} = scan_kmismatch hay pat k False"
    by (simp add: scan_kmismatch_windows [OF assms] distinct_card del: set_filter)
  then show ?thesis using s False assms by (simp add: scan_kmismatch_pre_def kseen_def del: upt_Suc)
qed

text \<open>The literal face counts every overlapping occurrence and nothing else, whichever of its three scans the byte
  frequencies of the haystack select.\<close>

theorem exact_count_is_occurrences: "exact_count hay pat = (if pat = [] then 0 else occurrences hay pat)"
proof (cases "pat = [] \<or> length hay < length pat")
  case True
  then show ?thesis by (auto simp: exact_count_def occurrences_def)
qed (simp add: exact_count_occurrences)

text \<open>C40: the prefiltered fuzzy count is the count of the windows within Hamming distance \<open>k\<close>, which the plain scan
  computes; it gives up only when its marks cannot be allocated.\<close>

theorem kmismatch_prefilter:
  "case scan_kmismatch_pre alloc_ok hay pat k of
     None \<Rightarrow> \<not> alloc_ok
   | Some c \<Rightarrow> c = scan_kmismatch hay pat k False \<and>
       c = (if pat = [] then 0 else length (filter (\<lambda>i. mismatches False hay i pat \<le> k) [0..<length hay + 1 - length pat]))"
proof (cases "pat = [] \<or> length hay < length pat")
  case True
  then show ?thesis by (auto simp: scan_kmismatch_pre_def scan_kmismatch_def)
next
  case False
  then have "scan_kmismatch_pre True hay pat k = Some (scan_kmismatch hay pat k False)" by (intro scan_kmismatch_pre_windows) auto
  then show ?thesis
    using False scan_kmismatch_windows [of pat hay k False] by (cases alloc_ok) (auto simp: scan_kmismatch_pre_def split: if_splits)
qed

end
