(* ===== verification/Text_Search.thy ===== *)
theory Text_Search
  imports Text_Match Text_Scan
begin

text \<open>
  The search program and its public operations (\<open>sublimation/src/text/match.c\<close>, from \<open>sublimation_search_compile\<close> on):
  compiling a pattern for one of the three faces, the whole-input match, the leftmost match from an offset, the
  word and line rules over a set of patterns, and the spans of a text. A returned offset of \<open>-1\<close> is \<open>None\<close>.
\<close>

section \<open>The program\<close>

datatype search_mode = MODE_EXACT | MODE_REGEX | MODE_FUZZY

record search =
  s_g :: gnfa
  s_imap :: imap
  s_pattern :: string
  s_k :: nat
  s_mode :: search_mode
  s_icase :: bool
  s_valid :: bool

definition SEARCH_MAX_PATTERN :: nat where
  "SEARCH_MAX_PATTERN = 1023"

definition search_zero :: search where
  "search_zero = \<lparr>s_g = gnfa_zero, s_imap = (\<lambda>_. 0), s_pattern = [], s_k = 0, s_mode = MODE_EXACT, s_icase = False, s_valid = False\<rparr>"

definition c_string :: "string \<Rightarrow> string" where
  "c_string s = takeWhile (\<lambda>c. c \<noteq> NUL) s"

text \<open>A regular expression is read as a C string. \<open>None\<close> would say that the parser ran out of fuel.\<close>

definition sublimation_search_compile :: "fold_tables \<Rightarrow> string \<Rightarrow> bool \<Rightarrow> bool \<Rightarrow> int \<Rightarrow> search option" where
  "sublimation_search_compile ft pattern fixed icase k =
     (let s = search_zero\<lparr>s_icase := icase, s_k := nat k\<rparr>
      in if SEARCH_MAX_PATTERN < length pattern then Some s
         else let s = s\<lparr>s_pattern := pattern\<rparr>
           in if 0 < k then Some (s\<lparr>s_mode := MODE_FUZZY, s_valid := (pattern \<noteq> [])\<rparr>)
              else if fixed then Some (s\<lparr>s_mode := MODE_EXACT, s_valid := (pattern \<noteq> [])\<rparr>)
              else case build_gnfa ft (c_string pattern) icase of
                  None \<Rightarrow> None
                | Some (ok, g) \<Rightarrow> Some (s\<lparr>s_mode := MODE_REGEX, s_valid := ok, s_g := g,
                    s_imap := (if ok then build_imap g else s_imap s)\<rparr>))"

section \<open>Matching the whole input\<close>

definition sublimation_search_full_match :: "search \<Rightarrow> string \<Rightarrow> bool" where
  "sublimation_search_full_match s hay =
     (let pat = s_pattern s; m = length pat
      in if \<not> s_valid s then False
         else case s_mode s of
             MODE_REGEX \<Rightarrow> gnfa_full (s_g s) (s_imap s) hay
           | MODE_FUZZY \<Rightarrow> length hay = m \<and> mism_loop (\<lambda>j. \<not> same_fold (s_icase s) (hay ! j) (pat ! j)) (s_k s) [0..<m] 0 \<le> s_k s
           | MODE_EXACT \<Rightarrow> length hay = m \<and> list_all (\<lambda>j. same_fold (s_icase s) (hay ! j) (pat ! j)) [0..<m])"

section \<open>The leftmost match\<close>

fun first_start :: "gnfa \<Rightarrow> imap \<Rightarrow> string \<Rightarrow> nat list \<Rightarrow> (nat \<times> nat) option" where
  "first_start g I hay [] = None"
| "first_start g I hay (start # starts) =
     (case gnfa_start_longest g I hay start of Some e \<Rightarrow> Some (start, e) | None \<Rightarrow> first_start g I hay starts)"

function anchor_find :: "string \<Rightarrow> string \<Rightarrow> nat \<Rightarrow> nat \<Rightarrow> nat \<Rightarrow> nat option" where
  "anchor_find hay pat aoff p e =
     (case memchr hay (pat ! aoff) p e of
        None \<Rightarrow> None
      | Some hit \<Rightarrow> if at_offset hay (hit - aoff) pat then Some (hit - aoff) else anchor_find hay pat aoff (hit + 1) e)"
  by pat_completeness auto
termination
  by (relation "measure (\<lambda>(_, _, _, p, e). e - p)") (auto dest!: memchr_range)

declare anchor_find.simps [simp del]

definition SEARCH_ANCHOR_HIST_MIN :: nat where
  "SEARCH_ANCHOR_HIST_MIN = 2 ^ 20"

text \<open>The anchor byte is chosen from the data only when the input pays for the histogram.\<close>

definition anchor_off :: "string \<Rightarrow> string \<Rightarrow> nat" where
  "anchor_off hay pat = (if SEARCH_ANCHOR_HIST_MIN \<le> length hay then off_min_by_data pat (byte_hist hay) else 0)"

definition sublimation_search_find_from :: "search \<Rightarrow> string \<Rightarrow> nat \<Rightarrow> (nat \<times> nat) option" where
  "sublimation_search_find_from s hay start =
     (let n = length hay; pat = s_pattern s; m = length pat
      in if \<not> s_valid s \<or> n < start then None
         else if s_mode s = MODE_REGEX
         then first_start (s_g s) (s_imap s) hay [start..<(if g_anchored_start (s_g s) then 1 else n + 1)]
         else if m = 0 then Some (start, start)
         else if n < m then None
         else map_option (\<lambda>i. (i, i + m))
           (if s_mode s = MODE_FUZZY
            then find (\<lambda>i. mism_loop (\<lambda>j. \<not> same_fold (s_icase s) (hay ! (i + j)) (pat ! j)) (s_k s) [0..<m] 0 \<le> s_k s) [start..<n + 1 - m]
            else if \<not> s_icase s
            then (let aoff = anchor_off hay pat
              in if n < start + m then None else anchor_find hay pat aoff (start + aoff) (n - m + aoff + 1))
            else find (\<lambda>i. list_all (\<lambda>j. same_fold True (hay ! (i + j)) (pat ! j)) [0..<m]) [start..<n + 1 - m]))"

definition sublimation_search_find :: "search \<Rightarrow> string \<Rightarrow> (nat \<times> nat) option" where
  "sublimation_search_find s hay = sublimation_search_find_from s hay 0"

section \<open>Every match found lies in the input\<close>

lemma first_start_bounds:
  "first_start g I hay starts = Some (st, e) \<Longrightarrow> st \<in> set starts \<and> gnfa_start_longest g I hay st = Some e"
  by (induction starts) (auto split: option.splits)

lemma start_longest_loop_bounds:
  "start_longest_loop g I s j D best = Some e \<Longrightarrow> best = Some e \<or> j < e \<and> e \<le> j + length s"
proof (induction s arbitrary: j D best)
  case (Cons c s)
  then show ?case by (fastforce simp: Let_def split: if_splits)
qed simp

lemma gnfa_start_longest_bounds: "gnfa_start_longest g I hay st = Some e \<Longrightarrow> st \<le> length hay \<Longrightarrow> st \<le> e \<and> e \<le> length hay"
  unfolding gnfa_start_longest_def by (drule start_longest_loop_bounds) (auto split: if_splits)

lemma find_after: "(\<And>x. x \<in> set xs \<Longrightarrow> \<not> P x) \<Longrightarrow> find P (xs @ ys) = find P ys"
  by (induction xs) auto

lemma anchor_find_spec:
  assumes "aoff < length pat" "e = length hay - length pat + aoff + 1" "length pat \<le> length hay" "aoff \<le> p"
  shows "anchor_find hay pat aoff p e = find (\<lambda>i. at_offset hay i pat) [p - aoff..<length hay + 1 - length pat]"
  using assms(4)
proof (induction "e - p" arbitrary: p rule: less_induct)
  case less
  have hit: "at_offset hay i pat \<Longrightarrow> hay ! (i + aoff) = pat ! aoff" for i using assms(1) by (simp add: at_offset_nth)
  show ?case
  proof (cases "memchr hay (pat ! aoff) p e")
    case None
    then have "\<forall>j. p \<le> j \<longrightarrow> j < e \<longrightarrow> hay ! j \<noteq> pat ! aoff" by (simp add: memchr_def find_None_iff)
    then have "\<not> at_offset hay i pat" if "p - aoff \<le> i" "i < length hay + 1 - length pat" for i
      using hit [of i] that less.prems assms(2,3) by auto
    then have "find (\<lambda>i. at_offset hay i pat) [p - aoff..<length hay + 1 - length pat] = None" by (auto simp: find_None_iff)
    with None show ?thesis by (simp add: anchor_find.simps [of hay pat aoff p e])
  next
    case (Some h)
    then have h: "p \<le> h" "h < e" "hay ! h = pat ! aoff" "\<And>j. p \<le> j \<Longrightarrow> j < h \<Longrightarrow> hay ! j \<noteq> pat ! aoff"
      by (auto simp: memchr_def find_Some_iff)
         (metis add_diff_inverse_nat diff_less_mono leD nat_add_left_cancel_less)+
    have up: "[p - aoff..<length hay + 1 - length pat] = [p - aoff..<h - aoff] @ [h - aoff..<length hay + 1 - length pat]"
      using h(1,2) less.prems assms(2) by (intro upt_split) auto
    have "\<not> at_offset hay i pat" if "p - aoff \<le> i" "i < h - aoff" for i
      using hit [of i] h(4) [of "i + aoff"] that less.prems by auto
    then have none: "find (\<lambda>i. at_offset hay i pat) ([p - aoff..<h - aoff] @ ys) = find (\<lambda>i. at_offset hay i pat) ys" for ys
      by (intro find_after) auto
    have cons: "[h - aoff..<length hay + 1 - length pat] = (h - aoff) # [h + 1 - aoff..<length hay + 1 - length pat]"
    proof -
      have "h - aoff < length hay + 1 - length pat" using h(1,2) less.prems assms(2,3) by arith
      from upt_conv_Cons [OF this] show ?thesis using h(1) less.prems by (simp add: Suc_diff_le)
    qed
    have "anchor_find hay pat aoff (h + 1) e = find (\<lambda>i. at_offset hay i pat) [h + 1 - aoff..<length hay + 1 - length pat]"
      using h(1,2) less.prems by (intro less.hyps) auto
    then show ?thesis unfolding up none cons using Some by (simp add: anchor_find.simps [of hay pat aoff p e])
  qed
qed

section \<open>The literal and the fuzzy face\<close>

lemma at_offset_mismatches: "pat \<noteq> [] \<Longrightarrow> i + length pat \<le> length hay \<Longrightarrow> at_offset hay i pat \<longleftrightarrow> mismatches False hay i pat = 0"
  by (auto simp: at_offset_nth mismatches_def filter_empty_conv)

lemma all_same_mismatches: "list_all (\<lambda>j. same_fold icase (hay ! (i + j)) (pat ! j)) [0..<length pat] \<longleftrightarrow> mismatches icase hay i pat = 0"
  by (auto simp: list_all_iff mismatches_def filter_empty_conv)

lemma mism_window: "mism_loop (\<lambda>j. \<not> same_fold icase (hay ! (i + j)) (pat ! j)) k [0..<length pat] 0 \<le> k \<longleftrightarrow> mismatches icase hay i pat \<le> k"
  by (simp add: mism_loop_le mismatches_def)

lemma find_cong_set: "(\<And>x. x \<in> set xs \<Longrightarrow> P x = Q x) \<Longrightarrow> find P xs = find Q xs"
  by (induction xs) auto

lemma literal_program:
  assumes "pat \<noteq> []" "length pat \<le> SEARCH_MAX_PATTERN" "0 \<le> k" "fixed \<or> 0 < k"
  shows "\<exists>s. sublimation_search_compile ft pat fixed icase k = Some s \<and> s_valid s \<and>
    (\<forall>hay start. sublimation_search_find_from s hay start =
       map_option (\<lambda>i. (i, i + length pat)) (find (\<lambda>i. mismatches icase hay i pat \<le> nat k) [start..<length hay + 1 - length pat])) \<and>
    (\<forall>hay. sublimation_search_full_match s hay \<longleftrightarrow> length hay = length pat \<and> mismatches icase hay 0 pat \<le> nat k)"
proof (cases "0 < k")
  case True
  let ?s = "search_zero\<lparr>s_icase := icase, s_k := nat k, s_pattern := pat, s_mode := MODE_FUZZY, s_valid := True\<rparr>"
  have "sublimation_search_compile ft pat fixed icase k = Some ?s" using assms True by (simp add: sublimation_search_compile_def Let_def not_less)
  moreover have "sublimation_search_find_from ?s hay start =
      map_option (\<lambda>i. (i, i + length pat)) (find (\<lambda>i. mismatches icase hay i pat \<le> nat k) [start..<length hay + 1 - length pat])" for hay start
    using assms(1) by (auto simp: sublimation_search_find_from_def Let_def mism_window)
  moreover have "sublimation_search_full_match ?s hay \<longleftrightarrow> length hay = length pat \<and> mismatches icase hay 0 pat \<le> nat k" for hay
    using mism_window [of icase hay 0 pat "nat k"] by (simp add: sublimation_search_full_match_def)
  ultimately show ?thesis by auto
next
  case False
  then have k: "k = 0" fixed using assms by auto
  let ?s = "search_zero\<lparr>s_icase := icase, s_k := 0, s_pattern := pat, s_mode := MODE_EXACT, s_valid := True\<rparr>"
  have c: "sublimation_search_compile ft pat fixed icase k = Some ?s" using assms k by (simp add: sublimation_search_compile_def Let_def not_less search_zero_def)
  have fm: "sublimation_search_full_match ?s hay \<longleftrightarrow> length hay = length pat \<and> mismatches icase hay 0 pat \<le> nat k" for hay
    using all_same_mismatches [of icase hay 0 pat] k by (simp add: sublimation_search_full_match_def)
  have "sublimation_search_find_from ?s hay start =
      map_option (\<lambda>i. (i, i + length pat)) (find (\<lambda>i. mismatches icase hay i pat \<le> nat k) [start..<length hay + 1 - length pat])" for hay start
  proof (cases "length hay < start \<or> length hay < length pat")
    case True
    then show ?thesis using assms(1) by (auto simp: sublimation_search_find_from_def Let_def)
  next
    case in_range: False
    show ?thesis
    proof (cases icase)
      case True
      then show ?thesis using in_range assms(1) k by (simp add: sublimation_search_find_from_def Let_def all_same_mismatches)
    next
      case False
      define aoff where "aoff = anchor_off hay pat"
      have aoff: "aoff < length pat" using assms(1) off_min_range by (simp add: aoff_def anchor_off_def)
      have "(if length hay < start + length pat then None
          else anchor_find hay pat aoff (start + aoff) (length hay - length pat + aoff + 1)) =
        find (\<lambda>i. mismatches icase hay i pat \<le> nat k) [start..<length hay + 1 - length pat]"
      proof (cases "length hay < start + length pat")
        case True
        then show ?thesis by simp
      next
        case False
        have "anchor_find hay pat aoff (start + aoff) (length hay - length pat + aoff + 1) =
          find (\<lambda>i. at_offset hay i pat) [start..<length hay + 1 - length pat]"
          using anchor_find_spec [OF aoff, of _ hay "start + aoff"] in_range by simp
        also have "\<dots> = find (\<lambda>i. mismatches icase hay i pat \<le> nat k) [start..<length hay + 1 - length pat]"
        proof (rule find_cong_set)
          fix i assume "i \<in> set [start..<length hay + 1 - length pat]"
          then have "i + length pat \<le> length hay" by auto
          from at_offset_mismatches [OF assms(1) this] show "at_offset hay i pat = (mismatches icase hay i pat \<le> nat k)"
            using \<open>\<not> icase\<close> k by simp
        qed
        finally show ?thesis using False by simp
      qed
      then show ?thesis using in_range assms(1) False by (simp add: sublimation_search_find_from_def Let_def aoff_def [symmetric])
    qed
  qed
  with c fm show ?thesis by auto
qed

text \<open>C40: on the literal and the fuzzy face, with or without case folding, a search returns the leftmost window from the
  given offset on whose Hamming distance to the pattern is within the threshold (0 on the literal face), whichever
  anchor byte the scan was given.\<close>

theorem literal_find_leftmost:
  assumes "pat \<noteq> []" "length pat \<le> SEARCH_MAX_PATTERN" "0 \<le> k" "fixed \<or> 0 < k"
  shows "\<exists>s. sublimation_search_compile ft pat fixed icase k = Some s \<and> s_valid s \<and>
    (\<forall>hay start. sublimation_search_find_from s hay start =
       map_option (\<lambda>i. (i, i + length pat)) (find (\<lambda>i. mismatches icase hay i pat \<le> nat k) [start..<length hay + 1 - length pat])) \<and>
    (\<forall>hay. sublimation_search_full_match s hay \<longleftrightarrow> length hay = length pat \<and> mismatches icase hay 0 pat \<le> nat k)"
  by (rule literal_program [OF assms])

theorem literal_find_leftmost_witness:
  "''ab'' \<noteq> [] \<and> length ''ab'' \<le> SEARCH_MAX_PATTERN \<and> (0::int) \<le> 1 \<and>
   (\<exists>s. sublimation_search_compile \<lparr>ft_last = [], ft_alt = []\<rparr> ''ab'' False False 1 = Some s \<and> s_valid s \<and>
      sublimation_search_find_from s ''xxcbab'' 0 = Some (2, 4))"
  using literal_find_leftmost [of "''ab''" 1 False "\<lparr>ft_last = [], ft_alt = []\<rparr>" False]
  by (auto simp: SEARCH_MAX_PATTERN_def mismatches_def upt_rec)

section \<open>The regular expression face\<close>

text \<open>A pattern: an expression of the grammar, anchored at the start, at the end, at both or not at all.\<close>

definition anchored_text :: "bool \<Rightarrow> string \<Rightarrow> bool \<Rightarrow> string" where
  "anchored_text a p z = (if a then ''^'' else []) @ p @ (if z then ''$'' else [])"

definition regex_text :: "bool \<Rightarrow> bool \<Rightarrow> string \<Rightarrow> bool \<Rightarrow> gx \<Rightarrow> bool" where
  "regex_text icase a p z r \<longleftrightarrow> p_alt icase p r \<and> p \<noteq> [] \<and> (a \<or> hd p \<noteq> CHR ''^'') \<and> (z \<or> last p \<noteq> CHR ''$'') \<and> NUL \<notin> set p \<and>
     0 < gsz r \<and> length (anchored_text a p z) \<le> SEARCH_MAX_PATTERN"

definition start_g :: "nat \<Rightarrow> bool \<Rightarrow> bool \<Rightarrow> bool \<Rightarrow> gnfa" where
  "start_g nw icase a z = gnfa_zero\<lparr>g_ok := True, g_icase := icase, g_nwords := nw, g_anchored_start := a, g_anchored_end := z\<rparr>"

lemma build_gnfa_w_parse:
  assumes "p \<noteq> []" "a \<or> hd p \<noteq> CHR ''^''" "z \<or> last p \<noteq> CHR ''$''" "length p < 1024"
  shows "build_gnfa_w nw ft (anchored_text a p z) icase =
    (case g_alt (parse_fuel p) ft \<lparr>x_p = p, x_g = start_g nw icase a z, x_fold_left = 0, x_fold_byte = 0\<rparr> of
       None \<Rightarrow> None
     | Some (b, x) \<Rightarrow> if \<not> g_ok (x_g x) \<or> x_p x \<noteq> [] \<or> g_npos (x_g x) = 0 then Some (False, x_g x)
         else Some (True, (x_g x)\<lparr>g_first := a_first b, g_last := a_last b, g_nullable := a_nullable b\<rparr>))"
proof -
  let ?t = "anchored_text a p z"
  have "(?t \<noteq> [] \<and> hd ?t = CHR ''^'') = a" using assms(1,2) by (cases p) (auto simp: anchored_text_def)
  moreover have "((if a then 1 else 0) < length ?t \<and> last ?t = CHR ''$'') = z" using assms(1,3) by (auto simp: anchored_text_def)
  moreover have "(if z then length ?t - 1 else length ?t) = (if a then 1 else 0) + length p" by (simp add: anchored_text_def)
  moreover have "take (length p) (drop (if a then 1 else 0) ?t) = p" by (simp add: anchored_text_def)
  moreover have "p \<noteq> [] \<longleftrightarrow> length p \<noteq> 0" by simp
  ultimately show ?thesis using assms(1,4) unfolding build_gnfa_w_def Let_def start_g_def by simp
qed

lemma start_g_wf: "nw \<le> 2 \<Longrightarrow> wf_g (start_g nw icase a z)"
  by (simp add: wf_g_def start_g_def gnfa_zero_def SEARCH_MAX_POS_def)

lemma start_g_simps: "g_npos (start_g nw icase a z) = 0" "g_ok (start_g nw icase a z)" "g_anchored_start (start_g nw icase a z) = a"
  "g_anchored_end (start_g nw icase a z) = z" "g_icase (start_g nw icase a z) = icase" "g_nwords (start_g nw icase a z) = nw"
  by (simp_all add: start_g_def gnfa_zero_def)

lemma build_gnfa_w_automaton:
  assumes "regex_text icase a p z r" "gsz r \<le> 64 * nw" "nw \<le> 2"
  shows "\<exists>g. build_gnfa_w nw ft (anchored_text a p z) icase = Some (True, g) \<and> automaton r g \<and> g_anchored_start g = a \<and> g_anchored_end g = z"
proof -
  let ?x = "\<lparr>x_p = p, x_g = start_g nw icase a z, x_fold_left = 0, x_fold_byte = 0\<rparr>"
  have p: "p_alt icase p r" "p \<noteq> []" "a \<or> hd p \<noteq> CHR ''^''" "z \<or> last p \<noteq> CHR ''$''" "length p < 1024" "0 < gsz r"
    using assms(1) by (auto simp: regex_text_def anchored_text_def SEARCH_MAX_PATTERN_def)
  have "ready icase ?x p r []" using assms(2) start_g_wf [OF assms(3), of icase a z] by (simp add: ready_def start_g_simps)
  then obtain b y where y: "read ?x r b y []" "\<And>q. runs (\<lambda>n. g_alts n ft b y) q \<Longrightarrow> runs (\<lambda>n. g_alt n ft ?x) q"
    using grammar_parsed(4) [OF p(1), of ft] unfolding alt_parsed_def by blast
  have "runs (\<lambda>n. g_alts n ft b y) (b, y)" using y(1) by (intro alts_stops [of "[]"]) (auto simp: read_def)
  from parse_result [OF y(2) [OF this]] have alt: "g_alt (parse_fuel p) ft ?x = Some (b, y)" by simp
  have built: "built r (start_g nw icase a z) b (x_g y)" "x_p y = []" using y(1) by (simp_all add: read_def)
  let ?g = "(x_g y)\<lparr>g_first := a_first b, g_last := a_last b, g_nullable := a_nullable b\<rparr>"
  have aut: "automaton r ?g" using built(1) start_g_simps by (simp add: automaton_def built_def wf_g_def)
  have ok: "g_ok (x_g y)" "g_npos (x_g y) \<noteq> 0" "g_anchored_start (x_g y) = a" "g_anchored_end (x_g y) = z"
    using built_frame [OF built(1)] built(1) start_g_simps p(6) by (auto simp: built_def)
  have "build_gnfa_w nw ft (anchored_text a p z) icase = Some (True, ?g)"
    unfolding build_gnfa_w_parse [OF p(2-5)] using alt built(2) ok by simp
  with aut ok show ?thesis by auto
qed

text \<open>The leftmost start of a match and its greatest end.\<close>

definition leftmost_longest :: "gx \<Rightarrow> bool \<Rightarrow> bool \<Rightarrow> string \<Rightarrow> nat \<Rightarrow> (nat \<times> nat) option" where
  "leftmost_longest r a z hay start =
     map_option (\<lambda>i. (i, Max (ends_at r z hay i))) (find (\<lambda>i. (a \<longrightarrow> i = 0) \<and> ends_at r z hay i \<noteq> {}) [start..<length hay + 1])"

lemma first_start_leftmost:
  assumes "automaton r g"
  shows "set starts \<subseteq> {..length hay} \<Longrightarrow> first_start g (build_imap g) hay starts =
    map_option (\<lambda>i. (i, Max (ends_at r (g_anchored_end g) hay i))) (find (\<lambda>i. ends_at r (g_anchored_end g) hay i \<noteq> {}) starts)"
  by (induction starts) (auto simp: gnfa_start_longest_greatest [OF assms] greatest_def)

lemma first_start_find:
  assumes "automaton r g" "g_anchored_start g = a" "g_anchored_end g = z"
  shows "first_start g (build_imap g) hay [start..<(if a then 1 else length hay + 1)] = leftmost_longest r a z hay start"
proof -
  have "set [start..<(if a then 1 else length hay + 1)] \<subseteq> {..length hay}" by auto
  note f = first_start_leftmost [OF assms(1) this, unfolded assms(3)]
  have "find (\<lambda>i. ends_at r z hay i \<noteq> {}) [start..<(if a then 1 else length hay + 1)] =
    find (\<lambda>i. (a \<longrightarrow> i = 0) \<and> ends_at r z hay i \<noteq> {}) [start..<length hay + 1]"
  proof (cases a)
    case False
    then show ?thesis by simp
  next
    case True
    show ?thesis
    proof (cases start)
      case 0
      have up: "[0..<length hay + 1] = 0 # [1..<length hay + 1]" using upt_conv_Cons [of 0 "length hay + 1"] by (simp del: upt_Suc)
      have "find (\<lambda>i. (a \<longrightarrow> i = 0) \<and> ends_at r z hay i \<noteq> {}) [1..<length hay + 1] = None"
        using True by (auto simp: find_None_iff)
      then show ?thesis unfolding 0 up find.simps using True by simp
    next
      case (Suc k)
      then have "find (\<lambda>i. (a \<longrightarrow> i = 0) \<and> ends_at r z hay i \<noteq> {}) [start..<length hay + 1] = None"
        using True by (auto simp: find_None_iff)
      with True Suc show ?thesis by simp
    qed
  qed
  with f show ?thesis by (simp only: leftmost_longest_def)
qed

lemma regex_compiles:
  assumes "regex_text icase a p z r" "gsz r \<le> 64"
  shows "\<exists>g. build_gnfa ft (anchored_text a p z) icase = Some (True, g) \<and> automaton r g \<and> g_anchored_start g = a \<and> g_anchored_end g = z"
  using build_gnfa_w_automaton [OF assms(1), of 1 ft] assms(2) by (auto simp: build_gnfa_def)

lemma regex_program:
  assumes "regex_text icase a p z r" "gsz r \<le> 64"
  shows "\<exists>g. sublimation_search_compile ft (anchored_text a p z) False icase 0 =
      Some (search_zero\<lparr>s_icase := icase, s_pattern := anchored_text a p z, s_mode := MODE_REGEX, s_valid := True, s_g := g, s_imap := build_imap g\<rparr>) \<and>
    automaton r g \<and> g_anchored_start g = a \<and> g_anchored_end g = z \<and> c_string (anchored_text a p z) = anchored_text a p z"
proof -
  let ?t = "anchored_text a p z"
  obtain g where g: "build_gnfa ft ?t icase = Some (True, g)" "automaton r g" "g_anchored_start g = a" "g_anchored_end g = z"
    using regex_compiles [OF assms] by blast
  have "NUL \<notin> set ?t" using assms(1) by (auto simp: regex_text_def anchored_text_def)
  then have "c_string ?t = ?t" by (auto simp: c_string_def takeWhile_eq_all_conv)
  moreover from this have "sublimation_search_compile ft ?t False icase 0 =
      Some (search_zero\<lparr>s_icase := icase, s_pattern := ?t, s_mode := MODE_REGEX, s_valid := True, s_g := g, s_imap := build_imap g\<rparr>)"
    using assms(1) g(1) by (simp add: sublimation_search_compile_def regex_text_def Let_def not_less search_zero_def)
  ultimately show ?thesis using g by auto
qed

lemma regex_language_program:
  assumes "regex_text icase a p z r" "gsz r \<le> 64"
  shows "\<exists>s. sublimation_search_compile ft (anchored_text a p z) False icase 0 = Some s \<and> s_valid s \<and>
    (\<forall>hay. sublimation_search_full_match s hay \<longleftrightarrow> hay \<in> glang r) \<and>
    (\<forall>hay start. sublimation_search_find_from s hay start = leftmost_longest r a z hay start) \<and> g_anchored_end (s_g s) = z"
proof -
  let ?t = "anchored_text a p z"
  let ?s = "\<lambda>g. search_zero\<lparr>s_icase := icase, s_pattern := ?t, s_mode := MODE_REGEX, s_valid := True, s_g := g, s_imap := build_imap g\<rparr>"
  obtain g where g: "sublimation_search_compile ft ?t False icase 0 = Some (?s g)" "automaton r g" "g_anchored_start g = a" "g_anchored_end g = z"
    using regex_program [OF assms] by blast
  let ?s = "?s g"
  have "sublimation_search_full_match ?s hay \<longleftrightarrow> hay \<in> glang r" for hay
    using gnfa_full_language [OF g(2)] by (simp add: sublimation_search_full_match_def)
  moreover have "sublimation_search_find_from ?s hay start = leftmost_longest r a z hay start" for hay start
  proof (cases "length hay < start")
    case True
    then show ?thesis by (simp add: sublimation_search_find_from_def leftmost_longest_def)
  next
    case False
    then show ?thesis using first_start_find [OF g(2-4), of hay start] g(3) by (simp add: sublimation_search_find_from_def Let_def del: upt_Suc)
  qed
  ultimately show ?thesis using g(1,4) by auto
qed

text \<open>C34: compiling the text of a regular expression gives a valid program: it accepts exactly the words of the language
  the grammar assigns to the text, and a search returns the leftmost start of a match together with its longest end, anchors
  included.\<close>

theorem regex_search_language:
  assumes "regex_text icase a p z r" "gsz r \<le> 64"
  shows "\<exists>s. sublimation_search_compile ft (anchored_text a p z) False icase 0 = Some s \<and> s_valid s \<and>
    (\<forall>hay. sublimation_search_full_match s hay \<longleftrightarrow> hay \<in> glang r) \<and>
    (\<forall>hay start. sublimation_search_find_from s hay start = leftmost_longest r a z hay start)"
  using regex_language_program [OF assms, of ft] by blast

lemma regex_text_example: "regex_text False False ''a*b'' False (GSeq (GStar (GPos (char_set (folds False (CHR ''a''))))) (GPos (char_set (folds False (CHR ''b'')))))"
proof -
  have "single False ''a'' (folds False (CHR ''a''))" "single False ''b'' (folds False (CHR ''b''))" by (rule single.plain; simp)+
  then have "p_rep False (''a'' @ ''*'') (GStar (GPos (char_set (folds False (CHR ''a'')))))" "p_rep False ''b'' (GPos (char_set (folds False (CHR ''b''))))"
    by (blast intro: p_intros)+
  then have "p_alt False ((''a'' @ ''*'') @ ''b'') (GSeq (GStar (GPos (char_set (folds False (CHR ''a''))))) (GPos (char_set (folds False (CHR ''b'')))))"
    by (intro alt_one cat_more cat_one) simp_all
  then show ?thesis by (simp add: regex_text_def anchored_text_def SEARCH_MAX_PATTERN_def)
qed

theorem regex_search_language_witness:
  "\<exists>r. regex_text False False ''a*b'' False r \<and> gsz r \<le> 64 \<and>
    (\<exists>s. sublimation_search_compile \<lparr>ft_last = [], ft_alt = []\<rparr> ''a*b'' False False 0 = Some s \<and> s_valid s \<and>
      (sublimation_search_full_match s ''aab'' \<longleftrightarrow> ''aab'' \<in> glang r) \<and> sublimation_search_find_from s ''xaab'' 0 = leftmost_longest r False False ''xaab'' 0)"
  using regex_search_language [OF regex_text_example, of "\<lparr>ft_last = [], ft_alt = []\<rparr>"] regex_text_example
  by (auto simp: anchored_text_def simp del: glang.simps)

lemma some_branches:
  "a \<noteq> None \<Longrightarrow> b \<noteq> None \<Longrightarrow> (if c then a else b) \<noteq> None"
  "f \<noteq> None \<Longrightarrow> (\<And>a x. k a x \<noteq> None) \<Longrightarrow> (case f of None \<Rightarrow> None | Some (a, x) \<Rightarrow> k a x) \<noteq> None"
  by (auto split: option.splits)

text \<open>C35: the compiler returns on every pattern and at both widths, within the fuel given to its parser.\<close>

theorem compile_returns: "sublimation_search_compile ft pattern fixed icase k \<noteq> None"
proof -
  have "g_alt (parse_fuel buf) ft \<lparr>x_p = buf, x_g = g, x_fold_left = 0, x_fold_byte = 0\<rparr> \<noteq> None" for buf g
    using parse_returns [of "\<lparr>x_p = buf, x_g = g, x_fold_left = 0, x_fold_byte = 0\<rparr>"] by (simp del: g_alt.simps)
  then have w: "build_gnfa_w nw ft pat icase \<noteq> None" for nw pat
    unfolding build_gnfa_w_def Let_def by (intro some_branches) (simp_all del: g_alt.simps)
  then have "build_gnfa ft (c_string pattern) icase \<noteq> None" unfolding build_gnfa_def by (auto split: option.splits)
  then show ?thesis by (auto simp: sublimation_search_compile_def Let_def split: option.splits)
qed

end
