(* ===== verification/Text_Count.thy ===== *)
theory Text_Count
  imports Text_Search
begin

text \<open>
  Counting matches (\<open>sublimation/src/text/field.inc\<close>, \<open>match.c\<close>): the full scan with its memo of transitions, the
  literal prefilter, the Shift-And scan of a fixed-length class pattern, and the dispatch over the faces.
\<close>

section \<open>The memo of transitions\<close>

definition REACH_BITS :: nat where
  "REACH_BITS = 13"

definition REACH_CAP :: nat where
  "REACH_CAP = 2 ^ REACH_BITS"

type_synonym reach_cache = "(pset \<times> pset) option list"

definition reach_cache_get :: "bool \<Rightarrow> reach_cache option" where
  "reach_cache_get alloc_ok = (if alloc_ok then Some (replicate REACH_CAP None) else None)"

definition reach_hash :: "nat \<Rightarrow> pset \<Rightarrow> nat" where
  "reach_hash nwords D =
     (let mix = fold (\<lambda>w mix. (mix XOR ucast (drop_bit (64 * w) D)) * 0x9E3779B97F4A7C15) [0..<nwords] (0 :: u64)
      in unat (drop_bit (64 - REACH_BITS) mix))"

function reach_probe :: "gnfa \<Rightarrow> pset \<Rightarrow> reach_cache \<Rightarrow> nat \<Rightarrow> nat \<Rightarrow> pset \<times> reach_cache" where
  "reach_probe g D cache h probes =
     (case cache ! h of
        None \<Rightarrow> (reach_compute g D, cache[h := Some (D, reach_compute g D)])
      | Some (key, out) \<Rightarrow>
          if key = D then (out, cache)
          else if REACH_CAP \<le> probes + 1 then (reach_compute g D, cache)
          else reach_probe g D cache ((h + 1) mod REACH_CAP) (probes + 1))"
  by pat_completeness auto
termination by (relation "measure (\<lambda>(_, _, _, _, probes). REACH_CAP - probes)") auto

declare reach_probe.simps [simp del]

definition reach_of :: "gnfa \<Rightarrow> pset \<Rightarrow> reach_cache \<Rightarrow> pset \<times> reach_cache" where
  "reach_of g D cache = (if D = 0 then (g_first g, cache) else reach_probe g D cache (reach_hash (g_nwords g) D) 0)"

section \<open>The full scan\<close>

text \<open>One byte: the next set, and whether a match ends behind it.\<close>

definition field_step :: "gnfa \<Rightarrow> imap \<Rightarrow> pset \<Rightarrow> char \<Rightarrow> pset \<times> bool" where
  "field_step g I reach c = (let D = reach AND I c in (D, D AND g_last g \<noteq> 0))"

definition cached_step :: "gnfa \<Rightarrow> imap \<Rightarrow> char \<Rightarrow> pset \<times> nat \<times> reach_cache \<Rightarrow> pset \<times> nat \<times> reach_cache" where
  "cached_step g I c s =
     (case s of (D, count, cache) \<Rightarrow>
        case reach_of g D cache of (reach, cache) \<Rightarrow>
        case field_step g I reach c of (D, hit) \<Rightarrow> (D, if hit then count + 1 else count, cache))"

definition plain_step :: "gnfa \<Rightarrow> imap \<Rightarrow> char \<Rightarrow> pset \<times> nat \<Rightarrow> pset \<times> nat" where
  "plain_step g I c s =
     (case s of (D, count) \<Rightarrow> case field_step g I (reach_compute g D) c of (D, hit) \<Rightarrow> (D, if hit then count + 1 else count))"

definition anchored_step :: "gnfa \<Rightarrow> imap \<Rightarrow> nat \<Rightarrow> char \<times> nat \<Rightarrow> pset \<times> nat \<Rightarrow> pset \<times> nat" where
  "anchored_step g I n cj s =
     (case cj of (c, j) \<Rightarrow> case s of (D, count) \<Rightarrow>
        let reach = follow_all g D (if \<not> g_anchored_start g \<or> j = 0 then g_first g else 0)
        in case field_step g I reach c of (D, hit) \<Rightarrow>
          (D, if hit \<and> (\<not> g_anchored_end g \<or> j + 1 = n) then count + 1 else count))"

definition scan_gnfa :: "bool \<Rightarrow> gnfa \<Rightarrow> imap \<Rightarrow> string \<Rightarrow> nat" where
  "scan_gnfa alloc_ok g I hay =
     (let n = length hay
      in if g_nullable g \<and> \<not> g_anchored_start g \<and> \<not> g_anchored_end g then n + 1
         else if g_npos g = 0 then (if g_anchored_start g \<and> g_anchored_end g then (if n = 0 then 1 else 0) else 1)
         else if g_anchored_start g \<or> g_anchored_end g
         then snd (fold (anchored_step g I n) (zip hay [0..<n]) (0, 0))
         else case reach_cache_get alloc_ok of
             None \<Rightarrow> snd (fold (plain_step g I) hay (0, 0))
           | Some cache \<Rightarrow> fst (snd (fold (cached_step g I) hay (0, 0, cache))))"

section \<open>The literal prefilter\<close>

definition gnfa_range :: "gnfa \<Rightarrow> imap \<Rightarrow> string \<Rightarrow> nat \<Rightarrow> nat \<Rightarrow> reach_cache \<Rightarrow> nat \<times> reach_cache" where
  "gnfa_range g I hay a b cache =
     (case fold (cached_step g I) (take (b - a) (drop a hay)) (0, 0, cache) of (_, count, cache) \<Rightarrow> (count, cache))"

text \<open>A decimal number at index \<open>i\<close> and the index behind it.\<close>

definition number_at :: "string \<Rightarrow> nat \<Rightarrow> string \<times> nat" where
  "number_at p i = (let ds = takeWhile is_digit (drop i p) in (ds, i + length ds))"

text \<open>The bound \<open>{m,n}\<close> at index \<open>i\<close>: the upper bound, \<open>None\<close> when there is none, and the index behind it.\<close>

definition bound_at :: "string \<Rightarrow> nat \<Rightarrow> nat option \<times> nat" where
  "bound_at p i =
     (case number_at p (i + 1) of (lo, i) \<Rightarrow>
        let (hi, i) = (if i < length p \<and> p ! i = CHR '',''
          then (case number_at p (i + 1) of (ds, i) \<Rightarrow> (if ds = [] then None else Some (undec ds), i))
          else (Some (undec lo), i));
            i = (if i < length p \<and> p ! i = CHR ''}'' then i + 1 else i)
        in (if lo = [] then None else hi, i))"

lemma bound_at_forward: "bound_at p i = (hi, j) \<Longrightarrow> i < j"
  by (auto simp: bound_at_def number_at_def Let_def split: if_splits prod.splits)

definition atom_end :: "string \<Rightarrow> nat \<Rightarrow> nat" where
  "atom_end p i =
     (if p ! i = BSLASH \<and> i + 1 < length p then i + 2
      else if p ! i = CHR ''['' then (case class_span p i 0 False of (e, _) \<Rightarrow> if e = 0 then length p else e)
      else i + 1)"

lemma class_items_forward: "class_items p i is_first icase S = Some (j, S') \<Longrightarrow> i \<le> j"
proof (induction "length p - i" arbitrary: i is_first S rule: less_induct)
  case less
  show ?case
  proof (cases "i < length p \<and> (is_first \<or> p ! i \<noteq> CHR '']'')")
    case True
    then obtain k T where k: "posix_class_span p i icase S = Some (k, T)"
      using less.prems unfolding class_items.simps [of p i is_first icase S] by (cases "posix_class_span p i icase S") auto
    have "\<exists>m > i. \<exists>f U. class_items p m f icase U = Some (j, S')"
    proof (cases "k \<noteq> 0 \<or> \<not> (i + 2 < length p \<and> p ! (i + 1) = CHR ''-'' \<and> p ! (i + 2) \<noteq> CHR '']'')")
      case True
      then show ?thesis
        using less.prems \<open>i < length p \<and> _\<close> k posix_class_span_forward [OF k] unfolding class_items.simps [of p i is_first icase S]
        by (cases "k = 0") (auto, (blast intro: lessI)+)
    next
      case False
      then show ?thesis using less.prems \<open>i < length p \<and> _\<close> k unfolding class_items.simps [of p i is_first icase S]
        by (intro exI [of _ "i + 3"]) auto
    qed
    then show ?thesis using less.hyps True by (metis diff_less_mono2 le_trans less_imp_le_nat)
  next
    case False
    then show ?thesis using less.prems unfolding class_items.simps [of p i is_first icase S] by (auto split: if_splits)
  qed
qed

lemma class_span_forward: "class_span p i S icase = (e, S') \<Longrightarrow> e = 0 \<or> i + 1 < e"
  unfolding class_span_def Let_def
  by (auto split: option.splits if_splits prod.splits dest!: class_items_forward)

lemmas class_span_forward_sym = class_span_forward [OF sym]

lemma atom_end_forward: "i < length p \<Longrightarrow> i < atom_end p i"
  by (auto simp: atom_end_def split: prod.split dest!: class_span_forward)

text \<open>The length of the longest match, \<open>None\<close> for an unbounded or grouped pattern.\<close>

function regex_maxlen_loop :: "string \<Rightarrow> nat \<Rightarrow> nat \<Rightarrow> nat option" where
  "regex_maxlen_loop p i len =
     (if i < length p
      then let c = p ! i
        in if c = CHR ''^'' \<or> c = CHR ''$'' then regex_maxlen_loop p (i + 1) len
           else if c = CHR ''('' \<or> c = CHR '')'' \<or> c = CHR ''|'' then None
           else let e = atom_end p i; q = (if e < length p then p ! e else NUL)
             in if q = CHR ''*'' \<or> q = CHR ''+'' then None
                else if q = CHR ''?'' then regex_maxlen_loop p (e + 1) (len + 1)
                else if q = CHR ''{''
                then (case bound_at p e of (hi, j) \<Rightarrow> (case hi of None \<Rightarrow> None | Some hi \<Rightarrow> regex_maxlen_loop p j (len + hi)))
                else regex_maxlen_loop p e (len + 1)
      else Some len)"
  by pat_completeness auto
termination
proof (relation "measure (\<lambda>(p, i, _). length p - i)", goal_cases)
  case (4 p i len c e q hi j hi')
  then show ?case using atom_end_forward [of i p] bound_at_forward [of p e hi j] by simp
next
  case (3 p i len c e q)
  then show ?case using atom_end_forward [of i p] by simp
next
  case (5 p i len c e q)
  then show ?case using atom_end_forward [of i p] by simp
qed auto

declare regex_maxlen_loop.simps [simp del]

definition regex_maxlen :: "string \<Rightarrow> nat option" where
  "regex_maxlen p = regex_maxlen_loop p 0 0"

definition plain_byte :: "char \<Rightarrow> bool" where
  "plain_byte c \<longleftrightarrow> (let b = byte c in 0x30 \<le> b \<and> b \<le> 0x39 \<or> 0x41 \<le> b \<and> b \<le> 0x5A \<or> 0x61 \<le> b \<and> b \<le> 0x7A \<or> b = 0x20)"

text \<open>The longest run of plain bytes (length and start), and the run in progress.\<close>

function literal_loop :: "string \<Rightarrow> nat \<Rightarrow> nat \<times> nat \<Rightarrow> (nat \<times> nat) option \<Rightarrow> nat \<times> nat" where
  "literal_loop p i best run =
     (if i < length p
      then let c = p ! i
        in if c = CHR ''[''
           then literal_loop p (case class_span p i 0 False of (e, _) \<Rightarrow> if e = 0 then length p else e) best None
           else if c = BSLASH then literal_loop p (i + 2) best None
           else if plain_byte c \<and> \<not> (i + 1 < length p \<and> p ! (i + 1) \<in> set ''*+?{'')
           then let (cl, cs) = (case run of None \<Rightarrow> (0, i) | Some r \<Rightarrow> r); cl = cl + 1
             in literal_loop p (i + 1) (if fst best < cl then (cl, cs) else best) (Some (cl, cs))
           else literal_loop p (i + 1) best None
      else best)"
  by pat_completeness auto
termination
  by (relation "measure (\<lambda>(p, i, _). length p - i)") (auto split: prod.split dest!: class_span_forward)

declare literal_loop.simps [simp del]

text \<open>The empty string says that there is no usable literal.\<close>

definition extract_literal :: "string \<Rightarrow> nat \<Rightarrow> string" where
  "extract_literal p maxout =
     (case literal_loop p 0 (0, 0) None of (bl, bs) \<Rightarrow> if bl < 2 \<or> maxout < bl then [] else take bl (drop bs p))"

definition probe_offset :: "string \<Rightarrow> (char \<Rightarrow> nat) \<Rightarrow> nat" where
  "probe_offset lit hist =
     (case fold (\<lambda>i (off, f). if hist (lit ! i) < f then (i, hist (lit ! i)) else (off, f)) [1..<length lit] (0, hist (lit ! 0)) of
        (off, f) \<Rightarrow> if off \<noteq> 0 \<and> hist (lit ! 0) \<le> f * 2 then 0 else off)"

text \<open>At an occurrence of the probe byte: the region around the literal joins the open one or closes it.\<close>

definition prefilter_hit :: "gnfa \<Rightarrow> imap \<Rightarrow> string \<Rightarrow> string \<Rightarrow> nat \<Rightarrow> nat \<Rightarrow> nat \<Rightarrow>
    nat \<times> (nat \<times> nat) option \<times> reach_cache \<Rightarrow> nat \<times> (nat \<times> nat) option \<times> reach_cache" where
  "prefilter_hit g I hay lit off ml h s =
     (if off \<le> h \<and> h - off + length lit \<le> length hay \<and> at_offset hay (h - off) lit
      then let p = h - off; ws = (if ml - 1 \<le> p then p - (ml - 1) else 0); we = min (p + ml) (length hay)
        in case s of (count, reg, cache) \<Rightarrow>
          (case reg of
             None \<Rightarrow> (count, Some (ws, we), cache)
           | Some (a, b) \<Rightarrow>
               if ws \<le> b then (count, Some (a, max b we), cache)
               else (case gnfa_range g I hay a b cache of (k, cache) \<Rightarrow> (count + k, Some (ws, we), cache)))
      else s)"

text \<open>\<open>None\<close> when the pattern is outside the subset the prefilter serves.\<close>

definition regex_prefiltered :: "bool \<Rightarrow> gnfa \<Rightarrow> imap \<Rightarrow> string \<Rightarrow> string \<Rightarrow> nat option" where
  "regex_prefiltered alloc_ok g I hay pat =
     (if g_anchored_start g \<or> g_anchored_end g \<or> g_nullable g then None
      else case regex_maxlen pat of None \<Rightarrow> None
       | Some ml \<Rightarrow>
         let lit = extract_literal pat 64
         in if ml < 1 \<or> 60 < ml \<or> length lit < 2 then None
            else let off = probe_offset lit (byte_hist hay)
              in case reach_cache_get alloc_ok of None \<Rightarrow> None
               | Some cache \<Rightarrow>
                 (case memchr_loop hay (lit ! off) (length hay) (prefilter_hit g I hay lit off ml) 0 (0, None, cache) of
                    (count, reg, cache) \<Rightarrow>
                      Some (case reg of None \<Rightarrow> count | Some (a, b) \<Rightarrow> count + fst (gnfa_range g I hay a b cache))))"

section \<open>Fixed-length class patterns\<close>

function parse_classes_loop :: "string \<Rightarrow> nat \<Rightarrow> nat \<Rightarrow> byteset list \<Rightarrow> byteset list option" where
  "parse_classes_loop p maxL i sets =
     (if i < length p
      then let c = p ! i
        in if maxL \<le> length sets \<or> c \<in> set ''*+?|(){'' then None
           else if c = CHR ''.'' then parse_classes_loop p maxL (i + 1) (sets @ [NOT 0])
           else if c = CHR ''[''
           then (case class_span p i 0 False of (e, S) \<Rightarrow> if e = 0 then None else parse_classes_loop p maxL e (sets @ [S]))
           else let esc = (c = BSLASH \<and> i + 1 < length p); k = (if esc then i + 1 else i);
                    S = (case (if esc then shorthand_set (p ! k) else None) of Some S \<Rightarrow> S | None \<Rightarrow> set_bit (byte (p ! k)) 0)
             in parse_classes_loop p maxL (k + 1) (sets @ [S])
      else Some sets)"
  by pat_completeness auto
termination
  by (relation "measure (\<lambda>(p, _, i, _). length p - i)") (auto dest!: class_span_forward_sym split: if_splits)

declare parse_classes_loop.simps [simp del]

definition parse_classes :: "string \<Rightarrow> nat \<Rightarrow> byteset list option" where
  "parse_classes p maxL =
     (if p \<noteq> [] \<and> (hd p = CHR ''^'' \<or> last p = CHR ''$'') then None else parse_classes_loop p maxL 0 [])"

definition class_mask :: "byteset list \<Rightarrow> char \<Rightarrow> u64" where
  "class_mask sets c = fold (\<lambda>i mm. if bit (sets ! i) (byte c) then set_bit i mm else mm) [0..<length sets] 0"

definition classfield_step :: "byteset list \<Rightarrow> char \<Rightarrow> u64 \<times> nat \<Rightarrow> u64 \<times> nat" where
  "classfield_step sets c s =
     (case s of (D, count) \<Rightarrow>
        let D = (push_bit 1 D OR 1) AND class_mask sets c
        in (D, if D AND push_bit (length sets - 1) 1 \<noteq> 0 then count + 1 else count))"

definition scan_classfield :: "string \<Rightarrow> byteset list \<Rightarrow> nat option" where
  "scan_classfield hay sets =
     (if sets = [] \<or> 64 < length sets then None else Some (snd (fold (classfield_step sets) hay (0, 0))))"

section \<open>The dispatch\<close>

definition regex_count :: "bool \<Rightarrow> search \<Rightarrow> string \<Rightarrow> nat" where
  "regex_count alloc_ok s hay =
     (let g = s_g s; full = scan_gnfa alloc_ok g (s_imap s) hay; pat = c_string (s_pattern s)
      in if g_npos g = 0 \<or> s_icase s then full
         else case regex_prefiltered alloc_ok g (s_imap s) hay pat of
             Some count \<Rightarrow> count
           | None \<Rightarrow> (case parse_classes pat 64 of
                 Some sets \<Rightarrow> (if sets = [] then full else case scan_classfield hay sets of Some count \<Rightarrow> count | None \<Rightarrow> full)
               | None \<Rightarrow> full))"

definition sublimation_search_count :: "bool \<Rightarrow> search \<Rightarrow> string \<Rightarrow> nat" where
  "sublimation_search_count alloc_ok s hay =
     (let pat = s_pattern s
      in if \<not> s_valid s then 0
         else case s_mode s of
             MODE_REGEX \<Rightarrow> regex_count alloc_ok s hay
           | MODE_FUZZY \<Rightarrow>
               (if s_icase s then scan_kmismatch hay pat (s_k s) True
                else case scan_kmismatch_pre alloc_ok hay pat (s_k s) of
                    None \<Rightarrow> scan_kmismatch hay pat (s_k s) False | Some r \<Rightarrow> r)
           | MODE_EXACT \<Rightarrow> (if s_icase s then exact_count_folded hay pat True else exact_count hay pat))"

section \<open>The memo changes nothing\<close>

definition cache_ok :: "gnfa \<Rightarrow> reach_cache \<Rightarrow> bool" where
  "cache_ok g cache \<longleftrightarrow> (\<forall>key out. Some (key, out) \<in> set cache \<longrightarrow> out = reach_compute g key)"

lemma cache_ok_new [simp]: "cache_ok g (replicate n None)"
  by (simp add: cache_ok_def)

lemma cache_ok_update: "cache_ok g cache \<Longrightarrow> cache_ok g (cache[h := Some (D, reach_compute g D)])"
  by (auto simp: cache_ok_def dest!: set_update_subset_insert [THEN subsetD])

lemma reach_probe_correct:
  "cache_ok g cache \<Longrightarrow> length cache = REACH_CAP \<Longrightarrow> h < REACH_CAP \<Longrightarrow> reach_probe g D cache h probes = (out, cache') \<Longrightarrow>
    out = reach_compute g D \<and> cache_ok g cache' \<and> length cache' = REACH_CAP"
proof (induction "REACH_CAP - probes" arbitrary: h probes rule: less_induct)
  case less
  show ?case
  proof (cases "cache ! h")
    case None
    then show ?thesis using less.prems cache_ok_update [OF less.prems(1), of h D] by (auto simp: reach_probe.simps [of g D cache h probes])
  next
    case (Some e)
    obtain key o' where e: "e = (key, o')" by (cases e)
    have "Some (key, o') \<in> set cache" using Some e less.prems(2,3) by (metis nth_mem)
    then have o': "o' = reach_compute g key" using less.prems(1) by (auto simp: cache_ok_def)
    show ?thesis
    proof (cases "key = D \<or> REACH_CAP \<le> probes + 1")
      case True
      then show ?thesis using less.prems Some e o' by (auto simp: reach_probe.simps [of g D cache h probes] split: if_splits)
    next
      case False
      then have "reach_probe g D cache ((h + 1) mod REACH_CAP) (probes + 1) = (out, cache')"
        using less.prems(4) Some e by (simp add: reach_probe.simps [of g D cache h probes])
      moreover have "(h + 1) mod REACH_CAP < REACH_CAP" by (simp add: REACH_CAP_def)
      ultimately show ?thesis using False less.prems(1,2) by (intro less.hyps [of "probes + 1"]) auto
    qed
  qed
qed

lemma reach_hash_range: "reach_hash nwords D < REACH_CAP"
proof -
  have "unat w < 2 ^ 64" for w :: u64 by (rule order_less_le_trans [OF unsigned_less]) simp
  moreover have "unat (drop_bit 51 w) = unat w div 2 ^ 51" for w :: u64
    using unat_drop_bit_eq [of 51 w] drop_bit_eq_div [of 51 "unat w"] by presburger
  ultimately have "unat (drop_bit 51 w) < 2 ^ 13" for w :: u64 by (simp only:) (rule less_mult_imp_div_less, simp)
  then show ?thesis by (simp add: reach_hash_def REACH_CAP_def REACH_BITS_def Let_def)
qed

lemma reach_of_correct:
  assumes "cache_ok g cache" "length cache = REACH_CAP" "reach_of g D cache = (out, cache')"
  shows "out = reach_compute g D \<and> cache_ok g cache' \<and> length cache' = REACH_CAP"
proof (cases "D = 0")
  case True
  then show ?thesis using assms by (auto simp: reach_of_def reach_compute_def follow_all_def ps_elems_def)
next
  case False
  then show ?thesis using assms reach_probe_correct [OF assms(1,2) reach_hash_range] by (auto simp: reach_of_def)
qed

lemma cached_fold:
  "cache_ok g cache \<Longrightarrow> length cache = REACH_CAP \<Longrightarrow>
    \<exists>cache'. fold (cached_step g I) hay (D, count, cache) = (fst (fold (plain_step g I) hay (D, count)), snd (fold (plain_step g I) hay (D, count)), cache') \<and>
      cache_ok g cache' \<and> length cache' = REACH_CAP"
proof (induction hay arbitrary: D count cache)
  case (Cons c hay)
  obtain out cache1 where r: "reach_of g D cache = (out, cache1)" by fastforce
  from reach_of_correct [OF Cons.prems r] have o: "out = reach_compute g D" "cache_ok g cache1" "length cache1 = REACH_CAP" by auto
  obtain D' hit where f: "field_step g I out c = (D', hit)" by fastforce
  from Cons.IH [OF o(2,3), of D' "if hit then count + 1 else count"] show ?case
    using r f o(1) by (simp add: cached_step_def plain_step_def)
qed simp

section \<open>The scan counts the ends of matches\<close>

text \<open>The ends of the non-empty matches.\<close>

definition match_ends :: "gx \<Rightarrow> bool \<Rightarrow> bool \<Rightarrow> string \<Rightarrow> nat set" where
  "match_ends r a z hay = {e. e \<le> length hay \<and> (z \<longrightarrow> e = length hay) \<and>
     (\<exists>s < e. (a \<longrightarrow> s = 0) \<and> take (e - s) (drop s hay) \<in> glang r)}"

text \<open>The positions where a path can stand that spelled a suffix of \<open>u\<close>; the whole of it when anchored.\<close>

definition standing :: "gx \<Rightarrow> (nat \<Rightarrow> byteset) \<Rightarrow> bool \<Rightarrow> string \<Rightarrow> nat set" where
  "standing r lb a u = (\<Union>s \<in> {s. s < length u \<and> (a \<longrightarrow> s = 0)}. stands r lb (drop s u))"

lemma standing_nil [simp]: "standing r lb a [] = {}"
  by (simp add: standing_def)

lemma standing_range: "standing r lb a u \<subseteq> {..<gsz r}"
  using stands_range by (fastforce simp: standing_def)

lemma standing_step:
  "standing r lb a (u @ [c]) = {j. (j \<in> (if \<not> a \<or> u = [] then gfst 0 r else {}) \<or> (\<exists>i \<in> standing r lb a u. (i, j) \<in> gfol 0 r)) \<and> in_set (lb j) c}"
proof -
  have "{s. s < length (u @ [c]) \<and> (a \<longrightarrow> s = 0)} = {s. s < length u \<and> (a \<longrightarrow> s = 0)} \<union> (if \<not> a \<or> u = [] then {length u} else {})"
    by auto
  then have "standing r lb a (u @ [c]) = (\<Union>s \<in> {s. s < length u \<and> (a \<longrightarrow> s = 0)}. stands r lb (drop s u @ [c])) \<union>
      (if \<not> a \<or> u = [] then stands r lb [c] else {})"
    unfolding standing_def by auto
  also have "(\<Union>s \<in> {s. s < length u \<and> (a \<longrightarrow> s = 0)}. stands r lb (drop s u @ [c])) =
      {j. (\<exists>i \<in> standing r lb a u. (i, j) \<in> gfol 0 r) \<and> in_set (lb j) c}"
    unfolding standing_def by (auto simp: stands_step)
  finally show ?thesis by (auto simp: stands_first)
qed

lemma standing_accepts:
  assumes "labelled lb 0 r"
  shows "standing r lb a (take e hay) \<inter> glst 0 r \<noteq> {} \<longleftrightarrow> (\<exists>s < e. (a \<longrightarrow> s = 0) \<and> s < length hay \<and> take (e - s) (drop s hay) \<in> glang r)"
proof -
  have st: "take (e - s) (drop s hay) \<in> glang r \<longleftrightarrow> stands r lb (drop s (take e hay)) \<inter> glst 0 r \<noteq> {}" if "s < e" "s < length hay" for s
    using stands_accepts [OF assms, of "take (e - s) (drop s hay)"] that by (simp add: drop_take)
  have "(\<exists>s < e. (a \<longrightarrow> s = 0) \<and> s < length hay \<and> take (e - s) (drop s hay) \<in> glang r) \<longleftrightarrow>
    (\<exists>s. s < length (take e hay) \<and> (a \<longrightarrow> s = 0) \<and> stands r lb (drop s (take e hay)) \<inter> glst 0 r \<noteq> {})"
  proof (rule iff_exI)
    fix s
    show "(s < e \<and> (a \<longrightarrow> s = 0) \<and> s < length hay \<and> take (e - s) (drop s hay) \<in> glang r) \<longleftrightarrow>
      (s < length (take e hay) \<and> (a \<longrightarrow> s = 0) \<and> stands r lb (drop s (take e hay)) \<inter> glst 0 r \<noteq> {})"
      using st [of s] by (cases "s < e \<and> s < length hay") auto
  qed
  also have "\<dots> \<longleftrightarrow> standing r lb a (take e hay) \<inter> glst 0 r \<noteq> {}" unfolding standing_def by blast
  finally show ?thesis by simp
qed

text \<open>The state and the count behind the prefix \<open>u\<close> of a haystack of length \<open>n\<close>.\<close>

definition ends_within :: "gx \<Rightarrow> (nat \<Rightarrow> byteset) \<Rightarrow> bool \<Rightarrow> bool \<Rightarrow> nat \<Rightarrow> string \<Rightarrow> nat set" where
  "ends_within r lb a z n u = {e. 0 < e \<and> e \<le> length u \<and> (z \<longrightarrow> e = n) \<and> standing r lb a (take e u) \<inter> glst 0 r \<noteq> {}}"

lemma ends_within_snoc:
  "ends_within r lb a z n (u @ [c]) = ends_within r lb a z n u \<union>
     (if (z \<longrightarrow> length u + 1 = n) \<and> standing r lb a (u @ [c]) \<inter> glst 0 r \<noteq> {} then {length u + 1} else {})"
  by (auto simp: ends_within_def le_Suc_eq)

lemma ends_within_finite [simp]: "finite (ends_within r lb a z n u)"
  by (rule finite_subset [of _ "{..length u}"]) (auto simp: ends_within_def)

lemma card_ends_within_snoc:
  "card (ends_within r lb a z n (u @ [c])) = card (ends_within r lb a z n u) +
     (if (z \<longrightarrow> length u + 1 = n) \<and> standing r lb a (u @ [c]) \<inter> glst 0 r \<noteq> {} then 1 else 0)"
proof -
  have "length u + 1 \<notin> ends_within r lb a z n u" by (simp add: ends_within_def)
  then show ?thesis unfolding ends_within_snoc by simp
qed

lemma field_step_standing:
  assumes "automaton r g" "bits D = standing r (labels g) a u"
  shows "case field_step g (build_imap g) (follow_all g D (if \<not> a \<or> u = [] then g_first g else 0)) c of (D', hit) \<Rightarrow>
    bits D' = standing r (labels g) a (u @ [c]) \<and> (hit \<longleftrightarrow> standing r (labels g) a (u @ [c]) \<inter> glst 0 r \<noteq> {})"
proof -
  let ?f = "if \<not> a \<or> u = [] then g_first g else 0"
  have D: "bits D \<subseteq> {..<gsz r}" using assms(2) standing_range by simp
  have "bits (follow_all g D ?f AND build_imap g c) = standing r (labels g) a (u @ [c])"
    unfolding standing_step bits_simps bits_follow_all [OF assms(1) D] using assms
    by (auto simp: automaton_def bits_imap labels_def dest: gfst_range gfol_range)
  then show ?thesis using assms(1) zero_iff [of "(follow_all g D ?f AND build_imap g c) AND g_last g"]
    by (simp add: field_step_def Let_def automaton_def)
qed

lemma plain_fold_standing:
  assumes "automaton r g"
  shows "bits D = standing r (labels g) False u \<Longrightarrow> count = card (ends_within r (labels g) False False n u) \<Longrightarrow>
    snd (fold (plain_step g (build_imap g)) hay (D, count)) = card (ends_within r (labels g) False False n (u @ hay))"
proof (induction hay arbitrary: D count u)
  case (Cons c hay)
  have fs: "case field_step g (build_imap g) (reach_compute g D) c of (D', hit) \<Rightarrow>
    bits D' = standing r (labels g) False (u @ [c]) \<and> (hit \<longleftrightarrow> standing r (labels g) False (u @ [c]) \<inter> glst 0 r \<noteq> {})"
    using field_step_standing [OF assms Cons.prems(1), of c] by (simp add: reach_compute_def)
  obtain D' hit where f: "field_step g (build_imap g) (reach_compute g D) c = (D', hit)" by fastforce
  have "bits D' = standing r (labels g) False (u @ [c])"
    "(if hit then count + 1 else count) = card (ends_within r (labels g) False False n (u @ [c]))"
    using fs f Cons.prems(2) by (simp_all add: card_ends_within_snoc)
  from Cons.IH [OF this] show ?case using f by (simp add: plain_step_def)
qed simp

lemma anchored_fold_standing:
  assumes "automaton r g" "g_anchored_start g = a" "g_anchored_end g = z"
  shows "bits D = standing r (labels g) a u \<Longrightarrow> count = card (ends_within r (labels g) a z n u) \<Longrightarrow>
    snd (fold (anchored_step g (build_imap g) n) (zip hay [length u..<length u + length hay]) (D, count)) =
      card (ends_within r (labels g) a z n (u @ hay))"
proof (induction hay arbitrary: D count u)
  case (Cons c hay)
  let ?reach = "follow_all g D (if \<not> a \<or> u = [] then g_first g else 0)"
  obtain D' hit where f: "field_step g (build_imap g) ?reach c = (D', hit)" by fastforce
  have D': "bits D' = standing r (labels g) a (u @ [c])" "hit \<longleftrightarrow> standing r (labels g) a (u @ [c]) \<inter> glst 0 r \<noteq> {}"
    using field_step_standing [OF assms(1) Cons.prems(1), of c] f by simp_all
  let ?count = "if hit \<and> (\<not> z \<or> length u + 1 = n) then count + 1 else count"
  have "?count = card (ends_within r (labels g) a z n (u @ [c]))"
    unfolding card_ends_within_snoc using D'(2) Cons.prems(2) by auto
  from Cons.IH [OF D'(1) this]
  have "snd (fold (anchored_step g (build_imap g) n) (zip hay [length u + 1..<length u + 1 + length hay]) (D', ?count)) =
    card (ends_within r (labels g) a z n (u @ c # hay))" by simp
  moreover have "[length u..<length u + length (c # hay)] = length u # [length u + 1..<length u + 1 + length hay]"
    using upt_conv_Cons [of "length u" "length u + length (c # hay)"] by (simp del: upt_Suc)
  moreover have "anchored_step g (build_imap g) n (c, length u) (D, count) = (D', ?count)"
    using f assms by (simp add: anchored_step_def)
  ultimately show ?case by simp
qed simp

lemma ends_within_match_ends: "labelled lb 0 r \<Longrightarrow> ends_within r lb a z (length hay) hay = match_ends r a z hay"
  by (auto simp: ends_within_def match_ends_def standing_accepts)

lemma scan_gnfa_ends:
  assumes "automaton r g" "g_anchored_start g = a" "g_anchored_end g = z" "0 < gsz r"
  shows "scan_gnfa alloc_ok g (build_imap g) hay = (if gnul r \<and> \<not> a \<and> \<not> z then length hay + 1 else card (match_ends r a z hay))"
proof -
  have npos: "g_npos g \<noteq> 0" "g_nullable g = gnul r" using assms(1,4) by (auto simp: automaton_def)
  have e: "ends_within r (labels g) a z (length hay) hay = match_ends r a z hay"
    using ends_within_match_ends [OF automaton_labelled [OF assms(1)]] .
  show ?thesis
  proof (cases "a \<or> z")
    case True
    have "snd (fold (anchored_step g (build_imap g) (length hay)) (zip hay [0..<length hay]) (0, 0)) = card (match_ends r a z hay)"
      using anchored_fold_standing [OF assms(1-3), of 0 "[]" 0 "length hay" hay] e by (simp add: ends_within_def)
    with True npos assms(2,3) show ?thesis by (auto simp: scan_gnfa_def Let_def)
  next
    case False
    have plain: "snd (fold (plain_step g (build_imap g)) hay (0, 0)) = card (match_ends r a z hay)"
      using plain_fold_standing [OF assms(1), of 0 "[]" 0 "length hay" hay] e False by (simp add: ends_within_def)
    have "fst (snd (fold (cached_step g (build_imap g)) hay (0, 0, replicate REACH_CAP None))) = card (match_ends r a z hay)"
      using cached_fold [of g "replicate REACH_CAP None" "build_imap g" hay 0 0] plain by fastforce
    with plain False npos assms(2,3) show ?thesis by (auto simp: scan_gnfa_def reach_cache_get_def Let_def)
  qed
qed

section \<open>Which patterns take the full scan\<close>

lemma unbounded_no_classes: "regex_maxlen_loop p i len = None \<Longrightarrow> parse_classes_loop p maxL i sets = None"
proof (induction "length p - i" arbitrary: i len sets rule: less_induct)
  case less
  from less.prems have i: "i < length p" by (simp add: regex_maxlen_loop.simps [of p i] split: if_splits)
  have step: "parse_classes_loop p maxL j S = None" if "regex_maxlen_loop p j k = None" "i < j" for j k S
    using less.hyps [of j k S] that i by simp
  let ?e = "atom_end p i"
  have e: "i < ?e" using atom_end_forward [OF i] .
  have stop: "parse_classes_loop p maxL ?e S = None" if "?e < length p" "p ! ?e \<in> set ''*+?{''" for S
    using that by (auto simp: parse_classes_loop.simps [of p maxL ?e S])
  have "parse_classes_loop p maxL ?e S = None" if "p ! i \<notin> set ''^$()|''" for S
    using less.prems i that step [of ?e] stop
    by (auto simp: regex_maxlen_loop.simps [of p i] Let_def e split: if_splits)
  moreover have "parse_classes_loop p maxL (i + 1) S = None" if "p ! i \<in> set ''^$''" for S
    using less.prems i that step [of "i + 1"] by (auto simp: regex_maxlen_loop.simps [of p i] Let_def split: if_splits)
  ultimately show ?case using i
    by (cases "p ! i \<in> set ''^$''") (auto simp: parse_classes_loop.simps [of p maxL i sets] atom_end_def Let_def split: prod.splits if_splits)
qed

lemma unbounded_full:
  assumes "regex_maxlen p = None"
  shows "parse_classes p n = None"
  using assms unbounded_no_classes [of p 0 0 n "[]"] by (simp add: parse_classes_def regex_maxlen_def)

text \<open>The patterns no shortcut serves: folded, anchored, unbounded, or without a literal and not a sequence of classes.\<close>

definition full_scanned :: "bool \<Rightarrow> bool \<Rightarrow> bool \<Rightarrow> string \<Rightarrow> bool" where
  "full_scanned icase a z p \<longleftrightarrow> icase \<or> a \<or> z \<or> regex_maxlen p = None \<or> extract_literal p 64 = [] \<and> parse_classes p 64 = None"

lemma regex_count_full:
  assumes "full_scanned (s_icase s) (g_anchored_start (s_g s)) (g_anchored_end (s_g s)) (c_string (s_pattern s))"
    "g_anchored_start (s_g s) \<or> g_anchored_end (s_g s) \<Longrightarrow> parse_classes (c_string (s_pattern s)) 64 = None"
  shows "regex_count alloc_ok s hay = scan_gnfa alloc_ok (s_g s) (s_imap s) hay"
  using assms unbounded_full [of "c_string (s_pattern s)" 64]
  by (auto simp: regex_count_def full_scanned_def regex_prefiltered_def Let_def split: option.splits)

lemma anchored_no_classes: "a \<or> z \<Longrightarrow> parse_classes (anchored_text a p z) n = None"
  by (auto simp: parse_classes_def anchored_text_def)

lemma count_full_scan:
  assumes "regex_text icase a p z r" "gsz r \<le> 64" "full_scanned icase a z (anchored_text a p z)"
  shows "\<exists>s. sublimation_search_compile ft (anchored_text a p z) False icase 0 = Some s \<and> s_valid s \<and>
    (\<forall>alloc_ok hay. sublimation_search_count alloc_ok s hay =
       (if gnul r \<and> \<not> a \<and> \<not> z then length hay + 1 else card (match_ends r a z hay)))"
proof -
  let ?t = "anchored_text a p z"
  let ?s = "\<lambda>g. search_zero\<lparr>s_icase := icase, s_pattern := ?t, s_mode := MODE_REGEX, s_valid := True, s_g := g, s_imap := build_imap g\<rparr>"
  obtain g where g: "sublimation_search_compile ft ?t False icase 0 = Some (?s g)" "automaton r g" "g_anchored_start g = a"
      "g_anchored_end g = z" "c_string ?t = ?t"
    using regex_program [OF assms(1,2)] by blast
  have "regex_count alloc_ok (?s g) hay = scan_gnfa alloc_ok g (build_imap g) hay" for alloc_ok hay
    using regex_count_full [of "?s g" alloc_ok hay] anchored_no_classes [of a z p 64] assms(3) g(3-5) by simp
  moreover have "0 < gsz r" using assms(1) by (simp add: regex_text_def)
  ultimately show ?thesis using g(1) scan_gnfa_ends [OF g(2-4)] by (simp add: sublimation_search_count_def)
qed

text \<open>C38: outside the shortcuts of the counting scan, the count of a pattern is the number of offsets where a non-empty match
  of its language ends, every one once, whether the memo of transitions could be allocated or not; a pattern without anchors
  that matches the empty word counts every offset.\<close>

theorem count_is_match_ends:
  assumes "regex_text icase a p z r" "gsz r \<le> 64" "full_scanned icase a z (anchored_text a p z)"
  shows "\<exists>s. sublimation_search_compile ft (anchored_text a p z) False icase 0 = Some s \<and> s_valid s \<and>
    (\<forall>alloc_ok hay. sublimation_search_count alloc_ok s hay =
       (if gnul r \<and> \<not> a \<and> \<not> z then length hay + 1 else card (match_ends r a z hay)))"
  by (rule count_full_scan [OF assms])

lemma full_scanned_example: "full_scanned False False False ''a*b''"
  by (simp add: full_scanned_def regex_maxlen_def regex_maxlen_loop.simps atom_end_def)

theorem count_is_match_ends_witness:
  "\<exists>r. regex_text False False ''a*b'' False r \<and> gsz r \<le> 64 \<and> full_scanned False False False ''a*b'' \<and>
    (\<exists>s. sublimation_search_compile \<lparr>ft_last = [], ft_alt = []\<rparr> ''a*b'' False False 0 = Some s \<and>
      sublimation_search_count True s ''xaab'' = card (match_ends r False False ''xaab''))"
  using count_is_match_ends [OF regex_text_example, of "\<lparr>ft_last = [], ft_alt = []\<rparr>"] regex_text_example full_scanned_example
  by (auto simp: anchored_text_def)

section \<open>The Shift-And scan\<close>

definition class_windows :: "byteset list \<Rightarrow> string \<Rightarrow> nat set" where
  "class_windows sets hay = {p. p + length sets \<le> length hay \<and> (\<forall>k < length sets. in_set (sets ! k) (hay ! (p + k)))}"

definition class_state :: "byteset list \<Rightarrow> string \<Rightarrow> u64 \<Rightarrow> bool" where
  "class_state sets u D \<longleftrightarrow> (\<forall>i < 64. bit D i \<longleftrightarrow> i < length sets \<and> i < length u \<and>
     (\<forall>k \<le> i. in_set (sets ! k) (u ! (length u - 1 - i + k))))"

lemma bit_class_mask: "length sets \<le> 64 \<Longrightarrow> i < 64 \<Longrightarrow> bit (class_mask sets c) i \<longleftrightarrow> i < length sets \<and> in_set (sets ! i) c"
proof -
  have "set is \<subseteq> {..<64} \<Longrightarrow> i < 64 \<Longrightarrow>
      bit (fold (\<lambda>i mm. if bit (sets ! i) (byte c) then set_bit i mm else mm) is m) i \<longleftrightarrow> bit m i \<or> i \<in> set is \<and> in_set (sets ! i) c"
    for "is" and m :: u64
    by (induction "is" arbitrary: m) (auto simp: bit_set_bit_iff possible_bit_def in_set_def)
  moreover assume "length sets \<le> 64" "i < 64"
  moreover from this have "set [0..<length sets] \<subseteq> {..<64}" by auto
  ultimately show ?thesis unfolding class_mask_def by (simp only: bit_0_eq bot_fun_def) simp
qed

lemma class_state_step:
  assumes "length sets \<le> 64" "class_state sets u D"
  shows "class_state sets (u @ [c]) ((push_bit 1 D OR 1) AND class_mask sets c)"
  unfolding class_state_def
proof (intro allI impI)
  fix i :: nat
  assume i: "i < 64"
  have b: "bit ((push_bit 1 D OR 1) AND class_mask sets c) i \<longleftrightarrow> (i = 0 \<or> bit D (i - 1)) \<and> i < length sets \<and> in_set (sets ! i) c"
    using i bit_class_mask [OF assms(1) i] unfolding bit_and_iff bit_or_iff bit_push_bit_iff bit_1_iff by (auto simp: possible_bit_def)
  show "bit ((push_bit 1 D OR 1) AND class_mask sets c) i \<longleftrightarrow> i < length sets \<and> i < length (u @ [c]) \<and>
     (\<forall>k \<le> i. in_set (sets ! k) ((u @ [c]) ! (length (u @ [c]) - 1 - i + k)))"
  proof (cases i)
    case 0
    then show ?thesis unfolding b by auto
  next
    case (Suc m)
    have "bit D m \<longleftrightarrow> m < length sets \<and> m < length u \<and> (\<forall>k \<le> m. in_set (sets ! k) (u ! (length u - 1 - m + k)))"
      using assms(2) i Suc by (simp add: class_state_def)
    moreover have "(\<forall>k \<le> m. in_set (sets ! k) ((u @ [c]) ! (length u - i + k))) \<longleftrightarrow>
        (\<forall>k \<le> m. in_set (sets ! k) (u ! (length u - 1 - m + k)))" if "m < length u"
      using that Suc by (auto simp: nth_append)
    ultimately show ?thesis unfolding b using Suc by (auto simp: le_Suc_eq nth_append)
  qed
qed

lemma class_hit:
  assumes "sets \<noteq> []" "length sets \<le> 64" "class_state sets u D"
  shows "D AND push_bit (length sets - 1) 1 \<noteq> 0 \<longleftrightarrow> length sets \<le> length u \<and> length u - length sets \<in> class_windows sets u"
proof -
  have "push_bit (length sets - 1) (1 :: u64) = 2 ^ (length sets - 1)" by (simp add: push_bit_eq_mult)
  then have "D AND push_bit (length sets - 1) 1 \<noteq> 0 \<longleftrightarrow> bit D (length sets - 1)"
    using assms(1,2) by (simp add: and_exp_eq_0_iff_not_bit)
  also have "\<dots> \<longleftrightarrow> length sets \<le> length u \<and> (\<forall>k < length sets. in_set (sets ! k) (u ! (length u - length sets + k)))"
    using assms by (cases "length sets") (auto simp: class_state_def less_Suc_eq_le)
  finally show ?thesis by (auto simp: class_windows_def)
qed

lemma class_windows_finite [simp]: "finite (class_windows sets hay)"
  by (rule finite_subset [of _ "{..length hay}"]) (auto simp: class_windows_def)

lemma class_windows_snoc:
  "sets \<noteq> [] \<Longrightarrow> class_windows sets (u @ [c]) = class_windows sets u \<union>
     (if length sets \<le> length u + 1 \<and> length u + 1 - length sets \<in> class_windows sets (u @ [c]) then {length u + 1 - length sets} else {})"
proof (intro set_eqI)
  fix x
  assume ne: "sets \<noteq> []"
  consider "x + length sets \<le> length u" | "x + length sets = length u + 1" | "length u + 1 < x + length sets" by linarith
  then show "x \<in> class_windows sets (u @ [c]) \<longleftrightarrow> x \<in> class_windows sets u \<union>
     (if length sets \<le> length u + 1 \<and> length u + 1 - length sets \<in> class_windows sets (u @ [c]) then {length u + 1 - length sets} else {})"
  proof cases
    case 1
    then have "x \<noteq> length u + 1 - length sets" using ne by (cases sets) auto
    moreover have "x \<in> class_windows sets (u @ [c]) \<longleftrightarrow> x \<in> class_windows sets u" using 1 by (auto simp: class_windows_def nth_append)
    ultimately show ?thesis by simp
  next
    case 2
    then have "x = length u + 1 - length sets" "length sets \<le> length u + 1" "x \<notin> class_windows sets u" by (auto simp: class_windows_def)
    then show ?thesis by simp
  next
    case 3
    then show ?thesis by (auto simp: class_windows_def)
  qed
qed

lemma card_class_windows_snoc:
  assumes "sets \<noteq> []"
  shows "card (class_windows sets (u @ [c])) = card (class_windows sets u) +
     (if length sets \<le> length u + 1 \<and> length u + 1 - length sets \<in> class_windows sets (u @ [c]) then 1 else 0)"
proof -
  have "length sets \<le> length u + 1 \<Longrightarrow> length u + 1 - length sets \<notin> class_windows sets u" by (simp add: class_windows_def)
  then show ?thesis by (subst class_windows_snoc [OF assms]) auto
qed

lemma classfield_fold:
  assumes "sets \<noteq> []" "length sets \<le> 64"
  shows "class_state sets u D \<Longrightarrow> count = card (class_windows sets u) \<Longrightarrow>
    snd (fold (classfield_step sets) hay (D, count)) = card (class_windows sets (u @ hay))"
proof (induction hay arbitrary: D count u)
  case (Cons c hay)
  let ?D = "(push_bit 1 D OR 1) AND class_mask sets c"
  have D: "class_state sets (u @ [c]) ?D" using class_state_step [OF assms(2) Cons.prems(1)] .
  have "(if ?D AND push_bit (length sets - 1) 1 \<noteq> 0 then count + 1 else count) = card (class_windows sets (u @ [c]))"
    unfolding class_hit [OF assms D] card_class_windows_snoc [OF assms(1)] using Cons.prems(2) by simp
  from Cons.IH [OF D this] show ?case by (simp add: classfield_step_def Let_def)
qed simp

text \<open>The Shift-And scan of a sequence of classes counts the windows of the text whose bytes lie in the
  classes one by one; it refuses an empty sequence and one its 64-bit field cannot hold.\<close>

theorem classfield_counts_windows:
  "scan_classfield hay sets = (if sets = [] \<or> 64 < length sets then None else Some (card (class_windows sets hay)))"
proof (cases "sets = [] \<or> 64 < length sets")
  case False
  moreover have "class_state sets [] 0" by (simp add: class_state_def)
  moreover have "class_windows sets [] = {}" using False by (simp add: class_windows_def)
  ultimately show ?thesis using classfield_fold [of sets "[]" 0 0 hay] by (simp add: scan_classfield_def)
qed (simp add: scan_classfield_def)

section \<open>The literal prefilter can lose matches\<close>

lemma glang_copies_exact: "glang (copies S n n) = {w. length w = n \<and> (\<forall>c \<in> set w. in_set S c)}"
  by (auto simp: glang_copies list_all_iff)

lemma gnul_copies: "1 \<le> n \<Longrightarrow> n \<le> lo \<Longrightarrow> \<not> gnul (copies S lo n)"
proof (induction n)
  case (Suc n)
  then show ?case by (cases n) (auto simp: copies_def copies_step)
qed simp

abbreviation (input) braces :: string where
  "braces \<equiv> ''a{12}''"

abbreviation (input) twelve :: gx where
  "twelve \<equiv> copies (char_set (folds False (CHR ''a''))) 12 12"

lemma braces_text: "regex_text False False braces False twelve"
proof -
  have "single False ''a'' (folds False (CHR ''a''))" by (rule single.plain; simp)
  from rep_times [OF this, of 12] have "p_rep False (''a'' @ ''{'' @ dec 12 @ ''}'') twelve" by simp
  moreover have "dec 12 = ''12''" by code_simp
  ultimately have "p_rep False braces twelve" by simp
  then have "p_alt False braces twelve" by (intro alt_one cat_one)
  then show ?thesis by (simp add: regex_text_def anchored_text_def SEARCH_MAX_PATTERN_def)
qed

lemma braces_literal: "extract_literal braces 64 = ''12''"
  by (simp add: extract_literal_def literal_loop.simps plain_byte_def byte_def)

lemma braces_maxlen: "regex_maxlen braces = Some 12"
  by (simp add: regex_maxlen_def regex_maxlen_loop.simps atom_end_def bound_at_def number_at_def is_digit_def byte_def undec_def digit_val_def)

lemma braces_classes: "parse_classes braces 64 = None"
  by (simp add: parse_classes_def parse_classes_loop.simps)

lemma count_fold_absent: "c \<notin> set xs \<Longrightarrow> foldl (\<lambda>h d. h(d := h d + 1)) h xs c = (h c :: nat)"
  by (induction xs arbitrary: h) auto

lemma byte_hist_absent: "c \<notin> set hay \<Longrightarrow> byte_hist hay c = 0"
  unfolding byte_hist_def by (rule count_fold_absent [THEN trans]) (auto dest: in_set_takeD)

lemma prefilter_blind:
  assumes "\<not> g_anchored_start g" "\<not> g_anchored_end g" "\<not> g_nullable g" "regex_maxlen pat = Some ml" "1 \<le> ml" "ml \<le> 60"
    "extract_literal pat 64 = lit" "2 \<le> length lit" "set lit \<inter> set hay = {}"
  shows "regex_prefiltered True g I hay pat = Some 0"
proof -
  let ?off = "probe_offset lit (byte_hist hay)"
  have h: "byte_hist hay (lit ! i) = 0" if "i < length lit" for i
    using assms(9) nth_mem [OF that] by (intro byte_hist_absent) blast
  have "fold (\<lambda>i (off, f). if byte_hist hay (lit ! i) < f then (i, byte_hist hay (lit ! i)) else (off, f)) is (0, 0) = (0, 0)" for "is"
    by (induction "is") auto
  moreover have "byte_hist hay (lit ! 0) = 0" using h [of 0] assms(8) by (cases lit) auto
  ultimately have "?off = 0" by (simp only: probe_offset_def) simp
  moreover have "hay ! j \<noteq> lit ! 0" if "j < length hay" for j
  proof -
    have "lit ! 0 \<in> set lit" using assms(8) by (cases lit) auto
    then show ?thesis using assms(9) nth_mem [OF that] by (metis disjoint_iff)
  qed
  then have "filter (\<lambda>j. hay ! j = lit ! 0) [0..<length hay] = []" by (simp add: filter_empty_conv)
  ultimately show ?thesis
    using assms by (cases lit) (auto simp: regex_prefiltered_def reach_cache_get_def Let_def memchr_loop_fold)
qed

text \<open>C39: the pattern \<open>a{12}\<close> matches twelve letters, but the counting scan takes the digits of the bound for a literal the
  text has to contain: with its memo allocated it counts no match, without it one.\<close>

theorem prefilter_loses_bounded:
  "\<exists>s. sublimation_search_compile ft ''a{12}'' False False 0 = Some s \<and> s_valid s \<and>
    sublimation_search_full_match s (replicate 12 (CHR ''a'')) \<and>
    sublimation_search_count True s (replicate 12 (CHR ''a'')) = 0 \<and>
    sublimation_search_count False s (replicate 12 (CHR ''a'')) = 1"
proof -
  let ?hay = "replicate 12 (CHR ''a'')"
  let ?s = "\<lambda>g. search_zero\<lparr>s_icase := False, s_pattern := braces, s_mode := MODE_REGEX, s_valid := True, s_g := g, s_imap := build_imap g\<rparr>"
  have t: "anchored_text False braces False = braces" by (simp add: anchored_text_def)
  obtain g where g: "sublimation_search_compile ft braces False False 0 = Some (?s g)" "automaton twelve g" "\<not> g_anchored_start g"
      "\<not> g_anchored_end g" "c_string braces = braces"
    using regex_program [OF braces_text, of ft] unfolding t by auto
  have null: "\<not> g_nullable g" "g_npos g \<noteq> 0" using g(2) gnul_copies [of 12 12] by (auto simp: automaton_def)
  have "?hay \<in> glang twelve" by (subst glang_copies_exact) (auto simp: folds_def)
  then have full: "sublimation_search_full_match (?s g) ?hay"
    using gnfa_full_language [OF g(2)] by (simp add: sublimation_search_full_match_def)
  have "regex_prefiltered True g (build_imap g) ?hay braces = Some 0"
    by (rule prefilter_blind [OF g(3,4) null(1) braces_maxlen _ _ braces_literal]) auto
  then have some: "sublimation_search_count True (?s g) ?hay = 0"
    using null(2) g(5) by (simp add: sublimation_search_count_def regex_count_def Let_def)
  have "match_ends twelve False False ?hay = {12}"
  proof -
    have "e = 12" if "e \<in> match_ends twelve False False ?hay" for e
    proof -
      from that obtain s where s: "s < e" "e \<le> 12" "take (e - s) (drop s ?hay) \<in> glang twelve" by (auto simp: match_ends_def)
      have "length w = 12" if "w \<in> glang twelve" for w using that by (simp add: glang_copies_exact)
      from this [OF s(3)] have "length (take (e - s) (drop s ?hay)) = 12" .
      then have "e - s = 12" using s(1,2) by (simp only: length_take length_drop length_replicate)
      with s(2) show ?thesis by linarith
    qed
    moreover have "12 \<in> match_ends twelve False False ?hay"
      using \<open>?hay \<in> glang twelve\<close> by (auto simp: match_ends_def intro!: exI [of _ 0])
    ultimately show ?thesis by blast
  qed
  then have scan: "scan_gnfa False g (build_imap g) ?hay = 1"
    using scan_gnfa_ends [OF g(2), of False False False ?hay] g(3,4) gnul_copies [of 12 12] by simp
  have "regex_prefiltered False g (build_imap g) ?hay braces = None"
    by (simp add: regex_prefiltered_def reach_cache_get_def Let_def split: option.split)
  then have "sublimation_search_count False (?s g) ?hay = 1"
    using g(5) braces_classes scan by (simp add: sublimation_search_count_def regex_count_def Let_def)
  with g(1) full some show ?thesis by auto
qed

end
