(* ===== verification/Text_Lines.thy ===== *)
theory Text_Lines
  imports Text_Count
begin

text \<open>
  Lines and pattern sets (\<open>sublimation/src/text/match.c\<close>): the word rule of \<open>grep -w\<close>, the next match of one pattern and of
  a set, the spans of a text, the selection of a line, the buffer of selected lines, and the split of a pattern at its
  top-level bars. A returned offset of \<open>-1\<close> is \<open>None\<close>; a set is the list of its programs.
\<close>

section \<open>The word rule\<close>

definition word_byte :: "char \<Rightarrow> bool" where
  "word_byte c \<longleftrightarrow> (let b = byte c in 0x61 \<le> b \<and> b \<le> 0x7A \<or> 0x41 \<le> b \<and> b \<le> 0x5A \<or> 0x30 \<le> b \<and> b \<le> 0x39 \<or> c = CHR ''_'')"

definition word_bounded :: "string \<Rightarrow> nat \<Rightarrow> nat \<Rightarrow> bool" where
  "word_bounded line s e \<longleftrightarrow> \<not> (0 < s \<and> word_byte (line ! (s - 1))) \<and> \<not> (e < length line \<and> word_byte (line ! e))"

section \<open>The next match\<close>

lemma find_from_bounds:
  assumes "sublimation_search_find_from s hay off = Some (st, e)"
  shows "off \<le> st \<and> st \<le> e \<and> e \<le> length hay"
proof (cases "s_mode s = MODE_REGEX")
  case True
  then have f: "first_start (s_g s) (s_imap s) hay [off..<(if g_anchored_start (s_g s) then 1 else length hay + 1)] = Some (st, e)"
    using assms by (simp add: sublimation_search_find_from_def Let_def del: upt_Suc split: if_splits)
  from first_start_bounds [OF f] have "off \<le> st" "st \<le> length hay" "gnfa_start_longest (s_g s) (s_imap s) hay st = Some e"
    by (auto split: if_splits)
  with gnfa_start_longest_bounds [of "s_g s" "s_imap s" hay st e] show ?thesis by simp
next
  case False
  have anchor: "off \<le> i \<and> i + length (s_pattern s) \<le> length hay"
    if h: "anchor_find hay (s_pattern s) ao (off + ao) last_p = Some i"
      "last_p = length hay - length (s_pattern s) + ao + 1" "length (s_pattern s) \<le> length hay" "ao < length (s_pattern s)" for i ao last_p
    using h(1) unfolding anchor_find_spec [OF h(4) h(2) h(3) le_add2]
    using h(3) by (auto simp: find_Some_iff)
  have ao: "s_pattern s \<noteq> [] \<Longrightarrow> anchor_off hay (s_pattern s) < length (s_pattern s)"
    using off_min_range by (simp add: anchor_off_def)
  show ?thesis using assms False anchor [of "anchor_off hay (s_pattern s)"] ao
    by (fastforce simp: sublimation_search_find_from_def Let_def find_Some_iff split: if_splits)
qed

function search_next_match :: "search \<Rightarrow> bool \<Rightarrow> string \<Rightarrow> nat \<Rightarrow> bool \<Rightarrow> (nat \<times> nat) option" where
  "search_next_match s regex_face line off wword =
     (if length line < off then None
      else case sublimation_search_find_from s line off of
          None \<Rightarrow> None
        | Some (st, e) \<Rightarrow>
            if \<not> wword \<or> word_bounded line st e then Some (st, e)
            else case (if regex_face \<and> \<not> g_anchored_end (s_g s)
                then find (\<lambda>e2. word_bounded line st e2 \<and> sublimation_search_full_match s (take (e2 - st) (drop st line))) (rev [st..<e])
                else None) of
                Some e2 \<Rightarrow> Some (st, e2)
              | None \<Rightarrow> search_next_match s regex_face line (st + 1) wword)"
  by pat_completeness auto
termination
  by (relation "measure (\<lambda>(_, _, line, off, _). length line + 1 - off)") (auto dest!: find_from_bounds)

declare search_next_match.simps [simp del]

text \<open>The leftmost start in the set, at equal starts the greatest end, at equal spans the first pattern.\<close>

definition better_span :: "nat \<Rightarrow> nat \<Rightarrow> (nat \<times> nat \<times> nat) option \<Rightarrow> bool" where
  "better_span st e best \<longleftrightarrow> (case best of None \<Rightarrow> True | Some (bs, be, _) \<Rightarrow> st < bs \<or> st = bs \<and> be < e)"

definition next_any_pat :: "search list \<Rightarrow> bool \<Rightarrow> string \<Rightarrow> nat \<Rightarrow> bool \<Rightarrow> (nat \<times> nat \<times> nat) option" where
  "next_any_pat pats regex_face line off wword =
     fold (\<lambda>p best. case search_next_match (pats ! p) regex_face line off wword of
         None \<Rightarrow> best
       | Some (st, e) \<Rightarrow> if better_span st e best then Some (st, e, p) else best) [0..<length pats] None"

definition sublimation_search_next_any :: "search list \<Rightarrow> bool \<Rightarrow> string \<Rightarrow> nat \<Rightarrow> bool \<Rightarrow> (nat \<times> nat) option" where
  "sublimation_search_next_any pats regex_face line off wword =
     map_option (\<lambda>(st, e, _). (st, e)) (next_any_pat pats regex_face line off wword)"

lemma next_match_bounds:
  "search_next_match s regex_face line off wword = Some (st, e) \<Longrightarrow> off \<le> st \<and> st \<le> e \<and> e \<le> length line"
proof (induction s regex_face line off wword rule: search_next_match.induct)
  case (1 s regex_face line off wword)
  show ?case
  proof (cases "sublimation_search_find_from s line off")
    case None
    then show ?thesis using "1.prems" by (simp add: search_next_match.simps [of s regex_face line off] split: if_splits)
  next
    case (Some r)
    obtain st' e' where r: "r = (st', e')" by (cases r)
    note b = find_from_bounds [OF Some [unfolded r]]
    show ?thesis
      using "1.prems" Some r b "1.IH" [OF _ Some r [symmetric]]
      by (auto simp: search_next_match.simps [of s regex_face line off] find_Some_iff rev_nth split: if_splits option.splits)
  qed
qed

lemma next_any_bounds:
  assumes "next_any_pat pats regex_face line off wword = Some (st, e, p)"
  shows "off \<le> st \<and> st \<le> e \<and> e \<le> length line \<and> p < length pats"
proof -
  let ?f = "\<lambda>p best. case search_next_match (pats ! p) regex_face line off wword of
         None \<Rightarrow> best | Some (st, e) \<Rightarrow> if better_span st e best then Some (st, e, p) else best"
  have step: "?f q best = Some (st, e, p) \<Longrightarrow> best = Some (st, e, p) \<or>
      (p = q \<and> search_next_match (pats ! p) regex_face line off wword = Some (st, e))" for q best
    by (auto split: option.splits if_splits)
  have "fold ?f ps best = Some (st, e, p) \<Longrightarrow> best = Some (st, e, p) \<or>
      (p \<in> set ps \<and> search_next_match (pats ! p) regex_face line off wword = Some (st, e))" for ps best
  proof (induction ps arbitrary: best)
    case (Cons q ps)
    then show ?case using Cons.IH [of "?f q best"] step [where q = q and best = best] by (simp only: fold_Cons o_apply list.set) blast
  qed simp
  from this [of "[0..<length pats]" None] show ?thesis
    using assms by (auto simp: next_any_pat_def dest: next_match_bounds)
qed

section \<open>The spans of a text\<close>

record match_span =
  ms_start :: u32
  ms_end :: u32
  ms_pat :: int

text \<open>All spans from an offset on; the record fields hold 32 bits of an offset.\<close>

definition span_at :: "nat \<Rightarrow> nat \<Rightarrow> int \<Rightarrow> match_span" where
  "span_at s e p = \<lparr>ms_start = word_of_nat s, ms_end = word_of_nat e, ms_pat = p\<rparr>"

function spans_loop :: "search list \<Rightarrow> bool \<Rightarrow> string \<Rightarrow> bool \<Rightarrow> nat \<Rightarrow> nat \<Rightarrow> nat \<Rightarrow> match_span list \<Rightarrow> nat \<times> match_span list" where
  "spans_loop pats regex_face text wword cap off found out =
     (if length text < off then (found, out)
      else case next_any_pat pats regex_face text off wword of
          None \<Rightarrow> (found, out)
        | Some (s, e, pat) \<Rightarrow>
            if s < e then spans_loop pats regex_face text wword cap e (found + 1) (if found < cap then out @ [span_at s e (int pat)] else out)
            else spans_loop pats regex_face text wword cap (s + 1) found out)"
  by pat_completeness auto
termination
  by (relation "measure (\<lambda>(_, _, text, _, _, off, _, _). length text + 1 - off)") (auto dest!: next_any_bounds)

declare spans_loop.simps [simp del]

text \<open>The number of spans and the ones stored, at most \<open>cap\<close> of them.\<close>

definition sublimation_search_spans :: "search list \<Rightarrow> bool \<Rightarrow> string \<Rightarrow> bool \<Rightarrow> bool \<Rightarrow> nat \<Rightarrow> nat \<times> match_span list" where
  "sublimation_search_spans pats regex_face text wword xline cap =
     (if xline
      then (if 0 < length text then (1, if 0 < cap then [span_at 0 (length text) (-1)] else []) else (0, []))
      else spans_loop pats regex_face text wword cap 0 0 [])"

definition sublimation_search_selects :: "search list \<Rightarrow> bool \<Rightarrow> string \<Rightarrow> bool \<Rightarrow> bool \<Rightarrow> bool" where
  "sublimation_search_selects pats regex_face line xline wword \<longleftrightarrow>
     list_ex (\<lambda>s. if xline then sublimation_search_full_match s line
       else search_next_match s regex_face line 0 wword \<noteq> None) pats"

section \<open>The word rule of a regular expression\<close>

definition word_ends :: "gx \<Rightarrow> bool \<Rightarrow> string \<Rightarrow> bool \<Rightarrow> nat \<Rightarrow> nat set" where
  "word_ends r z line wword i = {e \<in> ends_at r z line i. wword \<longrightarrow> word_bounded line i e}"

lemma word_ends_finite [simp]: "finite (word_ends r z line wword i)"
  unfolding word_ends_def by (simp add: ends_finite)

lemma word_ends_empty: "ends_at r z line i = {} \<Longrightarrow> word_ends r z line wword i = {}"
  by (simp add: word_ends_def)

text \<open>The leftmost start from \<open>off\<close> on with an end the word rule accepts, and the greatest such end.\<close>

definition leftmost_word :: "gx \<Rightarrow> bool \<Rightarrow> bool \<Rightarrow> string \<Rightarrow> nat \<Rightarrow> bool \<Rightarrow> (nat \<times> nat) option" where
  "leftmost_word r a z line off wword =
     map_option (\<lambda>i. (i, Max (word_ends r z line wword i)))
       (find (\<lambda>i. (a \<longrightarrow> i = 0) \<and> word_ends r z line wword i \<noteq> {}) [off..<length line + 1])"

lemma find_upt_iff: "find P [m..<n] = Some i \<longleftrightarrow> m \<le> i \<and> i < n \<and> P i \<and> (\<forall>j. m \<le> j \<longrightarrow> j < i \<longrightarrow> \<not> P j)"
proof
  assume "find P [m..<n] = Some i"
  then obtain k where "k < n - m" "P (m + k)" "i = m + k" "\<forall>j < k. \<not> P (m + j)" by (auto simp: find_Some_iff)
  then show "m \<le> i \<and> i < n \<and> P i \<and> (\<forall>j. m \<le> j \<longrightarrow> j < i \<longrightarrow> \<not> P j)"
    by (metis add_lessD1 le_add1 le_add_diff_inverse less_diff_conv2 nat_add_left_cancel_less add.commute le_eq_less_or_eq less_imp_add_positive less_diff_conv)
next
  assume "m \<le> i \<and> i < n \<and> P i \<and> (\<forall>j. m \<le> j \<longrightarrow> j < i \<longrightarrow> \<not> P j)"
  then show "find P [m..<n] = Some i" by (auto simp: find_Some_iff intro!: exI [of _ "i - m"])
qed

lemma find_rev_upt: "find P (rev [m..<n]) = Some i \<Longrightarrow> m \<le> i \<and> i < n \<and> P i \<and> (\<forall>j. i < j \<longrightarrow> j < n \<longrightarrow> \<not> P j)"
proof (induction n)
  case (Suc n)
  show ?case
  proof (cases "m \<le> n \<and> \<not> P n")
    case True
    with Suc show ?thesis by (auto simp: less_Suc_eq)
  next
    case False
    with Suc.prems show ?thesis by (auto split: if_splits)
  qed
qed simp

lemma find_none: "find P xs = None \<longleftrightarrow> (\<forall>x \<in> set xs. \<not> P x)"
  by (auto simp: find_None_iff)

lemma find_skip: "m \<le> k \<Longrightarrow> (\<And>j. m \<le> j \<Longrightarrow> j < k \<Longrightarrow> \<not> P j) \<Longrightarrow> find P [m..<n] = find P [k..<n]"
proof (cases "find P [k..<n]")
  case None
  assume "m \<le> k" "\<And>j. m \<le> j \<Longrightarrow> j < k \<Longrightarrow> \<not> P j"
  with None have "find P [m..<n] = None" unfolding find_none by (metis atLeastLessThan_iff atLeastLessThan_upt not_less)
  with None show ?thesis by simp
next
  case (Some i)
  assume "m \<le> k" "\<And>j. m \<le> j \<Longrightarrow> j < k \<Longrightarrow> \<not> P j"
  with Some have "find P [m..<n] = Some i" unfolding find_upt_iff by (metis le_trans not_less)
  with Some show ?thesis by simp
qed

text \<open>A program of a pattern: what the operations return, in terms of its language.\<close>

definition program_of :: "search \<Rightarrow> bool \<times> bool \<times> gx \<Rightarrow> bool" where
  "program_of s azr \<longleftrightarrow> (case azr of (a, z, r) \<Rightarrow> g_anchored_end (s_g s) = z \<and>
     (\<forall>hay. sublimation_search_full_match s hay \<longleftrightarrow> hay \<in> glang r) \<and>
     (\<forall>hay off. sublimation_search_find_from s hay off = leftmost_longest r a z hay off))"

lemma compiled_program:
  assumes "regex_text icase a p z r" "gsz r \<le> 64"
  shows "\<exists>s. sublimation_search_compile ft (anchored_text a p z) False icase 0 = Some s \<and> s_valid s \<and> program_of s (a, z, r)"
proof -
  obtain s where "sublimation_search_compile ft (anchored_text a p z) False icase 0 = Some s" "s_valid s"
      "\<forall>hay. sublimation_search_full_match s hay \<longleftrightarrow> hay \<in> glang r"
      "\<forall>hay start. sublimation_search_find_from s hay start = leftmost_longest r a z hay start" "g_anchored_end (s_g s) = z"
    using regex_language_program [OF assms] by blast
  then show ?thesis by (auto simp: program_of_def)
qed

lemma leftmost_longest_some:
  "leftmost_longest r a z line off = Some (i, e) \<longleftrightarrow>
    off \<le> i \<and> i \<le> length line \<and> (a \<longrightarrow> i = 0) \<and> ends_at r z line i \<noteq> {} \<and> e = Max (ends_at r z line i) \<and>
    (\<forall>j. off \<le> j \<longrightarrow> j < i \<longrightarrow> \<not> ((a \<longrightarrow> j = 0) \<and> ends_at r z line j \<noteq> {}))"
  by (auto simp: leftmost_longest_def find_upt_iff simp del: upt_Suc)

lemma next_match_program:
  assumes "program_of s (a, z, r)"
  shows "search_next_match s True line off wword = leftmost_word r a z line off wword"
proof (induction "length line + 1 - off" arbitrary: off rule: less_induct)
  case less
  let ?P = "\<lambda>i. (a \<longrightarrow> i = 0) \<and> word_ends r z line wword i \<noteq> {}"
  have ff: "sublimation_search_find_from s line off = leftmost_longest r a z line off" and z: "g_anchored_end (s_g s) = z"
    and fm: "\<And>hay. sublimation_search_full_match s hay \<longleftrightarrow> hay \<in> glang r"
    using assms by (auto simp: program_of_def)
  show ?case
  proof (cases "leftmost_longest r a z line off")
    case None
    then have "\<forall>i \<in> set [off..<length line + 1]. \<not> ?P i"
      by (auto simp: leftmost_longest_def find_none word_ends_empty simp del: upt_Suc)
    then have "leftmost_word r a z line off wword = None" unfolding leftmost_word_def by (simp add: find_none del: upt_Suc)
    with None ff show ?thesis by (simp add: search_next_match.simps [of s True line off])
  next
    case (Some ie)
    obtain i e where ie: "ie = (i, e)" by (cases ie)
    note l = Some [unfolded ie leftmost_longest_some]
    have e: "e \<in> ends_at r z line i" "\<And>e'. e' \<in> ends_at r z line i \<Longrightarrow> e' \<le> e"
      using l Max_in [OF ends_finite] Max_ge [OF ends_finite] by blast+
    moreover from e(1) have "i \<le> e" "e \<le> length line" by (auto simp: ends_at_def)
    ultimately have e: "e \<in> ends_at r z line i" "\<And>e'. e' \<in> ends_at r z line i \<Longrightarrow> e' \<le> e" "i \<le> e" "e \<le> length line" by auto
    have before: "\<not> ?P j" if "off \<le> j" "j < i" for j using l that word_ends_empty [of r z line j wword] by auto
    have here: "leftmost_word r a z line off wword = Some (i, e')" if "e' \<in> word_ends r z line wword i"
        "\<And>k. k \<in> word_ends r z line wword i \<Longrightarrow> k \<le> e'" for e'
    proof -
      have "find ?P [off..<length line + 1] = Some i" unfolding find_upt_iff using l that before by auto
      moreover have "Max (word_ends r z line wword i) = e'" using that by (intro Max_eqI) auto
      ultimately show ?thesis unfolding leftmost_word_def by simp
    qed
    have later: "search_next_match s True line (i + 1) wword = leftmost_word r a z line off wword" if "word_ends r z line wword i = {}"
    proof -
      have "\<not> ?P j" if "off \<le> j" "j < i + 1" for j
        using before that \<open>word_ends r z line wword i = {}\<close> by (cases "j = i") auto
      then have "find ?P [off..<length line + 1] = find ?P [i + 1..<length line + 1]" using l by (intro find_skip) auto
      then have "leftmost_word r a z line (i + 1) wword = leftmost_word r a z line off wword" by (simp add: leftmost_word_def)
      moreover have "search_next_match s True line (i + 1) wword = leftmost_word r a z line (i + 1) wword"
        using l by (intro less.hyps) auto
      ultimately show ?thesis by simp
    qed
    let ?Q = "\<lambda>e2. word_bounded line i e2 \<and> take (e2 - i) (drop i line) \<in> glang r"
    show ?thesis
    proof (cases "\<not> wword \<or> word_bounded line i e")
      case True
      then have "leftmost_word r a z line off wword = Some (i, e)" using e by (intro here) (auto simp: word_ends_def)
      with True Some ie ff l show ?thesis by (simp add: search_next_match.simps [of s True line off])
    next
      case reject: False
      have shorter: "k < e \<and> i \<le> k \<and> ?Q k \<and> \<not> z" if "k \<in> word_ends r z line wword i" for k
        using that e reject by (cases "k = e") (auto simp: word_ends_def ends_at_def le_less)
      show ?thesis
      proof (cases "if z then None else find ?Q (rev [i..<e])")
        case None
        then have "word_ends r z line wword i = {}" using shorter by (fastforce simp: find_none split: if_splits)
        with None reject Some ie ff l fm z later show ?thesis by (simp add: search_next_match.simps [of s True line off] split: if_splits)
      next
        case (Some e2)
        then have nz: "\<not> z" and f: "find ?Q (rev [i..<e]) = Some e2" by (auto split: if_splits)
        have g: "leftmost_word r a z line off wword = Some (i, e2)"
        proof (rule here)
          show "e2 \<in> word_ends r z line wword i" using find_rev_upt [OF f] nz e reject by (auto simp: word_ends_def ends_at_def)
          show "k \<le> e2" if "k \<in> word_ends r z line wword i" for k
            using shorter [OF that] find_rev_upt [OF f] by (meson not_less)
        qed
        with f nz reject \<open>leftmost_longest r a z line off = Some ie\<close> ie ff l fm z show ?thesis by (simp add: search_next_match.simps [of s True line off])
      qed
    qed
  qed
qed

section \<open>A set of patterns\<close>

text \<open>A pattern as its hay with the flags and the anchors, and the expression it denotes.\<close>

type_synonym pattern = "bool \<times> bool \<times> string \<times> bool \<times> gx"

definition compiled :: "fold_tables \<Rightarrow> pattern list \<Rightarrow> search list \<Rightarrow> bool" where
  "compiled ft ts pats \<longleftrightarrow> list_all2 (\<lambda>(icase, a, p, z, r) s. regex_text icase a p z r \<and> gsz r \<le> 64 \<and>
     sublimation_search_compile ft (anchored_text a p z) False icase 0 = Some s) ts pats"

text \<open>The pattern has a match from \<open>i\<close> to \<open>e\<close> the word rule accepts.\<close>

definition hits :: "pattern \<Rightarrow> string \<Rightarrow> bool \<Rightarrow> nat \<Rightarrow> nat \<Rightarrow> bool" where
  "hits t line wword i e \<longleftrightarrow> (case t of (icase, a, p, z, r) \<Rightarrow> (a \<longrightarrow> i = 0) \<and> i \<le> length line \<and> e \<in> word_ends r z line wword i)"

lemma hits_bounds: "hits t line wword i e \<Longrightarrow> i \<le> e \<and> e \<le> length line"
  by (auto simp: hits_def word_ends_def ends_at_def split: prod.splits)

lemma compiled_length: "compiled ft ts pats \<Longrightarrow> length pats = length ts"
  by (auto simp: compiled_def dest: list_all2_lengthD)

lemma compiled_program_of:
  assumes "compiled ft ts pats" "k < length ts" "ts ! k = (icase, a, p, z, r)"
  shows "program_of (pats ! k) (a, z, r)"
proof -
  have "regex_text icase a p z r" "gsz r \<le> 64" "sublimation_search_compile ft (anchored_text a p z) False icase 0 = Some (pats ! k)"
    using assms list_all2_nthD [OF assms(1) [unfolded compiled_def] assms(2)] by auto
  with compiled_program [of icase a p z r ft] show ?thesis by auto
qed

lemma compiled_exists:
  "\<forall>(icase, a, p, z, r) \<in> set ts. regex_text icase a p z r \<and> gsz r \<le> 64 \<Longrightarrow> \<exists>pats. compiled ft ts pats"
proof (induction ts)
  case (Cons t ts)
  obtain icase a p z r where t: "t = (icase, a, p, z, r)" by (cases t)
  then have "regex_text icase a p z r" "gsz r \<le> 64" using Cons.prems by auto
  with compiled_program [of icase a p z r ft] obtain s where "sublimation_search_compile ft (anchored_text a p z) False icase 0 = Some s" by auto
  moreover obtain pats where "compiled ft ts pats" using Cons by auto
  ultimately have "compiled ft (t # ts) (s # pats)" using t Cons.prems by (auto simp: compiled_def)
  then show ?case by blast
qed (auto simp: compiled_def)

lemma leftmost_word_some:
  "leftmost_word r a z line off wword = Some (i, e) \<longleftrightarrow>
    off \<le> i \<and> hits (icase, a, p, z, r) line wword i e \<and> (\<forall>e'. hits (icase, a, p, z, r) line wword i e' \<longrightarrow> e' \<le> e) \<and>
    (\<forall>j e'. off \<le> j \<longrightarrow> j < i \<longrightarrow> \<not> hits (icase, a, p, z, r) line wword j e')"
proof -
  have f: "find (\<lambda>i. (a \<longrightarrow> i = 0) \<and> word_ends r z line wword i \<noteq> {}) [off..<length line + 1] = Some i \<longleftrightarrow>
      off \<le> i \<and> (\<exists>e. hits (icase, a, p, z, r) line wword i e) \<and> (\<forall>j e'. off \<le> j \<longrightarrow> j < i \<longrightarrow> \<not> hits (icase, a, p, z, r) line wword j e')"
    unfolding find_upt_iff by (auto simp: hits_def)
  have m: "Max (word_ends r z line wword i) = e \<longleftrightarrow> e \<in> word_ends r z line wword i \<and> (\<forall>e' \<in> word_ends r z line wword i. e' \<le> e)"
    if "word_ends r z line wword i \<noteq> {}" using that by (simp add: Max_eq_iff)
  show ?thesis
  proof (cases "word_ends r z line wword i = {}")
    case True
    then show ?thesis unfolding leftmost_word_def map_option_eq_Some Pair_inject using f by (auto simp: hits_def)
  next
    case False
    show ?thesis unfolding leftmost_word_def map_option_eq_Some Pair_inject using f m [OF False] by (auto simp: hits_def)
  qed
qed

lemma leftmost_word_none:
  "leftmost_word r a z line off wword = None \<longleftrightarrow> (\<forall>i e. off \<le> i \<longrightarrow> \<not> hits (icase, a, p, z, r) line wword i e)"
  by (auto simp: leftmost_word_def find_none hits_def simp del: upt_Suc)

text \<open>What the next match of one pattern of a compiled set is.\<close>

lemma next_match_some:
  assumes "compiled ft ts pats" "k < length ts"
  shows "search_next_match (pats ! k) True line off wword = Some (i, e) \<longleftrightarrow>
    off \<le> i \<and> hits (ts ! k) line wword i e \<and> (\<forall>e'. hits (ts ! k) line wword i e' \<longrightarrow> e' \<le> e) \<and>
    (\<forall>j e'. off \<le> j \<longrightarrow> j < i \<longrightarrow> \<not> hits (ts ! k) line wword j e')"
proof -
  obtain icase a p z r where t: "ts ! k = (icase, a, p, z, r)" by (cases "ts ! k")
  show ?thesis unfolding t next_match_program [OF compiled_program_of [OF assms t]] by (rule leftmost_word_some)
qed

lemma next_match_none:
  assumes "compiled ft ts pats" "k < length ts"
  shows "search_next_match (pats ! k) True line off wword = None \<longleftrightarrow> (\<forall>i e. off \<le> i \<longrightarrow> \<not> hits (ts ! k) line wword i e)"
proof -
  obtain icase a p z r where t: "ts ! k = (icase, a, p, z, r)" by (cases "ts ! k")
  show ?thesis unfolding t next_match_program [OF compiled_program_of [OF assms t]] by (rule leftmost_word_none)
qed

lemma full_match_compiled:
  assumes "compiled ft ts pats" "k < length ts"
  shows "sublimation_search_full_match (pats ! k) line \<longleftrightarrow> (case ts ! k of (icase, a, p, z, r) \<Rightarrow> line \<in> glang r)"
proof -
  obtain icase a p z r where t: "ts ! k = (icase, a, p, z, r)" by (cases "ts ! k")
  show ?thesis using compiled_program_of [OF assms t] by (simp add: t program_of_def)
qed

text \<open>C37: a set of compiled patterns selects a line exactly when one of them has a match in it that the word rule accepts, or,
  under the whole-line rule, when the line is a word of one of the languages.\<close>

theorem selects_language:
  assumes "compiled ft ts pats"
  shows "sublimation_search_selects pats True line xline wword \<longleftrightarrow>
    (\<exists>t \<in> set ts. if xline then (case t of (icase, a, p, z, r) \<Rightarrow> line \<in> glang r) else \<exists>i e. hits t line wword i e)"
proof -
  let ?Q = "\<lambda>t. if xline then (case t of (icase, a, p, z, r) \<Rightarrow> line \<in> glang r) else \<exists>i e. hits t line wword i e"
  have "(if xline then sublimation_search_full_match (pats ! k) line else search_next_match (pats ! k) True line 0 wword \<noteq> None) \<longleftrightarrow> ?Q (ts ! k)"
    if "k < length ts" for k
    using next_match_none [OF assms that, of line 0 wword] full_match_compiled [OF assms that] by auto
  then have "sublimation_search_selects pats True line xline wword \<longleftrightarrow> (\<exists>k < length ts. ?Q (ts ! k))"
    using compiled_length [OF assms] by (simp only: sublimation_search_selects_def list_ex_length) metis
  then show ?thesis unfolding in_set_conv_nth Bex_def by blast
qed

section \<open>The spans are the greedy cover of the matches\<close>

definition best_so_far :: "(nat \<Rightarrow> (nat \<times> nat) option) \<Rightarrow> nat set \<Rightarrow> (nat \<times> nat \<times> nat) option \<Rightarrow> bool" where
  "best_so_far f seen best \<longleftrightarrow> (case best of
     None \<Rightarrow> \<forall>p \<in> seen. f p = None
   | Some (bs, be, bp) \<Rightarrow> bp \<in> seen \<and> f bp = Some (bs, be) \<and> (\<forall>p \<in> seen. \<forall>st e. f p = Some (st, e) \<longrightarrow> bs < st \<or> bs = st \<and> e \<le> be))"

lemma best_step:
  "best_so_far f seen best \<Longrightarrow> best_so_far f (insert p seen)
     (case f p of None \<Rightarrow> best | Some (st, e) \<Rightarrow> if better_span st e best then Some (st, e, p) else best)"
  by (fastforce simp: best_so_far_def better_span_def split: option.splits if_splits prod.splits)

lemma best_fold:
  "best_so_far f seen best \<Longrightarrow> best_so_far f (seen \<union> set ps)
     (fold (\<lambda>p best. case f p of None \<Rightarrow> best | Some (st, e) \<Rightarrow> if better_span st e best then Some (st, e, p) else best) ps best)"
proof (induction ps arbitrary: seen best)
  case (Cons p ps)
  from Cons.IH [OF best_step [OF Cons.prems, of p]] show ?case by simp
qed simp

lemma next_any_best: "best_so_far (\<lambda>p. search_next_match (pats ! p) rf line off wword) {..<length pats} (next_any_pat pats rf line off wword)"
proof -
  have "best_so_far (\<lambda>p. search_next_match (pats ! p) rf line off wword) {} None" by (simp add: best_so_far_def)
  from best_fold [OF this, of "[0..<length pats]"] show ?thesis by (simp add: next_any_pat_def atLeast0LessThan)
qed

lemma next_any_none:
  assumes "compiled ft ts pats" "next_any_pat pats True line off wword = None" "t \<in> set ts" "off \<le> i"
  shows "\<not> hits t line wword i e"
proof -
  obtain k where k: "k < length ts" "t = ts ! k" using assms(3) by (auto simp: in_set_conv_nth)
  then have "search_next_match (pats ! k) True line off wword = None"
    using next_any_best [of pats True line off wword] assms(2) compiled_length [OF assms(1)] by (auto simp: best_so_far_def)
  with next_match_none [OF assms(1) k(1)] k(2) assms(4) show ?thesis by blast
qed

lemma next_any_some:
  assumes "compiled ft ts pats" "next_any_pat pats True line off wword = Some (i, e, k)"
  shows "k < length ts \<and> off \<le> i \<and> hits (ts ! k) line wword i e"
    and "t \<in> set ts \<Longrightarrow> hits t line wword j e' \<Longrightarrow> off \<le> j \<Longrightarrow> i < j \<or> i = j \<and> e' \<le> e"
proof -
  note b = next_any_best [of pats True line off wword, unfolded assms(2) compiled_length [OF assms(1)]]
  from b have k: "k < length ts" "search_next_match (pats ! k) True line off wword = Some (i, e)" by (auto simp: best_so_far_def)
  show "k < length ts \<and> off \<le> i \<and> hits (ts ! k) line wword i e"
    using k next_match_some [OF assms(1) k(1)] by simp
  assume h: "t \<in> set ts" "hits t line wword j e'" "off \<le> j"
  then obtain q where q: "q < length ts" "t = ts ! q" by (auto simp: in_set_conv_nth)
  obtain st e2 where s: "search_next_match (pats ! q) True line off wword = Some (st, e2)"
    using next_match_none [OF assms(1) q(1), of line off wword] h(2,3) q(2) by fastforce
  from next_match_some [OF assms(1) q(1), THEN iffD1, OF s]
  have "st \<le> j" "st = j \<Longrightarrow> e' \<le> e2" using h(2,3) q(2) by (metis not_less)+
  moreover have "i < st \<or> i = st \<and> e2 \<le> e" using b s q(1) by (auto simp: best_so_far_def)
  ultimately show "i < j \<or> i = j \<and> e' \<le> e" by auto
qed

function span_list :: "search list \<Rightarrow> bool \<Rightarrow> string \<Rightarrow> bool \<Rightarrow> nat \<Rightarrow> (nat \<times> nat \<times> nat) list" where
  "span_list pats rf hay wword off =
     (if length hay < off then []
      else case next_any_pat pats rf hay off wword of
          None \<Rightarrow> []
        | Some (s, e, p) \<Rightarrow>
            if s < e then (s, e, p) # span_list pats rf hay wword e else span_list pats rf hay wword (s + 1))"
  by pat_completeness auto
termination
  by (relation "measure (\<lambda>(_, _, hay, _, off). length hay + 1 - off)") (auto dest!: next_any_bounds)

declare span_list.simps [simp del]

lemma spans_loop_list:
  "found = length out \<or> cap \<le> found \<Longrightarrow> spans_loop pats rf hay wword cap off found out =
    (found + length (span_list pats rf hay wword off),
     out @ map (\<lambda>(s, e, p). span_at s e (int p)) (take (cap - found) (span_list pats rf hay wword off)))"
proof (induction pats rf hay wword off arbitrary: found out rule: span_list.induct)
  case (1 pats rf hay wword off)
  show ?case
  proof (cases "length hay < off \<or> next_any_pat pats rf hay off wword = None")
    case True
    then show ?thesis by (auto simp: spans_loop.simps [of pats rf hay wword cap off] span_list.simps [of pats rf hay wword off])
  next
    case False
    then obtain s e p where n: "\<not> length hay < off" "next_any_pat pats rf hay off wword = Some (s, e, p)" by auto
    show ?thesis
    proof (cases "s < e")
      case True
      let ?out = "if found < cap then out @ [span_at s e (int p)] else out"
      have "found + 1 = length ?out \<or> cap \<le> found + 1" using "1.prems" by auto
      from "1.IH" (1) [OF n refl refl True this]
      show ?thesis using n True
        by (auto simp: spans_loop.simps [of pats rf hay wword cap off found] span_list.simps [of pats rf hay wword off] take_Cons' diff_Suc
            split: nat.splits)
    next
      case False
      from "1.IH" (2) [OF n refl refl False "1.prems"]
      show ?thesis using n False by (simp add: spans_loop.simps [of pats rf hay wword cap off found] span_list.simps [of pats rf hay wword off])
    qed
  qed
qed

lemma span_list_stop: "length hay < off \<or> next_any_pat pats rf hay off wword = None \<Longrightarrow> span_list pats rf hay wword off = []"
  by (auto simp: span_list.simps [of pats rf hay wword off])

lemma span_list_step:
  "off \<le> length hay \<Longrightarrow> next_any_pat pats rf hay off wword = Some (s, e, p) \<Longrightarrow>
    span_list pats rf hay wword off = (if s < e then [(s, e, p)] else []) @ span_list pats rf hay wword (if s < e then e else s + 1)"
  by (simp add: span_list.simps [of pats rf hay wword off])

lemma span_list_from: "\<forall>(s, e, p) \<in> set (span_list pats rf hay wword off). off \<le> s \<and> s < e \<and> e \<le> length hay"
proof (induction "length hay + 1 - off" arbitrary: off rule: less_induct)
  case less
  show ?case
  proof (cases "length hay < off \<or> next_any_pat pats rf hay off wword = None")
    case True
    then show ?thesis by (simp add: span_list_stop)
  next
    case False
    then obtain s e p where n: "off \<le> length hay" "next_any_pat pats rf hay off wword = Some (s, e, p)" by auto
    note b = next_any_bounds [OF n(2)]
    have "length hay + 1 - (if s < e then e else s + 1) < length hay + 1 - off" using n(1) b by auto
    from less.hyps [OF this] show ?thesis unfolding span_list_step [OF n] using b by (auto split: if_splits)
  qed
qed

lemma span_list_facts:
  assumes "compiled ft ts pats"
  shows "sorted_wrt (\<lambda>(s, e, p) (s', e', p'). e \<le> s') (span_list pats True hay wword off) \<and>
    (\<forall>(s, e, p) \<in> set (span_list pats True hay wword off). p < length ts \<and> hits (ts ! p) hay wword s e) \<and>
    (\<forall>t \<in> set ts. \<forall>i e. off \<le> i \<longrightarrow> i < e \<longrightarrow> hits t hay wword i e \<longrightarrow>
       (\<exists>(s, e', p) \<in> set (span_list pats True hay wword off). s < e \<and> i < e'))"
proof (induction "length hay + 1 - off" arbitrary: off rule: less_induct)
  case less
  show ?case
  proof (cases "length hay < off \<or> next_any_pat pats True hay off wword = None")
    case True
    moreover have "\<not> hits t hay wword i e" if "off \<le> i" "t \<in> set ts" for t i e
      using True next_any_none [OF assms _ that(2,1)] hits_bounds [of t hay wword i e] that by fastforce
    ultimately show ?thesis by (simp add: span_list_stop)
  next
    case False
    then obtain s e p where n: "off \<le> length hay" "next_any_pat pats True hay off wword = Some (s, e, p)" by auto
    note b = next_any_bounds [OF n(2)] and f = next_any_some [OF assms n(2)]
    define rest where "rest = (if s < e then e else s + 1)"
    have l: "span_list pats True hay wword off = (if s < e then [(s, e, p)] else []) @ span_list pats True hay wword rest"
      using span_list_step [OF n] by (simp add: rest_def)
    have "length hay + 1 - rest < length hay + 1 - off" using n(1) b by (auto simp: rest_def)
    note IH = less.hyps [OF this]
    have sorted: "sorted_wrt (\<lambda>(s, e, p) (s', e', p'). e \<le> s') (span_list pats True hay wword off)"
      using IH [THEN conjunct1] span_list_from [of pats True hay wword rest] unfolding l by (auto simp: rest_def)
    have cover: "\<exists>(s, e', p) \<in> set (span_list pats True hay wword off). s < k \<and> i < e'"
      if h: "t \<in> set ts" "off \<le> i" "i < k" "hits t hay wword i k" for t i k
    proof (cases "rest \<le> i")
      case True
      then have "\<exists>(s, e', p) \<in> set (span_list pats True hay wword rest). s < k \<and> i < e'"
        using IH [THEN conjunct2, THEN conjunct2] h by blast
      then show ?thesis unfolding l by auto
    next
      case False
      have "s < i \<or> s = i \<and> k \<le> e" using f(2) [OF h(1,4,2)] .
      then have "s < e" "s < k" "i < e" using False h(3) by (auto simp: rest_def split: if_splits)
      then show ?thesis unfolding l by auto
    qed
    have "\<forall>(s, e, p) \<in> set (span_list pats True hay wword off). p < length ts \<and> hits (ts ! p) hay wword s e"
      using IH [THEN conjunct2, THEN conjunct1] f(1) unfolding l by auto
    with sorted cover show ?thesis by blast
  qed
qed

text \<open>C36: the spans of a text under a set of compiled patterns are disjoint and in order, each is a non-empty match of
  its pattern, and every non-empty match meets one of them; the count is the number of all spans and the buffer
  holds the first ones, as many as fit.\<close>

theorem spans_cover_matches:
  assumes "compiled ft ts pats"
  shows "\<exists>spans. sublimation_search_spans pats True hay wword False cap =
      (length spans, map (\<lambda>(s, e, p). span_at s e (int p)) (take cap spans)) \<and>
    sorted_wrt (\<lambda>(s, e, p) (s', e', p'). e \<le> s') spans \<and>
    (\<forall>(s, e, p) \<in> set spans. s < e \<and> p < length ts \<and> hits (ts ! p) hay wword s e) \<and>
    (\<forall>t \<in> set ts. \<forall>i e. i < e \<longrightarrow> hits t hay wword i e \<longrightarrow> (\<exists>(s, e', p) \<in> set spans. s < e \<and> i < e'))"
proof -
  let ?L = "span_list pats True hay wword 0"
  have "sublimation_search_spans pats True hay wword False cap = (length ?L, map (\<lambda>(s, e, p). span_at s e (int p)) (take cap ?L))"
    using spans_loop_list [of 0 "[]" cap pats True hay wword 0] by (simp add: sublimation_search_spans_def)
  moreover note facts = span_list_facts [OF assms, of hay wword 0]
  have "\<forall>(s, e, p) \<in> set ?L. s < e \<and> p < length ts \<and> hits (ts ! p) hay wword s e"
    using span_list_from [of pats True hay wword 0] facts [THEN conjunct2, THEN conjunct1] by fast
  ultimately show ?thesis using facts by (intro exI [of _ ?L] conjI) simp_all
qed

lemma compiled_example: "\<exists>r pats. compiled \<lparr>ft_last = [], ft_alt = []\<rparr> [(False, False, ''a*b'', False, r)] pats"
proof -
  obtain r where "regex_text False False ''a*b'' False r" "gsz r \<le> 64" using regex_text_example by fastforce
  with compiled_exists [of "[(False, False, ''a*b'', False, r)]" "\<lparr>ft_last = [], ft_alt = []\<rparr>"] show ?thesis by auto
qed

theorem selects_language_witness:
  "\<exists>r pats. compiled \<lparr>ft_last = [], ft_alt = []\<rparr> [(False, False, ''a*b'', False, r)] pats \<and>
    (sublimation_search_selects pats True ''xab'' False True \<longleftrightarrow> (\<exists>i e. hits (False, False, ''a*b'', False, r) ''xab'' True i e))"
proof -
  obtain r pats where c: "compiled \<lparr>ft_last = [], ft_alt = []\<rparr> [(False, False, ''a*b'', False, r)] pats" using compiled_example by blast
  from selects_language [OF c, of "''xab''" False True] show ?thesis using c by auto
qed

theorem spans_cover_matches_witness:
  "\<exists>r pats spans. compiled \<lparr>ft_last = [], ft_alt = []\<rparr> [(False, False, ''a*b'', False, r)] pats \<and>
    fst (sublimation_search_spans pats True ''ab aab'' False False 1) = length spans \<and>
    sorted_wrt (\<lambda>(s, e, p) (s', e', p'). e \<le> s') (spans :: (nat \<times> nat \<times> nat) list)"
proof -
  obtain r pats where c: "compiled \<lparr>ft_last = [], ft_alt = []\<rparr> [(False, False, ''a*b'', False, r)] pats" using compiled_example by blast
  obtain spans where "fst (sublimation_search_spans pats True ''ab aab'' False False 1) = length spans"
      "sorted_wrt (\<lambda>(s, e, p) (s', e', p'). e \<le> s') (spans :: (nat \<times> nat \<times> nat) list)"
    using spans_cover_matches [OF c, of "''ab aab''" False 1] by auto
  with c show ?thesis by blast
qed

section \<open>The buffer of selected lines\<close>

record search_occ =
  so_line_no :: u32
  so_off :: u32
  so_len :: u32
  so_raw_len :: u32

record occ_buf =
  ob_occ :: "search_occ list"
  ob_cap :: nat
  ob_raw :: string
  ob_raw_cap :: nat

definition sublimation_occ_buf_init :: occ_buf where
  "sublimation_occ_buf_init = \<lparr>ob_occ = [], ob_cap = 0, ob_raw = [], ob_raw_cap = 0\<rparr>"

function doubled_to :: "nat \<Rightarrow> nat \<Rightarrow> nat" where
  "doubled_to ncap need = (if 0 < ncap \<and> ncap < need then doubled_to (ncap * 2) need else ncap)"
  by pat_completeness auto
termination by (relation "measure (\<lambda>(ncap, need). need - ncap)") auto

declare doubled_to.simps [simp del]

text \<open>The two flags say whether the reallocations succeed; a record that finds no room is dropped.\<close>

definition sublimation_occ_buf_push :: "bool \<Rightarrow> bool \<Rightarrow> occ_buf \<Rightarrow> u32 \<Rightarrow> string \<Rightarrow> nat \<Rightarrow> nat \<Rightarrow> occ_buf" where
  "sublimation_occ_buf_push raw_ok occ_ok b line_no line len raw_len =
     (let need = length (ob_raw b) + raw_len; grow = ob_raw_cap b < need
      in if grow \<and> \<not> raw_ok then b
         else let b = (if grow then b\<lparr>ob_raw_cap := doubled_to (if ob_raw_cap b \<noteq> 0 then ob_raw_cap b * 2 else 4096) need\<rparr> else b);
                  full = (length (ob_occ b) = ob_cap b)
           in if full \<and> \<not> occ_ok then b
              else let b = (if full then b\<lparr>ob_cap := (if ob_cap b \<noteq> 0 then ob_cap b * 2 else 64)\<rparr> else b)
                in b\<lparr>ob_raw := ob_raw b @ take raw_len line,
                     ob_occ := ob_occ b @ [\<lparr>so_line_no = line_no, so_off = word_of_nat (length (ob_raw b)),
                       so_len = word_of_nat len, so_raw_len = word_of_nat raw_len\<rparr>]\<rparr>)"

lemma doubled_to_enough: "0 < ncap \<Longrightarrow> need \<le> doubled_to ncap need"
  by (induction ncap need rule: doubled_to.induct) (auto simp: doubled_to.simps)

definition occ_text :: "occ_buf \<Rightarrow> search_occ \<Rightarrow> string" where
  "occ_text b r = take (unat (so_raw_len r)) (drop (unat (so_off r)) (ob_raw b))"

definition occ_buf_ok :: "occ_buf \<Rightarrow> bool" where
  "occ_buf_ok b \<longleftrightarrow> length (ob_raw b) \<le> ob_raw_cap b \<and> length (ob_occ b) \<le> ob_cap b \<and>
     (\<forall>r \<in> set (ob_occ b). unat (so_off r) + unat (so_raw_len r) \<le> length (ob_raw b))"

lemma occ_text_append: "unat (so_off r) + unat (so_raw_len r) \<le> length (ob_raw b) \<Longrightarrow> occ_text (b\<lparr>ob_raw := ob_raw b @ s\<rparr>) r = occ_text b r"
  by (simp add: occ_text_def)

text \<open>A push drops the line, grows the arena only, or appends.\<close>

lemma push_cases:
  assumes "occ_buf_ok b"
  obtains (same) c where "sublimation_occ_buf_push raw_ok occ_ok b no line len raw_len = b\<lparr>ob_raw_cap := c\<rparr>" "ob_raw_cap b \<le> c" "\<not> (raw_ok \<and> occ_ok)"
  | (more) c d where "sublimation_occ_buf_push raw_ok occ_ok b no line len raw_len = b\<lparr>ob_raw_cap := c, ob_cap := d, ob_raw := ob_raw b @ take raw_len line,
      ob_occ := ob_occ b @ [\<lparr>so_line_no = no, so_off = word_of_nat (length (ob_raw b)), so_len = word_of_nat len, so_raw_len = word_of_nat raw_len\<rparr>]\<rparr>"
      "length (ob_raw b) + raw_len \<le> c" "length (ob_occ b) < d"
proof -
  let ?need = "length (ob_raw b) + raw_len" and ?grown = "if ob_raw_cap b \<noteq> 0 then ob_raw_cap b * 2 else 4096"
  define c where "c = (if ob_raw_cap b < ?need then doubled_to ?grown ?need else ob_raw_cap b)"
  have "?need \<le> doubled_to ?grown ?need" by (rule doubled_to_enough) simp
  then have c: "?need \<le> c" "ob_raw_cap b \<le> c" by (auto simp: c_def)
  define d where "d = (if length (ob_occ b) = ob_cap b then if ob_cap b \<noteq> 0 then ob_cap b * 2 else 64 else ob_cap b)"
  have d: "length (ob_occ b) < d" using assms by (auto simp: d_def occ_buf_ok_def)
  consider "ob_raw_cap b < ?need" "\<not> raw_ok" | "\<not> (ob_raw_cap b < ?need \<and> \<not> raw_ok)" "length (ob_occ b) = ob_cap b" "\<not> occ_ok"
    | "\<not> (ob_raw_cap b < ?need \<and> \<not> raw_ok)" "\<not> (length (ob_occ b) = ob_cap b \<and> \<not> occ_ok)" by blast
  then show thesis
  proof cases
    case 1
    then show thesis by (intro same [of "ob_raw_cap b"]) (simp_all add: sublimation_occ_buf_push_def Let_def)
  next
    case 2
    then have "sublimation_occ_buf_push raw_ok occ_ok b no line len raw_len = b\<lparr>ob_raw_cap := c\<rparr>"
      by (cases "ob_raw_cap b < ?need") (simp_all add: sublimation_occ_buf_push_def Let_def c_def)
    then show thesis using c(2) 2(3) by (intro same) auto
  next
    case 3
    then have "sublimation_occ_buf_push raw_ok occ_ok b no line len raw_len = b\<lparr>ob_raw_cap := c, ob_cap := d, ob_raw := ob_raw b @ take raw_len line,
      ob_occ := ob_occ b @ [\<lparr>so_line_no = no, so_off = word_of_nat (length (ob_raw b)), so_len = word_of_nat len, so_raw_len = word_of_nat raw_len\<rparr>]\<rparr>"
      by (cases "ob_raw_cap b < ?need"; cases "length (ob_occ b) = ob_cap b") (simp_all add: sublimation_occ_buf_push_def Let_def c_def d_def)
    then show thesis using c(1) d by (rule more)
  qed
qed

lemma push_keeps:
  assumes "occ_buf_ok b" "raw_len \<le> length line" "length (ob_raw b) + raw_len < 2 ^ 32"
    and b': "b' = sublimation_occ_buf_push raw_ok occ_ok b no line len raw_len"
  shows "occ_buf_ok b' \<and> length (ob_raw b') \<le> length (ob_raw b) + raw_len \<and>
    (\<exists>kept. map (occ_text b') (ob_occ b') = map (occ_text b) (ob_occ b) @ (if kept then [take raw_len line] else []) \<and> (raw_ok \<and> occ_ok \<longrightarrow> kept))"
  using assms(1)
proof (cases rule: push_cases [of b raw_ok occ_ok no line len raw_len])
  case (same c)
  then show ?thesis using assms(1) unfolding b' by (intro conjI exI [of _ False]) (auto simp: occ_buf_ok_def occ_text_def)
next
  case (more c d)
  have u: "unat (word_of_nat (length (ob_raw b)) :: u32) = length (ob_raw b)" "unat (word_of_nat raw_len :: u32) = raw_len"
    using assms(3) by (simp_all add: unsigned_of_nat take_bit_nat_eq_self)
  have "occ_text b' r = occ_text b r" if "r \<in> set (ob_occ b)" for r
  proof -
    have "unat (so_off r) + unat (so_raw_len r) \<le> length (ob_raw b)" using assms(1) that by (simp add: occ_buf_ok_def)
    then have "unat (so_raw_len r) \<le> length (ob_raw b) - unat (so_off r)" by linarith
    then show ?thesis using more(1) unfolding b' by (simp add: occ_text_def)
  qed
  then have "map (occ_text b') (ob_occ b') = map (occ_text b) (ob_occ b) @ [take raw_len line]"
    using more(1) u assms(2) unfolding b' by (simp add: occ_text_def)
  moreover have "occ_buf_ok b'" using assms(1,2) more u unfolding b' by (fastforce simp: occ_buf_ok_def)
  ultimately show ?thesis using more(1) unfolding b' by (intro conjI exI [of _ True]) auto
qed

text \<open>Whatever reallocations fail, pushing lines onto the buffer keeps its records inside the arena, and their texts are
  the lines pushed, in order, less the ones that found no room; with memory at hand every line is there.\<close>

lemma occ_buf_keeps_lines:
  assumes "\<forall>(raw_ok, occ_ok, no, line, len) \<in> set pushes. len \<le> length line" "sum_list (map (\<lambda>(_, _, _, line, _). length line) pushes) < 2 ^ 32"
    and b: "b = fold (\<lambda>(raw_ok, occ_ok, no, line, len) b. sublimation_occ_buf_push raw_ok occ_ok b no line len (length line)) pushes sublimation_occ_buf_init"
  shows "occ_buf_ok b \<and> (\<exists>kept. length kept = length pushes \<and>
      map (occ_text b) (ob_occ b) = map (\<lambda>((_, _, _, line, _), _). line) (filter snd (zip pushes kept)) \<and>
      (\<forall>k < length pushes. case pushes ! k of (raw_ok, occ_ok, _) \<Rightarrow> raw_ok \<and> occ_ok \<longrightarrow> kept ! k))"
proof -
  let ?push = "\<lambda>(raw_ok, occ_ok, no, line, len) b. sublimation_occ_buf_push raw_ok occ_ok b no line len (length line)"
  let ?len = "\<lambda>(_, _, _, line, _). length line"
  have "occ_buf_ok b \<Longrightarrow> length (ob_raw b) + sum_list (map ?len ps) < 2 ^ 32 \<Longrightarrow>
    occ_buf_ok (fold ?push ps b) \<and> (\<exists>kept. length kept = length ps \<and>
      map (occ_text (fold ?push ps b)) (ob_occ (fold ?push ps b)) = map (occ_text b) (ob_occ b) @ map (\<lambda>((_, _, _, line, _), _). line) (filter snd (zip ps kept)) \<and>
      (\<forall>k < length ps. case ps ! k of (raw_ok, occ_ok, _) \<Rightarrow> raw_ok \<and> occ_ok \<longrightarrow> kept ! k))" for ps b
  proof (induction ps arbitrary: b)
    case (Cons q ps)
    obtain raw_ok occ_ok no line len where q: "q = (raw_ok, occ_ok, no, line, len)" by (cases q)
    define b' where "b' = ?push q b"
    have p: "occ_buf_ok b' \<and> length (ob_raw b') \<le> length (ob_raw b) + length line \<and>
      (\<exists>kept. map (occ_text b') (ob_occ b') = map (occ_text b) (ob_occ b) @ (if kept then [take (length line) line] else []) \<and> (raw_ok \<and> occ_ok \<longrightarrow> kept))"
      using Cons.prems by (intro push_keeps [where line = line]) (auto simp: q b'_def)
    then obtain h where h: "map (occ_text b') (ob_occ b') = map (occ_text b) (ob_occ b) @ (if h then [take (length line) line] else [])" "raw_ok \<and> occ_ok \<longrightarrow> h"
      by blast
    have "length (ob_raw b') + sum_list (map ?len ps) < 2 ^ 32" using p Cons.prems(2) by (auto simp: q)
    from Cons.IH [OF _ this] p obtain kept where k: "occ_buf_ok (fold ?push ps b')" "length kept = length ps"
        "map (occ_text (fold ?push ps b')) (ob_occ (fold ?push ps b')) = map (occ_text b') (ob_occ b') @ map (\<lambda>((_, _, _, line, _), _). line) (filter snd (zip ps kept))"
        "\<forall>k < length ps. case ps ! k of (raw_ok, occ_ok, _) \<Rightarrow> raw_ok \<and> occ_ok \<longrightarrow> kept ! k" by auto
    show ?case
      using k h by (intro conjI exI [of _ "h # kept"]) (auto simp: q b'_def nth_Cons split: nat.split)
  qed simp
  from this [of sublimation_occ_buf_init pushes] assms(2) show ?thesis
    unfolding b by (simp add: sublimation_occ_buf_init_def occ_buf_ok_def)
qed

section \<open>Splitting at the top-level bars\<close>

text \<open>The branches cut so far, the start of the current one, and the depth of groups.\<close>

function split_loop :: "string \<Rightarrow> nat \<Rightarrow> nat \<Rightarrow> nat \<Rightarrow> string list \<Rightarrow> string list" where
  "split_loop p i start depth br =
     (if length p < i then br
      else if i = length p then split_loop p (i + 1) (i + 1) depth (br @ [take (i - start) (drop start p)])
      else if p ! i = CHR ''|'' \<and> depth = 0 then split_loop p (i + 1) (i + 1) depth (br @ [take (i - start) (drop start p)])
      else if p ! i = BSLASH \<and> i + 1 < length p then split_loop p (i + 2) start depth br
      else if p ! i = CHR ''[''
      then split_loop p (case class_span p i 0 False of (e, _) \<Rightarrow> if e = 0 then length p else e) start depth br
      else if p ! i = CHR ''('' then split_loop p (i + 1) start (depth + 1) br
      else if p ! i = CHR '')'' \<and> depth \<noteq> 0 then split_loop p (i + 1) start (depth - 1) br
      else split_loop p (i + 1) start depth br)"
  by pat_completeness auto
termination
  by (relation "measure (\<lambda>(p, i, _). length p + 1 - i)") (auto split: prod.split dest!: class_span_forward)

declare split_loop.simps [simp del]

text \<open>\<open>None\<close> when there is no top-level bar, or no memory.\<close>

definition sublimation_search_split_alternation :: "bool \<Rightarrow> string \<Rightarrow> string list option" where
  "sublimation_search_split_alternation alloc_ok pattern =
     (let br = split_loop (c_string pattern) 0 0 0 [] in if \<not> alloc_ok \<or> length br < 2 then None else Some br)"

fun join_bars :: "string list \<Rightarrow> string" where
  "join_bars [] = []"
| "join_bars [s] = s"
| "join_bars (s # t # ss) = s @ ''|'' @ join_bars (t # ss)"

lemma class_span_end: "class_span p i S icase = (e, S') \<Longrightarrow> e \<le> length p"
  unfolding class_span_def Let_def by (auto split: option.splits if_splits prod.splits)

text \<open>The text before the current branch: the branches cut, each with its bar.\<close>

definition cut_text :: "string list \<Rightarrow> string" where
  "cut_text br = concat (map (\<lambda>s. s @ ''|'') br)"

lemma join_bars_cut: "join_bars (br @ [s]) = cut_text br @ s"
  by (induction br rule: join_bars.induct) (auto simp: cut_text_def)

lemma split_loop_join:
  "start \<le> i \<Longrightarrow> i \<le> length p \<Longrightarrow> cut_text br = take start p \<Longrightarrow> join_bars (split_loop p i start depth br) = p"
proof (induction p i start depth br rule: split_loop.induct)
  case (1 p i start depth br)
  let ?seg = "take (i - start) (drop start p)"
  have seg: "cut_text br @ ?seg = take i p"
    using "1.prems" by (metis append_take_drop_id le_add_diff_inverse take_add)
  show ?case
  proof (cases "i = length p")
    case True
    then have "split_loop p i start depth br = br @ [?seg]"
      by (subst split_loop.simps) (simp add: split_loop.simps [of p "Suc (length p)"])
    then show ?thesis using seg True by (simp add: join_bars_cut)
  next
    case False
    then have i: "i < length p" "\<not> length p < i" using "1.prems" by auto
    have cut: "cut_text (br @ [?seg]) = take (i + 1) p" if "p ! i = CHR ''|''"
      using seg that i by (simp add: cut_text_def take_Suc_conv_app_nth)
    have e: "i \<le> (case class_span p i 0 False of (e, _) \<Rightarrow> if e = 0 then length p else e)"
      "(case class_span p i 0 False of (e, _) \<Rightarrow> if e = 0 then length p else e) \<le> length p"
      using i(1) by (auto split: prod.split dest: class_span_forward class_span_end)
    show ?thesis
      using "1.IH" "1.prems" i False cut e by (subst split_loop.simps) auto
  qed
qed

lemma split_alternation_join:
  "sublimation_search_split_alternation alloc_ok pattern = Some br \<Longrightarrow> join_bars br = c_string pattern \<and> 2 \<le> length br"
  using split_loop_join [of 0 0 "c_string pattern" "[]" 0]
  by (auto simp: sublimation_search_split_alternation_def cut_text_def Let_def split: if_splits)

end
