(* ===== verification/Trace_Log.thy ===== *)
theory Trace_Log
  imports Ieee
begin

text \<open>
  The binary trace log: its layout (\<open>include/model/TraceBinary.hpp\<close>), the writer of the trace collector
  (\<open>src/collectors/BpfTraceCollector.cpp\<close>: \<open>set_binary_output\<close>, \<open>set_stream_output\<close>, \<open>trace_append\<close>, \<open>trace_flush\<close> and the records it
  appends itself), and the reader (\<open>TraceReader\<close>). Structs are their little-endian bytes without padding
  holes. What \<open>write\<close> will return is a list of counts, 0 for an error; past its end writes are complete.
\<close>

section \<open>Little-endian numbers\<close>

definition le_bytes :: "nat \<Rightarrow> nat \<Rightarrow> string" where
  "le_bytes k v = map (\<lambda>i. char_of (v div 256 ^ i)) [0..<k]"

primrec le_val :: "string \<Rightarrow> nat" where
  "le_val [] = 0"
| "le_val (c # s) = byte c + 256 * le_val s"

definition le32 :: "u32 \<Rightarrow> string" where
  "le32 w = le_bytes 4 (unat w)"

definition le64 :: "u64 \<Rightarrow> string" where
  "le64 w = le_bytes 8 (unat w)"

lemma le_bytes_length [simp]: "length (le_bytes k v) = k"
  by (simp add: le_bytes_def)

lemma le_bytes_Suc: "le_bytes (Suc k) v = char_of v # le_bytes k (v div 256)"
proof -
  have "[0..<Suc k] = 0 # map Suc [0..<k]" by (simp add: map_Suc_upt upt_conv_Cons del: upt_Suc)
  then show ?thesis by (simp add: le_bytes_def div_mult2_eq del: upt_Suc)
qed

lemma le_val_bytes: "le_val (le_bytes k v) = v mod 256 ^ k"
proof (induction k arbitrary: v)
  case (Suc k)
  have "v mod 256 + 256 * (v div 256 mod 256 ^ k) = v mod (256 * 256 ^ k)" by (simp add: mod_mult2_eq)
  then show ?case using Suc.IH by (simp add: le_bytes_Suc byte_def)
qed (simp add: le_bytes_def)

lemma le_lengths [simp]: "length (le32 a) = 4" "length (le64 b) = 8"
  by (simp_all add: le32_def le64_def)

lemma le_vals [simp]: "le_val (le32 a) = unat a" "le_val (le64 b) = unat b"
proof -
  have "unat a < 256 ^ 4" by (rule order_less_le_trans [OF unsigned_less]) simp
  then show "le_val (le32 a) = unat a" by (simp add: le32_def le_val_bytes)
  have "unat b < 256 ^ 8" by (rule order_less_le_trans [OF unsigned_less]) simp
  then show "le_val (le64 b) = unat b" by (simp add: le64_def le_val_bytes)
qed

section \<open>The layout\<close>

definition kTraceMagic :: string where
  "kTraceMagic = ''MTKTRACE''"

definition kTraceFormatVersion :: u32 where
  "kTraceFormatVersion = 1"

record TraceFileHeader =
  th_magic :: string
  th_version :: u32
  th_flags :: u32
  th_mono_anchor_ns :: u64
  th_real_anchor_ns :: u64
  th_pattern :: string

definition header_bytes :: "TraceFileHeader \<Rightarrow> string" where
  "header_bytes h = th_magic h @ le32 (th_version h) @ le32 (th_flags h) @ le64 (th_mono_anchor_ns h) @ le64 (th_real_anchor_ns h) @ th_pattern h"

definition header_of :: "string \<Rightarrow> TraceFileHeader" where
  "header_of s = \<lparr>th_magic = take 8 s, th_version = word_of_nat (le_val (take 4 (drop 8 s))), th_flags = word_of_nat (le_val (take 4 (drop 12 s))),
     th_mono_anchor_ns = word_of_nat (le_val (take 8 (drop 16 s))), th_real_anchor_ns = word_of_nat (le_val (take 8 (drop 24 s))),
     th_pattern = take 32 (drop 32 s)\<rparr>"

text \<open>\<open>snprintf\<close> of a C string into a zeroed field.\<close>

definition char_field :: "nat \<Rightarrow> string \<Rightarrow> string" where
  "char_field n s = (let t = take (n - 1) (c_str s) in t @ replicate (n - length t) NUL)"

section \<open>The writer\<close>

definition kTraceFlushThreshold :: nat where
  "kTraceFlushThreshold = 256 * 1024"

record trace_writer =
  tw_trace_fd :: bool
  tw_file :: string
  tw_writes :: "nat list"
  tw_buf :: string
  tw_stream_fd :: bool
  tw_stream :: string
  tw_stream_writes :: "nat list"
  tw_stream_buf :: string
  tw_attempted :: u64
  tw_errors :: u64
  tw_lost_bytes :: u64

definition trace_writer_new :: trace_writer where
  "trace_writer_new = \<lparr>tw_trace_fd = False, tw_file = [], tw_writes = [], tw_buf = [], tw_stream_fd = False, tw_stream = [], tw_stream_writes = [],
     tw_stream_buf = [], tw_attempted = 0, tw_errors = 0, tw_lost_bytes = 0\<rparr>"

text \<open>The write loop: the bytes that landed, the bytes dropped, the results left.\<close>

fun write_loop :: "string \<Rightarrow> nat list \<Rightarrow> string \<times> string \<times> nat list" where
  "write_loop [] ws = ([], [], ws)"
| "write_loop buf [] = (buf, [], [])"
| "write_loop buf (n # ws) =
     (if n = 0 then ([], buf, ws) else case write_loop (drop n buf) ws of (out, lost, ws) \<Rightarrow> (take n buf @ out, lost, ws))"

definition trace_header :: "string \<Rightarrow> u64 \<Rightarrow> u64 \<Rightarrow> TraceFileHeader" where
  "trace_header pattern mono_ns real_ns = \<lparr>th_magic = kTraceMagic, th_version = kTraceFormatVersion, th_flags = 0,
     th_mono_anchor_ns = mono_ns, th_real_anchor_ns = real_ns, th_pattern = char_field 32 pattern\<rparr>"

definition set_binary_output :: "string \<Rightarrow> bool \<Rightarrow> string \<Rightarrow> u64 \<Rightarrow> u64 \<Rightarrow> trace_writer \<Rightarrow> trace_writer" where
  "set_binary_output path open_ok pattern mono_ns real_ns w =
     (if path = [] \<or> \<not> open_ok then w
      else case write_loop (header_bytes (trace_header pattern mono_ns real_ns)) (tw_writes w) of
          (out, lost, ws) \<Rightarrow> (let w = w\<lparr>tw_file := out, tw_writes := ws\<rparr> in if lost = [] then w\<lparr>tw_trace_fd := True\<rparr> else w))"

definition set_stream_output :: "string \<Rightarrow> bool \<Rightarrow> string \<Rightarrow> u64 \<Rightarrow> u64 \<Rightarrow> trace_writer \<Rightarrow> trace_writer" where
  "set_stream_output path open_ok pattern mono_ns real_ns w =
     (if path = [] \<or> \<not> open_ok then w
      else case write_loop (header_bytes (trace_header pattern mono_ns real_ns)) (tw_stream_writes w) of
          (out, lost, ws) \<Rightarrow> (let w = w\<lparr>tw_stream := tw_stream w @ out, tw_stream_writes := ws\<rparr> in if lost = [] then w\<lparr>tw_stream_fd := True\<rparr> else w))"

definition trace_flush :: "trace_writer \<Rightarrow> trace_writer" where
  "trace_flush w =
     (let w = (if tw_trace_fd w \<and> tw_buf w \<noteq> []
        then case write_loop (tw_buf w) (tw_writes w) of (out, lost, ws) \<Rightarrow>
            let w = w\<lparr>tw_file := tw_file w @ out, tw_writes := ws, tw_buf := []\<rparr>
            in if lost = [] then w else w\<lparr>tw_errors := tw_errors w + 1, tw_lost_bytes := tw_lost_bytes w + word_of_nat (length lost)\<rparr>
        else w)
      in if tw_stream_fd w \<and> tw_stream_buf w \<noteq> []
         then case write_loop (tw_stream_buf w) (tw_stream_writes w) of (out, lost, ws) \<Rightarrow>
             w\<lparr>tw_stream := tw_stream w @ out, tw_stream_writes := ws, tw_stream_buf := []\<rparr>
         else w)"

definition record_bytes :: "string \<Rightarrow> string" where
  "record_bytes payload = le32 (word_of_nat (length payload)) @ payload"

definition trace_append :: "string \<Rightarrow> trace_writer \<Rightarrow> trace_writer" where
  "trace_append payload w =
     (if \<not> tw_trace_fd w \<and> \<not> tw_stream_fd w then w
      else let w = (if tw_trace_fd w
             then let w = w\<lparr>tw_attempted := tw_attempted w + 1, tw_buf := tw_buf w @ record_bytes payload\<rparr>
               in if kTraceFlushThreshold \<le> length (tw_buf w) then trace_flush w else w
             else w)
        in if tw_stream_fd w then w\<lparr>tw_stream_buf := tw_stream_buf w @ record_bytes payload\<rparr> else w)"

text \<open>The record of one provider's text.\<close>

definition provider_record :: "u64 \<Rightarrow> string \<Rightarrow> string \<Rightarrow> string" where
  "provider_record now name raw_text =
     le32 11 @ le32 0 @ le64 now @ char_field 32 name @ le32 (word_of_nat (length raw_text)) @ le32 0 @ raw_text"

definition append_provider_snapshots :: "u64 \<Rightarrow> (string \<times> string) list \<Rightarrow> trace_writer \<Rightarrow> trace_writer" where
  "append_provider_snapshots now provs w = fold (\<lambda>(name, raw_text). trace_append (provider_record now name raw_text)) provs w"

text \<open>The drop snapshot: one counter per event type, summed over the processors; a failed lookup leaves 0. The totals of
  the last snapshot are the state.\<close>

definition drop_record :: "u64 \<Rightarrow> u64 list \<Rightarrow> trace_writer \<Rightarrow> string" where
  "drop_record now dropped w = le32 20 @ le32 0 @ le64 now @ concat (map le64 dropped) @ le64 (tw_attempted w) @ le64 (tw_errors w) @ le64 (tw_lost_bytes w)"

definition append_drop_snapshot :: "bool \<Rightarrow> u64 \<Rightarrow> u64 list option list \<Rightarrow> (u64 \<times> u64) \<times> trace_writer \<Rightarrow> (u64 \<times> u64) \<times> trace_writer" where
  "append_drop_snapshot force now slots s =
     (case s of ((last_total, last_werr), w) \<Rightarrow>
        if \<not> tw_trace_fd w \<and> \<not> tw_stream_fd w then s
        else let dropped = map (\<lambda>sl. case sl of None \<Rightarrow> 0 | Some per \<Rightarrow> sum_list per) slots; tot = sum_list dropped
          in if \<not> force \<and> tot = last_total \<and> tw_errors w = last_werr then s
             else ((tot, tw_errors w), trace_append (drop_record now dropped w) w))"

section \<open>The reader\<close>

definition kTraceMaxRecordLen :: nat where
  "kTraceMaxRecordLen = 2 ^ 20"

datatype TraceReadStatus = ReadOk | OpenFailed | ShortHeader | BadMagic | BadVersion | CorruptLength | TruncatedRecord

text \<open>The bytes not read yet (\<open>None\<close> when closed), the bytes of the header, and the two counters.\<close>

record TraceReader =
  tr_f :: "string option"
  tr_hdr :: string
  tr_n_events :: u64
  tr_corrupt_len :: u32

definition reader_new :: TraceReader where
  "reader_new = \<lparr>tr_f = None, tr_hdr = replicate 64 NUL, tr_n_events = 0, tr_corrupt_len = 0\<rparr>"

definition reader_close :: "TraceReader \<Rightarrow> TraceReader" where
  "reader_close r = r\<lparr>tr_f := None\<rparr>"

definition reader_header :: "TraceReader \<Rightarrow> TraceFileHeader" where
  "reader_header r = header_of (tr_hdr r)"

definition reader_open :: "string option \<Rightarrow> TraceReader \<Rightarrow> TraceReadStatus \<times> TraceReader" where
  "reader_open file r =
     (let r = (reader_close r)\<lparr>tr_n_events := 0, tr_corrupt_len := 0\<rparr>
      in case file of
          None \<Rightarrow> (OpenFailed, r)
        | Some s \<Rightarrow>
            let r = r\<lparr>tr_f := Some (drop 64 s), tr_hdr := take 64 s @ drop (length s) (tr_hdr r)\<rparr>
            in if length s < 64 then (ShortHeader, reader_close r)
               else if th_magic (reader_header r) \<noteq> kTraceMagic then (BadMagic, reader_close r)
               else if th_version (reader_header r) \<noteq> kTraceFormatVersion then (BadVersion, r)
               else (ReadOk, r))"

definition to_wall_ns :: "TraceReader \<Rightarrow> u64 \<Rightarrow> u64" where
  "to_wall_ns r ts = th_real_anchor_ns (reader_header r) + (ts - th_mono_anchor_ns (reader_header r))"

definition elapsed_ms :: "TraceReader \<Rightarrow> u64 \<Rightarrow> dbl" where
  "elapsed_ms r ts = d_div (d_of_int (uint (ts - th_mono_anchor_ns (reader_header r)))) (Num 1000000)"

text \<open>The records visited: type and payload.\<close>

function for_each_loop :: "string \<Rightarrow> u64 \<Rightarrow> TraceReadStatus \<times> (u32 \<times> string) list \<times> string \<times> u64 \<times> u32" where
  "for_each_loop s n =
     (if length s < 4 then (ReadOk, [], [], n, 0)
      else let len = le_val (take 4 s)
        in if len < 4 \<or> kTraceMaxRecordLen < len then (CorruptLength, [], drop 4 s, n, word_of_nat len)
           else if length s < 4 + len then (TruncatedRecord, [], [], n, 0)
           else let rec = take len (drop 4 s)
             in case for_each_loop (drop (4 + len) s) (n + 1) of
                 (st, evs, rest, n, c) \<Rightarrow> (st, (word_of_nat (le_val (take 4 rec)), rec) # evs, rest, n, c))"
  by pat_completeness auto
termination by (relation "measure (\<lambda>(s, _). length s)") auto

declare for_each_loop.simps [simp del]

definition for_each :: "TraceReader \<Rightarrow> TraceReadStatus \<times> (u32 \<times> string) list \<times> TraceReader" where
  "for_each r =
     (case for_each_loop (case tr_f r of None \<Rightarrow> [] | Some s \<Rightarrow> s) (tr_n_events r) of
        (st, evs, rest, n, c) \<Rightarrow>
          (st, evs, r\<lparr>tr_f := Some rest, tr_n_events := n, tr_corrupt_len := (if st = CorruptLength then c else tr_corrupt_len r)\<rparr>))"

section \<open>The header\<close>

lemma le_val_append: "le_val (s @ t) = le_val s + 256 ^ length s * le_val t"
  by (induction s) (simp_all add: algebra_simps)

lemma char_field_length [simp]: "0 < n \<Longrightarrow> length (char_field n s) = n"
  by (simp add: char_field_def Let_def)

lemma char_field_text: "0 < n \<Longrightarrow> c_str (char_field n s) = take (n - 1) (c_str s)"
proof -
  assume n: "0 < n"
  let ?t = "take (n - 1) (c_str s)"
  have "NUL \<notin> set (c_str s)" by (auto simp: c_str_def dest: set_takeWhileD)
  then have "NUL \<notin> set ?t" by (meson in_set_takeD)
  then have "takeWhile (\<lambda>c. c \<noteq> NUL) (?t @ replicate (n - length ?t) NUL) = ?t @ takeWhile (\<lambda>c. c \<noteq> NUL) (replicate (n - length ?t) NUL)"
    by (intro takeWhile_append2) auto
  then show ?thesis by (simp add: char_field_def c_str_def [of "char_field n s"] Let_def c_str_def [of "_ @ _"])
qed

lemma header_bytes_length: "length (th_magic h) = 8 \<Longrightarrow> length (th_pattern h) = 32 \<Longrightarrow> length (header_bytes h) = 64"
  by (simp add: header_bytes_def)

lemma header_of_bytes:
  assumes "length (th_magic h) = 8" "length (th_pattern h) = 32"
  shows "header_of (header_bytes h @ s) = h"
  using assms by (cases h) (simp add: header_of_def header_bytes_def)

lemma trace_header_lengths [simp]: "length (th_magic (trace_header p m r)) = 8" "length (th_pattern (trace_header p m r)) = 32"
  by (simp_all add: trace_header_def kTraceMagic_def)

lemma reader_open_log:
  assumes "64 \<le> k" "length (tr_hdr rd) = 64"
  shows "reader_open (Some (take k (header_bytes (trace_header p m r) @ s))) rd =
    (ReadOk, rd\<lparr>tr_f := Some (take (k - 64) s), tr_n_events := 0, tr_corrupt_len := 0, tr_hdr := header_bytes (trace_header p m r)\<rparr>)"
proof -
  have h: "length (header_bytes (trace_header p m r)) = 64" by (simp add: header_bytes_length)
  have "header_of (header_bytes (trace_header p m r)) = trace_header p m r"
    using header_of_bytes [of "trace_header p m r" "[]"] by simp
  then show ?thesis using h assms
    by (simp add: reader_open_def reader_close_def reader_header_def trace_header_def kTraceMagic_def kTraceFormatVersion_def Let_def)
qed

lemma reader_open_whole:
  assumes "length (tr_hdr rd) = 64"
  shows "reader_open (Some (header_bytes (trace_header p m r) @ s)) rd =
    (ReadOk, rd\<lparr>tr_f := Some s, tr_n_events := 0, tr_corrupt_len := 0, tr_hdr := header_bytes (trace_header p m r)\<rparr>)"
proof -
  have "length (header_bytes (trace_header p m r)) = 64" by (simp add: header_bytes_length)
  then show ?thesis using reader_open_log [OF _ assms, of "64 + length s" p m r s] by simp
qed

section \<open>Reading a log\<close>

definition log_of :: "string list \<Rightarrow> string" where
  "log_of ps = concat (map record_bytes ps)"

text \<open>A payload the reader takes, and the event it reports.\<close>

definition readable :: "string \<Rightarrow> bool" where
  "readable p \<longleftrightarrow> 4 \<le> length p \<and> length p \<le> kTraceMaxRecordLen"

definition event_of :: "string \<Rightarrow> u32 \<times> string" where
  "event_of p = (word_of_nat (le_val (take 4 p)), p)"

lemma log_of_simps [simp]: "log_of [] = []" "log_of (p # ps) = record_bytes p @ log_of ps" "log_of (ps @ qs) = log_of ps @ log_of qs"
  by (simp_all add: log_of_def)

lemma record_bytes_length [simp]: "length (record_bytes p) = 4 + length p"
  by (simp add: record_bytes_def)

lemma record_len: "length p < 2 ^ 32 \<Longrightarrow> le_val (take 4 (record_bytes p @ s)) = length p"
  by (simp add: record_bytes_def unsigned_of_nat take_bit_nat_eq_self)

lemma readable_less: "readable p \<Longrightarrow> length p < 2 ^ 32"
  by (simp add: readable_def kTraceMaxRecordLen_def)

lemma read_record:
  assumes "readable p"
  shows "for_each_loop (record_bytes p @ s) n =
    (case for_each_loop s (n + 1) of (st, evs, rest, n, c) \<Rightarrow> (st, event_of p # evs, rest, n, c))"
proof -
  have "drop 4 (record_bytes p @ s) = p @ s" "drop (4 + length p) (record_bytes p @ s) = s" by (simp_all add: record_bytes_def)
  then show ?thesis using assms record_len [OF readable_less [OF assms], of s]
    by (subst for_each_loop.simps) (simp add: readable_def event_of_def)
qed

lemma read_empty [simp]: "for_each_loop [] n = (ReadOk, [], [], n, 0)"
  by (simp add: for_each_loop.simps)

lemma read_log: "\<forall>p \<in> set ps. readable p \<Longrightarrow> for_each_loop (log_of ps @ s) n =
    (case for_each_loop s (n + word_of_nat (length ps)) of (st, evs, rest, n, c) \<Rightarrow> (st, map event_of ps @ evs, rest, n, c))"
proof (induction ps arbitrary: n)
  case (Cons p ps)
  then show ?case by (simp add: read_record ac_simps split: prod.splits)
qed simp

lemma read_unreadable:
  assumes "\<not> readable p" "length p < 2 ^ 32"
  shows "for_each_loop (record_bytes p @ s) n = (CorruptLength, [], p @ s, n, word_of_nat (length p))"
  using assms record_len [OF assms(2), of s] by (subst for_each_loop.simps) (auto simp: readable_def record_bytes_def)

text \<open>A record cut short.\<close>

lemma read_cut:
  assumes "readable p" "k < length (record_bytes p)"
  shows "for_each_loop (take k (record_bytes p)) n = (if k < 4 then ReadOk else TruncatedRecord, [], [], n, 0)"
proof (cases "k < 4")
  case True
  then show ?thesis by (simp add: for_each_loop.simps)
next
  case False
  then have "le_val (take 4 (take k (record_bytes p))) = length p"
    using record_len [OF readable_less [OF assms(1)], of "[]"] by (simp add: min_def)
  then show ?thesis using assms False by (subst for_each_loop.simps) (auto simp: readable_def)
qed

text \<open>The payloads wholly within the first \<open>k\<close> bytes.\<close>

fun whole_within :: "nat \<Rightarrow> string list \<Rightarrow> string list" where
  "whole_within k [] = []"
| "whole_within k (p # ps) = (if k < length (record_bytes p) then [] else p # whole_within (k - length (record_bytes p)) ps)"

lemma whole_within_prefix: "prefix (whole_within k ps) ps"
  by (induction k ps rule: whole_within.induct) auto

lemma whole_within_all: "length (log_of ps) \<le> k \<Longrightarrow> whole_within k ps = ps"
  by (induction k ps rule: whole_within.induct) auto

lemma read_cut_log:
  assumes "\<forall>p \<in> set ps. readable p"
  shows "\<exists>st rest n' c. for_each_loop (take k (log_of ps)) n = (st, map event_of (whole_within k ps), rest, n', c) \<and>
    (st = ReadOk \<or> st = TruncatedRecord) \<and> (length (log_of ps) \<le> k \<longrightarrow> st = ReadOk)"
  using assms
proof (induction k ps arbitrary: n rule: whole_within.induct)
  case (2 k p ps)
  show ?case
  proof (cases "k < length (record_bytes p)")
    case True
    then show ?thesis using 2 read_cut [of p k n] by (auto split: if_splits)
  next
    case False
    from 2(1) [OF this, of "n + 1"] 2(2) False show ?thesis by (auto simp: read_record)
  qed
qed auto

section \<open>Writing a log\<close>

lemma write_loop_whole: "0 \<notin> set ws \<Longrightarrow> \<exists>ws'. write_loop buf ws = (buf, [], ws') \<and> 0 \<notin> set ws'"
proof (induction buf ws rule: write_loop.induct)
  case (3 b buf n ws)
  then show ?case by (fastforce split: prod.splits)
qed auto

text \<open>A run of the collector's trace path.\<close>

datatype trace_op = Append string | Flush

definition trace_run :: "trace_op list \<Rightarrow> trace_writer \<Rightarrow> trace_writer" where
  "trace_run ops w = fold (\<lambda>x w. case x of Append p \<Rightarrow> trace_append p w | Flush \<Rightarrow> trace_flush w) ops w"

definition appended :: "trace_op list \<Rightarrow> string list" where
  "appended ops = concat (map (\<lambda>x. case x of Append p \<Rightarrow> [p] | Flush \<Rightarrow> []) ops)"

text \<open>What the file and the buffer hold while no write fails.\<close>

definition writing :: "string \<Rightarrow> trace_writer \<Rightarrow> bool" where
  "writing bytes w \<longleftrightarrow> tw_trace_fd w \<and> 0 \<notin> set (tw_writes w) \<and> tw_file w @ tw_buf w = bytes"

lemma flush_writing: "writing bytes w \<Longrightarrow> writing bytes (trace_flush w) \<and> tw_file (trace_flush w) = bytes"
  using write_loop_whole [of "tw_writes w" "tw_buf w"]
  by (auto simp: writing_def trace_flush_def Let_def split: prod.splits)

lemma append_writing: "writing bytes w \<Longrightarrow> writing (bytes @ record_bytes p) (trace_append p w)"
proof -
  assume w: "writing bytes w"
  let ?w = "w\<lparr>tw_attempted := tw_attempted w + 1, tw_buf := tw_buf w @ record_bytes p\<rparr>"
  let ?f = "if kTraceFlushThreshold \<le> length (tw_buf ?w) then trace_flush ?w else ?w"
  have "writing (bytes @ record_bytes p) ?w" using w by (auto simp: writing_def)
  then have "writing (bytes @ record_bytes p) ?f" using flush_writing by auto
  moreover have "trace_append p w = (if tw_stream_fd ?f then ?f\<lparr>tw_stream_buf := tw_stream_buf ?f @ record_bytes p\<rparr> else ?f)"
    using w by (simp add: trace_append_def Let_def writing_def)
  ultimately show ?thesis by (auto simp: writing_def)
qed

lemma run_writing: "writing bytes w \<Longrightarrow> writing (bytes @ log_of (appended ops)) (trace_run ops w)"
proof (induction ops arbitrary: bytes w)
  case (Cons x ops)
  show ?case
  proof (cases x)
    case (Append p)
    then show ?thesis using Cons.IH [OF append_writing [OF Cons.prems, of p]] by (simp add: trace_run_def appended_def)
  next
    case Flush
    then show ?thesis using Cons.IH [of bytes "trace_flush w"] flush_writing [OF Cons.prems] by (simp add: trace_run_def appended_def)
  qed
qed (simp add: trace_run_def appended_def)

lemma opened_writing:
  assumes "path \<noteq> []" "0 \<notin> set (tw_writes w)" "tw_buf w = []"
  shows "writing (header_bytes (trace_header pattern mono_ns real_ns)) (set_binary_output path True pattern mono_ns real_ns w)"
  using assms write_loop_whole [of "tw_writes w" "header_bytes (trace_header pattern mono_ns real_ns)"]
  by (auto simp: set_binary_output_def writing_def Let_def split: prod.splits)

section \<open>What a log read back gives\<close>

lemma for_each_open:
  "for_each_loop s 0 = (st, evs, rest, n, c) \<Longrightarrow> tr_f r = Some s \<Longrightarrow> tr_n_events r = 0 \<Longrightarrow>
    fst (for_each r) = st \<and> fst (snd (for_each r)) = evs"
  by (simp add: for_each_def)

text \<open>C23: as long as no write fails, however the writes are split, the bytes on disk at any moment of a trace, cut at any
  point behind the header, open with the header written and read back as the first events of the run, the ones
  whose records lie within the cut, with a clean end or a truncated record and never a corrupt one; after a
  last flush the whole log reads back as all events.\<close>

theorem trace_log_survives_cut:
  assumes "path \<noteq> []" "0 \<notin> set (tw_writes w)" "tw_buf w = []" "\<forall>p \<in> set (appended ops). readable p"
    and w': "w' = trace_run ops (set_binary_output path True pattern mono_ns real_ns w)"
  shows "(\<forall>k. 64 \<le> k \<and> k \<le> length (tw_file w') \<longrightarrow>
      (case reader_open (Some (take k (tw_file w'))) reader_new of (st, r) \<Rightarrow>
        st = ReadOk \<and> reader_header r = trace_header pattern mono_ns real_ns \<and> fst (for_each r) \<in> {ReadOk, TruncatedRecord} \<and>
        fst (snd (for_each r)) = map event_of (whole_within (k - 64) (appended ops)))) \<and>
    (case reader_open (Some (tw_file (trace_flush w'))) reader_new of (st, r) \<Rightarrow>
        st = ReadOk \<and> fst (for_each r) = ReadOk \<and> fst (snd (for_each r)) = map event_of (appended ops))"
proof (intro conjI)
  let ?h = "header_bytes (trace_header pattern mono_ns real_ns)" and ?l = "log_of (appended ops)"
  have hl: "length ?h = 64" by (simp add: header_bytes_length)
  have hd: "header_of ?h = trace_header pattern mono_ns real_ns" using header_of_bytes [of "trace_header pattern mono_ns real_ns" "[]"] by simp
  have new: "length (tr_hdr reader_new) = 64" by (simp add: reader_new_def)
  have wr: "writing (?h @ ?l) w'" unfolding w' by (intro run_writing opened_writing assms(1-3))
  then have pre: "take k (tw_file w') = take k (?h @ ?l)" if "k \<le> length (tw_file w')" for k
    using that by (auto simp: writing_def) (metis append_take_drop_id take_append diff_is_0_eq take_0 append_Nil2)
  show "\<forall>k. 64 \<le> k \<and> k \<le> length (tw_file w') \<longrightarrow>
      (case reader_open (Some (take k (tw_file w'))) reader_new of (st, r) \<Rightarrow>
        st = ReadOk \<and> reader_header r = trace_header pattern mono_ns real_ns \<and> fst (for_each r) \<in> {ReadOk, TruncatedRecord} \<and>
        fst (snd (for_each r)) = map event_of (whole_within (k - 64) (appended ops)))"
  proof (intro allI impI)
    fix k assume k: "64 \<le> k \<and> k \<le> length (tw_file w')"
    obtain st rest n' c where l: "for_each_loop (take (k - 64) ?l) 0 = (st, map event_of (whole_within (k - 64) (appended ops)), rest, n', c)"
        "st = ReadOk \<or> st = TruncatedRecord"
      using read_cut_log [OF assms(4), of "k - 64" 0] by blast
    show "case reader_open (Some (take k (tw_file w'))) reader_new of (st, r) \<Rightarrow>
        st = ReadOk \<and> reader_header r = trace_header pattern mono_ns real_ns \<and> fst (for_each r) \<in> {ReadOk, TruncatedRecord} \<and>
        fst (snd (for_each r)) = map event_of (whole_within (k - 64) (appended ops))"
      using pre [of k] k reader_open_log [OF _ new, of k] for_each_open [OF l(1)] l(2) hd by (auto simp: reader_header_def)
  qed
  have all: "tw_file (trace_flush w') = ?h @ ?l" using flush_writing [OF wr] by simp
  obtain st rest n' c where l: "for_each_loop ?l 0 = (st, map event_of (appended ops), rest, n', c)" "st = ReadOk"
    using read_cut_log [OF assms(4), of "length ?l" 0] by (auto simp: whole_within_all)
  show "case reader_open (Some (tw_file (trace_flush w'))) reader_new of (st, r) \<Rightarrow>
        st = ReadOk \<and> fst (for_each r) = ReadOk \<and> fst (snd (for_each r)) = map event_of (appended ops)"
    using for_each_open [OF l(1)] l(2) by (simp add: all reader_open_whole [OF new])
qed

text \<open>The writer puts a provider's text into one record whatever its size, but the reader takes a length above one
  mebibyte for corruption: it reports the events before that record and none of those behind it.\<close>

theorem provider_record_ends_log:
  assumes "\<forall>p \<in> set ps. readable p" "2 ^ 20 < length raw_text" "length raw_text < 2 ^ 31"
  shows "\<exists>rest n c. for_each_loop (log_of (ps @ provider_record now name raw_text # qs)) 0 = (CorruptLength, map event_of ps, rest, n, c)"
proof -
  let ?p = "provider_record now name raw_text"
  have "length ?p = 56 + length raw_text" by (simp add: provider_record_def)
  then have "\<not> readable ?p" "length ?p < 2 ^ 32" using assms by (simp_all add: readable_def kTraceMaxRecordLen_def)
  from read_unreadable [OF this] show ?thesis using read_log [OF assms(1), of "log_of (?p # qs)" 0] by simp
qed

lemma trace_log_survives_cut_witness:
  "appended [Append ''abcd'', Flush, Append ''efghi''] = [''abcd'', ''efghi''] \<and>
   (case reader_open (Some (tw_file (trace_flush (trace_run [Append ''abcd'', Flush, Append ''efghi''] (set_binary_output ''x'' True ''p'' 1 2 trace_writer_new)))))
      reader_new of (st, r) \<Rightarrow> fst (snd (for_each r)) = map event_of [''abcd'', ''efghi''])"
proof -
  have a: "appended [Append ''abcd'', Flush, Append ''efghi''] = [''abcd'', ''efghi'']" by (simp add: appended_def)
  have "\<forall>p \<in> set (appended [Append ''abcd'', Flush, Append ''efghi'']). readable p" by (simp add: a readable_def kTraceMaxRecordLen_def)
  from trace_log_survives_cut [OF _ _ _ this refl, of "''x''" trace_writer_new "''p''" 1 2] show ?thesis
    by (auto simp: trace_writer_new_def a split: prod.splits)
qed

lemma provider_record_ends_log_witness:
  "\<exists>rest n c. for_each_loop (log_of ([''abcd''] @ provider_record 0 ''p'' (replicate (2 ^ 20 + 1) NUL) # [''efgh''])) 0 = (CorruptLength, map event_of [''abcd''], rest, n, c)"
  by (rule provider_record_ends_log) (simp_all add: readable_def kTraceMaxRecordLen_def)

text \<open>Nothing is kept of a flush that fails within a record, but what follows is written behind its head.\<close>

lemma flush_torn:
  assumes "tw_trace_fd w" "\<not> tw_stream_fd w" "tw_writes w = [n, 0]" "0 < n" "n < length (tw_buf w)"
  shows "trace_flush w = w\<lparr>tw_file := tw_file w @ take n (tw_buf w), tw_writes := [], tw_buf := [], tw_errors := tw_errors w + 1,
    tw_lost_bytes := tw_lost_bytes w + word_of_nat (length (tw_buf w) - n)\<rparr>"
proof -
  obtain b buf where b: "tw_buf w = b # buf" using assms(5) by (cases "tw_buf w") auto
  obtain d dbuf where d: "drop n (tw_buf w) = d # dbuf" using assms(5) by (cases "drop n (tw_buf w)") auto
  have "write_loop (tw_buf w) (tw_writes w) = (take n (tw_buf w), drop n (tw_buf w), [])"
    using assms(3,4) d unfolding b by simp
  then show ?thesis using assms b by (auto simp: trace_flush_def Let_def)
qed

text \<open>C24: after a write that fails within a record the log is out of step: the buffer is dropped, the next record is
  written behind the head of the torn one, and the reader reports an event no one appended, made of the head of the one
  and the length and the head of the other.\<close>

theorem torn_write_misread:
  assumes "path \<noteq> []" "tw_writes w = [64, n, 0]" "tw_buf w = []" "\<not> tw_stream_fd w"
    and "4 \<le> length a" "length (record_bytes a) < kTraceFlushThreshold" "4 \<le> n" "n < 4 + length a"
    and "readable b" "length (record_bytes b) < kTraceFlushThreshold" "length a \<le> n + length b"
    and w': "w' = trace_run [Append a, Flush, Append b, Flush] (set_binary_output path True pattern mono_ns real_ns w)"
  shows "tw_lost_bytes w' = tw_lost_bytes w + word_of_nat (4 + length a - n) \<and>
    (case reader_open (Some (tw_file w')) reader_new of (st, r) \<Rightarrow>
       st = ReadOk \<and> (\<exists>evs. fst (snd (for_each r)) = event_of (take (n - 4) a @ take (length a - (n - 4)) (record_bytes b)) # evs))"
proof -
  let ?h = "header_bytes (trace_header pattern mono_ns real_ns)"
  have hl: "length ?h = 64" by (simp add: header_bytes_length)
  have new: "length (tr_hdr reader_new) = 64" by (simp add: reader_new_def)
  define w1 where "w1 = w\<lparr>tw_file := ?h, tw_writes := [n, 0], tw_trace_fd := True\<rparr>"
  have "?h \<noteq> []" using hl by force
  then have "write_loop ?h [64, n, 0] = (?h, [], [n, 0])" using hl by (cases ?h) auto
  then have o: "set_binary_output path True pattern mono_ns real_ns w = w1" using assms(1,2) by (simp add: set_binary_output_def w1_def)
  define w2 where "w2 = w1\<lparr>tw_attempted := tw_attempted w1 + 1, tw_buf := record_bytes a\<rparr>"
  have a2: "trace_append a w1 = w2" using assms(3,4,6) by (simp add: trace_append_def w1_def w2_def Let_def not_le)
  define w3 where "w3 = w2\<lparr>tw_file := ?h @ take n (record_bytes a), tw_writes := [], tw_buf := [], tw_errors := tw_errors w2 + 1,
    tw_lost_bytes := tw_lost_bytes w2 + word_of_nat (4 + length a - n)\<rparr>"
  have f3: "trace_flush w2 = w3" using assms(4,7,8) flush_torn [of w2 n] by (simp add: w1_def w2_def w3_def)
  define w4 where "w4 = w3\<lparr>tw_attempted := tw_attempted w3 + 1, tw_buf := record_bytes b\<rparr>"
  have a4: "trace_append b w3 = w4" using assms(4,10) by (simp add: trace_append_def w1_def w2_def w3_def w4_def Let_def not_le)
  have nb: "record_bytes b \<noteq> []" by (simp add: record_bytes_def le32_def le_bytes_def)
  have "write_loop (record_bytes b) [] = (record_bytes b, [], [])" by (cases "record_bytes b") auto
  then have f5: "trace_flush w4 = w4\<lparr>tw_file := ?h @ take n (record_bytes a) @ record_bytes b, tw_buf := []\<rparr>"
    using assms(4) nb by (simp add: trace_flush_def w1_def w2_def w3_def w4_def Let_def)
  have w'_eq: "w' = w4\<lparr>tw_file := ?h @ take n (record_bytes a) @ record_bytes b, tw_buf := []\<rparr>"
    unfolding w' trace_run_def by (simp add: o a2 f3 a4 f5)
  let ?s = "take n (record_bytes a) @ record_bytes b"
  have al: "length a < 2 ^ 20" using assms(6) by (simp add: kTraceFlushThreshold_def)
  have t4: "take 4 ?s = take 4 (record_bytes a)" using assms(7) by (simp add: min_def)
  have len: "le_val (take 4 ?s) = length a" unfolding t4 using record_len [of a "[]"] al by simp
  have pay: "take (length a) (drop 4 ?s) = take (n - 4) a @ take (length a - (n - 4)) (record_bytes b)"
    using assms(7,8) by (simp add: record_bytes_def [of a] min_def)
  obtain st evs rest m c where l: "for_each_loop ?s 0 = (st, event_of (take (n - 4) a @ take (length a - (n - 4)) (record_bytes b)) # evs, rest, m, c)"
  proof -
    obtain st evs rest m c where r: "for_each_loop (drop (4 + length a) ?s) (0 + 1) = (st, evs, rest, m, c)" by (metis prod_cases5)
    have "\<not> length ?s < 4" "\<not> (length a < 4 \<or> kTraceMaxRecordLen < length a)" "\<not> length ?s < 4 + length a"
      using assms(5,7,8,11) al by (simp_all add: kTraceMaxRecordLen_def)
    then show thesis using r by (intro that) (subst for_each_loop.simps, simp only: len pay Let_def if_False event_of_def split: prod.split, simp)
  qed
  have f: "tw_file w' = ?h @ ?s" by (simp add: w'_eq)
  have op: "reader_open (Some (tw_file w')) reader_new = (ReadOk, reader_new\<lparr>tr_f := Some ?s, tr_n_events := 0, tr_corrupt_len := 0, tr_hdr := ?h\<rparr>)"
    unfolding f by (rule reader_open_whole [OF new])
  show ?thesis using for_each_open [OF l] by (simp add: op) (simp add: w'_eq w4_def w3_def w2_def w1_def)
qed

lemma torn_write_misread_witness:
  "\<exists>evs. fst (snd (for_each (snd (reader_open (Some (tw_file (trace_run [Append ''aaaaaaaa'', Flush, Append ''bbbbbbbb'', Flush]
      (set_binary_output ''x'' True ''p'' 1 2 (trace_writer_new\<lparr>tw_writes := [64, 5, 0]\<rparr>))))) reader_new)))) =
    event_of (take (5 - 4) ''aaaaaaaa'' @ take (length ''aaaaaaaa'' - (5 - 4)) (record_bytes ''bbbbbbbb'')) # evs"
  using torn_write_misread [OF _ _ _ _ _ _ _ _ _ _ _ refl, of "''x''" "trace_writer_new\<lparr>tw_writes := [64, 5, 0]\<rparr>" 5 "''aaaaaaaa''" "''bbbbbbbb''" "''p''" 1 2]
  by (auto simp: trace_writer_new_def readable_def kTraceMaxRecordLen_def kTraceFlushThreshold_def  split: prod.splits)

end
