(* ===== verification/Security_Scan.thy ===== *)
theory Security_Scan
  imports Text_Lines Model Fs_Collector
begin

text \<open>
  The security heuristics (\<open>src/app/Security.cpp\<close>, \<open>include/app/Security.hpp\<close>, \<open>include/util/AsciiLower.hpp\<close>) over one snapshot: the
  classification of a process, the crash loop and the exfiltration checks, the cap, the order by severity, the
  lines shown, and the section of the system panel they appear in (\<open>section_security\<close> of \<open>SystemPanel.cpp\<close>). Commands
  are matched by the library's literal search; a conversion of a double to \<open>int\<close> is modelled in its range.
\<close>

section \<open>Text helpers\<close>

definition kScanMax :: nat where
  "kScanMax = 512"

definition ascii_lower :: "char \<Rightarrow> char" where
  "ascii_lower c = (if 0x41 \<le> byte c \<and> byte c \<le> 0x5A then char_of (byte c + 32) else c)"

definition to_upper :: "char \<Rightarrow> char" where
  "to_upper c = (if 0x61 \<le> byte c \<and> byte c \<le> 0x7A then char_of (byte c - 32) else c)"

definition to_lower_copy :: "string \<Rightarrow> string" where
  "to_lower_copy s = map ascii_lower (take kScanMax s)"

definition to_upper_copy :: "string \<Rightarrow> string" where
  "to_upper_copy s = map to_upper (take 512 s)"

text \<open>A set of literals, compiled for the folded fixed face.\<close>

definition literal_progs :: "fold_tables \<Rightarrow> string list \<Rightarrow> search list" where
  "literal_progs ft lits = map (\<lambda>l. case sublimation_search_compile ft l True True 0 of Some s \<Rightarrow> s | None \<Rightarrow> search_zero) lits"

definition literal_any :: "fold_tables \<Rightarrow> string list \<Rightarrow> string \<Rightarrow> bool" where
  "literal_any ft lits hay = sublimation_search_selects (literal_progs ft lits) False (take kScanMax hay) False False"

definition kDownloader :: "string list" where "kDownloader = [''curl'', ''wget'']"
definition kPipeToShell :: "string list" where "kPipeToShell = [''| bash'', ''|sh'']"
definition kPython :: "string list" where "kPython = [''python'']"
definition kPyFile :: "string list" where "kPyFile = [''.py'']"
definition kHomePath :: "string list" where "kHomePath = [''/home/'', ''~'']"
definition kAuthProc :: "string list" where "kAuthProc = [''ssh'', ''sudo'', ''login'', ''pam'']"
definition kNetOwner :: "string list" where "kNetOwner = [''ssh'', ''chrome'', ''firefox'', ''rsync'', ''scp'', ''curl'', ''wget'']"

definition strip_deleted_suffix :: "string \<Rightarrow> string" where
  "strip_deleted_suffix pth = (case find_str '' (deleted)'' pth of Some i \<Rightarrow> take i pth | None \<Rightarrow> pth)"

definition has_path_prefix :: "string \<Rightarrow> string \<Rightarrow> bool" where
  "has_path_prefix pth pref \<longleftrightarrow> take (length pref) pth = pref \<or> (pref \<noteq> [] \<and> last pref = CHR ''/'' \<and> pth = butlast pref)"

definition writable_prefixes :: "string list" where
  "writable_prefixes = [''/tmp/'', ''/var/tmp/'', ''/dev/shm/'', ''/run/user/'', ''/home/'']"

definition d_to_int :: "dbl \<Rightarrow> int" where
  "d_to_int d = (case d of Num r \<Rightarrow> if r < 0 then \<lceil>r\<rceil> else \<lfloor>r\<rfloor> | _ \<Rightarrow> 0)"

definition format_rate_bytes :: "dbl \<Rightarrow> string" where
  "format_rate_bytes r =
     (if d_le (Num 1048576) r then dec_int (d_to_int (d_add (d_div r (Num 1048576)) (Num (1 / 2)))) @ ''MB/s''
      else let kb = d_to_int (d_add (d_div r (Num 1024)) (Num (1 / 2))) in dec_int (if kb < 1 then 1 else kb) @ ''KB/s'')"

text \<open>The words an \<open>istringstream\<close> yields.\<close>

lemma get_word_shorter: "get_word s = Some (w, t) \<Longrightarrow> length t < length s"
proof -
  assume "get_word s = Some (w, t)"
  then have d: "dropWhile is_space s \<noteq> []" and t: "t = dropWhile (\<lambda>c. \<not> is_space c) (dropWhile is_space s)"
    by (auto simp: get_word_def Let_def split: if_splits)
  have "length t < length (dropWhile is_space s)"
  proof -
    obtain c u where u: "dropWhile is_space s = c # u" using d by (cases "dropWhile is_space s") auto
    then have "\<not> is_space c" by (metis hd_dropWhile list.discI list.sel(1))
    then have "t = dropWhile (\<lambda>c. \<not> is_space c) u" unfolding t u by simp
    then show ?thesis using length_dropWhile_le [of "\<lambda>c. \<not> is_space c" u] u by simp
  qed
  then show ?thesis using length_dropWhile_le [of is_space s] by simp
qed

function stream_words :: "string \<Rightarrow> string list" where
  "stream_words s = (case get_word s of None \<Rightarrow> [] | Some (w, t) \<Rightarrow> w # stream_words t)"
  by pat_completeness auto
termination by (relation "measure length") (auto dest: get_word_shorter)

declare stream_words.simps [simp del]

definition is_shell :: "string \<Rightarrow> bool" where
  "is_shell c \<longleftrightarrow> c \<in> {''sh'', ''/bin/sh'', ''/usr/bin/sh'', ''bash'', ''/bin/bash'', ''/usr/bin/bash''} \<or>
     3 < length c \<and> drop (length c - 3) c = ''/sh'' \<or> 5 < length c \<and> drop (length c - 5) c = ''/bash''"

definition is_quote :: "char \<Rightarrow> bool" where
  "is_quote c \<longleftrightarrow> c = DQUOTE \<or> byte c = 39"

definition unquoted :: "string \<Rightarrow> string" where
  "unquoted arg = (let c = (if arg \<noteq> [] \<and> is_quote (hd arg) then tl arg else arg) in if c \<noteq> [] \<and> is_quote (last c) then butlast c else c)"

section \<open>Findings\<close>

record SecurityFinding =
  sf_severity :: int
  sf_subject :: string
  sf_reason :: string

definition MAX_FINDINGS :: nat where
  "MAX_FINDINGS = 100"

definition make_subject :: "ProcSample \<Rightarrow> string \<Rightarrow> string" where
  "make_subject p extra = ''PID '' @ dec_sint (ps_pid p) @ '' '' @ (if ps_user_name p = [] then ''?'' else ps_user_name p) @ '' '' @ extra"

definition add_finding :: "int \<Rightarrow> string \<Rightarrow> string \<Rightarrow> SecurityFinding list \<Rightarrow> SecurityFinding list" where
  "add_finding severity subject reason findings =
     (if length findings < MAX_FINDINGS then findings @ [\<lparr>sf_severity = severity, sf_subject = subject, sf_reason = reason\<rparr>] else findings)"

text \<open>What one process is reported for: severity, subject, reason.\<close>

definition process_verdict :: "fold_tables \<Rightarrow> ProcSample \<Rightarrow> (int \<times> string \<times> string) option" where
  "process_verdict ft p =
     (let exe_clean = strip_deleted_suffix (ps_exe_path p); cmd = ps_cmd p
      in case (if ps_user_name p = ''root'' \<and> exe_clean \<noteq> [] then find (has_path_prefix exe_clean) writable_prefixes else None) of
           Some pref \<Rightarrow> Some (2, make_subject p exe_clean, ''root exec in '' @ (if last pref = CHR ''/'' then butlast pref else pref))
         | None \<Rightarrow>
             if cmd \<noteq> [] \<and> hd cmd = CHR ''['' \<and> last cmd = CHR '']'' \<and> exe_clean \<noteq> [] then Some (2, make_subject p cmd, ''fake kernel thread'')
             else if literal_any ft kDownloader cmd \<and> literal_any ft kPipeToShell cmd then Some (1, make_subject p cmd, ''script download'')
             else if literal_any ft kPython cmd \<and> literal_any ft kPyFile cmd \<and> literal_any ft kHomePath cmd then Some (1, make_subject p cmd, ''home script'')
             else case stream_words cmd of
                 [] \<Rightarrow> None
               | first # args \<Rightarrow>
                   if is_shell (to_lower_copy first) \<and> list_ex (\<lambda>arg. list_ex (has_path_prefix (unquoted arg)) writable_prefixes) args
                   then Some (2, make_subject p cmd, ''TMP SHELL SCRIPT'') else None)"

definition scan_process :: "fold_tables \<Rightarrow> ProcSample \<Rightarrow> SecurityFinding list \<times> i32 set \<Rightarrow> SecurityFinding list \<times> i32 set" where
  "scan_process ft p s =
     (case s of (findings, flagged) \<Rightarrow>
        if ps_pid p \<in> flagged then s
        else case process_verdict ft p of
            None \<Rightarrow> s
          | Some (sev, subject, reason) \<Rightarrow> (add_finding sev subject reason findings, insert (ps_pid p) flagged))"

definition CHURN_THRESHOLD :: int where
  "CHURN_THRESHOLD = 3"

definition crashloop_subject :: "ProcSample \<Rightarrow> int \<Rightarrow> string" where
  "crashloop_subject p events = make_subject p (ps_cmd p) @ '' '' @ [CHR 0xE2, CHR 0x80, CHR 0xA2] @ '' '' @ dec_int events @ '' events/2s''"

definition crashloop_findings :: "fold_tables \<Rightarrow> Snapshot \<Rightarrow> SecurityFinding list \<Rightarrow> SecurityFinding list" where
  "crashloop_findings ft s findings =
     (let events = cd_recent_2s_events (sn_churn s)
      in if CHURN_THRESHOLD \<le> events
         then fold (\<lambda>p fs. if ps_churn_reason p = ChurnNone then fs
             else if literal_any ft kAuthProc (ps_cmd p) then add_finding 2 (crashloop_subject p events) ''auth crashloop'' fs else fs)
           (pr_processes (sn_procs s)) findings
         else findings)"

definition best_interface :: "NetIf list \<Rightarrow> dbl \<times> NetIf option" where
  "best_interface ifs = foldl (\<lambda>(rate, best) i.
     let (rate, best) = (if d_less rate (if_rx_bps i) then (if_rx_bps i, Some i) else (rate, best))
     in if d_less rate (if_tx_bps i) then (if_tx_bps i, Some i) else (rate, best)) (Num 0, None) ifs"

definition has_net_owner :: "fold_tables \<Rightarrow> ProcSample list \<Rightarrow> bool" where
  "has_net_owner ft ps = list_ex (\<lambda>p. ps_churn_reason p = ChurnNone \<and> (d_le (Num 2) (ps_cpu_pct p) \<or> literal_any ft kNetOwner (ps_cmd p))) (take 64 ps)"

definition exfil_findings :: "fold_tables \<Rightarrow> Snapshot \<Rightarrow> SecurityFinding list \<Rightarrow> SecurityFinding list" where
  "exfil_findings ft s findings =
     (case best_interface (net_interfaces (sn_net s)) of
        (rate, Some i) \<Rightarrow>
          if d_less (Num 512000) rate \<and> \<not> has_net_owner ft (pr_processes (sn_procs s))
          then add_finding 1 (''NET '' @ if_name i @ '' '' @ format_rate_bytes rate @ '' no owner'') ''possible exfil'' findings
          else findings
      | (_, None) \<Rightarrow> findings)"

definition collect_security_findings :: "sort_env \<Rightarrow> fold_tables \<Rightarrow> Snapshot \<Rightarrow> SecurityFinding list option" where
  "collect_security_findings env ft s =
     (let findings = fst (fold (scan_process ft) (pr_processes (sn_procs s)) ([], {}));
          findings = exfil_findings ft s (crashloop_findings ft s findings)
      in sublimation_order_u64 env True (\<lambda>f. word_of_int (sf_severity f)) findings)"

section \<open>The lines\<close>

definition security_reason :: "string \<Rightarrow> string" where
  "security_reason reason = (if reason \<noteq> [] then '' ['' @ reason @ '']'' else [])"

definition format_security_line_default :: "SecurityFinding \<Rightarrow> string" where
  "format_security_line_default f =
     ''PROC SECURITY '' @
     (if 2 \<le> sf_severity f then [CHR 0xE2, CHR 0x9A, CHR 0xA0, SPACE] else if sf_severity f = 1 then [CHR 0xE2, CHR 0x96, CHR 0xB4, SPACE] else ''  '') @
     sf_subject f @ security_reason (sf_reason f)"

definition format_security_line_system :: "SecurityFinding \<Rightarrow> string" where
  "format_security_line_system f =
     ''PROC SECURITY '' @ (if 2 \<le> sf_severity f then [CHR 0xE2, CHR 0x9A, CHR 0xA0, SPACE] else []) @ sf_subject f @
     security_reason (to_upper_copy (sf_reason f))"

datatype row = RowHeader string int | RowKv string string int

text \<open>The section of the panel behind the rows already there; the budget is the number of rows of the panel.\<close>

definition section_security :: "sort_env \<Rightarrow> fold_tables \<Rightarrow> Snapshot \<Rightarrow> int \<Rightarrow> row list \<Rightarrow> row list option" where
  "section_security env ft s budget out =
     (if 0 < cd_recent_2s_events (sn_churn s)
      then let churned = filter (\<lambda>p. ps_churn_reason p \<noteq> ChurnNone) (pr_processes (sn_procs s));
               out = out @ [RowHeader ''PROC CHURN'' 0, RowKv ''EVENTS'' (dec_int (cd_recent_2s_events (sn_churn s)) @ '' events [LAST 2s]'') 1];
               max_show = min (int (length churned)) (max 0 (budget - int (length out)))
        in Some (out @ map (\<lambda>p. RowKv (''PID:'' @ dec_sint (ps_pid p)) (ps_cmd p) 0) (take (nat max_show) churned))
      else let out = out @ [RowHeader ''PROC SECURITY'' 0]
        in map_option (\<lambda>findings.
             if findings = [] then out @ [RowKv ''STATUS'' ''OK'' 0]
             else out @ map (\<lambda>f. RowHeader (format_security_line_default f) (sf_severity f))
               (take (nat (min (int (length findings)) (max 0 (budget - int (length out))))) findings))
             (collect_security_findings env ft s))"

section \<open>What the literal search finds\<close>

text \<open>The text contains the literal, letter case aside.\<close>

definition icontains :: "string \<Rightarrow> string \<Rightarrow> bool" where
  "icontains hay l \<longleftrightarrow> contains (map ascii_lower hay) (map ascii_lower l)"

lemma fold_byte_lower: "fold_byte c True = ascii_lower c"
  by (simp add: fold_byte_def ascii_lower_def)

lemma contains_window: "contains s pat \<longleftrightarrow> (\<exists>i. i + length pat \<le> length s \<and> take (length pat) (drop i s) = pat)"
proof
  assume "contains s pat"
  then obtain us vs where "s = us @ pat @ vs" by (auto simp: contains_iff)
  then show "\<exists>i. i + length pat \<le> length s \<and> take (length pat) (drop i s) = pat" by (intro exI [of _ "length us"]) simp
next
  assume "\<exists>i. i + length pat \<le> length s \<and> take (length pat) (drop i s) = pat"
  then obtain i where "take (length pat) (drop i s) = pat" by blast
  then have "s = take i s @ pat @ drop (length pat) (drop i s)" by (metis append_take_drop_id)
  then show "contains s pat" by (auto simp: contains_iff)
qed

lemma mismatches_lower:
  assumes "i + length l \<le> length hay"
  shows "mismatches True hay i l = 0 \<longleftrightarrow> take (length l) (drop i (map ascii_lower hay)) = map ascii_lower l"
proof -
  have "take (length l) (drop i (map ascii_lower hay)) = map ascii_lower l \<longleftrightarrow> (\<forall>j < length l. ascii_lower (hay ! (i + j)) = ascii_lower (l ! j))"
    using assms by (auto simp: list_eq_iff_nth_eq)
  then show ?thesis by (auto simp: mismatches_def filter_empty_conv same_fold_def fold_byte_lower)
qed

lemma literal_next:
  assumes "l \<noteq> []" "length l \<le> SEARCH_MAX_PATTERN" "sublimation_search_compile ft l True True 0 = Some s"
  shows "search_next_match s False hay 0 False \<noteq> None \<longleftrightarrow> icontains hay l"
proof -
  have f: "sublimation_search_find_from s hay 0 = map_option (\<lambda>i. (i, i + length l)) (find (\<lambda>i. mismatches True hay i l \<le> 0) [0..<length hay + 1 - length l])"
    using literal_program [of l 0 True ft True] assms by auto
  have "search_next_match s False hay 0 False \<noteq> None \<longleftrightarrow> (\<exists>i < length hay + 1 - length l. mismatches True hay i l = 0)"
  proof -
    have "find P [0..<n] \<noteq> None \<longleftrightarrow> (\<exists>i < n. P i)" for P n by (simp add: find_None_iff)
    moreover have "search_next_match s False hay 0 False = sublimation_search_find_from s hay 0"
      by (simp add: search_next_match.simps [of s False hay 0] split: option.split)
    ultimately show ?thesis unfolding f by simp
  qed
  also have "\<dots> \<longleftrightarrow> (\<exists>i. i + length l \<le> length hay \<and> mismatches True hay i l = 0)" by (auto simp: less_diff_conv less_Suc_eq_le)
  also have "\<dots> \<longleftrightarrow> icontains hay l" using mismatches_lower [of _ l hay] by (auto simp: icontains_def contains_window)
  finally show ?thesis .
qed

lemma literal_compiles: "l \<noteq> [] \<Longrightarrow> length l \<le> SEARCH_MAX_PATTERN \<Longrightarrow> \<exists>s. sublimation_search_compile ft l True True 0 = Some s"
  using literal_program [of l 0 True ft True] by auto

lemma literal_any_iff:
  assumes "\<forall>l \<in> set lits. l \<noteq> [] \<and> length l \<le> SEARCH_MAX_PATTERN"
  shows "literal_any ft lits hay \<longleftrightarrow> (\<exists>l \<in> set lits. icontains (take kScanMax hay) l)"
proof -
  have "search_next_match (case sublimation_search_compile ft l True True 0 of Some s \<Rightarrow> s | None \<Rightarrow> search_zero) False (take kScanMax hay) 0 False \<noteq> None \<longleftrightarrow>
      icontains (take kScanMax hay) l" if "l \<in> set lits" for l
    using literal_compiles [of l ft] literal_next [of l ft _ "take kScanMax hay"] assms that by auto
  then show ?thesis by (simp add: literal_any_def literal_progs_def sublimation_search_selects_def list_ex_iff)
qed

section \<open>The findings of a snapshot\<close>

definition finding_of :: "int \<times> string \<times> string \<Rightarrow> SecurityFinding" where
  "finding_of v = (case v of (sev, subject, reason) \<Rightarrow> \<lparr>sf_severity = sev, sf_subject = subject, sf_reason = reason\<rparr>)"

definition crashloops :: "fold_tables \<Rightarrow> Snapshot \<Rightarrow> SecurityFinding list" where
  "crashloops ft s =
     (if CHURN_THRESHOLD \<le> cd_recent_2s_events (sn_churn s)
      then map (\<lambda>p. finding_of (2, crashloop_subject p (cd_recent_2s_events (sn_churn s)), ''auth crashloop''))
        (filter (\<lambda>p. ps_churn_reason p \<noteq> ChurnNone \<and> literal_any ft kAuthProc (ps_cmd p)) (pr_processes (sn_procs s)))
      else [])"

definition exfils :: "fold_tables \<Rightarrow> Snapshot \<Rightarrow> SecurityFinding list" where
  "exfils ft s =
     (case best_interface (net_interfaces (sn_net s)) of
        (rate, Some i) \<Rightarrow> if d_less (Num 512000) rate \<and> \<not> has_net_owner ft (pr_processes (sn_procs s))
          then [finding_of (1, ''NET '' @ if_name i @ '' '' @ format_rate_bytes rate @ '' no owner'', ''possible exfil'')] else []
      | (_, None) \<Rightarrow> [])"

text \<open>Everything the checks report, in the order they report it.\<close>

definition reported :: "fold_tables \<Rightarrow> Snapshot \<Rightarrow> SecurityFinding list" where
  "reported ft s = map finding_of (List.map_filter (process_verdict ft) (pr_processes (sn_procs s))) @ crashloops ft s @ exfils ft s"

lemma add_finding_take:
  "add_finding sev subject reason (take MAX_FINDINGS fs) = take MAX_FINDINGS (fs @ [finding_of (sev, subject, reason)])"
  by (auto simp: add_finding_def finding_of_def)

lemma scan_fold:
  "distinct (map ps_pid ps) \<Longrightarrow> ps_pid ` set ps \<inter> flagged = {} \<Longrightarrow>
    fst (fold (scan_process ft) ps (take MAX_FINDINGS fs, flagged)) =
      take MAX_FINDINGS (fs @ map finding_of (List.map_filter (process_verdict ft) ps))"
proof (induction ps arbitrary: fs flagged)
  case (Cons p ps)
  show ?case
  proof (cases "process_verdict ft p")
    case None
    then show ?thesis using Cons.IH [of flagged fs] Cons.prems by (auto simp: scan_process_def map_filter_simps)
  next
    case (Some v)
    obtain sev subject reason where v: "v = (sev, subject, reason)" by (cases v)
    have "scan_process ft p (take MAX_FINDINGS fs, flagged) = (take MAX_FINDINGS (fs @ [finding_of v]), insert (ps_pid p) flagged)"
      using Some v Cons.prems by (simp add: scan_process_def add_finding_take del: take_append)
    then show ?thesis using Cons.IH [of "insert (ps_pid p) flagged" "fs @ [finding_of v]"] Cons.prems Some by (auto simp: map_filter_simps simp del: take_append)
  qed
qed (simp add: map_filter_simps)

lemma crash_fold:
  "fold (\<lambda>p fs. if ps_churn_reason p = ChurnNone then fs
      else if literal_any ft kAuthProc (ps_cmd p) then add_finding 2 (crashloop_subject p events) ''auth crashloop'' fs else fs) ps (take MAX_FINDINGS fs) =
    take MAX_FINDINGS (fs @ map (\<lambda>p. finding_of (2, crashloop_subject p events, ''auth crashloop''))
      (filter (\<lambda>p. ps_churn_reason p \<noteq> ChurnNone \<and> literal_any ft kAuthProc (ps_cmd p)) ps))"
  by (induction ps arbitrary: fs) (simp_all add: add_finding_take del: take_append)

lemma crashloop_take: "crashloop_findings ft s (take MAX_FINDINGS fs) = take MAX_FINDINGS (fs @ crashloops ft s)"
  by (simp add: crashloop_findings_def crashloops_def Let_def crash_fold del: take_append)

lemma exfil_take: "exfil_findings ft s (take MAX_FINDINGS fs) = take MAX_FINDINGS (fs @ exfils ft s)"
  by (auto simp: exfil_findings_def exfils_def add_finding_take simp del: take_append split: prod.splits option.splits)

lemma verdict_severity: "process_verdict ft p = Some (sev, subject, reason) \<Longrightarrow> sev = 1 \<or> sev = 2"
  unfolding process_verdict_def Let_def by (auto split: option.splits list.splits if_splits)

lemma reported_severity: "f \<in> set (reported ft s) \<Longrightarrow> sf_severity f = 1 \<or> sf_severity f = 2"
proof -
  have "sf_severity (finding_of v) = 1 \<or> sf_severity (finding_of v) = 2" if "v \<in> set (List.map_filter (process_verdict ft) ps)" for v ps
  proof -
    have "\<exists>p. process_verdict ft p = Some v" using that by (induction ps) (auto simp: map_filter_simps split: option.splits)
    then show ?thesis using verdict_severity [of ft] by (cases v) (auto simp: finding_of_def)
  qed
  then show "f \<in> set (reported ft s) \<Longrightarrow> sf_severity f = 1 \<or> sf_severity f = 2"
    by (auto simp: reported_def crashloops_def exfils_def finding_of_def split: if_splits prod.splits option.splits)
qed

text \<open>The stable descending order by a severity of 1 or 2 puts the warnings first.\<close>

lemma severity_order:
  assumes "\<forall>f \<in> set fs. sf_severity f = 1 \<or> sf_severity f = 2"
  shows "sort_key (\<lambda>f. dir_key True sub_key_from_u64 (word_of_int (sf_severity f))) fs =
    filter (\<lambda>f. sf_severity f = 2) fs @ filter (\<lambda>f. sf_severity f = 1) fs"
    (is "sort_key ?k fs = ?ys")
proof (rule properties_for_sort_key)
  have less: "dir_key True sub_key_from_u64 (word_of_int 2 :: u64) < dir_key True sub_key_from_u64 (word_of_int 1)"
    by (simp add: dir_key_less sub_key_from_u64_def)
  have k: "?k f = ?k g \<longleftrightarrow> sf_severity f = sf_severity g" if "f \<in> set fs" "g \<in> set fs" for f g
    using assms that less by (metis order_less_irrefl)
  show "mset ?ys = mset fs"
  proof -
    have "filter (\<lambda>f. sf_severity f = 1) fs = filter (\<lambda>f. \<not> sf_severity f = 2) fs" using assms by (intro filter_cong) auto
    then show ?thesis by (simp flip: multiset_partition)
  qed
  show "filter (\<lambda>x. ?k f = ?k x) ?ys = filter (\<lambda>x. ?k f = ?k x) fs" if "f \<in> set ?ys" for f
  proof -
    have f: "f \<in> set fs" using that by auto
    have fk: "filter (\<lambda>x. ?k f = ?k x) xs = filter (\<lambda>x. sf_severity f = sf_severity x) xs" if "set xs \<subseteq> set fs" for xs
      using that k [OF f] by (intro filter_cong) auto
    have e: "filter (\<lambda>x. ?k f = ?k x) ?ys = filter (\<lambda>x. sf_severity f = sf_severity x) ?ys" by (rule fk) auto
    have e': "filter (\<lambda>x. ?k f = ?k x) fs = filter (\<lambda>x. sf_severity f = sf_severity x) fs" by (rule fk) simp
    consider "sf_severity f = 2" | "sf_severity f = 1" using assms f by blast
    then have "filter (\<lambda>x. sf_severity f = sf_severity x) ?ys = filter (\<lambda>x. sf_severity f = sf_severity x) fs"
    proof cases
      case 1
      then show ?thesis by (simp add: eq_commute [of "2 :: int"] filter_empty_conv conj_commute cong: conj_cong)
    next
      case 2
      then show ?thesis by (simp add: eq_commute [of "1 :: int"] filter_empty_conv cong: conj_cong)
    qed
    then show ?thesis unfolding e e' .
  qed
  have "sorted (map ?k (filter (\<lambda>f. sf_severity f = c) xs))" for c xs by (induction xs) auto
  then show "sorted (map ?k ?ys)" using less [THEN less_imp_le] by (simp add: sorted_append)
qed

text \<open>C25: with the processes told apart by their pid, the findings of a snapshot are the reports of its checks (one verdict
  per process, crash loops, exfiltration), of which the first hundred are kept, the warnings before the cautions
  and each group in the order reported.\<close>

theorem security_findings_are:
  assumes "distinct (map ps_pid (pr_processes (sn_procs s)))" "\<forall>n. se_malloc env n"
  shows "collect_security_findings env ft s =
    (let kept = take MAX_FINDINGS (reported ft s)
     in Some (filter (\<lambda>f. sf_severity f = 2) kept @ filter (\<lambda>f. sf_severity f = 1) kept))"
proof -
  let ?kept = "take MAX_FINDINGS (reported ft s)"
  have "fst (fold (scan_process ft) (pr_processes (sn_procs s)) ([], {})) =
      take MAX_FINDINGS (map finding_of (List.map_filter (process_verdict ft) (pr_processes (sn_procs s))))"
    using scan_fold [OF assms(1), of "{}" ft "[]"] by simp
  then have fs: "exfil_findings ft s (crashloop_findings ft s (fst (fold (scan_process ft) (pr_processes (sn_procs s)) ([], {})))) = ?kept"
    by (simp add: crashloop_take exfil_take reported_def del: take_append)
  have "length ?kept \<le> 2 ^ 32" "pack_grants env (length ?kept)" using assms(2) by (simp_all add: MAX_FINDINGS_def pack_grants_def)
  then have "sublimation_order_u64 env True (\<lambda>f. word_of_int (sf_severity f)) ?kept =
      Some (sort_key (\<lambda>f. dir_key True sub_key_from_u64 (word_of_int (sf_severity f))) ?kept)" by (rule sublimation_order_u64_sorts)
  also have "\<dots> = Some (filter (\<lambda>f. sf_severity f = 2) ?kept @ filter (\<lambda>f. sf_severity f = 1) ?kept)"
    using reported_severity [of _ ft s] by (subst severity_order) (auto dest: in_set_takeD)
  finally show ?thesis using fs by (simp add: collect_security_findings_def Let_def)
qed

text \<open>C26: whenever the crash loop check has something to report, the panel shows its churn rows instead of the section the
  report would appear in, so that check never reaches the screen.\<close>

theorem crashloop_never_shown:
  assumes "crashloop_findings ft s fs \<noteq> fs"
  shows "\<exists>rows. section_security env ft s budget out = Some (out @ rows) \<and>
    (\<forall>r \<in> set rows. r = RowHeader ''PROC CHURN'' 0 \<or> (\<exists>label v sev. r = RowKv label v sev))"
proof -
  have "3 \<le> cd_recent_2s_events (sn_churn s)" using assms by (auto simp: crashloop_findings_def Let_def CHURN_THRESHOLD_def split: if_splits)
  then show ?thesis by (auto simp: section_security_def Let_def)
qed

definition example_env :: sort_env where
  "example_env = \<lparr>se_malloc = (\<lambda>_. True), se_classify = (\<lambda>_. SUB_RANDOM), se_scratch = (\<lambda>_. \<lparr>slot_key = 0, slot_idx = 0\<rparr>)\<rparr>"

definition example_folds :: fold_tables where
  "example_folds = \<lparr>ft_last = [], ft_alt = []\<rparr>"

definition example_snapshot :: "ProcSample list \<Rightarrow> int \<Rightarrow> Snapshot" where
  "example_snapshot ps events = empty_Snapshot\<lparr>sn_procs := empty_ProcessSnapshot\<lparr>pr_processes := ps\<rparr>,
     sn_churn := empty_ChurnDiag\<lparr>cd_recent_2s_events := events\<rparr>\<rparr>"

theorem security_findings_are_witness:
  "collect_security_findings example_env example_folds (example_snapshot [empty_ProcSample\<lparr>ps_user_name := ''root'', ps_exe_path := ''/tmp/x''\<rparr>] 0) =
    Some [\<lparr>sf_severity = 2, sf_subject = ''PID 0 root /tmp/x'', sf_reason = ''root exec in /tmp''\<rparr>]"
proof -
  let ?p = "empty_ProcSample\<lparr>ps_user_name := ''root'', ps_exe_path := ''/tmp/x''\<rparr>"
  let ?s = "example_snapshot [?p] 0"
  have "process_verdict example_folds ?p = Some (2, ''PID 0 root /tmp/x'', ''root exec in /tmp'')"
    by (simp add: process_verdict_def empty_ProcSample_def make_subject_def dec_int_def writable_prefixes_def has_path_prefix_def
        strip_deleted_suffix_def Let_def)
  then have "reported example_folds ?s = [\<lparr>sf_severity = 2, sf_subject = ''PID 0 root /tmp/x'', sf_reason = ''root exec in /tmp''\<rparr>]"
    by (simp add: reported_def example_snapshot_def crashloops_def exfils_def CHURN_THRESHOLD_def empty_Snapshot_def empty_NetSnapshot_def
        best_interface_def finding_of_def map_filter_simps)
  then show ?thesis using security_findings_are [of ?s example_env example_folds] by (simp add: example_env_def MAX_FINDINGS_def example_snapshot_def Let_def)
qed

theorem crashloop_never_shown_witness:
  "\<exists>s rows. crashloop_findings example_folds s [] \<noteq> [] \<and> section_security example_env example_folds s 10 [] = Some rows \<and> RowHeader ''PROC SECURITY'' 0 \<notin> set rows"
proof -
  let ?p = "empty_ProcSample\<lparr>ps_cmd := ''sshd'', ps_churn_reason := ReadFailed\<rparr>"
  let ?s = "example_snapshot [?p] 5"
  have "icontains (take kScanMax ''sshd'') ''ssh''"
    by (simp add: icontains_def kScanMax_def contains_def ascii_lower_def byte_def)
  then have "literal_any example_folds kAuthProc ''sshd''" by (subst literal_any_iff) (auto simp: kAuthProc_def SEARCH_MAX_PATTERN_def)
  then have "crashloop_findings example_folds ?s [] \<noteq> []"
    by (simp add: crashloop_findings_def CHURN_THRESHOLD_def example_snapshot_def add_finding_def MAX_FINDINGS_def Let_def)
  from crashloop_never_shown [OF this, of example_env 10 "[]"] this show ?thesis by fastforce
qed

end
