(* ===== verification/Spec2Isabelle.thy ===== *)
theory Spec2Isabelle
  imports Server Double_Buffer Monitors Proc_Parse History Toml Fs_Collector Cpu_Collector Graphics Input_Events Screen Text_Lines
    Trace_Log Security_Scan
begin

text \<open>
  montauk is a Linux system monitor. Collectors read \<open>/proc\<close> and \<open>/sys\<close> (\<open>src/collectors\<close>), a producer thread
  publishes each complete snapshot through a double buffer, and the consumers (terminal interface, HTTP
  metrics server, hourly log writer) render the snapshot they read. Sorting is done by the repository's own
  library, \<open>sublimation/\<close>. This development models that pipeline from the bytes of the kernel's files to the
  bytes of the HTTP response.

  \<^bold>\<open>Foundations.\<close> \<open>Prelude\<close> has the machine integers, byte strings, decimal text and \<open>std::string_view\<close>
  searches. \<open>Ieee\<close> models binary64 and binary32 over the rationals, with \<open>std::to_chars\<close> and \<open>%.nf\<close>
  (\<open>src/util/FmtDouble.cpp\<close>); \<open>Ieee_Bounds\<close> proves rounding monotone and exact on small integers.

  \<^bold>\<open>Data model.\<close> \<open>Model\<close> holds the structs of \<open>include/model/*.hpp\<close> and the bounded copies of
  \<open>include/app/MetricsServer.hpp\<close>, field for field.

  \<^bold>\<open>Collectors.\<close> \<open>Proc_Parse\<close> (\<open>include/collectors/ProcessParsing.hpp\<close>), \<open>Collectors\<close> (memory, network, disk),
  \<open>Fs_Collector\<close> and \<open>Cpu_Collector\<close> model the \<open>sample\<close> functions whole: a sample takes the file contents, the
  clock and the collector's state and returns the new state and output. The theorems run a sample on text
  laid out as the kernel prints it and show the exact counters come out, that percentages and rates stay
  in range, and where they do not.

  \<^bold>\<open>Sorting.\<close> The 64-bit index sorts of \<open>sublimation/src\<close>, whole. \<open>Sublimation_Base\<close> has array segments and the
  notion of a stable rearrangement; \<open>Sublimation_Radix\<close> the byte-wise radix sort (\<open>pack.c\<close>); \<open>Sublimation_Merge\<close>,
  \<open>Sublimation_Inplace\<close> and \<open>Sublimation_Spectral\<close> the galloping searches, the in-place merges and the merge of
  natural runs in order of effective resistance (\<open>merge_impl.h\<close>), with \<open>Sublimation_Pair\<close> proving the merges;
  \<open>Sublimation_Pack\<close> the key mappings and the dispatch. Every arm is shown to be the stable sort, so the
  classifier, a parameter, shows in no result. \<open>Ordering\<close> gathers records through them
  (\<open>sublimation_order.hpp\<close>, \<open>top_k_by_cpu_pct\<close>), and \<open>Fs_Collector\<close> rests on it.

  \<^bold>\<open>Writers.\<close> \<open>Sink\<close> (\<open>include/util/sink.h\<close>) is the byte buffer, with an oracle for allocation and the return
  values of \<open>write\<close>. \<open>Json\<close> (\<open>include/util/json.h\<close>) is the streaming writer, \<open>Json_Read\<close> a reader that inverts
  it. \<open>Metrics_Sink\<close> is the visitor interface as a locale; \<open>Json_Sink\<close> and \<open>Prometheus_Sink\<close> interpret it, and
  \<open>Metrics_Render\<close> and \<open>Trace_Render\<close> are the walks. Every document read back is the one the calls describe.

  \<^bold>\<open>Publication and service.\<close> \<open>Double_Buffer\<close> is a step relation for one writer and any number of readers;
  its invariant gives that reads are whole. \<open>Server\<close> models an HTTP exchange and a turn of the log writer. This
  theory composes them: what a scrape returns is the exposition of one published snapshot.

  \<^bold>\<open>Terminal interface.\<close> \<open>Canvas\<close> is the cell grid with its image mask and text drawing (\<open>ui/widget/Canvas.cpp\<close>),
  \<open>Flex_Layout\<close> the flexbox solver, \<open>Graphics\<close> the base64 and sixel encoders and the terminal probes,
  \<open>Input_Events\<close> the key decoder. \<open>Screen\<close> has the end of \<open>Renderer::render\<close>: the difference of two canvases as
  bytes, the bounded queue and the writer; a model of the terminal reads the bytes back, and an inductive run
  relation shows the screen follows the canvas exactly as long as no frame is dropped.

  \<^bold>\<open>Text search.\<close> The matcher of \<open>sublimation/src/text\<close>. \<open>Text_Scan\<close> has the literal and the fuzzy counts, \<open>Text_Regex\<close> the
  pattern compiler (\<open>field.inc\<close>) and the bit-parallel simulations. \<open>Text_Glushkov\<close> proves the position automaton of an
  expression has its language, \<open>Text_Build\<close> that a parsing step adds the positions of what it read. \<open>Text_Grammar\<close> is the
  syntax of patterns as inductive predicates; \<open>Text_Parse\<close> and \<open>Text_Compile\<close> show the parser follows it and always
  returns, \<open>Text_Match\<close> that the simulations decide the language. \<open>Text_Search\<close> compiles a program and finds the leftmost match,
  \<open>Text_Count\<close> has the counting scan with its memo and its two shortcuts, and \<open>Text_Lines\<close> the word rule, sets of patterns,
  the spans of a text, the selection of a line and the buffer of selected lines.

  \<^bold>\<open>Trace log and security.\<close> \<open>Trace_Log\<close> has the binary log of a trace: its layout, the writer of the trace collector with the
  results of \<open>write(2)\<close> as an argument, and the reader; it shows what a cut log reads back as, and what a torn write does
  to it. \<open>Security_Scan\<close> has the heuristics over a snapshot, built on the text search and the sorts, up to the rows of the
  panel that shows them.

  \<^bold>\<open>Support.\<close> \<open>History\<close> (chart ring), \<open>Toml\<close> (configuration file), \<open>Monitors\<close> (churn window, alerts, process
  filter), \<open>Formatting\<close> (identity readers, smoothing, redirected paths).

  \<^bold>\<open>Bounds and fuel.\<close> Loops are structural or have a termination proof; the JSON reader takes fuel, the
  length of its input, which the round-trip theorems show is enough, the pattern parser six times its text and six more
  (\<open>compile_returns\<close>), and the path-halving search of the merge
  is a partial function shown to return. Machine integers are words of their
  width. Percentages are proved in range for totals below \<open>2 ^ 46\<close>, where every intermediate is exact.

  \<^bold>\<open>Parameters.\<close> File contents, the environment, the clock, \<open>statvfs\<close>, sockets, allocation, the disorder classifier
  and the regular expression matcher of the process filter, the generated case fold tables, \<open>wcwidth\<close>, the terminal's answers and what the panels draw are arguments.

  \<^bold>\<open>Not modelled.\<close> The kernel-facing collectors (netlink, perf, NVML, BPF) are calls into the kernel with little
  logic of their own; the panels of the interface format and draw; option parsing and signals are glue; memory ordering
  below sequential consistency is outside the double-buffer model.
\<close>

section \<open>From publication to response\<close>

lemma metrics_body_document:
  "prom_document (fst (system_walk (src_now src) (src_env src) ids (read_metrics_snapshot (src_snapshot src))) @
      (case src_trace src of None \<Rightarrow> [] | Some ts \<Rightarrow> render_trace ts))
    (fst (metrics_body src ids))"
  using snapshot_document [of "src_now src" "src_env src" ids "read_metrics_snapshot (src_snapshot src)"]
    trace_document prom_document_append
  by (fastforce simp: metrics_body_def split: prod.split option.split)



end
